(* ===== verification/Prelude.thy ===== *)
theory Prelude
  imports Main "HOL-Library.Word" "HOL-Library.Sublist"
begin

text \<open>
  Shared vocabulary of the development.

  \<^item> Machine integers are words of their width, a Rust \<open>Result\<close> is a sum type with the
    error on the left, sequenced by \<open>r_bind\<close> (the \<open>?\<close> operator) and guarded by \<open>ensure\<close>.
  \<^item> A Rust \<open>str\<close> is the list of its UTF-8 bytes, each a \<open>char\<close>. Every separator the code
    looks for is ASCII, and an ASCII byte never occurs inside a multi-byte sequence, so
    searching bytes is searching characters. The two places where the code asks a Unicode
    question (\<open>trim\<close>/\<open>is_whitespace\<close> and \<open>is_control\<close>) list the byte sequences of the
    characters concerned.
  \<^item> The string functions of the standard library the code calls, with the lemmas the
    parsers need: splitting, prefixes, decimal numbers, lines.
\<close>

named_theorems result_simps \<open>equations of the result combinators\<close>
named_theorems string_simps \<open>equations of the string functions\<close>

section \<open>Machine integers\<close>

type_synonym u32 = "32 word"
type_synonym u64 = "64 word"

text \<open>Saturating and checked addition of the standard library's unsigned integers.\<close>

definition saturating_add :: "'a::len word \<Rightarrow> 'a word \<Rightarrow> 'a word" where
  "saturating_add x y = (if x \<le> x + y then x + y else - 1)"

definition checked_add :: "'a::len word \<Rightarrow> 'a word \<Rightarrow> 'a word option" where
  "checked_add x y = (if x \<le> x + y then Some (x + y) else None)"

section \<open>Results\<close>

type_synonym ('e, 'a) result = "'e + 'a"

definition r_bind :: "'e + 'a \<Rightarrow> ('a \<Rightarrow> 'e + 'b) \<Rightarrow> 'e + 'b" where
  "r_bind m f = (case m of Inl e \<Rightarrow> Inl e | Inr a \<Rightarrow> f a)"

definition ensure :: "bool \<Rightarrow> 'e \<Rightarrow> 'e + unit" where
  "ensure c e = (if c then Inr () else Inl e)"

text \<open>\<open>Option::ok_or\<close>.\<close>

definition ok_or :: "'a option \<Rightarrow> 'e \<Rightarrow> 'e + 'a" where
  "ok_or x e = (case x of None \<Rightarrow> Inl e | Some a \<Rightarrow> Inr a)"

text \<open>A \<open>for\<close> loop whose body threads an accumulator and may leave with \<open>?\<close>.\<close>

fun r_fold :: "('x \<Rightarrow> 's \<Rightarrow> 'e + 's) \<Rightarrow> 'x list \<Rightarrow> 's \<Rightarrow> 'e + 's" where
  "r_fold f [] s = Inr s"
| "r_fold f (x # xs) s = r_bind (f x s) (r_fold f xs)"

definition is_ok :: "'e + 'a \<Rightarrow> bool" where
  "is_ok m = (case m of Inl _ \<Rightarrow> False | Inr _ \<Rightarrow> True)"

lemma r_bind_simps [simp, result_simps]:
  "r_bind (Inl e) f = Inl e"
  "r_bind (Inr a) f = f a"
  by (simp_all add: r_bind_def)

lemma ensure_simps [simp, result_simps]:
  "ensure True e = Inr ()"
  "ensure False e = Inl e"
  by (simp_all add: ensure_def)

lemma ok_or_simps [simp, result_simps]:
  "ok_or None e = Inl e"
  "ok_or (Some a) e = Inr a"
  by (simp_all add: ok_or_def)

lemma is_ok_simps [simp, result_simps]:
  "is_ok (Inl e) = False"
  "is_ok (Inr a) = True"
  by (simp_all add: is_ok_def)

lemma is_ok_iff: "is_ok m \<longleftrightarrow> (\<exists>a. m = Inr a)"
  by (cases m) auto

lemma r_bind_eq_Inr [result_simps]: "r_bind m f = Inr b \<longleftrightarrow> (\<exists>a. m = Inr a \<and> f a = Inr b)"
  by (cases m) auto

lemma r_bind_eq_Inl [result_simps]:
  "r_bind m f = Inl e \<longleftrightarrow> m = Inl e \<or> (\<exists>a. m = Inr a \<and> f a = Inl e)"
  by (cases m) auto

lemma ensure_eq [result_simps]:
  "ensure c e = Inr u \<longleftrightarrow> c"
  "ensure c e = Inl e' \<longleftrightarrow> \<not> c \<and> e' = e"
  by (auto simp: ensure_def)

lemma ok_or_eq [result_simps]:
  "ok_or x e = Inr a \<longleftrightarrow> x = Some a"
  "ok_or x e = Inl e' \<longleftrightarrow> x = None \<and> e' = e"
  by (auto simp: ok_or_def split: option.splits)

lemma r_bind_ensure [simp, result_simps]:
  "r_bind (ensure c e) f = (if c then f () else Inl e)"
  by (simp add: ensure_def)

lemma is_ok_bind [result_simps]: "is_ok (r_bind m f) \<longleftrightarrow> (\<exists>a. m = Inr a \<and> is_ok (f a))"
  by (cases m) auto

lemma is_ok_ensure [result_simps]: "is_ok (ensure c e) \<longleftrightarrow> c"
  by (simp add: ensure_def)

text \<open>An invariant of the accumulator that every iteration keeps holds at the end.\<close>

lemma r_fold_invariant:
  assumes "r_fold f xs s = Inr t" and "P s"
    and "\<And>x s t. x \<in> set xs \<Longrightarrow> P s \<Longrightarrow> f x s = Inr t \<Longrightarrow> P t"
  shows "P t"
  using assms
proof (induction xs arbitrary: s)
  case Nil
  then show ?case by simp
next
  case (Cons x xs)
  from Cons.prems(1) obtain u where "f x s = Inr u" and "r_fold f xs u = Inr t"
    by (auto simp: r_bind_eq_Inr)
  with Cons.IH [of u] Cons.prems(2,3) show ?case by auto
qed

lemma r_fold_each: "r_fold f xs s = Inr t \<Longrightarrow> x \<in> set xs \<Longrightarrow> \<exists>s' t'. f x s' = Inr t'"
proof (induction xs arbitrary: s)
  case (Cons y ys)
  then show ?case by (auto simp: r_bind_eq_Inr)
qed simp

lemma r_fold_append: "r_fold f (xs @ ys) s = r_bind (r_fold f xs s) (r_fold f ys)"
proof (induction xs arbitrary: s)
  case Nil
  then show ?case by simp
next
  case (Cons x xs)
  then show ?case by (cases "f x s") simp_all
qed

section \<open>Searching and splitting strings\<close>

definition contains_any :: "string \<Rightarrow> string \<Rightarrow> bool" where
  "contains_any cs s \<longleftrightarrow> list_ex (\<lambda>c. c \<in> set cs) s"

lemma contains_any_iff [string_simps]: "contains_any cs s \<longleftrightarrow> (\<exists>c \<in> set s. c \<in> set cs)"
  by (auto simp: contains_any_def list_ex_iff)

text \<open>\<open>str::split_once(char)\<close>: at the first occurrence.\<close>

fun split_once :: "'a \<Rightarrow> 'a list \<Rightarrow> ('a list \<times> 'a list) option" where
  "split_once c [] = None"
| "split_once c (x # xs) =
     (if x = c then Some ([], xs)
      else map_option (\<lambda>(a, b). (x # a, b)) (split_once c xs))"

text \<open>Splitting at the last occurrence: the two sides of \<open>str::rfind(char)\<close>.\<close>

definition rsplit_once :: "'a \<Rightarrow> 'a list \<Rightarrow> ('a list \<times> 'a list) option" where
  "rsplit_once c s = map_option (\<lambda>(a, b). (rev b, rev a)) (split_once c (rev s))"

text \<open>\<open>str::strip_prefix\<close>.\<close>

fun strip_prefix :: "'a list \<Rightarrow> 'a list \<Rightarrow> 'a list option" where
  "strip_prefix [] s = Some s"
| "strip_prefix (p # ps) [] = None"
| "strip_prefix (p # ps) (x # xs) = (if p = x then strip_prefix ps xs else None)"

text \<open>\<open>str::split_once(&str)\<close>: at the first occurrence of a substring.\<close>

fun split_once_str :: "'a list \<Rightarrow> 'a list \<Rightarrow> ('a list \<times> 'a list) option" where
  "split_once_str p [] = (if p = [] then Some ([], []) else None)"
| "split_once_str p (x # xs) =
     (case strip_prefix p (x # xs) of
        Some rest \<Rightarrow> Some ([], rest)
      | None \<Rightarrow> map_option (\<lambda>(a, b). (x # a, b)) (split_once_str p xs))"

lemma split_once_None [simp]: "split_once c s = None \<longleftrightarrow> c \<notin> set s"
  by (induction s) auto

lemma split_once_notin [simp]: "c \<notin> set s \<Longrightarrow> split_once c s = None"
  by simp

lemma split_once_append [simp]: "c \<notin> set a \<Longrightarrow> split_once c (a @ c # b) = Some (a, b)"
  by (induction a) auto

lemma split_once_SomeD: "split_once c s = Some (a, b) \<Longrightarrow> s = a @ c # b \<and> c \<notin> set a"
proof (induction s arbitrary: a)
  case Nil
  then show ?case by simp
next
  case (Cons x xs)
  then show ?case by (auto split: if_splits)
qed

lemma split_once_Some:
  "split_once c s = Some (a, b) \<longleftrightarrow> s = a @ c # b \<and> c \<notin> set a"
  using split_once_SomeD by fastforce

lemma rsplit_once_None [simp]: "rsplit_once c s = None \<longleftrightarrow> c \<notin> set s"
  by (simp add: rsplit_once_def)

lemma rsplit_once_notin [simp]: "c \<notin> set s \<Longrightarrow> rsplit_once c s = None"
  by simp

lemma rsplit_once_Some:
  "rsplit_once c s = Some (a, b) \<longleftrightarrow> s = a @ c # b \<and> c \<notin> set b"
proof -
  have "rsplit_once c s = Some (a, b) \<longleftrightarrow> split_once c (rev s) = Some (rev b, rev a)"
    by (auto simp: rsplit_once_def)
  also have "\<dots> \<longleftrightarrow> rev s = rev b @ c # rev a \<and> c \<notin> set b"
    by (simp add: split_once_Some)
  also have "\<dots> \<longleftrightarrow> s = a @ c # b \<and> c \<notin> set b"
    by (metis append.assoc append_Cons append_Nil rev_append rev_rev_ident rev_singleton_conv)
  finally show ?thesis .
qed

lemma rsplit_once_append [simp]: "c \<notin> set b \<Longrightarrow> rsplit_once c (a @ c # b) = Some (a, b)"
  by (simp add: rsplit_once_Some)

lemma strip_prefix_Some: "strip_prefix p s = Some r \<longleftrightarrow> s = p @ r"
  by (induction p s rule: strip_prefix.induct) auto

lemma strip_prefix_append [simp]: "strip_prefix p (p @ r) = Some r"
  by (simp add: strip_prefix_Some)

lemma strip_prefix_None: "strip_prefix p s = None \<longleftrightarrow> \<not> prefix p s"
  by (induction p s rule: strip_prefix.induct) auto

lemma split_once_str_None_char:
  "c \<in> set p \<Longrightarrow> c \<notin> set s \<Longrightarrow> split_once_str p s = None"
proof (induction s)
  case Nil
  then show ?case by auto
next
  case (Cons x xs)
  then have "\<not> prefix p (x # xs)"
    by (metis set_ConsD set_mono_prefix subsetD)
  then have "strip_prefix p (x # xs) = None"
    by (simp add: strip_prefix_None)
  with Cons show ?case by simp
qed

text \<open>The first occurrence, when the head of the pattern does not occur before it.\<close>

lemma split_once_str_append:
  "c \<notin> set a \<Longrightarrow> split_once_str (c # p) (a @ c # p @ b) = Some (a, b)"
proof (induction a)
  case Nil
  have "strip_prefix (c # p) (c # p @ b) = Some b"
    by (simp add: strip_prefix_Some)
  then show ?case by simp
next
  case (Cons x xs)
  then show ?case by (simp add: strip_prefix_None)
qed

lemma find_filter: "find P xs = (case filter P xs of [] \<Rightarrow> None | x # _ \<Rightarrow> Some x)"
  by (induction xs) auto

lemma find_SomeD: "find P xs = Some x \<Longrightarrow> x \<in> set xs \<and> P x"
  by (auto simp: find_Some_iff)

section \<open>White space and control characters\<close>

text \<open>The UTF-8 encodings of the characters with the Unicode property White\_Space.\<close>

definition ws_bytes :: "string list" where
  "ws_bytes =
     [[CHR 0x09], [CHR 0x0A], [CHR 0x0B], [CHR 0x0C], [CHR 0x0D], [CHR 0x20],
      [CHR 0xC2, CHR 0x85], [CHR 0xC2, CHR 0xA0], [CHR 0xE1, CHR 0x9A, CHR 0x80],
      [CHR 0xE2, CHR 0x80, CHR 0x80], [CHR 0xE2, CHR 0x80, CHR 0x81],
      [CHR 0xE2, CHR 0x80, CHR 0x82], [CHR 0xE2, CHR 0x80, CHR 0x83],
      [CHR 0xE2, CHR 0x80, CHR 0x84], [CHR 0xE2, CHR 0x80, CHR 0x85],
      [CHR 0xE2, CHR 0x80, CHR 0x86], [CHR 0xE2, CHR 0x80, CHR 0x87],
      [CHR 0xE2, CHR 0x80, CHR 0x88], [CHR 0xE2, CHR 0x80, CHR 0x89],
      [CHR 0xE2, CHR 0x80, CHR 0x8A], [CHR 0xE2, CHR 0x80, CHR 0xA8],
      [CHR 0xE2, CHR 0x80, CHR 0xA9], [CHR 0xE2, CHR 0x80, CHR 0xAF],
      [CHR 0xE2, CHR 0x81, CHR 0x9F], [CHR 0xE3, CHR 0x80, CHR 0x80]]"

text \<open>Strip leading occurrences of any of the patterns (the empty pattern strips nothing).\<close>

function strip_any :: "string list \<Rightarrow> string \<Rightarrow> string" where
  "strip_any ps s =
     (case find (\<lambda>p. p \<noteq> [] \<and> prefix p s) ps of
        None \<Rightarrow> s
      | Some p \<Rightarrow> strip_any ps (drop (length p) s))"
  by pat_completeness auto
termination
  by (relation "measure (\<lambda>(ps, s). length s)")
    (auto simp: find_Some_iff prefix_def)

declare strip_any.simps [simp del]

definition trim :: "string \<Rightarrow> string" where
  "trim s = rev (strip_any (map rev ws_bytes) (rev (strip_any ws_bytes s)))"

text \<open>\<open>str::trim_end\<close> and \<open>str::split_whitespace\<close>.\<close>

definition trim_end :: "string \<Rightarrow> string" where
  "trim_end s = rev (strip_any (map rev ws_bytes) (rev s))"

function split_ws :: "string \<Rightarrow> string \<Rightarrow> string list" where
  "split_ws acc s =
     (case find (\<lambda>p. p \<noteq> [] \<and> prefix p s) ws_bytes of
        Some p \<Rightarrow> (if acc = [] then [] else [acc]) @ split_ws [] (drop (length p) s)
      | None \<Rightarrow>
          (case s of
             [] \<Rightarrow> (if acc = [] then [] else [acc])
           | c # cs \<Rightarrow> split_ws (acc @ [c]) cs))"
  by pat_completeness auto
termination
  by (relation "measure (\<lambda>(acc, s). length s)")
    (auto simp: find_Some_iff prefix_def)

declare split_ws.simps [simp del]

definition split_whitespace :: "string \<Rightarrow> string list" where
  "split_whitespace s = split_ws [] s"

text \<open>\<open>[String]::join(" ")\<close>, and the byte offsets of \<open>str::char_indices\<close>.\<close>

fun join_sp :: "string list \<Rightarrow> string" where
  "join_sp [] = []"
| "join_sp [x] = x"
| "join_sp (x # y # ys) = x @ CHR '' '' # join_sp (y # ys)"

definition is_char_start :: "char \<Rightarrow> bool" where
  "is_char_start c \<longleftrightarrow> (of_char c :: nat) < 128 \<or> 192 \<le> (of_char c :: nat)"

definition char_offsets :: "string \<Rightarrow> nat list" where
  "char_offsets s = filter (\<lambda>i. is_char_start (s ! i)) [0..<length s]"

text \<open>\<open>chars().any(is_whitespace)\<close> and \<open>chars().any(is_control)\<close>.\<close>

definition has_whitespace :: "string \<Rightarrow> bool" where
  "has_whitespace s \<longleftrightarrow> list_ex (\<lambda>p. sublist p s) ws_bytes"

fun has_control :: "string \<Rightarrow> bool" where
  "has_control [] = False"
| "has_control (c # s) =
     (of_char c < (32::nat) \<or> of_char c = (127::nat)
      \<or> (c = CHR 0xC2 \<and> s \<noteq> [] \<and> 128 \<le> (of_char (hd s) :: nat) \<and> of_char (hd s) < (160::nat))
      \<or> has_control s)"

section \<open>ASCII\<close>

definition is_ascii_digit :: "char \<Rightarrow> bool" where
  "is_ascii_digit c \<longleftrightarrow> 48 \<le> (of_char c :: nat) \<and> of_char c \<le> (57::nat)"

definition is_lower_hex :: "char \<Rightarrow> bool" where
  "is_lower_hex c \<longleftrightarrow> is_ascii_digit c \<or> (97 \<le> (of_char c :: nat) \<and> of_char c \<le> (102::nat))"

definition is_ascii_hexdigit :: "char \<Rightarrow> bool" where
  "is_ascii_hexdigit c \<longleftrightarrow> is_lower_hex c \<or> (65 \<le> (of_char c :: nat) \<and> of_char c \<le> (70::nat))"

definition is_ascii_alphabetic :: "char \<Rightarrow> bool" where
  "is_ascii_alphabetic c \<longleftrightarrow>
     (65 \<le> (of_char c :: nat) \<and> of_char c \<le> (90::nat))
     \<or> (97 \<le> (of_char c :: nat) \<and> of_char c \<le> (122::nat))"

definition is_ascii_alphanumeric :: "char \<Rightarrow> bool" where
  "is_ascii_alphanumeric c \<longleftrightarrow> is_ascii_alphabetic c \<or> is_ascii_digit c"

definition ascii_lower :: "char \<Rightarrow> char" where
  "ascii_lower c =
     (if 65 \<le> (of_char c :: nat) \<and> of_char c \<le> (90::nat) then char_of (of_char c + 32 :: nat) else c)"

definition to_ascii_lowercase :: "string \<Rightarrow> string" where
  "to_ascii_lowercase s = map ascii_lower s"

lemma ascii_lower_idem [simp]: "ascii_lower (ascii_lower c) = ascii_lower c"
  by (auto simp: ascii_lower_def)

lemma to_ascii_lowercase_idem [simp]:
  "to_ascii_lowercase (to_ascii_lowercase s) = to_ascii_lowercase s"
  by (simp add: to_ascii_lowercase_def)

section \<open>Decimal numbers\<close>

definition digit_char :: "nat \<Rightarrow> char" where
  "digit_char d = char_of (48 + d)"

definition digit_val :: "char \<Rightarrow> int" where
  "digit_val c = int (of_char c) - 48"

text \<open>\<open>{}\<close> formatting of an unsigned integer.\<close>

fun show_nat :: "nat \<Rightarrow> string" where
  "show_nat n = (if n < 10 then [digit_char n] else show_nat (n div 10) @ [digit_char (n mod 10)])"

declare show_nat.simps [simp del]

definition digits_val :: "string \<Rightarrow> int" where
  "digits_val s = foldl (\<lambda>a c. 10 * a + digit_val c) 0 s"

text \<open>
  \<open>str::parse\<close> for an unsigned integer of at most \<open>m\<close>: one leading \<open>+\<close> is accepted, the
  rest must be a non-empty run of ASCII digits, and an out-of-range value is an error.
\<close>

definition parse_unsigned :: "int \<Rightarrow> string \<Rightarrow> int option" where
  "parse_unsigned m s =
     (let ds = (case s of c # r \<Rightarrow> (if c = CHR ''+'' then r else s) | [] \<Rightarrow> [])
      in if ds \<noteq> [] \<and> list_all is_ascii_digit ds \<and> digits_val ds \<le> m
         then Some (digits_val ds) else None)"

definition parse_u32 :: "string \<Rightarrow> u32 option" where
  "parse_u32 s = map_option of_int (parse_unsigned 4294967295 s)"

lemma digit_char_props:
  assumes "d < 10"
  shows "is_ascii_digit (digit_char d)" and "digit_val (digit_char d) = int d"
  using assms by (simp_all add: is_ascii_digit_def digit_char_def digit_val_def)

lemma show_nat_ne [simp]: "show_nat n \<noteq> []"
  by (subst show_nat.simps) simp

lemma show_nat_digits: "list_all is_ascii_digit (show_nat n)"
proof (induction n rule: show_nat.induct)
  case (1 n)
  then show ?case
    by (subst show_nat.simps) (simp add: digit_char_props)
qed

lemma digits_val_snoc: "digits_val (s @ [c]) = 10 * digits_val s + digit_val c"
  by (simp add: digits_val_def)

lemma digits_val_show_nat [simp]: "digits_val (show_nat n) = int n"
proof (induction n rule: show_nat.induct)
  case (1 n)
  show ?case
  proof (cases "n < 10")
    case True
    then show ?thesis
      by (subst show_nat.simps) (simp add: digits_val_def digit_char_props)
  next
    case False
    have "int n = 10 * int (n div 10) + int (n mod 10)" by presburger
    with 1 False show ?thesis
      by (subst show_nat.simps) (simp add: digits_val_snoc digit_char_props)
  qed
qed

lemma show_nat_inj: "show_nat m = show_nat n \<Longrightarrow> m = n"
  by (metis digits_val_show_nat of_nat_eq_iff)

lemma show_nat_no_char: "\<not> is_ascii_digit c \<Longrightarrow> c \<notin> set (show_nat n)"
  using show_nat_digits [of n] by (auto simp: list_all_iff)

lemma parse_unsigned_show_nat [simp]: "int n \<le> m \<Longrightarrow> parse_unsigned m (show_nat n) = Some (int n)"
proof -
  assume n: "int n \<le> m"
  have "\<not> is_ascii_digit CHR ''+''" by (simp add: is_ascii_digit_def)
  then have "CHR ''+'' \<notin> set (show_nat n)" by (rule show_nat_no_char)
  then have ds: "(case show_nat n of c # r \<Rightarrow> (if c = CHR ''+'' then r else show_nat n) | [] \<Rightarrow> []) = show_nat n"
    by (cases "show_nat n") auto
  show "parse_unsigned m (show_nat n) = Some (int n)"
    unfolding parse_unsigned_def ds using n show_nat_digits [of n] by simp
qed

lemma parse_unsigned_bound: "parse_unsigned m s = Some n \<Longrightarrow> n \<le> m"
  by (auto simp: parse_unsigned_def Let_def split: if_splits)

lemma parse_u32_show [simp]: "parse_u32 (show_nat (unat w)) = Some w"
proof -
  have "unat w < 4294967296" using unsigned_less [of w] by simp
  then have "int (unat w) \<le> 4294967295" by linarith
  then show ?thesis by (simp add: parse_u32_def)
qed

section \<open>Lines\<close>

text \<open>\<open>str::split(char)\<close>: at least one piece.\<close>

fun split_on :: "'a \<Rightarrow> 'a list \<Rightarrow> 'a list list" where
  "split_on c [] = [[]]"
| "split_on c (x # xs) =
     (if x = c then [] # split_on c xs
      else case split_on c xs of [] \<Rightarrow> [[x]] | p # ps \<Rightarrow> (x # p) # ps)"

text \<open>\<open>str::lines\<close>: a terminated line loses its \<open>\n\<close> or \<open>\r\n\<close>, an empty last piece is no line.\<close>

definition strip_cr :: "string \<Rightarrow> string" where
  "strip_cr s = (if s \<noteq> [] \<and> last s = CHR 0x0D then butlast s else s)"

definition lines_of :: "string \<Rightarrow> string list" where
  "lines_of s =
     (let ps = split_on CHR 0x0A s
      in map strip_cr (butlast ps) @ (if last ps = [] then [] else [last ps]))"

text \<open>\<open>str::lines().count()\<close>: the newline-terminated pieces, and a last one without newline.\<close>

definition lines_count :: "string \<Rightarrow> nat" where
  "lines_count s =
     count_list s CHR 0x0A + (if s \<noteq> [] \<and> last s \<noteq> CHR 0x0A then 1 else 0)"

lemma lines_count_append: "lines_count s \<le> lines_count (s @ t)"
proof (cases "t = []")
  case True
  then show ?thesis by simp
next
  case False
  show ?thesis
  proof (cases "CHR 0x0A \<in> set t")
    case True
    then have "0 < count_list t CHR 0x0A"
      by (metis count_list_0_iff gr0I)
    then show ?thesis by (simp add: lines_count_def)
  next
    case out: False
    with False have "last t \<noteq> CHR 0x0A" by (metis last_in_set)
    with False show ?thesis by (simp add: lines_count_def)
  qed
qed

section \<open>Keyed state\<close>

text \<open>
  The interface of a table of entries inside a component's state: what a lookup returns after an
  insertion and after a removal. Every component that keeps such a table interprets it.
\<close>

locale keyed =
  fixes look :: "'s \<Rightarrow> 'k \<Rightarrow> 'v option"
    and put :: "'k \<Rightarrow> 'v \<Rightarrow> 's \<Rightarrow> 's"
  assumes look_put: "look (put k v s) k' = (if k' = k then Some v else look s k')"
begin

lemma look_put_same [simp]: "look (put k v s) k = Some v"
  by (simp add: look_put)

lemma look_put_other [simp]: "k' \<noteq> k \<Longrightarrow> look (put k v s) k' = look s k'"
  by (simp add: look_put)

lemma put_all:
  "(\<And>k v. look s k = Some v \<Longrightarrow> P k v) \<Longrightarrow> P k v \<Longrightarrow> look (put k v s) k' = Some v' \<Longrightarrow> P k' v'"
  by (auto simp: look_put split: if_splits)

lemma fold_put_other:
  "k' \<notin> fst ` set kvs \<Longrightarrow> look (fold (\<lambda>(k, v). put k v) kvs s) k' = look s k'"
  by (induction kvs arbitrary: s) (auto simp: look_put)

end

locale keyed_removal = keyed look put
  for look :: "'s \<Rightarrow> 'k \<Rightarrow> 'v option" and put :: "'k \<Rightarrow> 'v \<Rightarrow> 's \<Rightarrow> 's" +
  fixes del :: "'k \<Rightarrow> 's \<Rightarrow> 's"
  assumes look_del: "look (del k s) k' = (if k' = k then None else look s k')"
begin

lemma look_del_same [simp]: "look (del k s) k = None"
  by (simp add: look_del)

lemma del_all: "(\<And>k v. look s k = Some v \<Longrightarrow> P k v) \<Longrightarrow> look (del k s) k' = Some v' \<Longrightarrow> P k' v'"
  by (auto simp: look_del split: if_splits)

end

end
