(* ===== verification/Refs.thy ===== *)
theory Refs
  imports Prelude
begin

text \<open>
  The reference syntax of \<open>src/domain/refs.rs\<close>: \<open>owner/repo@ref\<close>, \<open>@\<close>, \<open>ref~n\<close>, \<open>ref#n\<close>,
  \<open>ref#n.k\<close>, \<open>ref#a..#b\<close>, \<open>ref:path\<close>. The theory holds the data types of a parsed reference,
  the parser (\<open>parse\<close> with \<open>split_repo\<close>, \<open>split_tail\<close>, \<open>parse_turn_selector\<close>, \<open>turn_no\<close> and
  \<open>validate_name\<close>), a printer for well-formed references, and the theorems that relate them:
  what every accepted string parses to, and that printing and parsing round-trip.
\<close>

section \<open>Data\<close>

datatype RepoSel = Context | Slug string string | Local string

datatype Base = At | SessionBranch string | Name string | Default

datatype Tail =
    NoTail
  | Tilde u32
  | Turn u32
  | Event u32 u32
  | Range u32 u32
  | Path string

record RefSpec =
  repo :: RepoSel
  base :: Base
  tail :: Tail

datatype refs_error =
    EmptyReference
  | SlashNeedsBothSides string
  | SelectorNeedsAt string
  | EmptyRepoName string
  | EmptyPath string
  | EmptyBeforeColon string
  | TildeNotInteger string
  | TildePathCombo string
  | ConflictingSelectors string
  | EventIndexNotInteger
  | TurnNotInteger string
  | TurnZero
  | LeadingHash
  | EmptyRefName
  | IllegalChar string char

text \<open>The internal representation of \<open>#-1\<close>, the last turn: \<open>u32::MAX\<close>.\<close>

definition LAST_TURN :: u32 where
  "LAST_TURN = - 1"

section \<open>The parser\<close>

definition illegal_ref_chars :: string where
  "illegal_ref_chars = [CHR ''#'', CHR ''~'', CHR '':'', CHR ''@'', CHR '' '', CHR 0x09]"

definition validate_name :: "string \<Rightarrow> refs_error + unit" where
  "validate_name name =
     (if name = [] then Inl EmptyRefName
      else case find (\<lambda>c. c \<in> set illegal_ref_chars) name of
             Some c \<Rightarrow> Inl (IllegalChar name c)
           | None \<Rightarrow> Inr ())"

definition turn_no :: "string \<Rightarrow> refs_error + u32" where
  "turn_no s0 =
     (let s = (case strip_prefix ''#'' s0 of Some r \<Rightarrow> r | None \<Rightarrow> s0)
      in if s = ''-1'' then Inr LAST_TURN
         else case parse_u32 s of
                None \<Rightarrow> Inl (TurnNotInteger s)
              | Some n \<Rightarrow> if n = 0 then Inl TurnZero else Inr n)"

definition parse_turn_selector :: "string \<Rightarrow> refs_error + Tail" where
  "parse_turn_selector s =
     (case split_once_str ''..'' s of
        Some (a, b) \<Rightarrow> r_bind (turn_no a) (\<lambda>a'. r_bind (turn_no b) (\<lambda>b'. Inr (Range a' b')))
      | None \<Rightarrow>
          (case split_once CHR ''.'' s of
             Some (n, k) \<Rightarrow>
               r_bind (turn_no n)
                 (\<lambda>t. r_bind (ok_or (parse_u32 k) EventIndexNotInteger) (\<lambda>i. Inr (Event t i)))
           | None \<Rightarrow> r_bind (turn_no s) (\<lambda>t. Inr (Turn t))))"

text \<open>
  The three selectors of \<open>split_tail\<close>, peeled in the source's order: \<open>:path\<close>, \<open>~n\<close>, \<open>#...\<close>.
  Each takes and returns the pair of the remaining body and the tail found so far.
\<close>

definition peel_path :: "string \<Rightarrow> refs_error + string \<times> Tail" where
  "peel_path s =
     (case rsplit_once CHR '':'' s of
        None \<Rightarrow> Inr (s, NoTail)
      | Some (front, path) \<Rightarrow>
          if path = [] then Inl (EmptyPath s)
          else if front = [] then Inl (EmptyBeforeColon s)
          else Inr (front, Path path))"

definition peel_tilde :: "string \<Rightarrow> string \<times> Tail \<Rightarrow> refs_error + string \<times> Tail" where
  "peel_tilde s bt =
     (case rsplit_once CHR ''~'' (fst bt) of
        None \<Rightarrow> Inr bt
      | Some (front, digits) \<Rightarrow>
          if snd bt = NoTail
          then r_bind (ok_or (parse_u32 digits) (TildeNotInteger s)) (\<lambda>n. Inr (front, Tilde n))
          else Inl (TildePathCombo s))"

definition peel_hash :: "string \<Rightarrow> string \<times> Tail \<Rightarrow> refs_error + string \<times> Tail" where
  "peel_hash s bt =
     (case split_once CHR ''#'' (fst bt) of
        None \<Rightarrow> Inr bt
      | Some (front, selector) \<Rightarrow>
          if snd bt \<noteq> NoTail then Inl (ConflictingSelectors s)
          else r_bind (parse_turn_selector selector) (\<lambda>t. Inr (front, t)))"

definition split_tail :: "string \<Rightarrow> refs_error + string option \<times> Tail" where
  "split_tail s =
     (if s = [] then Inr (None, NoTail)
      else r_bind (peel_path s) (\<lambda>bt.
           r_bind (peel_tilde s bt) (\<lambda>bt.
           r_bind (peel_hash s bt) (\<lambda>(body, t).
             if body = [] then Inl LeadingHash else Inr (Some body, t)))))"

definition split_repo :: "string \<Rightarrow> refs_error + RepoSel option \<times> string" where
  "split_repo s =
     (case split_once CHR ''/'' s of
        None \<Rightarrow> Inr (None, s)
      | Some (hd_part, after_slash) \<Rightarrow>
          if hd_part = [] \<or> contains_any ''@~#:'' hd_part then Inr (None, s)
          else if after_slash = [] then Inl (SlashNeedsBothSides s)
          else r_bind
                 (case split_once CHR ''@'' after_slash of
                    Some nr \<Rightarrow> Inr nr
                  | None \<Rightarrow>
                      if contains_any ''~#:/'' after_slash then Inl (SelectorNeedsAt s)
                      else Inr (after_slash, []))
                 (\<lambda>(name, rest).
                    if name = [] then Inl (EmptyRepoName s)
                    else Inr (Some (Slug (to_ascii_lowercase hd_part) name), rest)))"

text \<open>\<open>repo@ref\<close> with the owner left out: the last branch of \<open>parse\<close>.\<close>

definition parse_local :: "string \<Rightarrow> Tail \<Rightarrow> refs_error + RefSpec" where
  "parse_local name t =
     (case split_once CHR ''@'' name of
        None \<Rightarrow> r_bind (validate_name name) (\<lambda>_. Inr \<lparr>repo = Local name, base = Default, tail = t\<rparr>)
      | Some (r, b) \<Rightarrow>
          r_bind (validate_name r) (\<lambda>_.
            if b = [] then Inr \<lparr>repo = Local r, base = Default, tail = t\<rparr>
            else if b = ''@'' then Inr \<lparr>repo = Local r, base = At, tail = t\<rparr>
            else r_bind (validate_name b) (\<lambda>_. Inr \<lparr>repo = Local r, base = Name b, tail = t\<rparr>)))"

definition parse :: "string \<Rightarrow> refs_error + RefSpec" where
  "parse input =
     (let s = trim input
      in if s = [] then Inl EmptyReference
         else r_bind (split_repo s) (\<lambda>(repo_part, rest).
              r_bind (split_tail rest) (\<lambda>(base_str, t).
                let r = (case repo_part of None \<Rightarrow> Context | Some sel \<Rightarrow> sel)
                in case base_str of
                     None \<Rightarrow> Inr \<lparr>repo = r, base = Default, tail = t\<rparr>
                   | Some name \<Rightarrow>
                       if name = ''@'' then Inr \<lparr>repo = r, base = At, tail = t\<rparr>
                       else if repo_part = None \<and> CHR ''@'' \<in> set name \<and> hd name \<noteq> CHR ''@''
                       then parse_local name t
                       else r_bind (validate_name name)
                              (\<lambda>_. Inr \<lparr>repo = r, base = Name name, tail = t\<rparr>))))"

section \<open>Well-formed references and their printed form\<close>

definition valid_ref_name :: "string \<Rightarrow> bool" where
  "valid_ref_name n \<longleftrightarrow> n \<noteq> [] \<and> \<not> contains_any illegal_ref_chars n"

text \<open>The characters that start a tail selector; no base contains one.\<close>

abbreviation selector_chars :: string where
  "selector_chars \<equiv> [CHR '':'', CHR ''~'', CHR ''#'']"

fun wf_tail :: "Tail \<Rightarrow> bool" where
  "wf_tail NoTail = True"
| "wf_tail (Tilde n) = True"
| "wf_tail (Turn n) = (n \<noteq> 0)"
| "wf_tail (Event t k) = (t \<noteq> 0)"
| "wf_tail (Range a b) = (a \<noteq> 0 \<and> b \<noteq> 0)"
| "wf_tail (Path p) = (p \<noteq> [] \<and> CHR '':'' \<notin> set p)"

definition show_turn :: "u32 \<Rightarrow> string" where
  "show_turn n = (if n = LAST_TURN then ''-1'' else show_nat (unat n))"

fun render_tail :: "Tail \<Rightarrow> string" where
  "render_tail NoTail = []"
| "render_tail (Tilde n) = CHR ''~'' # show_nat (unat n)"
| "render_tail (Turn n) = CHR ''#'' # show_turn n"
| "render_tail (Event t k) = CHR ''#'' # show_turn t @ CHR ''.'' # show_nat (unat k)"
| "render_tail (Range a b) = CHR ''#'' # show_turn a @ ''..'' @ CHR ''#'' # show_turn b"
| "render_tail (Path p) = CHR '':'' # p"

fun render_base :: "Base \<Rightarrow> string" where
  "render_base At = ''@''"
| "render_base (SessionBranch b) = b"
| "render_base (Name n) = n"
| "render_base Default = []"

definition render :: "RefSpec \<Rightarrow> string" where
  "render rs =
     (let bt = render_base (base rs) @ render_tail (tail rs)
      in case repo rs of
           Context \<Rightarrow> bt
         | Slug own n \<Rightarrow> own @ CHR ''/'' # n @ (if base rs = Default then [] else CHR ''@'' # bt)
         | Local r \<Rightarrow> r @ CHR ''@'' # bt)"

text \<open>What a parsed base can be, apart from the default.\<close>

fun explicit_base :: "Base \<Rightarrow> bool" where
  "explicit_base At = True"
| "explicit_base (Name n) = valid_ref_name n"
| "explicit_base b = False"

text \<open>The owner of a slug: lower case, without a selector character or a slash.\<close>

definition valid_owner :: "string \<Rightarrow> bool" where
  "valid_owner own \<longleftrightarrow> own \<noteq> [] \<and> \<not> contains_any ''@~#:/'' own"

fun wf_repo_base :: "RepoSel \<Rightarrow> Base \<Rightarrow> Tail \<Rightarrow> bool" where
  "wf_repo_base Context b t \<longleftrightarrow>
     explicit_base b \<and> (CHR ''/'' \<notin> set (render_base b) \<or> hd (render_base b) = CHR ''/'')"
| "wf_repo_base (Slug own n) b t \<longleftrightarrow>
     valid_owner own \<and> to_ascii_lowercase own = own \<and> n \<noteq> [] \<and> CHR ''@'' \<notin> set n
     \<and> (explicit_base b \<or> (b = Default \<and> t = NoTail \<and> \<not> contains_any ''~#:/'' n))"
| "wf_repo_base (Local r) b t \<longleftrightarrow>
     valid_ref_name r \<and> CHR ''/'' \<notin> set r \<and> (explicit_base b \<or> b = Default)"

text \<open>A reference the printer can print: its printed form has no white space around it.\<close>

definition wf_spec :: "RefSpec \<Rightarrow> bool" where
  "wf_spec rs \<longleftrightarrow>
     wf_tail (tail rs) \<and> wf_repo_base (repo rs) (base rs) (tail rs) \<and> trim (render rs) = render rs"

section \<open>Lemmas on the parser's parts\<close>

lemma validate_name_Inr [simp]: "validate_name n = Inr u \<longleftrightarrow> valid_ref_name n"
  by (auto simp: validate_name_def valid_ref_name_def contains_any_iff find_None_iff
      find_Some_iff split: option.splits if_splits)

lemma validate_name_valid [simp]: "valid_ref_name n \<Longrightarrow> validate_name n = Inr ()"
  by simp

lemma valid_ref_name_chars:
  assumes "valid_ref_name n"
  shows "CHR ''@'' \<notin> set n" "CHR '':'' \<notin> set n" "CHR ''~'' \<notin> set n" "CHR ''#'' \<notin> set n" "n \<noteq> []"
  using assms by (auto simp: valid_ref_name_def contains_any_iff illegal_ref_chars_def)

lemma at_not_valid [simp]: "\<not> valid_ref_name ''@''"
  using valid_ref_name_chars(1) [of "''@''"] by auto

lemma explicit_base_chars:
  assumes "explicit_base b"
  shows "CHR '':'' \<notin> set (render_base b)" "CHR ''~'' \<notin> set (render_base b)"
    "CHR ''#'' \<notin> set (render_base b)" "render_base b \<noteq> []"
  using assms by (cases b; simp add: valid_ref_name_chars)+

lemma not_digits:
  "\<not> is_ascii_digit CHR '':''" "\<not> is_ascii_digit CHR ''~''" "\<not> is_ascii_digit CHR ''#''"
  "\<not> is_ascii_digit CHR ''.''" "\<not> is_ascii_digit CHR ''-''" "\<not> is_ascii_digit CHR ''/''"
  "\<not> is_ascii_digit CHR ''@''"
  by (simp_all add: is_ascii_digit_def)

lemma show_nat_chars [simp]:
  "CHR '':'' \<notin> set (show_nat n)" "CHR ''~'' \<notin> set (show_nat n)" "CHR ''#'' \<notin> set (show_nat n)"
  "CHR ''.'' \<notin> set (show_nat n)" "CHR ''-'' \<notin> set (show_nat n)" "CHR ''/'' \<notin> set (show_nat n)"
  "CHR ''@'' \<notin> set (show_nat n)"
  by (simp_all add: show_nat_no_char not_digits)

lemma show_turn_chars [simp]:
  "CHR '':'' \<notin> set (show_turn n)" "CHR ''~'' \<notin> set (show_turn n)" "CHR ''#'' \<notin> set (show_turn n)"
  "CHR ''.'' \<notin> set (show_turn n)" "CHR ''/'' \<notin> set (show_turn n)"
  by (simp_all add: show_turn_def)

lemma render_tail_no_slash: "(\<And>p. t \<noteq> Path p) \<Longrightarrow> CHR ''/'' \<notin> set (render_tail t)"
  by (cases t) auto

lemma strip_hash_show_turn: "strip_prefix ''#'' (show_turn n) = None"
proof -
  have "show_turn n \<noteq> []" by (simp add: show_turn_def)
  then show ?thesis
    using show_turn_chars(3) [of n] by (cases "show_turn n") auto
qed

lemma show_nat_not_minus_one: "show_nat n \<noteq> ''-1''"
  by (metis show_nat_chars(5) list.set_intros(1))

lemma turn_no_show_turn:
  assumes "n \<noteq> 0"
  shows "turn_no (show_turn n) = Inr n" and "turn_no (CHR ''#'' # show_turn n) = Inr n"
proof -
  have "(if show_turn n = ''-1'' then Inr LAST_TURN
         else case parse_u32 (show_turn n) of
                None \<Rightarrow> Inl (TurnNotInteger (show_turn n))
              | Some m \<Rightarrow> if m = 0 then Inl TurnZero else Inr m) = Inr n"
    using assms by (simp add: show_turn_def show_nat_not_minus_one)
  then show "turn_no (show_turn n) = Inr n" and "turn_no (CHR ''#'' # show_turn n) = Inr n"
    by (simp_all add: turn_no_def strip_hash_show_turn)
qed

lemma turn_no_nonzero: "turn_no s = Inr n \<Longrightarrow> n \<noteq> 0"
  by (auto simp: turn_no_def Let_def LAST_TURN_def split: if_splits option.splits)

lemma parse_turn_selector_render:
  assumes "wf_tail t" and "render_tail t = CHR ''#'' # sel"
  shows "parse_turn_selector sel = Inr t"
proof (cases t)
  case (Turn n)
  with assms have sel: "sel = show_turn n" and n: "n \<noteq> 0" by auto
  have "split_once_str ''..'' (show_turn n) = None"
    by (rule split_once_str_None_char [of "CHR ''.''"]) simp_all
  with n Turn show ?thesis
    by (simp add: sel parse_turn_selector_def turn_no_show_turn)
next
  case (Event n k)
  have "split_once_str ''..'' (show_turn n @ CHR ''.'' # show_nat (unat k)) = None"
  proof -
    have *: "split_once_str ''..'' (a @ CHR ''.'' # b) = None"
      if "CHR ''.'' \<notin> set a" and "CHR ''.'' \<notin> set b" for a b :: string
      using that(1)
    proof (induction a)
      case Nil
      have "strip_prefix ''.'' b = None"
        using that(2) by (cases b) auto
      with that(2) show ?case by (simp add: split_once_str_None_char [of "CHR ''.''"])
    next
      case (Cons x a)
      then show ?case by simp
    qed
    show ?thesis by (rule *) simp_all
  qed
  moreover from assms Event have "sel = show_turn n @ CHR ''.'' # show_nat (unat k)" and "n \<noteq> 0"
    by auto
  ultimately show ?thesis
    using Event by (simp add: parse_turn_selector_def turn_no_show_turn)
next
  case (Range a b)
  have "split_once_str ''..'' (show_turn a @ ''..'' @ CHR ''#'' # show_turn b)
        = Some (show_turn a, CHR ''#'' # show_turn b)"
    using split_once_str_append [of "CHR ''.''" "show_turn a" "''.''"] by simp
  with assms Range show ?thesis
    by (simp add: parse_turn_selector_def turn_no_show_turn)
qed (use assms in auto)

lemma split_tail_render:
  assumes "wf_tail t" and "body \<noteq> []"
    and chars: "CHR '':'' \<notin> set body" "CHR ''~'' \<notin> set body" "CHR ''#'' \<notin> set body"
  shows "split_tail (body @ render_tail t) = Inr (Some body, t)"
proof (cases "\<exists>sel. render_tail t = CHR ''#'' # sel")
  case True
  then obtain sel where sel: "render_tail t = CHR ''#'' # sel" by blast
  have "CHR '':'' \<notin> set sel" and "CHR ''~'' \<notin> set sel"
    using sel by (cases t; auto)+
  with assms sel parse_turn_selector_render [OF assms(1) sel] show ?thesis
    by (simp add: split_tail_def peel_path_def peel_tilde_def peel_hash_def)
next
  case False
  with assms show ?thesis
    by (cases t) (auto simp: split_tail_def peel_path_def peel_tilde_def peel_hash_def)
qed

lemma split_repo_none:
  assumes "CHR ''/'' \<notin> set s \<or> hd s = CHR ''/''
           \<or> (\<exists>a c b. s = a @ c # b \<and> CHR ''/'' \<notin> set a \<and> c \<in> set ''@~#:'')"
  shows "split_repo s = Inr (None, s)"
proof (cases "split_once CHR ''/'' s")
  case None
  then show ?thesis by (simp add: split_repo_def)
next
  case (Some p)
  obtain h r where p: "p = (h, r)" by (cases p)
  with Some have s: "s = h @ CHR ''/'' # r" and h: "CHR ''/'' \<notin> set h"
    by (simp_all add: split_once_Some)
  from s assms consider "h = []" | a c b where "s = a @ c # b" "CHR ''/'' \<notin> set a" "c \<in> set ''@~#:''"
    using h by (cases h) auto
  then have "h = [] \<or> contains_any ''@~#:'' h"
  proof cases
    case 1
    then show ?thesis by simp
  next
    case (2 a c b)
    have "c \<noteq> CHR ''/''" using 2(3) by auto
    moreover have "h @ CHR ''/'' # r = a @ c # b" using s 2(1) by simp
    ultimately have "c \<in> set h"
      using 2(2) by (auto simp: append_eq_append_conv2 append_eq_Cons_conv Cons_eq_append_conv)
    with 2(3) show ?thesis by (auto simp: contains_any_iff)
  qed
  with Some p show ?thesis by (auto simp: split_repo_def)
qed

lemma parse_local_render:
  assumes "valid_ref_name r" and "explicit_base b \<or> b = Default"
  shows "parse_local (r @ CHR ''@'' # render_base b) t = Inr \<lparr>repo = Local r, base = b, tail = t\<rparr>"
  using assms
  by (cases b) (auto simp: parse_local_def valid_ref_name_chars(1,5))

text \<open>The three shapes of a reference, each parsed back from its printed form.\<close>

lemma parse_context:
  assumes "wf_tail t" and b: "explicit_base b"
    and slash: "CHR ''/'' \<notin> set (render_base b) \<or> hd (render_base b) = CHR ''/''"
    and s: "trim s = render_base b @ render_tail t"
  shows "parse s = Inr \<lparr>repo = Context, base = b, tail = t\<rparr>"
proof -
  let ?s = "render_base b @ render_tail t"
  have ne: "render_base b \<noteq> []" using b by (simp add: explicit_base_chars)
  have "split_repo ?s = Inr (None, ?s)"
  proof (rule split_repo_none)
    show "CHR ''/'' \<notin> set ?s \<or> hd ?s = CHR ''/''
           \<or> (\<exists>a c b. ?s = a @ c # b \<and> CHR ''/'' \<notin> set a \<and> c \<in> set ''@~#:'')"
    proof (cases "hd (render_base b) = CHR ''/''")
      case True
      with ne show ?thesis by (auto simp: hd_append)
    next
      case False
      with slash have nb: "CHR ''/'' \<notin> set (render_base b)" by simp
      show ?thesis
      proof (cases t)
        case (Path p)
        with nb have "?s = render_base b @ CHR '':'' # p \<and> CHR ''/'' \<notin> set (render_base b)
            \<and> CHR '':'' \<in> set ''@~#:''" by simp
        then show ?thesis by blast
      qed (use nb render_tail_no_slash [of t] in auto)
    qed
  qed
  moreover have "split_tail ?s = Inr (Some (render_base b), t)"
    using assms(1) explicit_base_chars [OF b] by (intro split_tail_render)
  ultimately show ?thesis
    using b s ne by (cases b) (auto simp: parse_def valid_ref_name_chars(1))
qed

lemma parse_slug:
  assumes own: "valid_owner own" "to_ascii_lowercase own = own"
    and n: "n \<noteq> []" "CHR ''@'' \<notin> set n" and "wf_tail t" and b: "explicit_base b"
    and s: "trim s = own @ CHR ''/'' # n @ CHR ''@'' # render_base b @ render_tail t"
  shows "parse s = Inr \<lparr>repo = Slug own n, base = b, tail = t\<rparr>"
proof -
  let ?rest = "render_base b @ render_tail t"
  have "CHR ''/'' \<notin> set own" and "\<not> contains_any ''@~#:'' own" and "own \<noteq> []"
    using own(1) by (auto simp: valid_owner_def contains_any_iff)
  then have "split_repo (trim s) = Inr (Some (Slug own n), ?rest)"
    using n own(2) by (simp add: s split_repo_def)
  moreover have "split_tail ?rest = Inr (Some (render_base b), t)"
    using assms(5) explicit_base_chars [OF b] by (intro split_tail_render)
  moreover have "trim s \<noteq> []" using s by simp
  ultimately show ?thesis
    using b by (cases b) (auto simp: parse_def Let_def valid_ref_name_chars(1))
qed

lemma parse_slug_default:
  assumes own: "valid_owner own" "to_ascii_lowercase own = own"
    and n: "n \<noteq> []" "CHR ''@'' \<notin> set n" "\<not> contains_any ''~#:/'' n"
    and s: "trim s = own @ CHR ''/'' # n"
  shows "parse s = Inr \<lparr>repo = Slug own n, base = Default, tail = NoTail\<rparr>"
proof -
  have "CHR ''/'' \<notin> set own" and "\<not> contains_any ''@~#:'' own" and "own \<noteq> []"
    using own(1) by (auto simp: valid_owner_def contains_any_iff)
  then have "split_repo (trim s) = Inr (Some (Slug own n), [])"
    using n own(2) by (simp add: s split_repo_def)
  moreover have "trim s \<noteq> []" using s by simp
  ultimately show ?thesis by (simp add: parse_def split_tail_def)
qed

lemma parse_local_repo:
  assumes r: "valid_ref_name r" "CHR ''/'' \<notin> set r" and t: "wf_tail t"
    and b: "explicit_base b \<or> b = Default"
    and s: "trim s = r @ CHR ''@'' # render_base b @ render_tail t"
  shows "parse s = Inr \<lparr>repo = Local r, base = b, tail = t\<rparr>"
proof -
  let ?body = "r @ CHR ''@'' # render_base b"
  have r_ne: "r \<noteq> []" and r_at: "CHR ''@'' \<notin> set r"
    using r(1) by (auto simp: valid_ref_name_chars)
  have "CHR ''@'' \<in> set ''@~#:''" by simp
  with r(2) have "split_repo (trim s) = Inr (None, trim s)"
    using s by (intro split_repo_none) blast
  moreover have "split_tail (trim s) = Inr (Some ?body, t)"
  proof -
    have "CHR '':'' \<notin> set ?body" "CHR ''~'' \<notin> set ?body" "CHR ''#'' \<notin> set ?body"
      using r(1) b explicit_base_chars [of b] by (auto simp: valid_ref_name_chars)
    then have "split_tail (?body @ render_tail t) = Inr (Some ?body, t)"
      using t by (intro split_tail_render) auto
    then show ?thesis by (simp add: s)
  qed
  moreover have "?body \<noteq> ''@''" and "hd ?body \<noteq> CHR ''@''" and "CHR ''@'' \<in> set ?body"
    using r_ne r_at by (auto simp: hd_append Cons_eq_append_conv append_eq_Cons_conv)
      (metis hd_in_set)
  moreover have "trim s \<noteq> []" using s by simp
  ultimately show ?thesis
    using parse_local_render [OF r(1) b] by (simp add: parse_def)
qed

section \<open>What an accepted text can be\<close>

fun parsed_repo_base :: "RepoSel \<Rightarrow> Base \<Rightarrow> Tail \<Rightarrow> bool" where
  "parsed_repo_base Context b t \<longleftrightarrow> explicit_base b"
| "parsed_repo_base (Slug own n) b t \<longleftrightarrow>
     valid_owner own \<and> to_ascii_lowercase own = own \<and> n \<noteq> [] \<and> CHR ''@'' \<notin> set n
     \<and> (explicit_base b \<or> (b = Default \<and> t = NoTail))"
| "parsed_repo_base (Local r) b t \<longleftrightarrow> valid_ref_name r \<and> (explicit_base b \<or> b = Default)"

lemma parse_turn_selector_wf: "parse_turn_selector s = Inr t \<Longrightarrow> wf_tail t"
  by (auto simp: parse_turn_selector_def r_bind_eq_Inr dest: turn_no_nonzero
      split: option.splits prod.splits)

lemma peel_path_wf: "peel_path s = Inr (b, t) \<Longrightarrow> wf_tail t"
  by (auto simp: peel_path_def rsplit_once_Some split: option.splits prod.splits if_splits)

lemma peel_tilde_wf: "peel_tilde s bt = Inr (b, t) \<Longrightarrow> wf_tail (snd bt) \<Longrightarrow> wf_tail t"
  by (auto simp: peel_tilde_def r_bind_eq_Inr split: option.splits prod.splits if_splits)

lemma peel_hash_wf: "peel_hash s bt = Inr (b, t) \<Longrightarrow> wf_tail (snd bt) \<Longrightarrow> wf_tail t"
  by (auto simp: peel_hash_def r_bind_eq_Inr dest: parse_turn_selector_wf
      split: option.splits prod.splits if_splits)

lemma split_tail_wf:
  assumes "split_tail s = Inr (bs, t)"
  shows "wf_tail t" and "bs = None \<longleftrightarrow> s = []" and "s = [] \<Longrightarrow> t = NoTail" and "bs \<noteq> Some []"
  using assms
  by (auto simp: split_tail_def r_bind_eq_Inr split: if_splits
      dest: peel_path_wf dest!: peel_tilde_wf peel_hash_wf)

lemma ascii_lower_keeps:
  assumes "c \<in> set ''@~#:/''"
  shows "ascii_lower x = c \<longleftrightarrow> x = c"
proof (cases "65 \<le> (of_char x :: nat) \<and> of_char x \<le> (90::nat)")
  case True
  have "(of_char (ascii_lower x) :: nat) = of_char x + 32"
    using True by (simp add: ascii_lower_def)
  moreover have "(of_char c :: nat) < 65 \<or> 123 \<le> (of_char c :: nat)"
    using assms by auto
  ultimately show ?thesis using True by auto
next
  case False
  then show ?thesis by (auto simp: ascii_lower_def)
qed

lemma contains_any_lower:
  "contains_any ''@~#:/'' (to_ascii_lowercase s) \<longleftrightarrow> contains_any ''@~#:/'' s"
proof -
  have "ascii_lower x \<in> set ''@~#:/'' \<longleftrightarrow> x \<in> set ''@~#:/''" for x
    using ascii_lower_keeps [of "ascii_lower x" x] ascii_lower_keeps [of x x] by metis
  then show ?thesis
    unfolding contains_any_iff to_ascii_lowercase_def set_map bex_simps by blast
qed

lemma split_repo_sound:
  assumes "split_repo s = Inr (r, rest)"
  shows "(r = None \<and> rest = s)
    \<or> (\<exists>own n. r = Some (Slug own n) \<and> valid_owner own \<and> to_ascii_lowercase own = own
         \<and> n \<noteq> [] \<and> CHR ''@'' \<notin> set n)"
proof (cases "split_once CHR ''/'' s")
  case None
  with assms show ?thesis by (simp add: split_repo_def)
next
  case (Some p)
  obtain h a where p: "p = (h, a)" by (cases p)
  with Some have h: "CHR ''/'' \<notin> set h" by (simp add: split_once_Some)
  show ?thesis
  proof (cases "h = [] \<or> contains_any ''@~#:'' h")
    case True
    with assms Some p show ?thesis by (auto simp: split_repo_def)
  next
    case False
    with h have "\<not> contains_any ''@~#:/'' h" and "h \<noteq> []" by (auto simp: contains_any_iff)
    then have "valid_owner (to_ascii_lowercase h)"
      unfolding valid_owner_def contains_any_lower by (simp add: to_ascii_lowercase_def)
    moreover obtain n where "r = Some (Slug (to_ascii_lowercase h) n)" and "n \<noteq> []"
      and "CHR ''@'' \<notin> set n"
    proof (cases "split_once CHR ''@'' a")
      case None
      with assms Some p False that show ?thesis
        by (auto simp: split_repo_def split: if_splits)
    next
      case (Some q)
      with assms \<open>split_once CHR ''/'' s = Some p\<close> p False that show ?thesis
        by (cases q) (auto simp: split_repo_def split_once_Some split: if_splits)
    qed
    ultimately show ?thesis by simp
  qed
qed

lemma parse_local_sound:
  assumes "parse_local name t = Inr rs"
  shows "tail rs = t \<and> parsed_repo_base (repo rs) (base rs) (tail rs)"
  using assms
  by (auto simp: parse_local_def r_bind_eq_Inr split: option.splits prod.splits if_splits)

section \<open>Theorems\<close>

text \<open>
  C20. Round trip. Printing a well-formed reference (any repository form, base and tail selector)
  and parsing the text gives the same reference back: no two well-formed references have the
  same text and the parser reads each of them.
\<close>

theorem parse_render:
  assumes "wf_spec rs"
  shows "parse (render rs) = Inr rs"
proof -
  obtain r b t where rs: "rs = \<lparr>repo = r, base = b, tail = t\<rparr>" by (cases rs)
  from assms have wf: "wf_tail t" "wf_repo_base r b t" and trim: "trim (render rs) = render rs"
    by (simp_all add: wf_spec_def rs)
  show ?thesis
  proof (cases r)
    case Context
    with wf trim show ?thesis by (simp add: rs render_def parse_context)
  next
    case (Slug own n)
    with wf trim show ?thesis
      by (auto simp: rs render_def parse_slug parse_slug_default)
  next
    case (Local l)
    with wf trim show ?thesis by (simp add: rs render_def parse_local_repo)
  qed
qed

theorem parse_render_witness:
  "parse (render \<lparr>repo = Slug ''alice'' ''payments'', base = Name ''fix/retry'', tail = Event 8 2\<rparr>)
   = Inr \<lparr>repo = Slug ''alice'' ''payments'', base = Name ''fix/retry'', tail = Event 8 2\<rparr>"
  by (rule parse_render) code_simp

text \<open>
  Soundness of the parser. Whatever text is accepted, the resulting reference names a base:
  a bare \<open>@\<close> or a valid ref name (never a captured session branch), the default only behind a
  repository; an owner is non-empty, lower case and free of selector characters; turn numbers are
  never 0; a path is non-empty.
\<close>

theorem parse_sound:
  assumes "parse s = Inr rs"
  shows "wf_tail (tail rs) \<and> parsed_repo_base (repo rs) (base rs) (tail rs)"
proof -
  from assms obtain r rest bs t where ne: "trim s \<noteq> []"
    and r: "split_repo (trim s) = Inr (r, rest)" and bs: "split_tail rest = Inr (bs, t)"
    by (auto simp: parse_def Let_def r_bind_eq_Inr split: if_splits)
  from split_repo_sound [OF r] ne split_tail_wf [OF bs] assms r bs show ?thesis
    by (auto simp: parse_def Let_def r_bind_eq_Inr dest!: parse_local_sound
        split: option.splits if_splits)
qed

theorem parse_sound_witness:
  "wf_tail (Range 1 LAST_TURN) \<and> parsed_repo_base (Local ''payments'') (Name ''main'') (Range 1 LAST_TURN)"
proof -
  have "parse ''payments@main#1..#-1''
        = Inr \<lparr>repo = Local ''payments'', base = Name ''main'', tail = Range 1 LAST_TURN\<rparr>"
    by code_simp
  from parse_sound [OF this] show ?thesis by simp
qed

text \<open>
  The two spellings of the last turn. The literal \<open>#4294967295\<close> is a turn number the parser
  accepts, and it denotes the last turn like \<open>#-1\<close>: the internal marker \<open>u32::MAX\<close> is not excluded
  from what a user can write.
\<close>

theorem max_turn_reads_as_last:
  assumes "valid_ref_name n" and "CHR ''/'' \<notin> set n"
    and "trim (n @ ''#4294967295'') = n @ ''#4294967295''" and "trim (n @ ''#-1'') = n @ ''#-1''"
  shows "parse (n @ ''#4294967295'') = parse (n @ ''#-1'')"
proof -
  have "parse_turn_selector ''4294967295'' = parse_turn_selector ''-1''"
    by code_simp
  moreover have "split_tail (n @ CHR ''#'' # sel)
      = r_bind (parse_turn_selector sel) (\<lambda>t. Inr (Some n, t))"
    if "CHR '':'' \<notin> set sel" and "CHR ''~'' \<notin> set sel" for sel
    using that assms(1)
    by (cases "parse_turn_selector sel")
      (simp_all add: split_tail_def peel_path_def peel_tilde_def peel_hash_def valid_ref_name_chars)
  ultimately have "split_tail (n @ ''#4294967295'') = split_tail (n @ ''#-1'')"
    by simp
  with assms show ?thesis by (simp add: parse_def split_repo_none)
qed

theorem max_turn_reads_as_last_witness:
  "parse (''main'' @ ''#4294967295'') = parse (''main'' @ ''#-1'')"
  by (rule max_turn_reads_as_last) code_simp+

end
