(* ===== verification/RefChain.thy ===== *)
theory RefChain
  imports Refs
begin

text \<open>
  The first-parent chain of a branch with the metadata of its commits, and how \<open>ref#n\<close> names a
  turn on it (\<open>Chain\<close> of \<open>src/domain/refs.rs\<close>): the label of a commit, the runs of commits that
  settle one turn, the lookup of a turn and of the LOG lines it added. The loop of \<open>runs\<close> is shown
  equal to a reference definition (the first maximal block of every ordinal), and the lookups are
  characterised over it.
\<close>

section \<open>Data\<close>

datatype Kind = KTurn | KMerge | KView | KFile | KArchive

datatype Line = LSession | LFile

text \<open>The fields of \<open>session/meta.json\<close> that the chain reads.\<close>

record Meta =
  line :: Line
  session :: string
  kind :: Kind
  turn :: "u32 option"

record ChainEntry =
  sha :: string
  meta :: "Meta option"

record Chain =
  entries :: "ChainEntry list"
  declared :: bool

datatype chain_error =
    NoSettledTurns
  | TurnNumbersStartAtOne
  | NoSuchTurn u32 "u32 list"
  | ParentMetaMissing u32 string
  | RewritesParentLog u32 string
  | LogUnreadable string

definition is_file_line :: "Meta \<Rightarrow> bool" where
  "is_file_line m \<longleftrightarrow> line m = LFile"

section \<open>Labels, runs and turns\<close>

definition label :: "Chain \<Rightarrow> nat \<Rightarrow> u32 option" where
  "label c i =
     (if \<not> declared c then Some (of_nat i + 1)
      else if i < length (entries c) then
        (case meta (entries c ! i) of
           None \<Rightarrow> None
         | Some m \<Rightarrow> (if kind m = KTurn then turn m else None))
      else None)"

text \<open>
  \<open>runs.last_mut().expect(..).1.push(i)\<close>. The empty case is the panic of \<open>expect\<close>; the loop
  reaches it in no state (\<open>runs_loop_open\<close>).
\<close>

fun push_last :: "('t \<times> nat list) list \<Rightarrow> nat \<Rightarrow> ('t \<times> nat list) list" where
  "push_last [] i = []"
| "push_last [(t, ps)] i = [(t, ps @ [i])]"
| "push_last (r # rs) i = r # push_last rs i"

type_synonym runs_state = "(u32 \<times> nat list) list \<times> u32 set \<times> u32 option"

definition runs_step :: "Chain \<Rightarrow> nat \<Rightarrow> runs_state \<Rightarrow> runs_state" where
  "runs_step c i st =
     (case st of (rs, seen, op) \<Rightarrow>
        (case label c i of
           None \<Rightarrow> (rs, seen, op)
         | Some t \<Rightarrow>
             if op = Some t then (push_last rs i, seen, op)
             else if t \<notin> seen then (rs @ [(t, [i])], insert t seen, Some t)
             else (rs, seen, None)))"

definition runs :: "Chain \<Rightarrow> (u32 \<times> nat list) list" where
  "runs c = fst (fold (runs_step c) [0..<length (entries c)] ([], {}, None))"

definition turns :: "Chain \<Rightarrow> (u32 \<times> string) list" where
  "turns c = map (\<lambda>(t, parts). (t, sha (entries c ! last parts))) (runs c)"

definition turn_parts :: "Chain \<Rightarrow> u32 \<Rightarrow> chain_error + u32 \<times> nat list" where
  "turn_parts c n =
     (let rs = runs c
      in if rs = [] then Inl NoSettledTurns
         else if n = LAST_TURN then
           (case find (\<lambda>i. label c i \<noteq> None) (rev [0..<length (entries c)]) of
              None \<Rightarrow> Inl NoSettledTurns \<comment> \<open>the panic of \<open>expect\<close>, see \<open>turn_parts_last\<close>\<close>
            | Some latest \<Rightarrow>
                if latest \<in> set (snd (last rs)) then Inr (last rs)
                else Inr (the (label c latest), [latest]))
         else if n = 0 then Inl TurnNumbersStartAtOne
         else ok_or (find (\<lambda>r. fst r = n) rs) (NoSuchTurn n (map fst rs)))"

definition turn_in :: "Chain \<Rightarrow> u32 \<Rightarrow> chain_error + u32 \<times> string" where
  "turn_in c n =
     r_bind (turn_parts c n) (\<lambda>(t, parts). Inr (t, sha (entries c ! last parts)))"

definition count_turns :: "Chain \<Rightarrow> u32" where
  "count_turns c = of_nat (length (turns c))"

definition real_turn :: "Chain \<Rightarrow> u32 \<Rightarrow> chain_error + u32" where
  "real_turn c n =
     (if n \<noteq> LAST_TURN then Inr n else r_bind (turn_in c n) (\<lambda>t. Inr (fst t)))"

section \<open>The LOG lines of a turn\<close>

text \<open>
  One iteration of \<open>turn_lines_with\<close>: the part's LOG, its first parent's LOG (empty for the root,
  for a file line and for a parent that claims no session), the append-only check and the line
  numbers added. \<open>log_at\<close> reads one commit's LOG.
\<close>

definition parent_log ::
    "Chain \<Rightarrow> (string \<Rightarrow> chain_error + string) \<Rightarrow> u32 \<Rightarrow> nat \<Rightarrow> chain_error + string" where
  "parent_log c log_at t i =
     (case i of
        0 \<Rightarrow> Inr []
      | Suc j \<Rightarrow>
          (let p = entries c ! j
           in case meta p of
                None \<Rightarrow> Inl (ParentMetaMissing t (sha (entries c ! i)))
              | Some m \<Rightarrow>
                  if is_file_line m \<or> session m = [] then Inr [] else log_at (sha p)))"

definition part_lines ::
    "Chain \<Rightarrow> (string \<Rightarrow> chain_error + string) \<Rightarrow> u32 \<Rightarrow> nat
      \<Rightarrow> nat list \<times> (string \<times> string) option
      \<Rightarrow> chain_error + nat list \<times> (string \<times> string) option" where
  "part_lines c log_at t i acc =
     r_bind (log_at (sha (entries c ! i))) (\<lambda>this.
     r_bind (parent_log c log_at t i) (\<lambda>previous.
     r_bind (ensure (prefix previous this) (RewritesParentLog t (sha (entries c ! i)))) (\<lambda>_.
       Inr (fst acc @ [lines_count previous..<lines_count this],
            Some (sha (entries c ! i), this)))))"

definition turn_lines_with ::
    "Chain \<Rightarrow> u32 \<Rightarrow> (string \<Rightarrow> chain_error + string)
      \<Rightarrow> chain_error + u32 \<times> nat list \<times> string \<times> string" where
  "turn_lines_with c n log_at =
     r_bind (turn_parts c n) (\<lambda>(t, parts).
     r_bind (r_fold (part_lines c log_at t) parts ([], None)) (\<lambda>(lines, lst).
       case lst of
         Some (s, log) \<Rightarrow> Inr (t, lines, s, log)
       | None \<Rightarrow> Inl NoSettledTurns \<comment> \<open>the panic of \<open>expect\<close>: a turn has a part\<close>))"

section \<open>Reference definition: the first block of every ordinal\<close>

text \<open>The commits that carry a label, in chain order.\<close>

definition labelled :: "Chain \<Rightarrow> (nat \<times> u32) list" where
  "labelled c = concat (map (\<lambda>i. case label c i of None \<Rightarrow> [] | Some t \<Rightarrow> [(i, t)])
                         [0..<length (entries c)])"

text \<open>Maximal blocks of consecutive labelled commits with one ordinal.\<close>

function blocks :: "(nat \<times> 't) list \<Rightarrow> ('t \<times> nat list) list" where
  "blocks [] = []"
| "blocks ((i, t) # xs) =
     (t, i # map fst (takeWhile (\<lambda>p. snd p = t) xs)) # blocks (dropWhile (\<lambda>p. snd p = t) xs)"
  by pat_completeness auto
termination
  by (relation "measure length") (auto simp: le_imp_less_Suc length_dropWhile_le)

text \<open>Of every ordinal the first block.\<close>

fun keep_first :: "'t set \<Rightarrow> ('t \<times> 'v) list \<Rightarrow> ('t \<times> 'v) list" where
  "keep_first seen [] = []"
| "keep_first seen ((t, v) # xs) =
     (if t \<in> seen then keep_first seen xs else (t, v) # keep_first (insert t seen) xs)"

definition runs_ref :: "Chain \<Rightarrow> (u32 \<times> nat list) list" where
  "runs_ref c = keep_first {} (blocks (labelled c))"

text \<open>The loop, over the labelled commits only.\<close>

fun runs_loop :: "(nat \<times> 't) list \<Rightarrow> ('t \<times> nat list) list \<times> 't set \<times> 't option
    \<Rightarrow> ('t \<times> nat list) list \<times> 't set \<times> 't option" where
  "runs_loop [] st = st"
| "runs_loop ((i, t) # xs) (rs, seen, op) =
     runs_loop xs
       (if op = Some t then (push_last rs i, seen, op)
        else if t \<notin> seen then (rs @ [(t, [i])], insert t seen, Some t)
        else (rs, seen, None))"

lemma push_last_snoc [simp]: "push_last (rs @ [(t, ps)]) i = rs @ [(t, ps @ [i])]"
proof (induction rs)
  case Nil
  then show ?case by simp
next
  case (Cons r rs)
  then show ?case by (cases rs) auto
qed

lemma runs_loop_append: "runs_loop (xs @ ys) st = runs_loop ys (runs_loop xs st)"
  by (induction xs st rule: runs_loop.induct) simp_all

lemma runs_step_loop:
  "runs_step c i st = runs_loop (case label c i of None \<Rightarrow> [] | Some t \<Rightarrow> [(i, t)]) st"
  by (cases st) (auto simp: runs_step_def split: option.splits)

lemma fold_runs_step:
  "fold (runs_step c) is st =
   runs_loop (concat (map (\<lambda>i. case label c i of None \<Rightarrow> [] | Some t \<Rightarrow> [(i, t)]) is)) st"
  by (induction "is" arbitrary: st) (simp_all add: runs_step_loop runs_loop_append)

lemma runs_via_loop: "runs c = fst (runs_loop (labelled c) ([], {}, None))"
  by (simp add: runs_def labelled_def fold_runs_step)

text \<open>With a run open, the loop first extends it by the rest of its block.\<close>

lemma runs_loop_block:
  "runs_loop xs (rs @ [(t, ps)], seen, Some t)
   = runs_loop (dropWhile (\<lambda>p. snd p = t) xs)
       (rs @ [(t, ps @ map fst (takeWhile (\<lambda>p. snd p = t) xs))], seen, Some t)"
proof (induction xs arbitrary: ps)
  case Nil
  then show ?case by simp
next
  case (Cons x xs)
  then show ?case by (cases x) simp
qed

text \<open>A block of an ordinal that was seen before leaves no trace.\<close>

lemma runs_loop_seen_block:
  "t \<in> seen \<Longrightarrow> runs_loop xs (rs, seen, None)
     = runs_loop (dropWhile (\<lambda>p. snd p = t) xs) (rs, seen, None)"
proof (induction xs)
  case Nil
  then show ?case by simp
next
  case (Cons x xs)
  then show ?case by (cases x) simp
qed

lemma runs_loop_blocks:
  assumes "op = None \<or> (xs \<noteq> [] \<longrightarrow> op \<noteq> Some (snd (hd xs)))"
  shows "fst (runs_loop xs (rs, seen, op)) = rs @ keep_first seen (blocks xs)"
  using assms
proof (induction xs arbitrary: rs seen op rule: blocks.induct)
  case 1
  then show ?case by simp
next
  case (2 i t xs)
  let ?d = "dropWhile (\<lambda>p. snd p = t) xs"
  have hd_d: "?d \<noteq> [] \<Longrightarrow> snd (hd ?d) \<noteq> t" by (rule hd_dropWhile)
  from "2.prems" have op: "op \<noteq> Some t" by auto
  show ?case
  proof (cases "t \<in> seen")
    case True
    with op have "runs_loop ((i, t) # xs) (rs, seen, op) = runs_loop xs (rs, seen, None)" by simp
    also have "\<dots> = runs_loop ?d (rs, seen, None)" by (rule runs_loop_seen_block [OF True])
    finally have "runs_loop ((i, t) # xs) (rs, seen, op) = runs_loop ?d (rs, seen, None)" .
    with True "2.IH" [of None rs seen] show ?thesis by simp
  next
    case False
    with op have "runs_loop ((i, t) # xs) (rs, seen, op)
        = runs_loop xs (rs @ [(t, [i])], insert t seen, Some t)" by simp
    also have "\<dots> = runs_loop ?d
        (rs @ [(t, [i] @ map fst (takeWhile (\<lambda>p. snd p = t) xs))], insert t seen, Some t)"
      by (rule runs_loop_block)
    finally have "runs_loop ((i, t) # xs) (rs, seen, op) = runs_loop ?d
        (rs @ [(t, i # map fst (takeWhile (\<lambda>p. snd p = t) xs))], insert t seen, Some t)" by simp
    moreover from hd_d have "Some t = None \<or> (?d \<noteq> [] \<longrightarrow> Some t \<noteq> Some (snd (hd ?d)))"
      by (metis option.inject)
    then have "fst (runs_loop ?d (rs @ [(t, i # map fst (takeWhile (\<lambda>p. snd p = t) xs))], insert t seen, Some t))
        = (rs @ [(t, i # map fst (takeWhile (\<lambda>p. snd p = t) xs))]) @ keep_first (insert t seen) (blocks ?d)"
      by (rule "2.IH")
    ultimately show ?thesis using False by simp
  qed
qed

lemma runs_eq_ref: "runs c = runs_ref c"
  by (simp add: runs_via_loop runs_ref_def runs_loop_blocks)

section \<open>Lemmas on labelled commits, blocks and first blocks\<close>

lemma set_labelled: "set (labelled c) = {(i, t). i < length (entries c) \<and> label c i = Some t}"
  by (auto simp: labelled_def split: option.splits)

lemma labelled_upt:
  "map fst (concat (map (\<lambda>i. case label c i of None \<Rightarrow> [] | Some t \<Rightarrow> [(i, t)]) xs))
   = filter (\<lambda>i. label c i \<noteq> None) xs"
  by (induction xs) (auto split: option.splits)

lemma fst_labelled: "map fst (labelled c) = filter (\<lambda>i. label c i \<noteq> None) [0..<length (entries c)]"
  unfolding labelled_def by (rule labelled_upt)

lemma labelled_sorted: "sorted_wrt (<) (map fst (labelled c))"
  by (simp add: fst_labelled sorted_wrt_filter)

lemma labelled_eq_Nil: "labelled c = [] \<longleftrightarrow> (\<forall>i < length (entries c). label c i = None)"
proof -
  have "labelled c = [] \<longleftrightarrow> map fst (labelled c) = []" by simp
  then show ?thesis unfolding fst_labelled by (auto simp: filter_empty_conv)
qed

lemma keys_blocks: "fst ` set (blocks xs) = snd ` set xs"
proof (induction xs rule: blocks.induct)
  case 1
  then show ?case by simp
next
  case (2 i t xs)
  have "snd ` set xs = snd ` set (takeWhile (\<lambda>p. snd p = t) xs) \<union> snd ` set (dropWhile (\<lambda>p. snd p = t) xs)"
    by (metis image_Un set_append takeWhile_dropWhile_id)
  moreover have "snd ` set (takeWhile (\<lambda>p. snd p = t) xs) \<subseteq> {t}"
    by (auto dest: set_takeWhileD)
  ultimately show ?case using 2 by auto
qed

lemma blocks_eq_Nil [simp]: "blocks xs = [] \<longleftrightarrow> xs = []"
  by (cases xs rule: blocks.cases) auto

text \<open>The first block of an ordinal, as a stretch of the list.\<close>

lemma find_block:
  assumes "find (\<lambda>b. fst b = n) (blocks xs) = Some b"
  shows "\<exists>us vs ws. xs = us @ vs @ ws \<and> n \<notin> snd ` set us \<and> vs \<noteq> [] \<and> (\<forall>p \<in> set vs. snd p = n)
           \<and> b = (n, map fst vs) \<and> (ws \<noteq> [] \<longrightarrow> snd (hd ws) \<noteq> n)"
  using assms
proof (induction xs rule: blocks.induct)
  case 1
  then show ?case by simp
next
  case (2 i t xs)
  let ?t = "takeWhile (\<lambda>p. snd p = t) xs" and ?d = "dropWhile (\<lambda>p. snd p = t) xs"
  show ?case
  proof (cases "t = n")
    case True
    with "2.prems" have "b = (n, map fst ((i, t) # ?t))" by simp
    moreover have "(i, t) # xs = [] @ ((i, t) # ?t) @ ?d" by simp
    moreover have "?d \<noteq> [] \<longrightarrow> snd (hd ?d) \<noteq> n" using hd_dropWhile [of "\<lambda>p. snd p = t" xs] True by metis
    moreover have "\<forall>p \<in> set ((i, t) # ?t). snd p = n" using True by (auto dest: set_takeWhileD)
    ultimately show ?thesis by (metis list.distinct(1) empty_iff image_empty list.set(1))
  next
    case False
    with "2.prems" have "find (\<lambda>b. fst b = n) (blocks ?d) = Some b" by simp
    from "2.IH" [OF this] obtain us vs ws where *: "?d = us @ vs @ ws" "n \<notin> snd ` set us" "vs \<noteq> []"
      "\<forall>p \<in> set vs. snd p = n" "b = (n, map fst vs)" "ws \<noteq> [] \<longrightarrow> snd (hd ws) \<noteq> n" by blast
    have "(i, t) # xs = ((i, t) # ?t @ us) @ vs @ ws"
      using *(1) takeWhile_dropWhile_id [of "\<lambda>p. snd p = t" xs] by simp
    moreover have "n \<notin> snd ` set ((i, t) # ?t @ us)"
      using *(2) False by (auto dest: set_takeWhileD)
    ultimately show ?thesis using *(3-6) by blast
  qed
qed

lemma find_block_None: "find (\<lambda>b. fst b = n) (blocks xs) = None \<longleftrightarrow> n \<notin> snd ` set xs"
  unfolding keys_blocks [symmetric] find_None_iff by (auto intro: rev_image_eqI)

lemma keys_keep_first: "fst ` set (keep_first seen bs) = fst ` set bs - seen"
  by (induction seen bs rule: keep_first.induct) auto

lemma distinct_keep_first: "distinct (map fst (keep_first seen bs))"
  by (induction seen bs rule: keep_first.induct) (simp_all add: keys_keep_first)

lemma find_keep_first:
  "n \<notin> seen \<Longrightarrow> find (\<lambda>b. fst b = n) (keep_first seen bs) = find (\<lambda>b. fst b = n) bs"
  by (induction seen bs rule: keep_first.induct) auto

lemma set_keep_first: "set (keep_first seen bs) \<subseteq> set bs"
  by (induction seen bs rule: keep_first.induct) auto

lemma runs_eq_Nil: "runs c = [] \<longleftrightarrow> labelled c = []"
proof -
  have "fst ` set (runs c) = snd ` set (labelled c)"
    by (simp add: runs_eq_ref runs_ref_def keys_keep_first keys_blocks)
  then show ?thesis by (metis image_is_empty set_empty)
qed

lemma find_runs: "find (\<lambda>r. fst r = n) (runs c) = find (\<lambda>b. fst b = n) (blocks (labelled c))"
  by (simp add: runs_eq_ref runs_ref_def find_keep_first)

lemma blocks_parts:
  assumes "(t, ps) \<in> set (blocks xs)"
  shows "ps \<noteq> []" and "\<forall>i \<in> set ps. (i, t) \<in> set xs"
  using assms
proof (induction xs rule: blocks.induct)
  case (2 i t' xs)
  { case 1 with 2 show ?case by auto }
  { case 2
    with "2.IH"(2) show ?case
      by (fastforce dest: set_takeWhileD set_dropWhileD) }
qed simp_all

lemma sublist_sorted_parts:
  "(t, ps) \<in> set (blocks xs) \<Longrightarrow> sorted_wrt (<) (map fst xs) \<Longrightarrow> sorted_wrt (<) ps"
proof (induction xs rule: blocks.induct)
  case (2 i t' xs)
  let ?P = "\<lambda>p. snd p = t'"
  have split: "map fst xs = map fst (takeWhile ?P xs) @ map fst (dropWhile ?P xs)"
    by (metis map_append takeWhile_dropWhile_id)
  from "2.prems"(2) have "sorted_wrt (<) (map fst (dropWhile ?P xs))"
    and "sorted_wrt (<) (i # map fst (takeWhile ?P xs))"
    by (simp_all add: split sorted_wrt_append)
  with 2 show ?case by auto
qed simp_all

section \<open>Lookups\<close>

text \<open>The first run of \<open>n\<close> as a stretch of the labelled commits.\<close>

definition first_run :: "Chain \<Rightarrow> u32 \<Rightarrow> (nat \<times> u32) list \<Rightarrow> (nat \<times> u32) list \<Rightarrow> (nat \<times> u32) list \<Rightarrow> bool" where
  "first_run c n us vs ws \<longleftrightarrow>
     labelled c = us @ vs @ ws \<and> n \<notin> snd ` set us \<and> vs \<noteq> [] \<and> (\<forall>p \<in> set vs. snd p = n)
     \<and> (ws \<noteq> [] \<longrightarrow> snd (hd ws) \<noteq> n)"

lemma turn_in_named:
  assumes "n \<noteq> LAST_TURN" and "turn_in c n = Inr (t, s)"
  obtains us vs ws where "first_run c n us vs ws" "t = n" "s = sha (entries c ! fst (last vs))"
proof -
  from assms obtain ps where "find (\<lambda>r. fst r = n) (runs c) = Some (t, ps)"
    and s: "s = sha (entries c ! last ps)"
    by (auto simp: turn_in_def turn_parts_def Let_def r_bind_eq_Inr ok_or_eq split: if_splits)
  then have "find (\<lambda>b. fst b = n) (blocks (labelled c)) = Some (t, ps)" by (simp add: find_runs)
  from find_block [OF this] obtain us vs ws where run: "first_run c n us vs ws"
    and tp: "(t, ps) = (n, map fst vs)"
    unfolding first_run_def by blast
  from run tp s have "s = sha (entries c ! fst (last vs))" by (simp add: last_map first_run_def)
  with run tp that show ?thesis by blast
qed

text \<open>Positions in a strictly sorted list of labelled commits.\<close>

lemma labelled_mem: "(i, t) \<in> set (labelled c) \<longleftrightarrow> i < length (entries c) \<and> label c i = Some t"
  by (simp add: set_labelled)

lemma labelled_split_less:
  assumes "labelled c = xs @ ys" and "p \<in> set xs" and "q \<in> set ys"
  shows "fst p < fst q"
  using labelled_sorted [of c] assms by (auto simp: sorted_wrt_append)

lemma labelled_split_cases:
  assumes "labelled c = us @ vs @ ws" and "k < length (entries c)" and "label c k = Some t"
  shows "(k, t) \<in> set us \<or> (k, t) \<in> set vs \<or> (k, t) \<in> set ws"
proof -
  from assms(2,3) have "(k, t) \<in> set (labelled c)" by (simp add: labelled_mem)
  with assms(1) show ?thesis by auto
qed

lemma last_labelled:
  assumes "labelled c \<noteq> []"
  shows "find (\<lambda>i. label c i \<noteq> None) (rev [0..<length (entries c)]) = Some (fst (last (labelled c)))"
proof -
  let ?P = "\<lambda>i. label c i \<noteq> None" and ?xs = "[0..<length (entries c)]"
  have "find ?P (rev ?xs) = (case filter ?P (rev ?xs) of [] \<Rightarrow> None | x # _ \<Rightarrow> Some x)"
    by (rule find_filter)
  also have "filter ?P (rev ?xs) = rev (map fst (labelled c))"
    by (simp add: fst_labelled rev_filter)
  finally show ?thesis using assms
    by (cases "labelled c" rule: rev_cases) auto
qed

lemma turn_parts_last:
  assumes "labelled c \<noteq> []"
  shows "\<exists>ps. turn_parts c LAST_TURN = Inr (snd (last (labelled c)), ps)
           \<and> ps \<noteq> [] \<and> last ps = fst (last (labelled c))"
proof -
  let ?l = "last (labelled c)"
  have mem: "?l \<in> set (labelled c)" using assms by simp
  then have lab: "label c (fst ?l) = Some (snd ?l)" by (metis labelled_mem surjective_pairing)
  from assms have ne: "runs c \<noteq> []" by (simp add: runs_eq_Nil)
  obtain t ps where tp: "last (runs c) = (t, ps)" by (cases "last (runs c)")
  with ne have "(t, ps) \<in> set (runs c)" by (metis last_in_set)
  then have b: "(t, ps) \<in> set (blocks (labelled c))"
    using set_keep_first by (auto simp: runs_eq_ref runs_ref_def)
  have unfold: "turn_parts c LAST_TURN
      = (if fst ?l \<in> set ps then Inr (t, ps) else Inr (snd ?l, [fst ?l]))"
    using ne last_labelled [OF assms] lab tp by (simp add: turn_parts_def Let_def)
  show ?thesis
  proof (cases "fst ?l \<in> set ps")
    case True
    from blocks_parts(2) [OF b] have in_l: "\<forall>i \<in> set ps. (i, t) \<in> set (labelled c)" .
    with True lab have t: "t = snd ?l" by (simp add: labelled_mem)
    have "fst p \<le> fst ?l" if "p \<in> set (labelled c)" for p
    proof (cases "p = ?l")
      case False
      from assms obtain xs where "labelled c = xs @ [?l]" by (metis append_butlast_last_id)
      with that False labelled_split_less [of c xs "[?l]" p ?l] show ?thesis
        by (metis Un_iff empty_iff empty_set less_imp_le list.set_intros(1) set_ConsD set_append)
    qed simp
    with in_l have le: "\<forall>i \<in> set ps. i \<le> fst ?l" by force
    have "sorted_wrt (<) ps" using b labelled_sorted by (rule sublist_sorted_parts)
    with True le have "last ps = fst ?l"
    proof (cases ps rule: rev_cases)
      case (snoc qs q)
      with \<open>sorted_wrt (<) ps\<close> True le show ?thesis
        by (auto simp: sorted_wrt_append)
    qed simp
    moreover from True have "ps \<noteq> []" by auto
    ultimately show ?thesis using unfold True t by simp
  next
    case False
    with unfold show ?thesis by simp
  qed
qed

text \<open>Where the first run of an ordinal lies on the chain.\<close>

lemma first_run_ends:
  assumes run: "first_run c n us vs ws"
  shows "fst (hd vs) \<le> fst (last vs)" and "fst (last vs) < length (entries c)"
    and "label c (fst (hd vs)) = Some n" and "label c (fst (last vs)) = Some n"
proof -
  from run have l: "labelled c = us @ vs @ ws" and ne: "vs \<noteq> []" and vs: "\<forall>p \<in> set vs. snd p = n"
    by (simp_all add: first_run_def)
  from ne vs have "(fst (hd vs), n) \<in> set vs" "(fst (last vs), n) \<in> set vs"
    by (metis hd_in_set last_in_set prod.collapse)+
  with l show "label c (fst (hd vs)) = Some n" "label c (fst (last vs)) = Some n"
    "fst (last vs) < length (entries c)"
    by (metis Un_iff labelled_mem set_append)+
  obtain v vs' where v: "vs = v # vs'" using ne by (cases vs) auto
  show "fst (hd vs) \<le> fst (last vs)"
  proof (cases vs')
    case Nil
    with v show ?thesis by simp
  next
    case (Cons w vs'')
    with v l have "labelled c = (us @ [v]) @ (vs' @ ws)" and "last vs \<in> set (vs' @ ws)" by auto
    from labelled_split_less [OF this(1) _ this(2), of v] v show ?thesis by simp
  qed
qed

lemma first_run_before:
  assumes run: "first_run c n us vs ws" and k: "k < fst (hd vs)"
  shows "label c k \<noteq> Some n"
proof
  assume lab: "label c k = Some n"
  from run have l: "labelled c = us @ vs @ ws" and us: "n \<notin> snd ` set us" and ne: "vs \<noteq> []"
    by (simp_all add: first_run_def)
  obtain v vs' where v: "vs = v # vs'" using ne by (cases vs) auto
  from k first_run_ends [OF run] have "k < length (entries c)" by simp
  from labelled_split_cases [OF l this lab] us have "(k, n) \<in> set vs \<or> (k, n) \<in> set ws" by force
  with v k have "(k, n) \<in> set (vs' @ ws)" by auto
  with v l k labelled_split_less [of c "us @ [v]" "vs' @ ws" v "(k, n)"] show False by simp
qed

lemma first_run_within:
  assumes run: "first_run c n us vs ws" and k: "fst (hd vs) \<le> k" "k \<le> fst (last vs)"
  shows "label c k = None \<or> label c k = Some n"
proof (cases "label c k")
  case (Some u)
  from run have l: "labelled c = us @ vs @ ws" and ne: "vs \<noteq> []" and vs: "\<forall>p \<in> set vs. snd p = n"
    by (simp_all add: first_run_def)
  from k first_run_ends [OF run] have "k < length (entries c)" by simp
  from labelled_split_cases [OF l this Some]
  consider "(k, u) \<in> set us" | "(k, u) \<in> set vs" | "(k, u) \<in> set ws" by blast
  then show ?thesis
  proof cases
    case 1
    with labelled_split_less [of c us "vs @ ws" "(k, u)" "hd vs"] l ne k show ?thesis by simp
  next
    case 2
    with vs Some show ?thesis by force
  next
    case 3
    with labelled_split_less [of c "us @ vs" ws "last vs" "(k, u)"] l ne k show ?thesis by simp
  qed
qed simp

lemma first_run_after:
  assumes run: "first_run c n us vs ws"
    and k: "fst (last vs) < k" "k < length (entries c)" "label c k = Some n"
  shows "\<exists>m. fst (last vs) < m \<and> m < k \<and> label c m \<noteq> None \<and> label c m \<noteq> Some n"
proof -
  from run have l: "labelled c = us @ vs @ ws" and us: "n \<notin> snd ` set us" and ne: "vs \<noteq> []"
    and ws: "ws \<noteq> [] \<longrightarrow> snd (hd ws) \<noteq> n" by (simp_all add: first_run_def)
  obtain vs' where v: "vs = vs' @ [last vs]" using ne by (metis append_butlast_last_id)
  have "(k, n) \<notin> set vs"
  proof
    assume "(k, n) \<in> set vs"
    with v k(1) have "(k, n) \<in> set vs'"
      by (metis Un_iff fst_conv less_irrefl list.set(1) list.set(2) empty_iff insert_iff set_append)
    moreover have "labelled c = (us @ vs') @ (last vs # ws)" using l v by simp
    ultimately show False
      using labelled_split_less [of c "us @ vs'" "last vs # ws" "(k, n)" "last vs"] k by simp
  qed
  with labelled_split_cases [OF l k(2,3)] us have kw: "(k, n) \<in> set ws" by force
  then obtain w ws' where w: "ws = w # ws'" by (cases ws) auto
  with ws kw have wn: "snd w \<noteq> n" and "(k, n) \<in> set ws'" by auto
  with w l have "fst w < k"
    using labelled_split_less [of c "us @ vs @ [w]" ws' w "(k, n)"] by simp
  moreover have "fst (last vs) < fst w"
    using labelled_split_less [of c "us @ vs" ws "last vs" w] l w ne by simp
  moreover have "label c (fst w) = Some (snd w)"
    using l w by (metis Un_iff labelled_mem list.set_intros(1) prod.collapse set_append)
  ultimately show ?thesis using wn by auto
qed

section \<open>The lines of a turn on an append-only chain\<close>

text \<open>The LOG of a later commit extends the LOG of an earlier one.\<close>

definition log_append_only :: "Chain \<Rightarrow> (string \<Rightarrow> chain_error + string) \<Rightarrow> bool" where
  "log_append_only c log_at \<longleftrightarrow>
     (\<forall>i j a b. i \<le> j \<and> j < length (entries c) \<and> log_at (sha (entries c ! i)) = Inr a
        \<and> log_at (sha (entries c ! j)) = Inr b \<longrightarrow> prefix a b)"

text \<open>From its first settled turn on, the branch is a session line that has claimed its session.\<close>

definition session_kept :: "Chain \<Rightarrow> bool" where
  "session_kept c \<longleftrightarrow>
     (\<forall>i j m. i \<le> j \<and> j < length (entries c) \<and> label c i \<noteq> None \<and> meta (entries c ! j) = Some m
        \<longrightarrow> \<not> is_file_line m \<and> session m \<noteq> [])"

definition lines_inv :: "Chain \<Rightarrow> (string \<Rightarrow> chain_error + string) \<Rightarrow> nat
    \<Rightarrow> nat list \<times> (string \<times> string) option \<Rightarrow> bool" where
  "lines_inv c log_at i acc \<longleftrightarrow>
     sorted_wrt (<) (fst acc) \<and>
     (case snd acc of
        None \<Rightarrow> fst acc = []
      | Some (s, log) \<Rightarrow> \<exists>j < i. j < length (entries c) \<and> label c j \<noteq> None \<and> s = sha (entries c ! j)
          \<and> log_at s = Inr log \<and> (\<forall>l \<in> set (fst acc). l < lines_count log))"

lemma lines_inv_mono: "lines_inv c log_at i acc \<Longrightarrow> i \<le> k \<Longrightarrow> lines_inv c log_at k acc"
  unfolding lines_inv_def by (cases "snd acc") (auto, metis order_less_le_trans)

lemma part_lines_below:
  assumes inv: "lines_inv c log_at i acc" and i: "i < length (entries c)"
    and kept: "session_kept c" and append: "log_append_only c log_at"
    and prev: "parent_log c log_at t i = Inr previous" and l: "l \<in> set (fst acc)"
  shows "l < lines_count previous"
proof -
  from inv l obtain s log j where j: "j < i" "label c j \<noteq> None" "log_at (sha (entries c ! j)) = Inr log"
    and ll: "l < lines_count log"
    by (auto simp: lines_inv_def split: option.splits)
  obtain k where k: "i = Suc k" using j(1) by (cases i) auto
  with prev obtain m where m: "meta (entries c ! k) = Some m"
    by (auto simp: parent_log_def Let_def split: option.splits)
  have "\<not> is_file_line m \<and> session m \<noteq> []"
    using kept j(1,2) i k m unfolding session_kept_def by (metis Suc_lessD less_Suc_eq_le)
  with prev k m have "log_at (sha (entries c ! k)) = Inr previous" by (simp add: parent_log_def)
  then have "prefix log previous"
    using append j(1,3) i k unfolding log_append_only_def by (metis Suc_lessD less_Suc_eq_le)
  then have "lines_count log \<le> lines_count previous"
    by (auto simp: prefix_def lines_count_append)
  with ll show ?thesis by simp
qed

lemma part_lines_inv:
  assumes inv: "lines_inv c log_at i acc" and i: "i < length (entries c)" "label c i \<noteq> None"
    and kept: "session_kept c" and append: "log_append_only c log_at"
    and step: "part_lines c log_at t i acc = Inr acc'"
  shows "lines_inv c log_at (Suc i) acc' \<and> snd acc' \<noteq> None"
proof -
  from step obtain log previous where log: "log_at (sha (entries c ! i)) = Inr log"
    and prev: "parent_log c log_at t i = Inr previous" and pre: "prefix previous log"
    and acc': "acc' = (fst acc @ [lines_count previous..<lines_count log], Some (sha (entries c ! i), log))"
    by (auto simp: part_lines_def r_bind_eq_Inr split: if_splits)
  have below: "\<forall>l \<in> set (fst acc). l < lines_count previous"
    using part_lines_below [OF inv i(1) kept append prev] by blast
  moreover have "lines_count previous \<le> lines_count log"
    using pre by (auto simp: prefix_def lines_count_append)
  moreover have "sorted_wrt (<) (fst acc)" using inv by (simp add: lines_inv_def)
  ultimately show ?thesis
    using i log by (force simp: lines_inv_def acc' sorted_wrt_append)
qed

lemma parts_fold_inv:
  assumes "r_fold (part_lines c log_at t) ps acc = Inr acc'"
    and "lines_inv c log_at i acc" and "sorted_wrt (<) ps" and "ps \<noteq> [] \<Longrightarrow> i \<le> hd ps"
    and "\<forall>p \<in> set ps. p < length (entries c) \<and> label c p \<noteq> None"
    and "session_kept c" "log_append_only c log_at"
  shows "lines_inv c log_at (max i (length (entries c))) acc'"
  using assms
proof (induction ps arbitrary: acc i)
  case Nil
  then show ?case by (auto intro: lines_inv_mono)
next
  case (Cons p ps)
  from Cons.prems(1) obtain b where b: "part_lines c log_at t p acc = Inr b"
    and rest: "r_fold (part_lines c log_at t) ps b = Inr acc'" by (auto simp: r_bind_eq_Inr)
  from Cons.prems(2,4) have "lines_inv c log_at p acc"
    using lines_inv_mono by (metis list.distinct(1) list.sel(1))
  with b Cons.prems(5-7) have "lines_inv c log_at (Suc p) b"
    using part_lines_inv by (metis list.set_intros(1))
  moreover from Cons.prems(3) have "sorted_wrt (<) ps" and "ps \<noteq> [] \<Longrightarrow> Suc p \<le> hd ps"
    by (auto simp: Suc_le_eq)
  moreover have "\<forall>q \<in> set ps. q < length (entries c) \<and> label c q \<noteq> None"
    using Cons.prems(5) by simp
  ultimately have "lines_inv c log_at (max (Suc p) (length (entries c))) acc'"
    using Cons.prems(6,7) by (intro Cons.IH [OF rest])
  moreover from Cons.prems(5) have "Suc p \<le> length (entries c)" by simp
  ultimately show ?case
    using lines_inv_mono by (metis max.absorb2 max.cobounded2)
qed

lemma turn_parts_sorted:
  assumes "turn_parts c n = Inr (t, ps)"
  shows "sorted_wrt (<) ps" and "\<forall>p \<in> set ps. p < length (entries c) \<and> label c p = Some t"
proof -
  have block: "sorted_wrt (<) ps \<and> (\<forall>p \<in> set ps. p < length (entries c) \<and> label c p = Some t)"
    if "(t, ps) \<in> set (runs c)"
  proof -
    from that have b: "(t, ps) \<in> set (blocks (labelled c))"
      using set_keep_first by (auto simp: runs_eq_ref runs_ref_def)
    with sublist_sorted_parts [OF b labelled_sorted] blocks_parts(2) [OF b] show ?thesis
      by (simp add: labelled_mem)
  qed
  from assms consider "(t, ps) \<in> set (runs c)"
    | i where "find (\<lambda>i. label c i \<noteq> None) (rev [0..<length (entries c)]) = Some i"
        "t = the (label c i)" "ps = [i]"
  proof (cases "n = LAST_TURN")
    case True
    with assms that show ?thesis
      by (auto simp: turn_parts_def Let_def split: if_splits option.splits) (metis last_in_set)
  next
    case False
    with assms that(1) show ?thesis
      by (auto simp: turn_parts_def Let_def ok_or_eq dest: find_SomeD split: if_splits)
  qed
  then have "sorted_wrt (<) ps \<and> (\<forall>p \<in> set ps. p < length (entries c) \<and> label c p = Some t)"
  proof cases
    case 2
    then have "i < length (entries c) \<and> label c i \<noteq> None"
      by (auto dest: find_SomeD)
    with 2 show ?thesis by auto
  qed (use block in blast)
  then show "sorted_wrt (<) ps" "\<forall>p \<in> set ps. p < length (entries c) \<and> label c p = Some t"
    by blast+
qed

section \<open>Theorems\<close>

text \<open>
  C21. The single pass of \<open>Chain::runs\<close> computes, for every ordinal, the first maximal block of
  consecutive labelled commits: an ordinal that shows up again after another turn's commit adds
  nothing, and commits without a label do not interrupt a run.
\<close>

theorem runs_are_first_blocks: "runs c = runs_ref c"
  by (rule runs_eq_ref)

text \<open>
  \<open>#n\<close> resolves to the last part of the first run of turn \<open>n\<close>: the commit returned carries the
  ordinal \<open>n\<close>, no commit before the run's first one does, every labelled commit from that first one
  up to the returned one carries \<open>n\<close>, and a later commit with ordinal \<open>n\<close> comes after a commit of
  another turn.
\<close>

theorem turn_in_names_first_run:
  assumes "n \<noteq> LAST_TURN" and "turn_in c n = Inr (t, s)"
  shows "t = n \<and> (\<exists>j i. j \<le> i \<and> i < length (entries c) \<and> s = sha (entries c ! i)
     \<and> label c j = Some n \<and> label c i = Some n
     \<and> (\<forall>k < j. label c k \<noteq> Some n)
     \<and> (\<forall>k. j \<le> k \<and> k \<le> i \<longrightarrow> label c k = None \<or> label c k = Some n)
     \<and> (\<forall>k. i < k \<and> k < length (entries c) \<and> label c k = Some n \<longrightarrow>
          (\<exists>m. i < m \<and> m < k \<and> label c m \<noteq> None \<and> label c m \<noteq> Some n)))"
proof -
  from turn_in_named [OF assms] obtain us vs ws where run: "first_run c n us vs ws"
    and t: "t = n" and s: "s = sha (entries c ! fst (last vs))" by blast
  let ?j = "fst (hd vs)" and ?i = "fst (last vs)"
  have "\<forall>k < ?j. label c k \<noteq> Some n"
    using first_run_before [OF run] by blast
  moreover have "\<forall>k. ?j \<le> k \<and> k \<le> ?i \<longrightarrow> label c k = None \<or> label c k = Some n"
    using first_run_within [OF run] by blast
  moreover have "\<forall>k. ?i < k \<and> k < length (entries c) \<and> label c k = Some n \<longrightarrow>
      (\<exists>m. ?i < m \<and> m < k \<and> label c m \<noteq> None \<and> label c m \<noteq> Some n)"
    using first_run_after [OF run] by blast
  ultimately show ?thesis
    using first_run_ends [OF run] t s by blast
qed

text \<open>A chain with a birth commit, turn 1 settled in two parts around a file commit, and turn 2.\<close>

definition sample_meta :: "Kind \<Rightarrow> u32 option \<Rightarrow> Meta" where
  "sample_meta k t = \<lparr>line = LSession, session = ''agit-0'', kind = k, turn = t\<rparr>"

definition sample_chain :: Chain where
  "sample_chain = \<lparr>entries =
     [\<lparr>sha = ''a'', meta = None\<rparr>, \<lparr>sha = ''b'', meta = Some (sample_meta KTurn (Some 1))\<rparr>,
      \<lparr>sha = ''c'', meta = Some (sample_meta KFile (Some 1))\<rparr>,
      \<lparr>sha = ''d'', meta = Some (sample_meta KTurn (Some 1))\<rparr>,
      \<lparr>sha = ''e'', meta = Some (sample_meta KTurn (Some 2))\<rparr>], declared = True\<rparr>"

theorem turn_in_names_first_run_witness:
  "turn_in sample_chain 1 = Inr (1, ''d'') \<and> (\<exists>j i. j \<le> i \<and> i < length (entries sample_chain)
     \<and> ''d'' = sha (entries sample_chain ! i)
     \<and> label sample_chain j = Some 1 \<and> label sample_chain i = Some 1)"
proof -
  have l: "(1::u32) \<noteq> LAST_TURN" by (simp add: LAST_TURN_def)
  have r: "turn_in sample_chain 1 = Inr (1, ''d'')" by code_simp
  from r turn_in_names_first_run [OF l r] show ?thesis by blast
qed

text \<open>
  \<open>#-1\<close> names the latest commit that settles a turn: whenever some commit of the chain carries
  an ordinal, the lookup returns the ordinal and the sha of the last such commit, also when that
  commit retells an earlier turn.
\<close>

theorem turn_in_last:
  assumes "i < length (entries c)" and "label c i = Some t"
    and "\<forall>k. i < k \<and> k < length (entries c) \<longrightarrow> label c k = None"
  shows "turn_in c LAST_TURN = Inr (t, sha (entries c ! i))"
proof -
  from assms(1,2) have mem: "(i, t) \<in> set (labelled c)" by (simp add: labelled_mem)
  then have ne: "labelled c \<noteq> []" by auto
  let ?l = "last (labelled c)"
  have "?l \<in> set (labelled c)" using ne by simp
  then have lab: "label c (fst ?l) = Some (snd ?l)" and len: "fst ?l < length (entries c)"
    by (metis labelled_mem prod.collapse)+
  with assms(3) have "fst ?l \<le> i" by (metis linorder_not_less option.distinct(1))
  moreover have "i \<le> fst ?l"
  proof (cases "(i, t) = ?l")
    case True
    then show ?thesis by (metis fst_conv order_refl)
  next
    case False
    from ne obtain xs where xs: "labelled c = xs @ [?l]" by (metis append_butlast_last_id)
    with mem False have "(i, t) \<in> set xs"
      by (metis Un_iff empty_iff empty_set set_ConsD set_append)
    with labelled_split_less [of c xs "[?l]" "(i, t)" ?l] xs show ?thesis by simp
  qed
  ultimately have i: "fst ?l = i" by simp
  with lab assms(2) have "snd ?l = t" by simp
  with turn_parts_last [OF ne] i show ?thesis
    by (auto simp: turn_in_def)
qed

theorem turn_in_last_witness: "turn_in sample_chain LAST_TURN = Inr (2, ''e'')"
proof -
  have "turn_in sample_chain LAST_TURN = Inr (2, sha (entries sample_chain ! 4))"
  proof (rule turn_in_last)
    show "4 < length (entries sample_chain)" by (simp add: sample_chain_def)
    show "label sample_chain 4 = Some 2" by code_simp
    show "\<forall>k. 4 < k \<and> k < length (entries sample_chain) \<longrightarrow> label sample_chain k = None"
      by (auto simp: sample_chain_def)
  qed
  then show ?thesis by (simp add: sample_chain_def)
qed

text \<open>
  The LOG line numbers of a turn. On a chain whose LOG only grows and whose session line stays
  one, the numbers \<open>turn_lines_with\<close> collects over the parts of a turn are strictly ascending (so
  \<open>#n.k\<close> never repeats a line and keeps its meaning when a further part lands) and all lie inside
  the LOG returned, which is the LOG of the commit returned.
\<close>

theorem turn_lines_ascending:
  assumes "turn_lines_with c n log_at = Inr (t, lines, s, log)"
    and "session_kept c" and "log_append_only c log_at"
  shows "sorted_wrt (<) lines \<and> (\<forall>l \<in> set lines. l < lines_count log) \<and> log_at s = Inr log"
proof -
  from assms(1) obtain ps where ps: "turn_parts c n = Inr (t, ps)"
    and fold: "r_fold (part_lines c log_at t) ps ([], None) = Inr (lines, Some (s, log))"
    by (auto simp: turn_lines_with_def r_bind_eq_Inr split: option.splits)
  have "lines_inv c log_at 0 ([], None)" by (simp add: lines_inv_def)
  moreover have "\<forall>p \<in> set ps. p < length (entries c) \<and> label c p \<noteq> None"
    using turn_parts_sorted(2) [OF ps] by auto
  ultimately have "lines_inv c log_at (max 0 (length (entries c))) (lines, Some (s, log))"
    using assms(2,3) turn_parts_sorted(1) [OF ps] by (intro parts_fold_inv [OF fold]) simp_all
  then show ?thesis by (auto simp: lines_inv_def)
qed

definition sample_log :: "string \<Rightarrow> chain_error + string" where
  "sample_log s = Inr (if s = ''b'' then [CHR ''x'', CHR 0x0A, CHR ''y'', CHR 0x0A]
     else if s = ''c'' then [CHR ''x'', CHR 0x0A, CHR ''y'', CHR 0x0A]
     else if s = ''d'' \<or> s = ''e'' then [CHR ''x'', CHR 0x0A, CHR ''y'', CHR 0x0A, CHR ''z'', CHR 0x0A]
     else [])"

definition sample_session :: Chain where
  "sample_session = sample_chain\<lparr>entries := tl (entries sample_chain)\<rparr>"

theorem turn_lines_ascending_witness:
  "turn_lines_with sample_session 1 sample_log
     = Inr (1, [0, 1, 2], ''d'', [CHR ''x'', CHR 0x0A, CHR ''y'', CHR 0x0A, CHR ''z'', CHR 0x0A])
   \<and> sorted_wrt (<) [0, 1, 2::nat]"
proof -
  let ?log = "[CHR ''x'', CHR 0x0A, CHR ''y'', CHR 0x0A, CHR ''z'', CHR 0x0A]"
  have run: "turn_lines_with sample_session 1 sample_log = Inr (1, [0, 1, 2], ''d'', ?log)"
    by code_simp
  have len: "length (entries sample_session) = 4"
    by (simp add: sample_session_def sample_chain_def)
  have small: "\<forall>j < 4. P j" if "P 0" "P 1" "P 2" "P 3" for P :: "nat \<Rightarrow> bool"
    using that by (auto simp: less_Suc_eq eval_nat_numeral)
  have "session_kept sample_session"
  proof -
    have "\<forall>j < 4. \<forall>m. meta (entries sample_session ! j) = Some m \<longrightarrow> \<not> is_file_line m \<and> session m \<noteq> []"
      by (rule small) (simp_all add: sample_session_def sample_chain_def sample_meta_def is_file_line_def)
    then show ?thesis unfolding session_kept_def len by blast
  qed
  moreover have "log_append_only sample_session sample_log"
  proof -
    have "\<forall>j < 4. \<forall>i < 4. i \<le> j \<longrightarrow> (\<forall>a b. sample_log (sha (entries sample_session ! i)) = Inr a
        \<and> sample_log (sha (entries sample_session ! j)) = Inr b \<longrightarrow> prefix a b)"
      by (rule small; rule small)
        (simp_all add: sample_session_def sample_chain_def sample_meta_def sample_log_def)
    then show ?thesis unfolding log_append_only_def len by (metis order_le_less_trans)
  qed
  ultimately show ?thesis using turn_lines_ascending [OF run] run by blast
qed

end
