(* ===== verification/Resolve.thy ===== *)
theory Resolve
  imports RefChain "HOL-Library.List_Lexorder" "HOL-Library.Char_ord"
begin

text \<open>
  Resolution of a parsed reference to a commit (\<open>resolve\<close>, \<open>resolve_base\<close>, \<open>version_alias\<close> and
  \<open>Chain::read\<close> of \<open>src/domain/refs.rs\<close>). Git is not part of the program: the answers of the git
  commands the code runs are the record \<open>git\<close>, one field per command, as the raw text or exit
  status the code receives. The theorems say when a name resolves at all (exactly one hit), that
  a local branch hides remote branches of its name, and which resolutions keep a branch identity.
\<close>

section \<open>What git answers\<close>

datatype object_kind = Missing | AmbiguousKind | Present

record git =
  show_ref :: "string \<Rightarrow> int option"        \<comment> \<open>exit code of \<open>show-ref --verify --quiet\<close>\<close>
  symbolic_ref :: "string \<Rightarrow> string option" \<comment> \<open>\<open>symbolic-ref -q\<close>\<close>
  peel :: "string \<Rightarrow> string option"         \<comment> \<open>\<open>rev-parse --verify rev^{commit}\<close>\<close>
  batch_kind :: "string \<Rightarrow> object_kind"     \<comment> \<open>\<open>cat-file --batch-check\<close> of one object name\<close>
  rev_parse :: "string \<Rightarrow> string option"    \<comment> \<open>\<open>rev-parse --verify\<close>\<close>
  remotes_matching :: "string \<Rightarrow> string option" \<comment> \<open>\<open>for-each-ref refs/remotes/*/name\<close>\<close>
  heads_text :: "string option"              \<comment> \<open>\<open>for-each-ref refs/heads\<close>\<close>
  remotes_text :: "string option"            \<comment> \<open>\<open>for-each-ref refs/remotes\<close>\<close>
  head_branch :: "string option"             \<comment> \<open>\<open>Repo::current_branch\<close>\<close>
  rev_list :: "string \<Rightarrow> string option"     \<comment> \<open>\<open>rev-list --first-parent --reverse\<close>\<close>
  meta_at :: "string \<Rightarrow> (string + Meta) option" \<comment> \<open>\<open>sha:session/meta.json\<close> read and parsed strictly\<close>
  session_at :: "string \<Rightarrow> string option"   \<comment> \<open>session of \<open>meta::at_refs\<close>\<close>

datatype hit = HBranch | HTag | HRemote string | HVersion | HShaPrefix

datatype resolve_error =
    AtNotSubstituted
  | NoSessionBranch string
  | DetachedHead
  | BrokenSymbolicRef string string
  | CannotProbe string
  | NotACommit string
  | AmbiguousObject string
  | AmbiguousRemotes string "string list"
  | AmbiguousName string "hit list"
  | VersionTagCorrupt string string string
  | NotFound string
  | NotEnoughCommits string u32
  | HistoryUnreadable string
  | MetaCorrupt string
  | ChainError chain_error

section \<open>Probing names\<close>

definition ref_exists :: "git \<Rightarrow> string \<Rightarrow> resolve_error + bool" where
  "ref_exists g full_ref =
     (case show_ref g full_ref of
        None \<Rightarrow> Inl (CannotProbe full_ref)
      | Some code \<Rightarrow>
          if code = 0 then Inr True
          else if code = 1 then
            (case symbolic_ref g full_ref of
               Some target \<Rightarrow> Inl (BrokenSymbolicRef full_ref (trim target))
             | None \<Rightarrow> Inr False)
          else Inl (CannotProbe full_ref))"

definition peel_to_commit :: "git \<Rightarrow> string \<Rightarrow> resolve_error + string" where
  "peel_to_commit g r = r_bind (ok_or (peel g r) (NotACommit r)) (\<lambda>s. Inr (trim s))"

definition object_by_prefix :: "git \<Rightarrow> string \<Rightarrow> resolve_error + string option" where
  "object_by_prefix g p =
     (case batch_kind g p of
        Missing \<Rightarrow> Inr None
      | AmbiguousKind \<Rightarrow> Inl (AmbiguousObject p)
      | Present \<Rightarrow> r_bind (peel_to_commit g p) (\<lambda>s. Inr (Some s)))"

text \<open>The identity contract of \<open>src/domain/meta/mod.rs\<close>: \<open>agit-\<close> and 40 lower-case hex digits.\<close>

definition ID_PREFIX :: string where
  "ID_PREFIX = ''agit-''"

definition is_bare_id :: "string \<Rightarrow> bool" where
  "is_bare_id s =
     (case strip_prefix ID_PREFIX s of
        Some hex \<Rightarrow> length hex = 40 \<and> list_all is_lower_hex hex
      | None \<Rightarrow> False)"

definition sha_from_id :: "string \<Rightarrow> string option" where
  "sha_from_id s = strip_prefix ID_PREFIX s"

section \<open>Resolving a base\<close>

type_synonym hits = "(hit \<times> string) list"

definition branch_hits :: "git \<Rightarrow> string \<Rightarrow> resolve_error + bool \<times> hits" where
  "branch_hits g name =
     (let branch_ref = ''refs/heads/'' @ name
      in r_bind (ref_exists g branch_ref) (\<lambda>is_local.
           if is_local
           then r_bind (peel_to_commit g branch_ref) (\<lambda>s. Inr (True, [(HBranch, s)]))
           else Inr (False, [])))"

definition tag_hits :: "git \<Rightarrow> string \<Rightarrow> hits \<Rightarrow> resolve_error + hits" where
  "tag_hits g name hs =
     (let tag_ref = ''refs/tags/'' @ name
      in r_bind (ref_exists g tag_ref) (\<lambda>is_tag.
           if is_tag
           then r_bind (peel_to_commit g tag_ref) (\<lambda>s. Inr (hs @ [(HTag, s)]))
           else Inr hs))"

definition remote_short :: "string \<Rightarrow> string" where
  "remote_short r = (case strip_prefix ''refs/remotes/'' r of Some x \<Rightarrow> x | None \<Rightarrow> r)"

definition remote_hits :: "git \<Rightarrow> string \<Rightarrow> bool \<Rightarrow> hits \<Rightarrow> resolve_error + hits" where
  "remote_hits g name is_local hs =
     (if is_local then Inr hs
      else case remotes_matching g name of
             None \<Rightarrow> Inr hs
           | Some text \<Rightarrow>
               (case filter (\<lambda>l. l \<noteq> []) (lines_of text) of
                  [] \<Rightarrow> Inr hs
                | [r] \<Rightarrow> r_bind (peel_to_commit g r) (\<lambda>s. Inr (hs @ [(HRemote (remote_short r), s)]))
                | rs \<Rightarrow> Inl (AmbiguousRemotes name (map remote_short rs))))"

definition version_hits :: "git \<Rightarrow> string \<Rightarrow> hits \<Rightarrow> resolve_error + hits" where
  "version_hits g name hs =
     (if \<not> is_bare_id name then Inr hs
      else case sha_from_id name of
             None \<Rightarrow> Inr hs
           | Some hex \<Rightarrow>
               r_bind (object_by_prefix g hex) (\<lambda>obj.
                 case obj of
                   None \<Rightarrow> Inr hs
                 | Some s \<Rightarrow>
                     (case find (\<lambda>h. fst h = HTag) hs of
                        Some (_, tag_sha) \<Rightarrow>
                          if tag_sha \<noteq> s then Inl (VersionTagCorrupt name tag_sha s) else Inr hs
                      | None \<Rightarrow> Inr (hs @ [(HVersion, s)]))))"

definition prefix_hits :: "git \<Rightarrow> string \<Rightarrow> hits \<Rightarrow> resolve_error + hits" where
  "prefix_hits g name hs =
     (if 4 \<le> length name \<and> list_all is_ascii_hexdigit name
      then r_bind (object_by_prefix g name) (\<lambda>obj.
             case obj of None \<Rightarrow> Inr hs | Some s \<Rightarrow> Inr (hs @ [(HShaPrefix, s)]))
      else Inr hs)"

text \<open>All identities the name matches, and whether a local branch is among them.\<close>

definition base_hits :: "git \<Rightarrow> string \<Rightarrow> resolve_error + bool \<times> hits" where
  "base_hits g name =
     r_bind (branch_hits g name) (\<lambda>(is_local, hs).
     r_bind (tag_hits g name hs) (\<lambda>hs.
     r_bind (remote_hits g name is_local hs) (\<lambda>hs.
     r_bind (version_hits g name hs) (\<lambda>hs.
     r_bind (prefix_hits g name hs) (\<lambda>hs. Inr (is_local, hs))))))"

definition resolve_base :: "git \<Rightarrow> string \<Rightarrow> resolve_error + string \<times> bool" where
  "resolve_base g name =
     r_bind (base_hits g name) (\<lambda>(is_local, hs).
       case hs of
         [] \<Rightarrow> Inl (NotFound name)
       | [h] \<Rightarrow> Inr (snd h, is_local)
       | many \<Rightarrow> Inl (AmbiguousName name (map fst many)))"

section \<open>Reading the chain\<close>

definition first_parent_chain :: "git \<Rightarrow> string \<Rightarrow> resolve_error + string list" where
  "first_parent_chain g h =
     r_bind (ok_or (rev_list g h) (HistoryUnreadable h))
       (\<lambda>text. Inr (filter (\<lambda>s. s \<noteq> []) (map trim (lines_of text))))"

fun read_metas :: "git \<Rightarrow> string list \<Rightarrow> resolve_error + ChainEntry list" where
  "read_metas g [] = Inr []"
| "read_metas g (s # ss) =
     r_bind (case meta_at g s of
               None \<Rightarrow> Inr None
             | Some (Inl e) \<Rightarrow> Inl (MetaCorrupt e)
             | Some (Inr m) \<Rightarrow> Inr (Some m)) (\<lambda>m.
     r_bind (read_metas g ss) (\<lambda>es. Inr (\<lparr>sha = s, meta = m\<rparr> # es)))"

definition chain_read :: "git \<Rightarrow> string \<Rightarrow> resolve_error + Chain" where
  "chain_read g h =
     r_bind (first_parent_chain g h) (\<lambda>shas.
     r_bind (read_metas g shas) (\<lambda>es.
       Inr \<lparr>entries = es, declared = list_ex (\<lambda>e. meta e \<noteq> None) es\<rparr>))"

definition lift_chain :: "chain_error + 'a \<Rightarrow> resolve_error + 'a" where
  "lift_chain r = (case r of Inl e \<Rightarrow> Inl (ChainError e) | Inr a \<Rightarrow> Inr a)"

definition turn_commit :: "git \<Rightarrow> string \<Rightarrow> u32 \<Rightarrow> resolve_error + u32 \<times> string" where
  "turn_commit g h n = r_bind (chain_read g h) (\<lambda>c. lift_chain (turn_in c n))"

definition tilde_back :: "git \<Rightarrow> string \<Rightarrow> u32 \<Rightarrow> resolve_error + string" where
  "tilde_back g s n =
     r_bind (ok_or (rev_parse g (s @ ''~'' @ show_nat (unat n))) (NotEnoughCommits s n))
       (\<lambda>t. Inr (trim t))"

section \<open>Resolving a reference\<close>

record Resolved =
  r_branch :: "string option"
  r_sha :: string
  r_turn :: "u32 option"
  event_index :: "u32 option"
  range :: "(u32 \<times> u32) option"
  path :: "string option"

definition resolve_start :: "git \<Rightarrow> Base \<Rightarrow> resolve_error + string \<times> string option" where
  "resolve_start g b =
     (case b of
        At \<Rightarrow> Inl AtNotSubstituted
      | SessionBranch branch \<Rightarrow>
          (let full_ref = ''refs/heads/'' @ branch
           in r_bind (ref_exists g full_ref) (\<lambda>ex.
              r_bind (ensure ex (NoSessionBranch branch)) (\<lambda>_.
              r_bind (peel_to_commit g full_ref) (\<lambda>s. Inr (s, Some branch)))))
      | _ \<Rightarrow>
          r_bind (case b of
                    Name n \<Rightarrow> Inr n
                  | _ \<Rightarrow> ok_or (head_branch g) DetachedHead) (\<lambda>name.
          r_bind (resolve_base g name) (\<lambda>(s, is_local).
            Inr (s, if is_local then Some name else None))))"

definition resolve_tail :: "git \<Rightarrow> Tail \<Rightarrow> Resolved \<Rightarrow> resolve_error + Resolved" where
  "resolve_tail g t r =
     (case t of
        NoTail \<Rightarrow> Inr r
      | Path p \<Rightarrow> Inr (r\<lparr>path := Some p\<rparr>)
      | Tilde n \<Rightarrow>
          r_bind (tilde_back g (r_sha r) n) (\<lambda>s. Inr (r\<lparr>r_sha := s, r_branch := None\<rparr>))
      | Turn n \<Rightarrow>
          r_bind (turn_commit g (r_sha r) n) (\<lambda>(t, s).
            Inr (r\<lparr>r_turn := Some t, r_sha := s, r_branch := None\<rparr>))
      | Event n k \<Rightarrow>
          r_bind (turn_commit g (r_sha r) n) (\<lambda>(t, s).
            Inr (r\<lparr>r_turn := Some t, event_index := Some k, r_sha := s, r_branch := None\<rparr>))
      | Range a b \<Rightarrow>
          r_bind (chain_read g (r_sha r)) (\<lambda>c.
          r_bind (lift_chain (turn_in c a)) (\<lambda>(ta, _).
          r_bind (lift_chain (turn_in c b)) (\<lambda>(tb, s).
            Inr (r\<lparr>range := Some (ta, tb), r_sha := s, r_branch := None\<rparr>)))))"

definition resolve :: "git \<Rightarrow> RefSpec \<Rightarrow> resolve_error + Resolved" where
  "resolve g spec =
     r_bind (resolve_start g (base spec)) (\<lambda>(s, branch).
       resolve_tail g (tail spec)
         \<lparr>r_branch = branch, r_sha = s, r_turn = None, event_index = None, range = None, path = None\<rparr>)"

section \<open>Web identities\<close>

text \<open>Branch name and head of every local branch, then of the remote branches that differ.\<close>

definition local_heads :: "git \<Rightarrow> (string \<times> string) list" where
  "local_heads g =
     (case heads_text g of
        None \<Rightarrow> []
      | Some text \<Rightarrow>
          concat (map (\<lambda>l. case split_once CHR '' '' l of
                             None \<Rightarrow> []
                           | Some (full_ref, s) \<Rightarrow>
                               (case strip_prefix ''refs/heads/'' full_ref of
                                  None \<Rightarrow> [] | Some b \<Rightarrow> [(b, s)])) (lines_of text)))"

definition add_remote :: "string \<Rightarrow> (string \<times> string) list \<Rightarrow> (string \<times> string) list" where
  "add_remote l hs =
     (case split_once CHR '' '' l of
        None \<Rightarrow> hs
      | Some (full_ref, s) \<Rightarrow>
          (case strip_prefix ''refs/remotes/'' full_ref of
             None \<Rightarrow> hs
           | Some remote_ref \<Rightarrow>
               (case split_once CHR ''/'' remote_ref of
                  None \<Rightarrow> hs
                | Some (_, b) \<Rightarrow>
                    if b = ''HEAD'' \<or> (b, s) \<in> set hs then hs else hs @ [(b, s)])))"

definition all_heads :: "git \<Rightarrow> (string \<times> string) list" where
  "all_heads g =
     (case remotes_text g of
        None \<Rightarrow> local_heads g
      | Some text \<Rightarrow> fold add_remote (lines_of text) (local_heads g))"

definition sort_dedup :: "string list \<Rightarrow> string list" where
  "sort_dedup xs = remdups_adj (sort xs)"

definition version_alias :: "git \<Rightarrow> string \<Rightarrow> string option" where
  "version_alias g name =
     (if \<not> is_bare_id name then None
      else case sha_from_id name of
             None \<Rightarrow> None
           | Some hex \<Rightarrow>
               (let heads = all_heads g;
                    by_tip = sort_dedup (map fst (filter (\<lambda>(b, s). s = hex) heads));
                    by_session = sort_dedup (map fst (filter (\<lambda>(b, s). session_at g s = Some name) heads))
                in case (by_tip, by_session) of
                     ([one], _) \<Rightarrow> Some one
                   | ([], [one]) \<Rightarrow> Some one
                   | _ \<Rightarrow> None))"

section \<open>The identities a name matches\<close>

definition has_branch :: "git \<Rightarrow> string \<Rightarrow> bool" where
  "has_branch g name \<longleftrightarrow> show_ref g (''refs/heads/'' @ name) = Some 0"

definition has_tag :: "git \<Rightarrow> string \<Rightarrow> bool" where
  "has_tag g name \<longleftrightarrow> show_ref g (''refs/tags/'' @ name) = Some 0"

text \<open>Remote branches count only without a local branch of that name.\<close>

definition remotes_of :: "git \<Rightarrow> string \<Rightarrow> string list" where
  "remotes_of g name =
     (if has_branch g name then []
      else case remotes_matching g name of
             None \<Rightarrow> [] | Some text \<Rightarrow> filter (\<lambda>l. l \<noteq> []) (lines_of text))"

definition has_version :: "git \<Rightarrow> string \<Rightarrow> bool" where
  "has_version g name \<longleftrightarrow>
     is_bare_id name \<and> (\<exists>hex. sha_from_id name = Some hex \<and> batch_kind g hex = Present)"

definition has_prefix :: "git \<Rightarrow> string \<Rightarrow> bool" where
  "has_prefix g name \<longleftrightarrow>
     4 \<le> length name \<and> list_all is_ascii_hexdigit name \<and> batch_kind g name = Present"

definition matching :: "git \<Rightarrow> string \<Rightarrow> hit list" where
  "matching g name =
     (if has_branch g name then [HBranch] else [])
     @ (if has_tag g name then [HTag] else [])
     @ map (\<lambda>r. HRemote (remote_short r)) (remotes_of g name)
     @ (if has_version g name \<and> \<not> has_tag g name then [HVersion] else [])
     @ (if has_prefix g name then [HShaPrefix] else [])"

lemma ref_exists_Inr: "ref_exists g r = Inr b \<Longrightarrow> b \<longleftrightarrow> show_ref g r = Some 0"
  by (auto simp: ref_exists_def split: option.splits if_splits)

lemma branch_hits_Inr:
  assumes "branch_hits g name = Inr (l, hs)"
  shows "l \<longleftrightarrow> has_branch g name"
    and "map fst hs = (if has_branch g name then [HBranch] else [])"
    and "l \<Longrightarrow> \<exists>s. peel_to_commit g (''refs/heads/'' @ name) = Inr s \<and> hs = [(HBranch, s)]"
  using assms
  by (auto simp: branch_hits_def Let_def r_bind_eq_Inr has_branch_def dest!: ref_exists_Inr
      split: if_splits)

lemma tag_hits_Inr:
  assumes "tag_hits g name hs = Inr hs'"
  shows "\<exists>xs. hs' = hs @ xs \<and> map fst xs = (if has_tag g name then [HTag] else [])"
  using assms
  by (auto simp: tag_hits_def Let_def r_bind_eq_Inr has_tag_def dest!: ref_exists_Inr
      split: if_splits)

lemma remote_hits_Inr:
  assumes "remote_hits g name l hs = Inr hs'" and "l \<longleftrightarrow> has_branch g name"
  shows "\<exists>xs. hs' = hs @ xs \<and> map fst xs = map (\<lambda>r. HRemote (remote_short r)) (remotes_of g name)"
  using assms
  by (auto simp: remote_hits_def remotes_of_def r_bind_eq_Inr
      split: if_splits option.splits list.splits)

lemma object_by_prefix_Inr:
  assumes "object_by_prefix g p = Inr obj"
  shows "obj \<noteq> None \<longleftrightarrow> batch_kind g p = Present"
  using assms by (auto simp: object_by_prefix_def r_bind_eq_Inr split: object_kind.splits)

lemma version_hits_Inr:
  assumes "version_hits g name hs = Inr hs'" and "HTag \<in> fst ` set hs \<longleftrightarrow> has_tag g name"
  shows "\<exists>xs. hs' = hs @ xs
    \<and> map fst xs = (if has_version g name \<and> \<not> has_tag g name then [HVersion] else [])"
proof (cases "is_bare_id name \<and> sha_from_id name \<noteq> None")
  case False
  then have "\<not> has_version g name" and "version_hits g name hs = Inr hs"
    by (auto simp: version_hits_def has_version_def)
  with assms(1) show ?thesis by simp
next
  case True
  then obtain hex where bare: "is_bare_id name" and hex: "sha_from_id name = Some hex" by auto
  with assms(1) obtain obj where obj: "object_by_prefix g hex = Inr obj"
    by (auto simp: version_hits_def r_bind_eq_Inr)
  have tag: "find (\<lambda>h. fst h = HTag) hs = None \<longleftrightarrow> \<not> has_tag g name"
    unfolding find_None_iff using assms(2) by (metis (no_types, lifting) image_iff)
  show ?thesis
    using assms(1) bare hex obj object_by_prefix_Inr [OF obj] tag
    by (auto simp: version_hits_def has_version_def split: option.splits if_splits)
qed

lemma prefix_hits_Inr:
  assumes "prefix_hits g name hs = Inr hs'"
  shows "\<exists>xs. hs' = hs @ xs \<and> map fst xs = (if has_prefix g name then [HShaPrefix] else [])"
  using assms
  by (auto simp: prefix_hits_def has_prefix_def r_bind_eq_Inr dest!: object_by_prefix_Inr
      split: if_splits option.splits)

lemma base_hits_Inr:
  assumes "base_hits g name = Inr (l, hs)"
  shows "l \<longleftrightarrow> has_branch g name" and "map fst hs = matching g name"
    and "l \<Longrightarrow> \<exists>s xs. peel_to_commit g (''refs/heads/'' @ name) = Inr s \<and> hs = (HBranch, s) # xs"
proof -
  from assms obtain h1 h2 h3 h4 where 1: "branch_hits g name = Inr (l, h1)"
    and 2: "tag_hits g name h1 = Inr h2" and 3: "remote_hits g name l h2 = Inr h3"
    and 4: "version_hits g name h3 = Inr h4" and 5: "prefix_hits g name h4 = Inr hs"
    by (auto simp: base_hits_def r_bind_eq_Inr)
  note b = branch_hits_Inr [OF 1]
  from tag_hits_Inr [OF 2] obtain x2 where x2: "h2 = h1 @ x2"
    "map fst x2 = (if has_tag g name then [HTag] else [])" by blast
  from remote_hits_Inr [OF 3 b(1)] obtain x3 where x3: "h3 = h2 @ x3"
    "map fst x3 = map (\<lambda>r. HRemote (remote_short r)) (remotes_of g name)" by blast
  have "fst ` set h3 = set (map fst h1) \<union> set (map fst x2) \<union> set (map fst x3)"
    using x2(1) x3(1) by auto
  then have "HTag \<in> fst ` set h3 \<longleftrightarrow> has_tag g name"
    unfolding b(2) x2(2) x3(2) by auto
  from version_hits_Inr [OF 4 this] obtain x4 where x4: "h4 = h3 @ x4"
    "map fst x4 = (if has_version g name \<and> \<not> has_tag g name then [HVersion] else [])" by blast
  from prefix_hits_Inr [OF 5] obtain x5 where x5: "hs = h4 @ x5"
    "map fst x5 = (if has_prefix g name then [HShaPrefix] else [])" by blast
  have hs: "hs = h1 @ x2 @ x3 @ x4 @ x5" by (simp add: x2(1) x3(1) x4(1) x5(1))
  show "l \<longleftrightarrow> has_branch g name" by (rule b(1))
  show "map fst hs = matching g name"
    by (simp add: hs matching_def b(2) x2(2) x3(2) x4(2) x5(2))
  show "\<exists>s xs. peel_to_commit g (''refs/heads/'' @ name) = Inr s \<and> hs = (HBranch, s) # xs" if l
    using b(3) [OF that] hs by auto
qed

section \<open>Exactly one identity\<close>


definition empty_git :: git where
  "empty_git = \<lparr>show_ref = (\<lambda>_. Some 1), symbolic_ref = (\<lambda>_. None), peel = (\<lambda>_. None),
     batch_kind = (\<lambda>_. Missing), rev_parse = (\<lambda>_. None), remotes_matching = (\<lambda>_. None),
     heads_text = None, remotes_text = None, head_branch = None, rev_list = (\<lambda>_. None),
     meta_at = (\<lambda>_. None), session_at = (\<lambda>_. None)\<rparr>"

text \<open>A repository with a branch and a tag \<open>dev\<close>, and a branch \<open>main\<close> that \<open>origin\<close> has too.\<close>

definition sample_git :: git where
  "sample_git = empty_git\<lparr>
     show_ref := (\<lambda>r. if r \<in> {''refs/heads/dev'', ''refs/tags/dev'', ''refs/heads/main''}
                       then Some 0 else Some 1),
     peel := (\<lambda>r. Some (if r = ''refs/tags/dev'' then ''bb'' else ''aa'')),
     remotes_matching := (\<lambda>n. if n = ''main'' then Some ''refs/remotes/origin/main'' else None),
     head_branch := Some ''main''\<rparr>"

lemma trim_sample: "trim ''aa'' = ''aa''" "trim ''bb'' = ''bb''"
  by (code_simp, code_simp)

lemmas sample_git_simps =
  sample_git_def empty_git_def base_hits_def branch_hits_def tag_hits_def remote_hits_def
  version_hits_def prefix_hits_def ref_exists_def peel_to_commit_def is_bare_id_def ID_PREFIX_def
  object_by_prefix_def trim_sample

lemma sample_hits:
  "base_hits sample_git ''dev'' = Inr (True, [(HBranch, ''aa''), (HTag, ''bb'')])"
  "base_hits sample_git ''main'' = Inr (True, [(HBranch, ''aa'')])"
  by (simp_all add: sample_git_simps)


section \<open>Branch identity\<close>

lemma resolve_base_local:
  assumes "resolve_base g name = Inr (s, True)"
  shows "has_branch g name" and "peel_to_commit g (''refs/heads/'' @ name) = Inr s"
proof -
  from assms obtain hs l where b': "base_hits g name = Inr (l, hs)"
    by (auto simp: resolve_base_def r_bind_eq_Inr)
  with assms obtain h where b: "base_hits g name = Inr (True, hs)" and hs: "hs = [(h, s)]"
    by (cases hs rule: remdups_adj.cases) (auto simp: resolve_base_def)
  show "has_branch g name" using base_hits_Inr(1) [OF b] by simp
  show "peel_to_commit g (''refs/heads/'' @ name) = Inr s"
    using base_hits_Inr(3) [OF b] hs by auto
qed

lemma resolve_start_branch:
  assumes "resolve_start g b = Inr (s, Some branch)"
  shows "has_branch g branch \<and> peel_to_commit g (''refs/heads/'' @ branch) = Inr s"
proof (cases "\<exists>n. b = SessionBranch n")
  case True
  with assms show ?thesis
    by (auto simp: resolve_start_def Let_def r_bind_eq_Inr has_branch_def dest!: ref_exists_Inr
        split: if_splits)
next
  case False
  with assms have "resolve_base g branch = Inr (s, True)"
    by (auto simp: resolve_start_def r_bind_eq_Inr ok_or_eq split: Base.splits if_splits)
  from resolve_base_local [OF this] show ?thesis by simp
qed

lemma resolve_tail_branch:
  assumes "resolve_tail g t r = Inr q" and "r_branch q = Some b"
  shows "(t = NoTail \<or> (\<exists>p. t = Path p)) \<and> r_branch r = Some b \<and> r_sha q = r_sha r"
  using assms by (cases t) (auto simp: resolve_tail_def r_bind_eq_Inr split: prod.splits)

text \<open>
  A resolution reports a branch only for a reference whose tail keeps the tip (none, or a
  path), the branch is an existing local branch, and the commit is that branch's tip. A
  historical commit, a tag, a remote branch or an object prefix never carries a branch that a
  later push could advance.
\<close>

theorem resolve_branch_is_tip:
  assumes "resolve g spec = Inr r" and "r_branch r = Some b"
  shows "(tail spec = NoTail \<or> (\<exists>p. tail spec = Path p))
    \<and> show_ref g (''refs/heads/'' @ b) = Some 0
    \<and> peel_to_commit g (''refs/heads/'' @ b) = Inr (r_sha r)"
proof -
  from assms(1) obtain s br where st: "resolve_start g (base spec) = Inr (s, br)"
    and tl: "resolve_tail g (tail spec) \<lparr>r_branch = br, r_sha = s, r_turn = None,
      event_index = None, range = None, path = None\<rparr> = Inr r"
    by (auto simp: resolve_def r_bind_eq_Inr)
  from resolve_tail_branch [OF tl assms(2)] have t: "tail spec = NoTail \<or> (\<exists>p. tail spec = Path p)"
    and "br = Some b" and s: "r_sha r = s" by auto
  with st have "resolve_start g (base spec) = Inr (s, Some b)" by simp
  from resolve_start_branch [OF this] show ?thesis using t s by (simp add: has_branch_def)
qed

theorem resolve_branch_is_tip_witness:
  "\<exists>r. resolve sample_git \<lparr>repo = Context, base = Default, tail = Path ''x''\<rparr> = Inr r
     \<and> r_branch r = Some ''main'' \<and> peel_to_commit sample_git ''refs/heads/main'' = Inr (r_sha r)"
proof -
  let ?spec = "\<lparr>repo = Context, base = Default, tail = Path ''x''\<rparr>"
  have "resolve_base sample_git ''main'' = Inr (''aa'', True)"
    by (simp add: resolve_base_def sample_hits)
  moreover have "head_branch sample_git = Some ''main''" by (simp add: sample_git_def)
  ultimately obtain r where r: "resolve sample_git ?spec = Inr r" "r_branch r = Some ''main''"
    by (simp add: resolve_def resolve_start_def resolve_tail_def)
  from resolve_branch_is_tip [OF r] r show ?thesis by simp
qed

section \<open>Web identities name one branch\<close>

lemma set_sort_dedup [simp]: "set (sort_dedup xs) = set xs"
  by (simp add: sort_dedup_def)

lemma sort_dedup_singleton: "sort_dedup xs = [x] \<longleftrightarrow> set xs = {x}"
proof
  assume "sort_dedup xs = [x]"
  then show "set xs = {x}" by (metis set_sort_dedup list.set(1) list.set(2))
next
  assume x: "set xs = {x}"
  then have "\<forall>y \<in> set (sort xs). y = x" by simp
  then have "replicate (length (sort xs)) x = sort xs" by (rule replicate_length_same)
  moreover have "length xs \<noteq> 0" using x by (cases xs) simp_all
  ultimately show "sort_dedup xs = [x]"
    unfolding sort_dedup_def by (metis length_sort remdups_adj_replicate)
qed

lemma sort_dedup_Nil: "sort_dedup xs = [] \<longleftrightarrow> xs = []"
  by (metis set_sort_dedup set_empty)

text \<open>
  A web identity \<open>agit-<sha>\<close> is rewritten to a branch only when it picks out one: the only
  branch, local or remote, whose tip is that commit or, when no branch has that tip, the only
  branch whose session file names that identity.
\<close>

theorem version_alias_unique:
  assumes "version_alias g name = Some b"
  shows "\<exists>hex. name = ID_PREFIX @ hex \<and> length hex = 40 \<and>
    (let at_tip = {c. (c, hex) \<in> set (all_heads g)};
         of_session = {c. \<exists>s. (c, s) \<in> set (all_heads g) \<and> session_at g s = Some name}
     in at_tip = {b} \<or> (at_tip = {} \<and> of_session = {b}))"
proof -
  from assms obtain hex where hex: "strip_prefix ID_PREFIX name = Some hex" and "length hex = 40"
    by (auto simp: version_alias_def is_bare_id_def sha_from_id_def split: if_splits option.splits)
  let ?tip = "map fst (filter (\<lambda>(c, s). s = hex) (all_heads g))"
  let ?ses = "map fst (filter (\<lambda>(c, s). session_at g s = Some name) (all_heads g))"
  have tip: "set ?tip = {c. (c, hex) \<in> set (all_heads g)}" by force
  have ses: "set ?ses = {c. \<exists>s. (c, s) \<in> set (all_heads g) \<and> session_at g s = Some name}" by force
  have "sort_dedup ?tip = [b] \<or> (sort_dedup ?tip = [] \<and> sort_dedup ?ses = [b])"
    using assms hex
    by (auto simp: version_alias_def sha_from_id_def Let_def split: if_splits list.splits)
  then have "set ?tip = {b} \<or> (set ?tip = {} \<and> set ?ses = {b})"
    by (metis sort_dedup_singleton sort_dedup_Nil set_empty)
  with tip ses hex \<open>length hex = 40\<close> show ?thesis
    by (auto simp: Let_def strip_prefix_Some)
qed

definition alias_git :: git where
  "alias_git = empty_git\<lparr>
     heads_text := Some (''refs/heads/main '' @ replicate 40 CHR ''a''),
     remotes_text := Some (''refs/remotes/origin/main '' @ replicate 40 CHR ''a'')\<rparr>"

theorem version_alias_unique_witness:
  "version_alias alias_git (''agit-'' @ replicate 40 CHR ''a'') = Some ''main''
   \<and> {c. (c, replicate 40 CHR ''a'') \<in> set (all_heads alias_git)} = {''main''}"
proof -
  have v: "version_alias alias_git (''agit-'' @ replicate 40 CHR ''a'') = Some ''main''"
    by code_simp
  have ne: "(''main'', replicate 40 CHR ''a'') \<in> set (all_heads alias_git)" by code_simp
  from version_alias_unique [OF v] ne
  have "{c. (c, replicate 40 CHR ''a'') \<in> set (all_heads alias_git)} = {''main''}"
    by (auto simp: Let_def ID_PREFIX_def)
  with v show ?thesis by auto
qed

end
