(* ===== verification/Turns.thy ===== *)
theory Turns
  imports Prelude
begin

text \<open>
  Turn splitting and the turn hash chain (\<open>src/domain/turn/mod.rs\<close>), over the session IR and the
  runtime registry of \<open>src/adapter/mod.rs\<close> and \<open>src/adapter/registry.rs\<close>. The SHA-256 digest,
  hex encoded, is the parameter \<open>D\<close>; the placeholder scanner that decides where a one-line
  summary may be cut is the parameter \<open>segs\<close>. The theorems: the events are partitioned into
  turns with one prompt each, the normalized text is an injective encoding of the hashed events,
  the fork point is the number of equal leading turns, and appending events leaves the hashes of
  the turns before the last one unchanged.
\<close>

section \<open>The session IR\<close>

datatype EventKind =
    UserPrompt | UserInterjection | AssistantReply | ToolUse | FileEdit
  | CompactFiltered | CompactSummary | TurnEnd | ToolResult | Other

record Event =
  ev_kind :: EventKind
  ev_text :: "string option"
  ev_timestamp :: "string option"
  ev_paths :: "string list"
  ev_tool :: "string option"
  ev_line :: "nat option"

record Session =
  session_id :: string
  session_runtime :: string
  session_cwd :: "string option"
  session_events :: "Event list"

definition is_compact :: "EventKind \<Rightarrow> bool" where
  "is_compact k \<longleftrightarrow> k \<in> {CompactFiltered, CompactSummary}"

record Counts =
  prompts :: nat
  interjections :: nat
  replies :: nat
  tools :: nat
  edits :: nat
  outputs :: nat
  dropped_events :: nat
  compactions :: nat

definition count_event :: "Event \<Rightarrow> Counts \<Rightarrow> Counts" where
  "count_event e c =
     (case ev_kind e of
        UserPrompt \<Rightarrow> c\<lparr>prompts := prompts c + 1\<rparr>
      | UserInterjection \<Rightarrow> c\<lparr>interjections := interjections c + 1\<rparr>
      | AssistantReply \<Rightarrow> c\<lparr>replies := replies c + 1\<rparr>
      | ToolUse \<Rightarrow> c\<lparr>tools := tools c + 1\<rparr>
      | FileEdit \<Rightarrow> c\<lparr>edits := edits c + 1\<rparr>
      | ToolResult \<Rightarrow> c\<lparr>outputs := outputs c + 1\<rparr>
      | CompactFiltered \<Rightarrow> c\<lparr>compactions := compactions c + 1\<rparr>
      | CompactSummary \<Rightarrow> c\<lparr>compactions := compactions c + 1\<rparr>
      | TurnEnd \<Rightarrow> c
      | Other \<Rightarrow> c\<lparr>dropped_events := dropped_events c + 1\<rparr>)"

definition zero_counts :: Counts where
  "zero_counts = \<lparr>prompts = 0, interjections = 0, replies = 0, tools = 0, edits = 0, outputs = 0,
     dropped_events = 0, compactions = 0\<rparr>"

definition counts :: "Session \<Rightarrow> Counts" where
  "counts s = fold count_event (session_events s) zero_counts"

section \<open>Runtimes\<close>

text \<open>Per adapter: id, aliases and \<open>requires_turn_end\<close>.\<close>

definition REGISTRY :: "(string \<times> string list \<times> bool) list" where
  "REGISTRY =
     [(''claude-code'', [''claude'', ''cc''], False),
      (''codex'', [''cx'', ''chatgpt-desktop'', ''chatgpt'', ''chatgpt-app'', ''codex-app''], True),
      (''cursor'', [], True),
      (''claude-desktop'', [''claude-app''], False),
      (''opencode'', [], False),
      (''hermes'', [''hermes-agent''], True),
      (''openclaw'', [], True),
      (''workbuddy'', [''workbuddy-ai''], True)]"

definition normalize_runtime :: "string \<Rightarrow> string option" where
  "normalize_runtime s =
     (let name = to_ascii_lowercase (trim s)
      in map_option fst (find (\<lambda>(rid, aliases, _). rid = name \<or> name \<in> set aliases) REGISTRY))"

text \<open>\<open>adapter::get\<close>, of which only \<open>requires_turn_end\<close> is asked here.\<close>

definition get_adapter :: "string \<Rightarrow> bool option" where
  "get_adapter runtime =
     (case normalize_runtime runtime of
        None \<Rightarrow> None
      | Some rid \<Rightarrow> map_option (\<lambda>(_, _, r). r) (find (\<lambda>(i, _, _). i = rid) REGISTRY))"

definition supports_turn_end :: "string \<Rightarrow> bool" where
  "supports_turn_end runtime = (get_adapter runtime = Some True)"

definition completed_count :: "Session \<Rightarrow> nat" where
  "completed_count s =
     (let ps = prompts (counts s);
          ends = length (filter (\<lambda>e. ev_kind e = TurnEnd) (session_events s))
      in if supports_turn_end (session_runtime s) then min ends ps else ps)"

section \<open>Hashes\<close>

definition HEX_LEN :: nat where
  "HEX_LEN = 40"

definition turn_hash :: "(string \<Rightarrow> string) \<Rightarrow> string option \<Rightarrow> string \<Rightarrow> string" where
  "turn_hash D parent normalized =
     take HEX_LEN (D ((case parent of None \<Rightarrow> [] | Some h \<Rightarrow> h) @ [CHR 0x00] @ normalized))"

definition field :: "string \<Rightarrow> string" where
  "field v = show_nat (length v) @ '':'' @ v"

definition hashed :: "Event \<Rightarrow> bool" where
  "hashed e \<longleftrightarrow>
     \<not> (ev_kind e = Other \<or> ev_kind e = TurnEnd \<or> ev_kind e = ToolResult \<or> is_compact (ev_kind e))"

definition kind_tag :: "EventKind \<Rightarrow> string" where
  "kind_tag k =
     (case k of
        UserPrompt \<Rightarrow> ''u''
      | UserInterjection \<Rightarrow> ''i''
      | AssistantReply \<Rightarrow> ''a''
      | ToolUse \<Rightarrow> ''t''
      | FileEdit \<Rightarrow> ''e''
      | _ \<Rightarrow> [])"

fun normalize :: "Event list \<Rightarrow> string" where
  "normalize [] = []"
| "normalize (e # es) =
     (if \<not> hashed e then normalize es
      else field (kind_tag (ev_kind e))
        @ (case ev_tool e of Some t \<Rightarrow> ''1'' @ field t | None \<Rightarrow> ''0'')
        @ field (case ev_text e of Some t \<Rightarrow> t | None \<Rightarrow> [])
        @ normalize es)"

section \<open>Turns\<close>

fun groups_step :: "nat \<times> Event \<Rightarrow> nat list list \<times> nat list \<Rightarrow> nat list list \<times> nat list" where
  "groups_step (i, e) (groups, preamble) =
     (if ev_kind e = UserPrompt then (groups @ [[i]], preamble)
      else if groups \<noteq> [] then (butlast groups @ [last groups @ [i]], preamble)
      else (groups, preamble @ [i]))"

definition merge_preamble :: "nat list list \<times> nat list \<Rightarrow> nat list list" where
  "merge_preamble s = (case fst s of [] \<Rightarrow> [] | g # gs \<Rightarrow> (snd s @ g) # gs)"

definition groups_of :: "Session \<Rightarrow> nat list list" where
  "groups_of s = merge_preamble (fold groups_step (enumerate 0 (session_events s)) ([], []))"

definition prompt_of :: "Event list \<Rightarrow> string option" where
  "prompt_of es = Option.bind (find (\<lambda>e. ev_kind e = UserPrompt) es) ev_text"

definition gist_of :: "(string \<Rightarrow> (nat \<times> nat) list) \<Rightarrow> string \<Rightarrow> string" where
  "gist_of segs prompt =
     (let one_line = join_sp (split_whitespace prompt);
          offs = char_offsets one_line
      in if length offs \<le> 60 then one_line
         else let cut = offs ! 60;
                  kept = (case find (\<lambda>(st, en). en > cut)
                                 (takeWhile (\<lambda>(st, en). st < cut) (segs one_line)) of
                            None \<Rightarrow> take cut one_line
                          | Some (st, en) \<Rightarrow> trim_end (take st one_line))
              in kept @ [CHR 0xE2, CHR 0x80, CHR 0xA6])"

record Turn =
  turn_index :: nat
  hash :: string
  gist :: string
  turn_at :: "string option"
  turn_events :: nat
  turn_dropped :: nat

definition last_at :: "Event list \<Rightarrow> string option" where
  "last_at g = Option.bind (find (\<lambda>e. ev_timestamp e \<noteq> None) (rev g)) ev_timestamp"

fun chain_from ::
  "(string \<Rightarrow> string) \<Rightarrow> (string \<Rightarrow> (nat \<times> nat) list) \<Rightarrow> Event list \<Rightarrow> nat \<Rightarrow> string option
    \<Rightarrow> nat list list \<Rightarrow> Turn list" where
  "chain_from D segs evs i parent [] = []"
| "chain_from D segs evs i parent (idx # gs) =
     (let g = map (\<lambda>j. evs ! j) idx;
          h = turn_hash D parent (normalize g)
      in \<lparr>turn_index = i + 1, hash = h,
          gist = (case prompt_of g of None \<Rightarrow> [] | Some p \<Rightarrow> gist_of segs p),
          turn_at = last_at g,
          turn_events = length (filter (\<lambda>e. ev_kind e \<noteq> Other) g),
          turn_dropped = length (filter (\<lambda>e. ev_kind e = Other) g)\<rparr>
         # chain_from D segs evs (i + 1) (Some h) gs)"

definition chain_of ::
  "(string \<Rightarrow> string) \<Rightarrow> (string \<Rightarrow> (nat \<times> nat) list) \<Rightarrow> Session \<Rightarrow> Turn list" where
  "chain_of D segs s = chain_from D segs (session_events s) 0 None (groups_of s)"

definition hashes :: "Turn list \<Rightarrow> string list" where
  "hashes c = map hash c"

definition fork_point :: "Turn list \<Rightarrow> Turn list \<Rightarrow> nat" where
  "fork_point a b = length (takeWhile (\<lambda>(x, y). hash x = hash y) (zip a b))"

section \<open>The normalized text\<close>

text \<open>What of an event is hashed.\<close>

definition event_view :: "Event \<Rightarrow> EventKind \<times> string option \<times> string" where
  "event_view e = (ev_kind e, ev_tool e, case ev_text e of Some t \<Rightarrow> t | None \<Rightarrow> [])"

definition turn_view :: "Event list \<Rightarrow> (EventKind \<times> string option \<times> string) list" where
  "turn_view es = map event_view (filter hashed es)"

lemma field_append_inj [simp]: "field v @ r = field w @ r' \<longleftrightarrow> v = w \<and> r = r'"
proof
  assume eq: "field v @ r = field w @ r'"
  have no: "CHR '':'' \<notin> set (show_nat n)" for n
    by (rule show_nat_no_char) (simp add: is_ascii_digit_def)
  have "split_once CHR '':'' (field v @ r) = Some (show_nat (length v), v @ r)"
    and "split_once CHR '':'' (field w @ r') = Some (show_nat (length w), w @ r')"
    using no by (simp_all add: field_def)
  with eq have "show_nat (length v) = show_nat (length w)" and "v @ r = w @ r'" by auto
  then show "v = w \<and> r = r'" by (metis show_nat_inj append_eq_append_conv)
qed simp

lemma field_ne [simp]: "field v \<noteq> []"
  by (simp add: field_def)

lemma kind_tag_inj:
  "hashed e \<Longrightarrow> hashed f \<Longrightarrow> kind_tag (ev_kind e) = kind_tag (ev_kind f) \<Longrightarrow> ev_kind e = ev_kind f"
  by (cases "ev_kind e"; cases "ev_kind f") (simp_all add: hashed_def kind_tag_def is_compact_def)

lemma normalize_filter: "normalize (filter hashed es) = normalize es"
  by (induction es) auto

lemma normalize_view: "turn_view es = turn_view fs \<Longrightarrow> normalize es = normalize fs"
proof -
  have "normalize es = normalize fs"
    if "map event_view es = map event_view fs" "list_all hashed es" "list_all hashed fs" for es fs
    using that
  proof (induction es arbitrary: fs)
    case Nil
    then show ?case by simp
  next
    case (Cons e es)
    then obtain f fs' where "fs = f # fs'" by (cases fs) auto
    with Cons show ?case by (auto simp: event_view_def split: option.splits)
  qed
  from this [of "filter hashed es" "filter hashed fs"]
  show "turn_view es = turn_view fs \<Longrightarrow> normalize es = normalize fs"
    by (simp add: turn_view_def normalize_filter list_all_iff)
qed

lemma normalize_inj_hashed:
  assumes "list_all hashed es" and "list_all hashed fs" and "normalize es = normalize fs"
  shows "map event_view es = map event_view fs"
  using assms
proof (induction es arbitrary: fs)
  case Nil
  then show ?case by (cases fs) auto
next
  case (Cons e es)
  then obtain f fs' where fs: "fs = f # fs'" by (cases fs) auto
  with Cons.prems have "kind_tag (ev_kind e) = kind_tag (ev_kind f)"
    and rest: "ev_tool e = ev_tool f"
      "(case ev_text e of Some t \<Rightarrow> t | None \<Rightarrow> []) = (case ev_text f of Some t \<Rightarrow> t | None \<Rightarrow> [])"
      "normalize es = normalize fs'"
    by (auto split: option.splits)
  with Cons.prems fs have "ev_kind e = ev_kind f" by (auto intro: kind_tag_inj)
  with Cons fs rest show ?case by (simp add: event_view_def)
qed

lemma normalize_eqD:
  assumes "normalize es = normalize fs"
  shows "turn_view es = turn_view fs"
proof -
  from assms have "normalize (filter hashed es) = normalize (filter hashed fs)"
    by (simp add: normalize_filter)
  then show ?thesis
    unfolding turn_view_def by (intro normalize_inj_hashed) (auto simp: list_all_iff)
qed

text \<open>
  The normalized text encodes exactly the hashed events. Two event lists have the same
  text if and only if their prompts, interjections, replies, tool calls and edits agree in kind,
  tool name and text; no text can impersonate an event or a field boundary.
\<close>

theorem normalize_injective: "normalize es = normalize fs \<longleftrightarrow> turn_view es = turn_view fs"
  using normalize_eqD normalize_view by blast

section \<open>Splitting into turns\<close>

definition raw_groups :: "Event list \<Rightarrow> nat list list \<times> nat list" where
  "raw_groups es = fold groups_step (enumerate 0 es) ([], [])"

lemma raw_groups_simps [simp]:
  "raw_groups [] = ([], [])"
  "raw_groups (es @ [e]) = groups_step (length es, e) (raw_groups es)"
  by (simp_all add: raw_groups_def enumerate_append_eq)

text \<open>A turn of the split: it opens with its only prompt.\<close>

definition opens_turn :: "Event list \<Rightarrow> nat list \<Rightarrow> bool" where
  "opens_turn es g \<longleftrightarrow> g \<noteq> [] \<and> (\<forall>j \<in> set g. j < length es)
     \<and> ev_kind (es ! hd g) = UserPrompt \<and> (\<forall>j \<in> set (tl g). ev_kind (es ! j) \<noteq> UserPrompt)"

lemma opens_turn_mono: "opens_turn es g \<Longrightarrow> opens_turn (es @ later) g"
  by (auto simp: opens_turn_def nth_append hd_in_set dest: list.set_sel(2))

lemma opens_turn_snoc:
  "opens_turn es g \<Longrightarrow> ev_kind e \<noteq> UserPrompt \<Longrightarrow> opens_turn (es @ [e]) (g @ [length es])"
  by (auto simp: opens_turn_def nth_append hd_in_set less_SucI dest: list.set_sel(2))

lemma raw_groups_inv:
  assumes "raw_groups es = (gs, pre)"
  shows "pre @ concat gs = [0..<length es]" and "\<forall>g \<in> set gs. opens_turn es g"
    and "\<forall>j \<in> set pre. j < length es \<and> ev_kind (es ! j) \<noteq> UserPrompt"
proof -
  have "pre @ concat gs = [0..<length es] \<and> (\<forall>g \<in> set gs. opens_turn es g)
    \<and> (\<forall>j \<in> set pre. j < length es \<and> ev_kind (es ! j) \<noteq> UserPrompt)"
    using assms
  proof (induction es arbitrary: gs pre rule: rev_induct)
    case Nil
    then show ?case by simp
  next
    case (snoc e es)
    obtain gs0 pre0 where r: "raw_groups es = (gs0, pre0)" by fastforce
    note IH = snoc.IH [OF r]
    have step: "groups_step (length es, e) (gs0, pre0) = (gs, pre)" using snoc.prems r by simp
    show ?case
    proof (cases "ev_kind e = UserPrompt \<or> gs0 = []")
      case True
      with step IH show ?thesis
        by (auto simp: nth_append opens_turn_mono opens_turn_def [of "es @ [e]" "[length es]"]
            split: if_splits)
    next
      case False
      with step have gs: "gs = butlast gs0 @ [last gs0 @ [length es]]" and pre: "pre = pre0" by auto
      have split: "gs0 = butlast gs0 @ [last gs0]" using False by simp
      then have "concat gs0 = concat (butlast gs0) @ last gs0"
        by (metis concat_append concat.simps append_Nil2)
      moreover have "\<forall>g \<in> set (butlast gs0). opens_turn (es @ [e]) g"
        using IH by (auto intro: opens_turn_mono dest: in_set_butlastD)
      moreover have "opens_turn (es @ [e]) (last gs0 @ [length es])"
        using IH False by (intro opens_turn_snoc) auto
      ultimately show ?thesis using IH gs pre by (auto simp: nth_append)
    qed
  qed
  then show "pre @ concat gs = [0..<length es]" "\<forall>g \<in> set gs. opens_turn es g"
    "\<forall>j \<in> set pre. j < length es \<and> ev_kind (es ! j) \<noteq> UserPrompt" by auto
qed

lemma groups_of_raw: "groups_of s = merge_preamble (raw_groups (session_events s))"
  by (simp add: groups_of_def raw_groups_def)

lemma raw_groups_nil_iff:
  "fst (raw_groups es) = [] \<longleftrightarrow> (\<forall>e \<in> set es. ev_kind e \<noteq> UserPrompt)"
proof (induction es rule: rev_induct)
  case (snoc e es)
  then show ?case by (cases "raw_groups es") auto
qed simp

lemma one_prompt: "opens_turn es g \<Longrightarrow> length (filter (\<lambda>j. ev_kind (es ! j) = UserPrompt) g) = 1"
  by (cases g) (auto simp: opens_turn_def filter_empty_conv)

lemma groups_partition:
  "concat (groups_of s)
     = (if \<exists>e \<in> set (session_events s). ev_kind e = UserPrompt
        then [0..<length (session_events s)] else [])
   \<and> (\<forall>g \<in> set (groups_of s).
        length (filter (\<lambda>j. ev_kind (session_events s ! j) = UserPrompt) g) = 1)
   \<and> (\<forall>g \<in> set (tl (groups_of s)). g \<noteq> [] \<and> ev_kind (session_events s ! hd g) = UserPrompt)"
proof -
  let ?es = "session_events s"
  obtain gs pre where r: "raw_groups ?es = (gs, pre)" by fastforce
  note inv = raw_groups_inv [OF r]
  show ?thesis
  proof (cases gs)
    case Nil
    with raw_groups_nil_iff [of ?es] r show ?thesis
      by (simp add: groups_of_raw merge_preamble_def)
  next
    case (Cons g gs')
    then have gr: "groups_of s = (pre @ g) # gs'" by (simp add: groups_of_raw r merge_preamble_def)
    have ex: "\<exists>e \<in> set ?es. ev_kind e = UserPrompt"
      using raw_groups_nil_iff [of ?es] r Cons by auto
    have "filter (\<lambda>j. ev_kind (?es ! j) = UserPrompt) pre = []"
      using inv(3) by (auto simp: filter_empty_conv)
    then show ?thesis
      using inv(1,2) one_prompt [of ?es] ex unfolding gr Cons by (auto simp: opens_turn_def)
  qed
qed

text \<open>
  C36. Turn splitting loses no event and counts no turn twice. Once somebody has spoken, the
  turns put back together are all events in order; every turn holds exactly one user prompt,
  and every turn but the first starts with it. A session without a prompt has no turn.
\<close>

theorem groups_of_partition:
  "concat (groups_of s)
     = (if \<exists>e \<in> set (session_events s). ev_kind e = UserPrompt
        then [0..<length (session_events s)] else [])
   \<and> (\<forall>g \<in> set (groups_of s).
        length (filter (\<lambda>j. ev_kind (session_events s ! j) = UserPrompt) g) = 1)
   \<and> (\<forall>g \<in> set (tl (groups_of s)). g \<noteq> [] \<and> ev_kind (session_events s ! hd g) = UserPrompt)"
  by (rule groups_partition)

definition prompt_event :: "string \<Rightarrow> string option \<Rightarrow> Event" where
  "prompt_event t ts = \<lparr>ev_kind = UserPrompt, ev_text = Some t, ev_timestamp = ts, ev_paths = [],
     ev_tool = None, ev_line = None\<rparr>"

definition session_with :: "Event list \<Rightarrow> Session" where
  "session_with es =
     \<lparr>session_id = ''s'', session_runtime = ''codex'', session_cwd = None, session_events = es\<rparr>"

theorem groups_of_partition_witness:
  "concat (groups_of (session_with [prompt_event ''a'' None, prompt_event ''b'' None])) = [0, 1]
   \<and> length (groups_of (session_with [prompt_event ''a'' None, prompt_event ''b'' None])) = 2"
proof -
  let ?s = "session_with [prompt_event ''a'' None, prompt_event ''b'' None]"
  have "\<exists>e \<in> set (session_events ?s). ev_kind e = UserPrompt"
    by (simp add: session_with_def prompt_event_def)
  moreover have "[0..<length (session_events ?s)] = [0, 1]" by (simp add: session_with_def upt_rec)
  moreover have "length (groups_of ?s) = 2" by code_simp
  ultimately show ?thesis using groups_of_partition [of ?s] by simp
qed

lemma counts_prompts:
  "prompts (counts s) = length (filter (\<lambda>e. ev_kind e = UserPrompt) (session_events s))"
proof -
  have "prompts (fold count_event es c) = prompts c + length (filter (\<lambda>e. ev_kind e = UserPrompt) es)"
    for es c
    by (induction es arbitrary: c) (auto simp: count_event_def split: EventKind.splits)
  then show ?thesis by (simp add: counts_def zero_counts_def)
qed

lemma length_raw_groups:
  "length (fst (raw_groups es)) = length (filter (\<lambda>e. ev_kind e = UserPrompt) es)"
proof (induction es rule: rev_induct)
  case (snoc e es)
  then show ?case by (cases "raw_groups es") (auto simp: neq_Nil_conv)
qed simp

lemma length_groups_of: "length (groups_of s) = prompts (counts s)"
  using length_raw_groups [of "session_events s"]
  by (cases "fst (raw_groups (session_events s))")
    (simp_all add: groups_of_raw merge_preamble_def counts_prompts)

lemma length_chain_from [simp]: "length (chain_from D segs evs i p gs) = length gs"
  by (induction gs arbitrary: i p) (simp_all add: Let_def)

text \<open>
  The number of completed turns never exceeds the number of turns of the chain, and it is
  that number for a runtime that records no end of turn.
\<close>

theorem completed_count_bound:
  "completed_count s \<le> length (chain_of D segs s)
   \<and> (supports_turn_end (session_runtime s) \<or> completed_count s = length (chain_of D segs s))"
  by (simp add: completed_count_def chain_of_def length_groups_of Let_def)

section \<open>The hash chain\<close>

text \<open>The hashes as a function of the normalized turns alone, and the inputs of the digest.\<close>

fun hash_chain :: "(string \<Rightarrow> string) \<Rightarrow> string option \<Rightarrow> string list \<Rightarrow> string list" where
  "hash_chain D parent [] = []"
| "hash_chain D parent (n # ns) = turn_hash D parent n # hash_chain D (Some (turn_hash D parent n)) ns"

fun hash_inputs :: "(string \<Rightarrow> string) \<Rightarrow> string option \<Rightarrow> string list \<Rightarrow> string set" where
  "hash_inputs D parent [] = {}"
| "hash_inputs D parent (n # ns) =
     insert ((case parent of None \<Rightarrow> [] | Some h \<Rightarrow> h) @ [CHR 0x00] @ n)
       (hash_inputs D (Some (turn_hash D parent n)) ns)"

definition turn_texts :: "Session \<Rightarrow> Event list list" where
  "turn_texts s = map (map (\<lambda>j. session_events s ! j)) (groups_of s)"

lemma hashes_chain_of: "hashes (chain_of D segs s) = hash_chain D None (map normalize (turn_texts s))"
proof -
  have "map hash (chain_from D segs evs i p gs)
    = hash_chain D p (map normalize (map (map (\<lambda>j. evs ! j)) gs))" for evs i p gs
    by (induction gs arbitrary: i p) (simp_all add: Let_def comp_def)
  then show ?thesis by (simp add: hashes_def chain_of_def turn_texts_def)
qed

text \<open>The number of equal leading elements.\<close>

fun common :: "'a list \<Rightarrow> 'a list \<Rightarrow> nat" where
  "common (x # xs) (y # ys) = (if x = y then Suc (common xs ys) else 0)"
| "common _ _ = 0"

lemma fork_point_common: "fork_point a b = common (hashes a) (hashes b)"
proof -
  have "length (takeWhile (\<lambda>(x, y). hash x = hash y) (zip a b)) = common (map hash a) (map hash b)"
    by (induction a b rule: list_induct2') simp_all
  then show ?thesis by (simp add: fork_point_def hashes_def)
qed

lemma common_hash_chain:
  assumes "inj_on (\<lambda>x. take HEX_LEN (D x)) (hash_inputs D p ns \<union> hash_inputs D p ms)"
  shows "common (hash_chain D p ns) (hash_chain D p ms) = common ns ms"
  using assms
proof (induction ns ms arbitrary: p rule: common.induct)
  case (1 n ns m ms)
  show ?case
  proof (cases "n = m")
    case True
    have "inj_on (\<lambda>x. take HEX_LEN (D x))
      (hash_inputs D (Some (turn_hash D p n)) ns \<union> hash_inputs D (Some (turn_hash D p n)) ms)"
      by (rule inj_on_subset [OF "1.prems"]) (auto simp: True)
    from "1.IH" [OF True this] True show ?thesis by simp
  next
    case False
    have "turn_hash D p n \<noteq> turn_hash D p m"
    proof
      assume "turn_hash D p n = turn_hash D p m"
      then have "(case p of None \<Rightarrow> [] | Some h \<Rightarrow> h) @ [CHR 0x00] @ n
        = (case p of None \<Rightarrow> [] | Some h \<Rightarrow> h) @ [CHR 0x00] @ m"
        by - (rule inj_onD [OF "1.prems"], simp_all add: turn_hash_def)
      with False show False by simp
    qed
    with False show ?thesis by simp
  qed
qed simp_all

lemma common_map_iff:
  assumes "\<And>x y. f x = f y \<longleftrightarrow> g x = g y"
  shows "common (map f xs) (map f ys) = common (map g xs) (map g ys)"
  by (induction xs ys rule: list_induct2') (simp_all add: assms)

text \<open>
  C35. The fork point of two sessions is the number of leading turns they share, as long as the
  truncated digest has no collision among the inputs of these two chains: timestamps, paths,
  line numbers, runtime and machine play no part.
\<close>

theorem fork_point_is_common_turns:
  assumes "inj_on (\<lambda>x. take HEX_LEN (D x))
      (hash_inputs D None (map normalize (turn_texts s)) \<union> hash_inputs D None (map normalize (turn_texts t)))"
  shows "fork_point (chain_of D segs s) (chain_of D segs t)
    = common (map turn_view (turn_texts s)) (map turn_view (turn_texts t))"
proof -
  have "normalize x = normalize y \<longleftrightarrow> turn_view x = turn_view y" for x y
    using normalize_eqD normalize_view by blast
  then show ?thesis
    by (simp only: fork_point_common hashes_chain_of common_hash_chain [OF assms]
        common_map_iff [of normalize turn_view])
qed

theorem fork_point_is_common_turns_witness:
  "fork_point (chain_of id (\<lambda>_. []) (session_with [prompt_event ''a'' None, prompt_event ''b'' None]))
     (chain_of id (\<lambda>_. []) (session_with [prompt_event ''a'' (Some ''later''), prompt_event ''c'' None])) = 1"
proof -
  let ?s = "session_with [prompt_event ''a'' None, prompt_event ''b'' None]"
  let ?t = "session_with [prompt_event ''a'' (Some ''later''), prompt_event ''c'' None]"
  have n1: "map normalize (turn_texts ?s) = [''1:u01:a'', ''1:u01:b'']"
    and n2: "map normalize (turn_texts ?t) = [''1:u01:a'', ''1:u01:c'']" by code_simp+
  have "inj_on (\<lambda>x. take HEX_LEN (id x))
      (hash_inputs id None (map normalize (turn_texts ?s)) \<union> hash_inputs id None (map normalize (turn_texts ?t)))"
    unfolding n1 n2 by (simp add: turn_hash_def HEX_LEN_def inj_on_def)
  from fork_point_is_common_turns [OF this, of "\<lambda>_. []"]
  have "fork_point (chain_of id (\<lambda>_. []) ?s) (chain_of id (\<lambda>_. []) ?t)
    = common (map turn_view (turn_texts ?s)) (map turn_view (turn_texts ?t))" .
  also have "\<dots> = 1" by code_simp
  finally show ?thesis .
qed

section \<open>Append-only history\<close>

lemma groups_step_extend:
  assumes "groups_step x (gs, pre) = (gs', pre')" and "gs \<noteq> []"
  shows "gs' \<noteq> [] \<and> pre' = pre \<and> prefix (butlast gs) (butlast gs')"
  using assms by (cases x) (auto simp: butlast_append prefixeq_butlast split: if_splits)

lemma fold_groups_extend:
  assumes "fold groups_step xs (gs, pre) = (gs', pre')" and "gs \<noteq> []"
  shows "gs' \<noteq> [] \<and> pre' = pre \<and> prefix (butlast gs) (butlast gs')"
  using assms
proof (induction xs arbitrary: gs pre)
  case (Cons x xs)
  obtain gs1 pre1 where st: "groups_step x (gs, pre) = (gs1, pre1)" by fastforce
  from groups_step_extend [OF st Cons.prems(2)]
  have 1: "gs1 \<noteq> []" "pre1 = pre" "prefix (butlast gs) (butlast gs1)" by auto
  from Cons.prems(1) st have "fold groups_step xs (gs1, pre1) = (gs', pre')" by simp
  from Cons.IH [OF this 1(1)] 1 show ?case by (auto intro: prefix_order.trans)
qed simp

lemma butlast_merge:
  "butlast (merge_preamble (gs, pre)) = (case butlast gs of [] \<Rightarrow> [] | g # gs' \<Rightarrow> (pre @ g) # gs')"
  by (cases gs rule: rev_cases) (auto simp: merge_preamble_def neq_Nil_conv split: list.splits)

lemma groups_of_extend:
  "prefix (butlast (groups_of s)) (groups_of (s\<lparr>session_events := session_events s @ later\<rparr>))"
proof -
  let ?es = "session_events s"
  obtain gs pre where r: "raw_groups ?es = (gs, pre)" by fastforce
  obtain gs' pre' where r': "raw_groups (?es @ later) = (gs', pre')" by fastforce
  show ?thesis
  proof (cases "gs = []")
    case True
    then show ?thesis by (simp add: groups_of_raw r merge_preamble_def)
  next
    case False
    from r have "fold groups_step (enumerate (length ?es) later) (gs, pre) = (gs', pre')"
      using r' by (simp add: raw_groups_def enumerate_append_eq)
    from fold_groups_extend [OF this False]
    have e: "gs' \<noteq> []" "pre' = pre" "prefix (butlast gs) (butlast gs')" by auto
    then have "prefix (butlast (merge_preamble (gs, pre))) (butlast (merge_preamble (gs', pre')))"
      unfolding butlast_merge by (auto simp: prefix_def split: list.splits)
    then show ?thesis
      by (simp add: groups_of_raw r r') (meson prefix_order.trans prefix_order.refl prefixeq_butlast)
  qed
qed

lemma hash_chain_prefix: "prefix ns ms \<Longrightarrow> prefix (hash_chain D p ns) (hash_chain D p ms)"
proof (induction ns arbitrary: p ms)
  case (Cons n ns)
  then show ?case by (cases ms) auto
qed simp

lemma hash_chain_butlast: "hash_chain D p (butlast ns) = butlast (hash_chain D p ns)"
proof (induction ns arbitrary: p)
  case (Cons n ns)
  then show ?case by (cases ns) simp_all
qed simp

text \<open>
  C38. A transcript that only grows never changes the hash of a turn that is no longer the last
  one: recomputing the chain later gives the same hashes as computing it turn by turn.
\<close>

theorem hashes_append_only:
  "prefix (butlast (hashes (chain_of D segs s)))
     (hashes (chain_of D segs (s\<lparr>session_events := session_events s @ later\<rparr>)))"
proof -
  let ?s' = "s\<lparr>session_events := session_events s @ later\<rparr>"
  have idx: "j < length (session_events s)" if "g \<in> set (groups_of s)" "j \<in> set g" for g j
  proof -
    have "j \<in> set (concat (groups_of s))" using that by auto
    moreover have "set (concat (groups_of s)) \<subseteq> {0..<length (session_events s)}"
      using raw_groups_inv(1) [of "session_events s"]
      by (cases "raw_groups (session_events s)"; cases "fst (raw_groups (session_events s))")
        (auto simp: groups_of_raw merge_preamble_def simp flip: set_upt)
    ultimately show ?thesis by auto
  qed
  have "butlast (turn_texts s) = map (map (\<lambda>j. session_events ?s' ! j)) (butlast (groups_of s))"
    using idx by (auto simp: turn_texts_def map_butlast [symmetric] nth_append dest!: in_set_butlastD)
  moreover have "prefix \<dots> (turn_texts ?s')"
    unfolding turn_texts_def by (intro map_mono_prefix groups_of_extend)
  ultimately have "prefix (butlast (turn_texts s)) (turn_texts ?s')" by simp
  then have "prefix (map normalize (butlast (turn_texts s))) (map normalize (turn_texts ?s'))"
    by (rule map_mono_prefix)
  from hash_chain_prefix [OF this] show ?thesis
    by (simp add: hashes_chain_of map_butlast hash_chain_butlast)
qed

end
