(* ===== verification/Journal.thy ===== *)
theory Journal
  imports Prelude "HOL-Library.AList"
begin

text \<open>
  The event journal of the daemon (\<open>src/rc/journal.rs\<close>): a per-stream counter that numbers frames,
  a bounded ring of recent frames for replay, and the watermark file that lets the counter
  survive a restart. A \<open>BTreeMap\<close> is an association list with distinct keys; of a \<open>Frame\<close> only the
  \<open>seq\<close> field is read here, the rest is the type parameter \<open>'p\<close>. The counter is a 64-bit word.

  The locale \<open>numbered\<close> states what a numbering promises its clients and is interpreted on a
  stream and on a journal. The step relation \<open>jstep\<close> runs the journal beside the complete history
  of every stream, which is what a replay is measured against.
\<close>

section \<open>State\<close>

definition RING_CAPACITY :: nat where
  "RING_CAPACITY = 8192"

record 'p Frame =
  f_seq :: "u64 option"
  f_payload :: 'p

record 'p Stream =
  next_seq :: u64
  ring :: "'p Frame list"
  retained :: bool

definition default_stream :: "'p Stream" where
  "default_stream = \<lparr>next_seq = 0, ring = [], retained = True\<rparr>"

type_synonym watermark = "(string \<times> u64) list"

record 'p Journal =
  streams :: "(string \<times> 'p Stream) list"
  dirty :: bool

section \<open>One stream\<close>

definition push :: "'p Frame \<Rightarrow> 'p Stream \<Rightarrow> 'p Frame \<times> 'p Stream" where
  "push f s =
     (let n = next_seq s + 1;
          f' = f\<lparr>f_seq := Some n\<rparr>;
          r = (if retained s
               then (if length (ring s) = RING_CAPACITY then tl (ring s) else ring s) @ [f']
               else ring s)
      in (f', s\<lparr>next_seq := n, ring := r\<rparr>))"

definition front_seq :: "'p Stream \<Rightarrow> u64 option" where
  "front_seq s = (case ring s of [] \<Rightarrow> None | f # _ \<Rightarrow> f_seq f)"

definition since :: "'p Stream \<Rightarrow> u64 \<Rightarrow> 'p Frame list \<times> u64" where
  "since s after =
     (let lowest = (case front_seq s of Some n \<Rightarrow> n | None \<Rightarrow> next_seq s + 1)
      in (filter (\<lambda>f. case f_seq f of Some n \<Rightarrow> n > after | None \<Rightarrow> False) (ring s), lowest))"

section \<open>The journal\<close>

definition new_journal :: "'p Journal" where
  "new_journal = \<lparr>streams = [], dirty = False\<rparr>"

definition stream_of :: "'p Journal \<Rightarrow> string \<Rightarrow> 'p Stream option" where
  "stream_of j k = map_of (streams j) k"

definition stream_or :: "'p Stream \<Rightarrow> 'p Journal \<Rightarrow> string \<Rightarrow> 'p Stream" where
  "stream_or d j k = (case stream_of j k of Some s \<Rightarrow> s | None \<Rightarrow> d)"

definition put_stream :: "string \<Rightarrow> 'p Stream \<Rightarrow> 'p Journal \<Rightarrow> 'p Journal" where
  "put_stream k s j = j\<lparr>streams := AList.update k s (streams j)\<rparr>"

definition restored :: "watermark option \<Rightarrow> 'p Journal" where
  "restored w =
     (case w of
        None \<Rightarrow> new_journal
      | Some seqs \<Rightarrow>
          fold (\<lambda>(k, v) j. put_stream k ((stream_or default_stream j k)\<lparr>next_seq := v\<rparr>) j) seqs new_journal)"

definition adopt_one :: "string \<times> u64 \<Rightarrow> 'p Journal \<Rightarrow> 'p Journal" where
  "adopt_one = (\<lambda>(k, n) j.
     let s = stream_or default_stream j k
     in if n > next_seq s then (put_stream k (s\<lparr>next_seq := n\<rparr>) j)\<lparr>dirty := True\<rparr>
        else put_stream k s j)"

definition adopt_persisted :: "watermark \<Rightarrow> 'p Journal \<Rightarrow> 'p Journal" where
  "adopt_persisted persisted j = fold adopt_one persisted j"

definition is_terminal :: "string \<Rightarrow> bool" where
  "is_terminal k = prefix ''term:'' k"

definition record_frame :: "string \<Rightarrow> 'p Frame \<Rightarrow> 'p Journal \<Rightarrow> 'p Frame \<times> 'p Journal" where
  "record_frame k f j =
     (let terminal = is_terminal k;
          s = stream_or (default_stream\<lparr>retained := \<not> terminal\<rparr>) j k;
          s = (if terminal \<and> retained s then s\<lparr>retained := False, ring := []\<rparr> else s);
          (f', s') = push f s
      in (f', (put_stream k s' j)\<lparr>dirty := True\<rparr>))"

definition window :: "'p Journal \<Rightarrow> string \<Rightarrow> u64 option \<times> u64" where
  "window j k = (case stream_of j k of Some s \<Rightarrow> (front_seq s, next_seq s) | None \<Rightarrow> (None, 0))"

definition last_seq :: "'p Journal \<Rightarrow> string \<Rightarrow> u64" where
  "last_seq j k = (case stream_of j k of Some s \<Rightarrow> next_seq s | None \<Rightarrow> 0)"

definition from_seq :: "'p Journal \<Rightarrow> string \<Rightarrow> u64 \<Rightarrow> u64 option \<Rightarrow> u64" where
  "from_seq j k after first_sent =
     (let nxt = last_seq j k
      in case first_sent of
           Some first \<Rightarrow> first
         | None \<Rightarrow> if after \<ge> nxt then saturating_add after 1 else saturating_add nxt 1)"

definition all_last_seq :: "'p Journal \<Rightarrow> watermark" where
  "all_last_seq j = map (\<lambda>(k, s). (k, next_seq s)) (streams j)"

definition replay :: "'p Journal \<Rightarrow> string \<Rightarrow> u64 \<Rightarrow> 'p Frame list \<times> u64" where
  "replay j k after = (case stream_of j k of Some s \<Rightarrow> since s after | None \<Rightarrow> ([], 0))"

definition forget :: "string \<Rightarrow> 'p Journal \<Rightarrow> 'p Journal" where
  "forget k j =
     (case stream_of j k of
        Some s \<Rightarrow> put_stream k (s\<lparr>ring := [], retained := False\<rparr>) j
      | None \<Rightarrow> j)\<lparr>dirty := True\<rparr>"

definition resume :: "string \<Rightarrow> 'p Journal \<Rightarrow> 'p Journal" where
  "resume k j =
     (if is_terminal k then j
      else case stream_of j k of
             Some s \<Rightarrow> put_stream k (s\<lparr>retained := True\<rparr>) j
           | None \<Rightarrow> j)"

text \<open>The watermark file, \<open>wrote\<close> being whether writing and renaming it succeeded.\<close>

definition flush :: "bool \<Rightarrow> 'p Journal \<times> watermark option \<Rightarrow> 'p Journal \<times> watermark option" where
  "flush wrote = (\<lambda>(j, disk).
     if \<not> dirty j then (j, disk)
     else if wrote then (j\<lparr>dirty := False\<rparr>, Some (all_last_seq j))
     else (j, disk))"

lemmas journal_defs =
  stream_of_def stream_or_def put_stream_def last_seq_def replay_def record_frame_def
  forget_def resume_def adopt_one_def flush_def

section \<open>Numbering\<close>

lemma word_less_inc: "w \<noteq> - 1 \<Longrightarrow> w < w + (1::'a::len word)"
  by (metis add.commute inc_less_eq_triv_imp not_le max_word_wrap add_eq_0_iff
      add.left_neutral word_order.extremum_unique order.refl)

text \<open>
  What numbering promises: unless the counter is exhausted, a new item gets the number after the
  last one. Numbers given in a row are then consecutive.
\<close>

locale numbered =
  fixes number :: "'f \<Rightarrow> 's \<Rightarrow> 'f \<times> 's"
    and last_of :: "'s \<Rightarrow> u64"
    and num :: "'f \<Rightarrow> u64 option"
  assumes number_next: "num (fst (number f s)) = Some (last_of s + 1)"
    and number_last: "last_of (snd (number f s)) = last_of s + 1"
begin

fun number_all :: "'f list \<Rightarrow> 's \<Rightarrow> 'f list \<times> 's" where
  "number_all [] s = ([], s)"
| "number_all (f # fs) s =
     (let (f', s') = number f s; (fs', s'') = number_all fs s' in (f' # fs', s''))"

lemma number_all_consecutive:
  "map num (fst (number_all fs s)) = map (\<lambda>i. Some (last_of s + of_nat i)) [1..<Suc (length fs)]
   \<and> last_of (snd (number_all fs s)) = last_of s + of_nat (length fs)"
proof (induction fs arbitrary: s)
  case Nil
  then show ?case by simp
next
  case (Cons f fs)
  let ?s' = "snd (number f s)"
  have shift: "map (\<lambda>i. Some (last_of ?s' + of_nat i)) [1..<Suc (length fs)]
    = map (\<lambda>i. Some (last_of s + of_nat i)) [2..<Suc (Suc (length fs))]"
    by (rule nth_equalityI) (simp_all add: number_last nth_upt algebra_simps del: upt_Suc)
  have "map num (fst (number_all (f # fs) s))
    = Some (last_of s + 1) # map num (fst (number_all fs ?s'))"
    using number_next [of f s] by (simp add: split_beta)
  also have "\<dots> = map (\<lambda>i. Some (last_of s + of_nat i)) [1..<Suc (length (f # fs))]"
    using Cons.IH [of ?s'] shift by (simp add: upt_conv_Cons numeral_2_eq_2 del: upt_Suc)
  finally show ?case
    using Cons.IH [of ?s'] by (simp add: split_beta number_last algebra_simps)
qed

end

interpretation stream_num: numbered push next_seq f_seq
  by unfold_locales (simp_all add: push_def Let_def)

lemma record_frame_seq:
  "f_seq (fst (record_frame k f j)) = Some (last_seq j k + 1)"
  "last_seq (snd (record_frame k f j)) k = last_seq j k + 1"
  "k' \<noteq> k \<Longrightarrow> stream_of (snd (record_frame k f j)) k' = stream_of j k'"
  by (auto simp: journal_defs push_def Let_def default_stream_def update_conv' split: option.splits)

interpretation journal_num: numbered "record_frame k" "\<lambda>j. last_seq j k" f_seq for k
  by unfold_locales (rule record_frame_seq)+

text \<open>Frames recorded on one stream in a row.\<close>

fun record_all :: "string \<Rightarrow> 'p Frame list \<Rightarrow> 'p Journal \<Rightarrow> 'p Frame list \<times> 'p Journal" where
  "record_all k [] j = ([], j)"
| "record_all k (f # fs) j =
     (let (f', j') = record_frame k f j; (fs', j'') = record_all k fs j' in (f' # fs', j''))"

lemma record_all_number_all: "record_all k fs j = journal_num.number_all k fs j"
  by (induction fs arbitrary: j) simp_all

text \<open>
  The numbers of a stream are monotonic and gap-free: frames recorded in a row on a stream
  carry the consecutive numbers after its last one, whatever was retained, and no other stream
  is renumbered.
\<close>

theorem record_all_gap_free:
  "map f_seq (fst (record_all k fs j)) = map (\<lambda>i. Some (last_seq j k + of_nat i)) [1..<Suc (length fs)]
   \<and> last_seq (snd (record_all k fs j)) k = last_seq j k + of_nat (length fs)
   \<and> (k' = k \<or> stream_of (snd (record_all k fs j)) k' = stream_of j k')"
proof -
  have "k' = k \<or> stream_of (snd (record_all k fs j)) k' = stream_of j k'"
  proof (induction fs arbitrary: j)
    case (Cons f fs)
    then show ?case
      using record_frame_seq(3) [of k' k f j] by (cases "k' = k") (simp_all add: split_beta)
  qed simp
  then show ?thesis
    using journal_num.number_all_consecutive [of k fs j] by (simp add: record_all_number_all)
qed

section \<open>The counter only moves forward\<close>

interpretation stream_table: keyed stream_of put_stream
  by unfold_locales (simp add: stream_of_def put_stream_def update_conv')

lemmas stream_of_put = stream_table.look_put

lemma stream_of_dirty [simp]: "stream_of (j\<lparr>dirty := d\<rparr>) k = stream_of j k"
  by (simp add: stream_of_def)

lemma last_seq_adopt_one:
  "last_seq (adopt_one p j) k = (if k = fst p then max (last_seq j k) (snd p) else last_seq j k)"
  by (cases p) (auto simp: adopt_one_def Let_def last_seq_def stream_of_put stream_or_def
      default_stream_def max_def not_less split: option.splits)

lemma last_seq_adopt:
  "last_seq (adopt_persisted ps j) k = fold max (map snd (filter (\<lambda>p. fst p = k) ps)) (last_seq j k)"
  unfolding adopt_persisted_def
  by (induction ps arbitrary: j) (auto simp: last_seq_adopt_one max.commute)

lemma fold_max_init: "(x::'a::linorder) \<le> fold max xs x"
  by (induction xs arbitrary: x) (auto intro: order.trans [OF max.cobounded2])

lemma fold_max_member: "y \<in> set xs \<Longrightarrow> y \<le> fold max xs (x::'a::linorder)"
proof (induction xs arbitrary: x)
  case (Cons a xs)
  then show ?case
    using fold_max_init [of "max a x" xs] by (auto intro: order.trans [OF max.cobounded1])
qed simp

lemma last_seq_forget [simp]: "last_seq (forget k j) k' = last_seq j k'"
  by (auto simp: forget_def last_seq_def stream_of_put split: option.splits)

lemma last_seq_resume [simp]: "last_seq (resume k j) k' = last_seq j k'"
  by (auto simp: resume_def last_seq_def stream_of_put split: option.splits)

lemma last_seq_flush [simp]: "last_seq (fst (flush w (j, d))) k' = last_seq j k'"
  by (simp add: flush_def last_seq_def)

section \<open>Histories\<close>

text \<open>The journal, and beside it every frame numbered so far on each stream.\<close>

type_synonym 'p hist = "string \<Rightarrow> 'p Frame list"

inductive jstep :: "'p Journal \<times> 'p hist \<Rightarrow> 'p Journal \<times> 'p hist \<Rightarrow> bool" where
  js_record: "last_seq j k \<noteq> - 1 \<Longrightarrow> record_frame k f j = (f', j')
    \<Longrightarrow> jstep (j, h) (j', h(k := h k @ [f']))"
| js_adopt: "jstep (j, h) (adopt_persisted ps j, h)"
| js_forget: "jstep (j, h) (forget k j, h)"
| js_resume: "jstep (j, h) (resume k j, h)"
| js_flush: "jstep (j, h) (fst (flush w (j, d)), h)"

inductive jreach :: "'p Journal \<times> 'p hist \<Rightarrow> bool" where
  jr_start: "jreach (restored w, \<lambda>_. [])"
| jr_step: "jreach c \<Longrightarrow> jstep c c' \<Longrightarrow> jreach c'"

inductive_cases jstepE: "jstep (j, h) c"

text \<open>
  No step lowers a stream's number: recording raises it by one, adopting the hub's
  watermarks raises it at least to them, and ending, reopening or flushing a stream keep it, so
  no number is ever issued twice on a stream.
\<close>

theorem jstep_monotone:
  assumes "jstep (j, h) (j', h')"
  shows "last_seq j k \<le> last_seq j' k
    \<and> (j' = adopt_persisted ps j \<and> (k, n) \<in> set ps \<longrightarrow> n \<le> last_seq j' k)"
proof -
  have "last_seq j k \<le> last_seq j' k"
    using assms
  proof cases
    case (js_record k' f f')
    then show ?thesis
      using record_frame_seq(2) [of k' f j] record_frame_seq(3) [of k k' f j]
        word_less_inc [of "last_seq j k"]
      by (cases "k = k'") (auto simp: less_imp_le, simp add: last_seq_def)
  next
    case (js_adopt ps)
    then show ?thesis by (simp add: last_seq_adopt fold_max_init)
  qed simp_all
  moreover have "n \<le> last_seq (adopt_persisted ps j) k" if "(k, n) \<in> set ps"
    using that unfolding last_seq_adopt by (intro fold_max_member) force
  ultimately show ?thesis by blast
qed

text \<open>The invariant of one stream against its history.\<close>

definition ascending :: "'p Frame list \<Rightarrow> bool" where
  "ascending l \<longleftrightarrow> sorted_wrt (\<lambda>f g. the (f_seq f) < the (f_seq g)) l"

definition stream_ok :: "string \<Rightarrow> 'p Stream \<Rightarrow> 'p Frame list \<Rightarrow> bool" where
  "stream_ok k s l \<longleftrightarrow>
     length (ring s) \<le> RING_CAPACITY \<and> suffix (ring s) l
     \<and> (\<not> retained s \<longrightarrow> ring s = []) \<and> (is_terminal k \<longrightarrow> ring s = [])
     \<and> (\<forall>f \<in> set l. \<exists>n. f_seq f = Some n \<and> n \<le> next_seq s) \<and> ascending l"

definition journal_ok :: "'p Journal \<times> 'p hist \<Rightarrow> bool" where
  "journal_ok = (\<lambda>(j, h). \<forall>k. case stream_of j k of
     None \<Rightarrow> h k = [] | Some s \<Rightarrow> stream_ok k s (h k))"

lemma default_stream_ok [simp]: "stream_ok k (default_stream\<lparr>next_seq := n\<rparr>) []"
  "stream_ok k (default_stream\<lparr>retained := b\<rparr>) []" "stream_ok k default_stream []"
  by (simp_all add: stream_ok_def default_stream_def ascending_def)

lemma ascending_snoc:
  assumes "ascending l" and "\<forall>f \<in> set l. \<exists>n. f_seq f = Some n \<and> n \<le> m"
    and "f_seq g = Some (m + 1)" and "m \<noteq> - 1"
  shows "ascending (l @ [g])"
  using assms word_less_inc [OF assms(4)]
  by (auto simp: ascending_def sorted_wrt_append intro: le_less_trans)

lemma push_ok:
  assumes "stream_ok k s l" and "push f s = (f', s')" and "next_seq s \<noteq> - 1"
    and "is_terminal k \<longrightarrow> \<not> retained s"
  shows "stream_ok k s' (l @ [f'])"
proof -
  let ?n = "next_seq s + 1"
  have f': "f_seq f' = Some ?n" and s': "next_seq s' = ?n" "retained s' = retained s"
    using assms(2) by (auto simp: push_def Let_def)
  have ring: "ring s' = (if retained s
      then (if length (ring s) = RING_CAPACITY then tl (ring s) else ring s) @ [f'] else ring s)"
    using assms(2) by (auto simp: push_def Let_def)
  have lt: "next_seq s < ?n" by (rule word_less_inc [OF assms(3)])
  have "suffix (tl (ring s)) l"
    using assms(1) by (metis stream_ok_def suffix_order.trans suffix_tl)
  then have "suffix (ring s') (l @ [f'])"
    using assms(1) unfolding ring stream_ok_def by auto
  moreover have "length (ring s') \<le> RING_CAPACITY"
    using assms(1) unfolding ring by (auto simp: stream_ok_def RING_CAPACITY_def)
  moreover have "\<forall>f \<in> set (l @ [f']). \<exists>n. f_seq f = Some n \<and> n \<le> next_seq s'"
    using assms(1) f' s' lt by (fastforce simp: stream_ok_def)
  moreover have "ascending (l @ [f'])"
    using assms(1,3) f' by (intro ascending_snoc) (auto simp: stream_ok_def)
  ultimately show ?thesis using assms(1,4) s' ring by (auto simp: stream_ok_def)
qed

lemma journal_ok_put:
  assumes "journal_ok (j, h)" and "stream_ok k s (l)"
  shows "journal_ok (put_stream k s j, h(k := l))"
proof -
  have old: "case stream_of j k' of None \<Rightarrow> h k' = [] | Some s \<Rightarrow> stream_ok k' s (h k')" for k'
    using assms(1) by (simp add: journal_ok_def)
  have "case stream_of (put_stream k s j) k' of
      None \<Rightarrow> (h(k := l)) k' = [] | Some t \<Rightarrow> stream_ok k' t ((h(k := l)) k')" for k'
    using assms(2) old [of k'] by (cases "k' = k"; cases "stream_of j k'") (simp_all add: stream_of_put)
  then show ?thesis by (simp add: journal_ok_def)
qed

lemma journal_ok_put_same:
  "journal_ok (j, h) \<Longrightarrow> stream_ok k s (h k) \<Longrightarrow> journal_ok (put_stream k s j, h)"
  using journal_ok_put [of j h k s "h k"] by simp

lemma journal_ok_stream_or:
  assumes "journal_ok (j, h)" and "stream_ok k d []"
  shows "stream_ok k (stream_or d j k) (h k)"
  using assms by (auto simp: journal_ok_def stream_or_def split: option.splits dest: spec [of _ k])

lemma stream_ok_raise: "stream_ok k s l \<Longrightarrow> next_seq s \<le> n \<Longrightarrow> stream_ok k (s\<lparr>next_seq := n\<rparr>) l"
  by (fastforce simp: stream_ok_def)

lemma stream_ok_release: "stream_ok k s l \<Longrightarrow> stream_ok k (s\<lparr>ring := [], retained := b\<rparr>) l"
  by (auto simp: stream_ok_def)

lemma stream_ok_reopen:
  "stream_ok k s l \<Longrightarrow> \<not> is_terminal k \<Longrightarrow> stream_ok k (s\<lparr>retained := True\<rparr>) l"
  by (auto simp: stream_ok_def)

lemma journal_ok_dirty [simp]: "journal_ok (j\<lparr>dirty := d\<rparr>, h) = journal_ok (j, h)"
  by (simp add: journal_ok_def)

lemma adopt_one_ok: "journal_ok (j, h) \<Longrightarrow> journal_ok (adopt_one p j, h)"
proof -
  assume ok: "journal_ok (j, h)"
  obtain k n where p: "p = (k, n)" by fastforce
  let ?s = "stream_or default_stream j k"
  have s: "stream_ok k ?s (h k)" by (rule journal_ok_stream_or [OF ok]) simp
  then have "stream_ok k (?s\<lparr>next_seq := n\<rparr>) (h k)" if "n > next_seq ?s"
    using that by (intro stream_ok_raise) simp_all
  with s show "journal_ok (adopt_one p j, h)"
    unfolding p adopt_one_def by (auto simp: Let_def intro!: journal_ok_put_same [OF ok])
qed

lemma record_frame_ok:
  assumes "journal_ok (j, h)" and "last_seq j k \<noteq> - 1" and "record_frame k f j = (f', j')"
  shows "journal_ok (j', h(k := h k @ [f']))"
proof -
  define s0 where "s0 = stream_or (default_stream\<lparr>retained := \<not> is_terminal k\<rparr>) j k"
  define s where "s = (if is_terminal k \<and> retained s0 then s0\<lparr>retained := False, ring := []\<rparr> else s0)"
  obtain s' where p: "push f s = (f', s')" and j': "j' = (put_stream k s' j)\<lparr>dirty := True\<rparr>"
    using assms(3) unfolding record_frame_def Let_def s0_def [symmetric] s_def [symmetric]
    by (cases "push f s") auto
  have "stream_ok k s0 (h k)"
    unfolding s0_def by (rule journal_ok_stream_or [OF assms(1)]) simp
  then have "stream_ok k s (h k)" by (auto simp: s_def stream_ok_def)
  moreover have "next_seq s \<noteq> - 1"
    using assms(2) by (auto simp: s_def s0_def last_seq_def stream_or_def default_stream_def
        split: option.splits)
  ultimately have "stream_ok k s' (h k @ [f'])"
    by (rule push_ok [OF _ p]) (simp add: s_def)
  then show ?thesis unfolding j' by (simp add: journal_ok_put [OF assms(1)])
qed

lemma forget_ok: "journal_ok (j, h) \<Longrightarrow> journal_ok (forget k j, h)"
  using stream_ok_release [of k _ "h k"]
  by (auto simp: forget_def journal_ok_def stream_of_put split: option.splits)

lemma resume_ok: "journal_ok (j, h) \<Longrightarrow> journal_ok (resume k j, h)"
  using stream_ok_reopen [of k _ "h k"]
  by (auto simp: resume_def journal_ok_def stream_of_put split: option.splits)

lemma adopt_ok: "journal_ok (j, h) \<Longrightarrow> journal_ok (adopt_persisted ps j, h)"
  unfolding adopt_persisted_def by (induction ps arbitrary: j) (simp_all add: adopt_one_ok)

lemma jstep_ok: "jstep c c' \<Longrightarrow> journal_ok c \<Longrightarrow> journal_ok c'"
proof (induction rule: jstep.induct)
  case (js_record j k f f' j' h)
  then show ?case by (auto intro: record_frame_ok)
next
  case (js_flush j h w d)
  then show ?case by (auto simp: flush_def)
qed (simp_all add: adopt_ok forget_ok resume_ok)

lemma restored_ok: "journal_ok (restored w, \<lambda>_. [])"
proof (cases w)
  case None
  then show ?thesis by (simp add: restored_def new_journal_def journal_ok_def stream_of_def)
next
  case (Some seqs)
  let ?f = "\<lambda>(k, v) j. put_stream k ((stream_or default_stream j k)\<lparr>next_seq := v\<rparr>) j"
  have "journal_ok (fold ?f seqs j, \<lambda>_. [])" if "journal_ok (j, \<lambda>_. [])" for j :: "'a Journal"
    using that
  proof (induction seqs arbitrary: j)
    case (Cons p seqs)
    obtain k v where p: "p = (k, v)" by fastforce
    have "stream_ok k (stream_or default_stream j k) []"
      using journal_ok_stream_or [OF Cons.prems, of k default_stream] by simp
    then have "stream_ok k ((stream_or default_stream j k)\<lparr>next_seq := v\<rparr>) []"
      by (simp add: stream_ok_def)
    from journal_ok_put [OF Cons.prems this] have "journal_ok (?f p j, \<lambda>_. [])"
      by (simp add: p fun_upd_idem)
    from Cons.IH [OF this] show ?case by simp
  qed simp
  moreover have "journal_ok (new_journal :: 'a Journal, \<lambda>_. [])"
    by (simp add: new_journal_def journal_ok_def stream_of_def)
  ultimately show ?thesis by (simp add: restored_def Some)
qed

lemma jreach_ok: "jreach c \<Longrightarrow> journal_ok c"
  by (induction rule: jreach.induct) (auto intro: restored_ok jstep_ok)

section \<open>Replay\<close>

lemma suffix_filter_from:
  assumes "ascending l" and "\<forall>f \<in> set l. f_seq f \<noteq> None" and "suffix (g # r) l"
  shows "filter (\<lambda>f. the (f_seq f) \<ge> the (f_seq g)) l = g # r"
proof -
  from assms(3) obtain pre where l: "l = pre @ g # r" by (auto simp: suffix_def)
  have "filter (\<lambda>f. the (f_seq f) \<ge> the (f_seq g)) pre = []"
    using assms(1) unfolding l by (auto simp: ascending_def sorted_wrt_append filter_empty_conv not_le)
  moreover have "filter (\<lambda>f. the (f_seq f) \<ge> the (f_seq g)) r = r"
    using assms(1) unfolding l
    by (auto simp: ascending_def sorted_wrt_append filter_id_conv less_imp_le)
  ultimately show ?thesis by (simp add: l)
qed

lemma since_exact:
  assumes ok: "stream_ok k s l" and nx: "next_seq s \<noteq> - 1" and sn: "since s after = (out, lowest)"
  shows "out = filter (\<lambda>f. the (f_seq f) > after \<and> the (f_seq f) \<ge> lowest) l"
proof -
  have some: "\<forall>f \<in> set l. f_seq f \<noteq> None" and asc: "ascending l" and suf: "suffix (ring s) l"
    using ok by (auto simp: stream_ok_def)
  have sub: "set (ring s) \<subseteq> set l" using suf by (rule set_mono_suffix)
  have out: "out = filter (\<lambda>f. the (f_seq f) > after) (ring s)"
    using sn some sub by (auto simp: since_def Let_def intro!: filter_cong split: option.splits)
  have "ring s = filter (\<lambda>f. the (f_seq f) \<ge> lowest) l"
  proof (cases "ring s")
    case Nil
    then have low: "lowest = next_seq s + 1" using sn by (simp add: since_def Let_def front_seq_def)
    have "the (f_seq f) < lowest" if "f \<in> set l" for f
      using ok that word_less_inc [OF nx] unfolding low stream_ok_def by fastforce
    then have "filter (\<lambda>f. the (f_seq f) \<ge> lowest) l = []"
      by (auto simp: filter_empty_conv not_le)
    with Nil show ?thesis by simp
  next
    case (Cons g r)
    then have "f_seq g = Some lowest"
      using sn some sub by (auto simp: since_def Let_def front_seq_def split: option.splits)
    with suffix_filter_from [OF asc some suf [unfolded Cons]] Cons show ?thesis by simp
  qed
  then show ?thesis unfolding out by (simp add: conj_commute)
qed

lemma jreach_stream:
  assumes "jreach (j, h)"
  shows "stream_of j k = None \<Longrightarrow> h k = []" and "stream_of j k = Some s \<Longrightarrow> stream_ok k s (h k)"
proof -
  have *: "case stream_of j k of None \<Rightarrow> h k = [] | Some s \<Rightarrow> stream_ok k s (h k)"
    using jreach_ok [OF assms] by (simp add: journal_ok_def)
  from * show "stream_of j k = None \<Longrightarrow> h k = []" by simp
  from * show "stream_of j k = Some s \<Longrightarrow> stream_ok k s (h k)" by simp
qed

lemma jreach_replay:
  assumes "jreach (j, h)" and "last_seq j k \<noteq> - 1" and "replay j k after = (out, lowest)"
  shows "out = filter (\<lambda>f. the (f_seq f) > after \<and> the (f_seq f) \<ge> lowest) (h k)"
proof (cases "stream_of j k")
  case None
  then show ?thesis using assms jreach_stream(1) [OF assms(1)] by (simp add: replay_def)
next
  case (Some s)
  then show ?thesis
    using assms(2,3) since_exact [OF jreach_stream(2) [OF assms(1) Some]]
    by (simp add: replay_def last_seq_def)
qed

text \<open>
  C19. A replay is complete. Whatever sequence of records, adopted watermarks, ended and
  reopened streams led here, asking for the frames after a position returns every frame ever
  numbered on the stream after that position except those below the reported lowest number, in
  order and at most a ring of them.
\<close>

theorem replay_complete:
  assumes "jreach (j, h)" and "last_seq j k \<noteq> - 1" and "replay j k after = (out, lowest)"
  shows "out = filter (\<lambda>f. the (f_seq f) > after \<and> the (f_seq f) \<ge> lowest) (h k)
    \<and> ascending (h k) \<and> length out \<le> RING_CAPACITY"
proof -
  have "ascending (h k) \<and> length out \<le> RING_CAPACITY"
  proof (cases "stream_of j k")
    case None
    then show ?thesis
      using assms jreach_stream(1) [OF assms(1)] by (simp add: replay_def ascending_def)
  next
    case (Some s)
    have "length out \<le> length (ring s)"
      using assms(3) Some by (auto simp: replay_def since_def Let_def)
    with jreach_stream(2) [OF assms(1) Some] show ?thesis by (simp add: stream_ok_def)
  qed
  with jreach_replay [OF assms] show ?thesis by blast
qed

definition blank_frame :: "unit Frame" where
  "blank_frame = \<lparr>f_seq = None, f_payload = ()\<rparr>"

text \<open>A stream that the hub has already seen up to 7, with one frame recorded since.\<close>

definition sample_journal :: "unit Journal" where
  "sample_journal = snd (record_frame ''s'' blank_frame (restored (Some [(''s'', 7)])))"

lemma sample_journal_reach:
  "jreach (sample_journal, (\<lambda>_. [])(''s'' := [\<lparr>f_seq = Some 8, f_payload = ()\<rparr>]))"
proof -
  let ?j0 = "restored (Some [(''s'', 7)]) :: unit Journal"
  have "last_seq ?j0 ''s'' \<noteq> - 1" by code_simp
  moreover have "record_frame ''s'' blank_frame ?j0 = (\<lparr>f_seq = Some 8, f_payload = ()\<rparr>, sample_journal)"
    by code_simp
  ultimately have "jstep (?j0, \<lambda>_. [])
      (sample_journal, (\<lambda>_. [])(''s'' := [] @ [\<lparr>f_seq = Some 8, f_payload = ()\<rparr>]))"
    by (rule js_record)
  then show ?thesis using jr_step [OF jr_start] by fastforce
qed

theorem replay_complete_witness:
  "fst (replay sample_journal ''s'' 7)
     = filter (\<lambda>f. the (f_seq f) > 7 \<and> the (f_seq f) \<ge> snd (replay sample_journal ''s'' 7))
         [\<lparr>f_seq = Some 8, f_payload = ()\<rparr>]"
proof -
  have "last_seq sample_journal ''s'' \<noteq> - 1" by code_simp
  from replay_complete [OF sample_journal_reach this, of 7 "fst (replay sample_journal ''s'' 7)"]
  show ?thesis by simp
qed

text \<open>
  What the daemon tells a returning viewer is honest. With the first frame of the replay as
  \<open>first_sent\<close>, every frame numbered on the stream after the viewer's position is either sent to it
  or lies below the announced number, and a gap is announced only when the number after the
  viewer's position is no longer held.
\<close>

theorem from_seq_honest:
  assumes "jreach (j, h)" and "last_seq j k \<noteq> - 1" and "after \<noteq> - 1"
  shows "let out = fst (replay j k after);
             start = from_seq j k after (case out of [] \<Rightarrow> None | f # _ \<Rightarrow> f_seq f)
         in (\<forall>f \<in> set (h k). the (f_seq f) > after \<longrightarrow> f \<in> set out \<or> the (f_seq f) < start)
          \<and> (\<forall>f \<in> set out. the (f_seq f) \<ge> start)
          \<and> (start > after + 1 \<longrightarrow> (\<forall>f \<in> set out. the (f_seq f) \<noteq> after + 1))"
proof -
  obtain out lowest where r: "replay j k after = (out, lowest)" by fastforce
  note out = jreach_replay [OF assms(1,2) r]
  define start where "start = from_seq j k after (case out of [] \<Rightarrow> None | f # _ \<Rightarrow> f_seq f)"
  have some: "f_seq f \<noteq> None" "the (f_seq f) \<le> last_seq j k" if "f \<in> set (h k)" for f
    using that jreach_stream [OF assms(1), of k]
    by (cases "stream_of j k"; fastforce simp: stream_ok_def last_seq_def)+
  have asc: "ascending (h k)"
    using jreach_stream [OF assms(1), of k]
    by (cases "stream_of j k") (auto simp: stream_ok_def ascending_def)
  show ?thesis
  proof (cases out)
    case Nil
    have inc: "saturating_add w 1 = w + 1" if "w \<noteq> - 1" for w :: u64
      using word_less_inc [OF that] by (simp add: saturating_add_def less_imp_le)
    have "the (f_seq f) < start" if "f \<in> set (h k)" "the (f_seq f) > after" for f
      using some [OF that(1)] that(2) word_less_inc [OF assms(2)]
      by (auto simp: start_def Nil from_seq_def Let_def inc assms intro: le_less_trans)
    then show ?thesis using r by (simp add: Nil flip: start_def) (simp add: start_def Nil)
  next
    case (Cons g r')
    have "g \<in> set out" by (simp add: Cons)
    then have "g \<in> set (h k)" and low: "lowest \<le> the (f_seq g)" by (simp_all add: out)
    then have start: "f_seq g = Some start"
      using some(1) [of g] by (auto simp: start_def Cons from_seq_def)
    have "ascending out" unfolding out using asc by (simp add: ascending_def sorted_wrt_filter)
    then have ge: "\<forall>f \<in> set out. the (f_seq f) \<ge> start"
      using start by (auto simp: Cons ascending_def less_imp_le)
    have "lowest \<le> start" using low start by simp
    then have "f \<in> set out \<or> the (f_seq f) < start" if "f \<in> set (h k)" "the (f_seq f) > after" for f
      using that unfolding out by (auto simp: not_less)
    with ge show ?thesis using r by (auto simp: Let_def simp flip: start_def)
  qed
qed

theorem from_seq_honest_witness:
  "from_seq sample_journal ''s'' 3 (case fst (replay sample_journal ''s'' 3) of [] \<Rightarrow> None | f # _ \<Rightarrow> f_seq f) = 8
   \<and> set (map (\<lambda>f. the (f_seq f)) (fst (replay sample_journal ''s'' 3))) \<subseteq> {8..}"
proof -
  have "last_seq sample_journal ''s'' \<noteq> - 1" by code_simp
  note honest = from_seq_honest [OF sample_journal_reach this, of 3]
  have start: "from_seq sample_journal ''s'' 3
      (case fst (replay sample_journal ''s'' 3) of [] \<Rightarrow> None | f # _ \<Rightarrow> f_seq f) = 8" by code_simp
  with honest show ?thesis unfolding Let_def start by auto
qed

theorem jstep_monotone_witness:
  "last_seq sample_journal ''s'' \<le> last_seq (adopt_persisted [(''s'', 99)] sample_journal) ''s''
   \<and> 99 \<le> last_seq (adopt_persisted [(''s'', 99)] sample_journal) ''s''"
  using jstep_monotone [OF js_adopt, of sample_journal "''s''" "[(''s'', 99)]" "[(''s'', 99)]" 99]
  by simp

section \<open>Terminals and restarts\<close>

lemma all_last_seq_lookup: "map_of (all_last_seq j) k = map_option next_seq (stream_of j k)"
proof -
  have "map_of (map (\<lambda>(k, s). (k, f s)) xs) k = map_option f (map_of xs k)" for f xs
    by (induction xs) auto
  then show ?thesis by (simp add: all_last_seq_def stream_of_def)
qed

text \<open>The keys of a \<open>BTreeMap\<close> are distinct.\<close>

definition distinct_keys :: "'p Journal \<Rightarrow> bool" where
  "distinct_keys j \<longleftrightarrow> distinct (map fst (streams j))"

lemma distinct_keys_put [simp]: "distinct_keys j \<Longrightarrow> distinct_keys (put_stream k s j)"
  by (simp add: distinct_keys_def put_stream_def distinct_update)

lemma last_seq_restored:
  assumes "distinct (map fst w)"
  shows "last_seq (restored (Some w)) k = (case map_of w k of Some n \<Rightarrow> n | None \<Rightarrow> 0)"
proof -
  let ?f = "\<lambda>(k, v) j. put_stream k ((stream_or default_stream j k)\<lparr>next_seq := v\<rparr>) j"
  have "last_seq (fold ?f w j) k = (case map_of w k of Some n \<Rightarrow> n | None \<Rightarrow> last_seq j k)"
    for j :: "'a Journal"
    using assms
  proof (induction w arbitrary: j)
    case (Cons p w)
    obtain k1 v where p: "p = (k1, v)" by fastforce
    have "last_seq (?f p j) k = (if k = k1 then v else last_seq j k)"
      by (simp add: p last_seq_def stream_of_put)
    moreover have "map_of w k1 = None" using Cons.prems p by (simp add: map_of_eq_None_iff)
    ultimately show ?case using Cons p by (cases "map_of w k") auto
  qed simp
  moreover have "last_seq (new_journal :: 'a Journal) k = 0"
    by (simp add: last_seq_def new_journal_def stream_of_def)
  ultimately show ?thesis by (cases "map_of w k") (simp_all add: restored_def)
qed

text \<open>
  A restart never re-issues a number that was flushed. After a flush whose write succeeded,
  a journal restored from the file numbers every stream exactly where the old one stood, ended
  and terminal streams included, and it holds no frame.
\<close>

theorem flush_restart:
  fixes j :: "'p Journal"
  assumes "distinct_keys j" and "dirty j" and "flush True (j, disk) = (j', disk')"
  shows "last_seq (restored disk' :: 'p Journal) k = last_seq j k \<and> \<not> dirty j'
    \<and> fst (replay (restored disk' :: 'p Journal) k after) = []"
proof -
  have disk: "disk' = Some (all_last_seq j)" and "\<not> dirty j'"
    using assms(2,3) by (auto simp: flush_def)
  moreover have "distinct (map fst (all_last_seq j))"
    using assms(1) by (simp add: all_last_seq_def distinct_keys_def comp_def split_def)
  moreover have "fst (replay (restored disk' :: 'p Journal) k after) = []"
  proof (cases "stream_of (restored disk' :: 'p Journal) k")
    case None
    then show ?thesis by (simp add: replay_def)
  next
    case (Some s)
    have "stream_ok k s []" using jreach_stream(2) [OF jr_start Some] .
    then show ?thesis by (simp add: Some replay_def since_def stream_ok_def Let_def)
  qed
  ultimately show ?thesis
    by (cases "stream_of j k") (simp_all add: disk last_seq_restored all_last_seq_lookup last_seq_def [of j])
qed

theorem flush_restart_witness:
  "last_seq (restored (snd (flush True (sample_journal, None))) :: unit Journal) ''s'' = 8"
proof -
  have "distinct_keys sample_journal" and "dirty sample_journal"
    and l: "last_seq sample_journal ''s'' = 8" by code_simp+
  from flush_restart [OF this(1,2), of None "fst (flush True (sample_journal, None))"
      "snd (flush True (sample_journal, None))" "''s''"] l
  show ?thesis by simp
qed

lemma terminal_never_replayed:
  assumes "jreach (j, h)" and "is_terminal k"
  shows "fst (replay j k after) = []"
proof (cases "stream_of j k")
  case None
  then show ?thesis by (simp add: replay_def)
next
  case (Some s)
  have "ring s = []" using jreach_stream(2) [OF assms(1) Some] assms(2) by (simp add: stream_ok_def)
  then show ?thesis by (simp add: Some replay_def since_def Let_def)
qed

end
