(* ===== verification/Lease.thy ===== *)
theory Lease
  imports Prelude "HOL-Library.AList"
begin

text \<open>
  One writer per conversation (\<open>src/rc/lease.rs\<close>): which process holds a conversation, how a
  terminal takes it over from a headless writer, and whether the terminal loaded everything the
  conversation holds. A \<open>HashMap\<close> is an association list with distinct keys whose order is the
  iteration order of the map, about which nothing is assumed. Times are integers in milliseconds
  and the epoch counter is a natural number: neither comes near the bounds of its machine type.
  What a transcript holds (its parsed rows, its newest \<open>last-prompt\<close> leaf) and which processes are
  alive are arguments of the operations that ask.

  The theorems: walking the record tree with the bounded loop decides ancestry, the lease
  invariant holds in every reachable state, a terminal with the plugin is never trusted on
  missing evidence, a failed release keeps everyone out, every handover gets a fresh epoch, and
  evicting old output times never touches a conversation with a lease.
\<close>

section \<open>The branch a terminal continues\<close>

record Terminal =
  pid :: u32
  started_ms :: int
  plugin :: bool

definition same_process :: "Terminal \<Rightarrow> Terminal \<Rightarrow> bool" where
  "same_process a b \<longleftrightarrow> pid a = pid b \<and> started_ms a = started_ms b"

record Loaded =
  leaf :: string
  transcript :: string

datatype Branch = Holds | Lacks | Unwritten bool | Unknown

type_synonym parents_map = "(string \<times> string option) list"

text \<open>A transcript row: \<open>uuid\<close>, \<open>parentUuid\<close> and \<open>logicalParentUuid\<close>; \<open>None\<close> is a line that is no row.\<close>

type_synonym row = "(string option \<times> string option \<times> string option) option"

definition add_row :: "row \<Rightarrow> parents_map \<Rightarrow> parents_map" where
  "add_row r ps =
     (case r of
        Some (Some uuid, parent, logical_parent) \<Rightarrow>
          AList.update uuid (case parent of Some p \<Rightarrow> Some p | None \<Rightarrow> logical_parent) ps
      | _ \<Rightarrow> ps)"

definition parents_of :: "row list \<Rightarrow> parents_map" where
  "parents_of rows = fold add_row rows []"

fun reaches_loop :: "parents_map \<Rightarrow> nat \<Rightarrow> string option \<Rightarrow> string \<Rightarrow> bool" where
  "reaches_loop ps 0 at ancestor = False"
| "reaches_loop ps (Suc n) at ancestor =
     (case at of
        Some i \<Rightarrow>
          if i = ancestor then True
          else reaches_loop ps n (Option.bind (map_of ps i) (\<lambda>p. p)) ancestor
      | None \<Rightarrow> False)"

definition reaches :: "parents_map \<Rightarrow> string \<Rightarrow> string \<Rightarrow> bool" where
  "reaches ps start ancestor = reaches_loop ps (length ps + 1) (Some start) ancestor"

text \<open>
  \<open>read path\<close> is the rows of the transcript, \<open>None\<close> when it cannot be read or is over the limit;
  \<open>resumed path\<close> is the leaf of its newest \<open>last-prompt\<close> record.
\<close>

definition descends_within ::
  "(string \<Rightarrow> row list option) \<Rightarrow> (string \<Rightarrow> string option) \<Rightarrow> Loaded \<Rightarrow> string \<Rightarrow> Branch" where
  "descends_within read resumed loaded ancestor =
     (case read (transcript loaded) of
        None \<Rightarrow> Unknown
      | Some rows \<Rightarrow>
          (let ps = parents_of rows
           in if map_of ps (leaf loaded) \<noteq> None
              then (if reaches ps (leaf loaded) ancestor then Holds else Lacks)
              else case resumed (transcript loaded) of
                     Some r \<Rightarrow>
                       if map_of ps r \<noteq> None then Unwritten (reaches ps r ancestor) else Unknown
                   | None \<Rightarrow> Unknown))"

section \<open>Leases\<close>

datatype State = Held | Releasing | Stale | ReleaseFailed

datatype Reason = TerminalOpened | LocalInput | WebInput | HeadlessEnded | HeadlessEndedUnobserved

datatype Holder = Tui Terminal | Web Terminal | Headless string

record Lease =
  epoch :: nat
  holder :: Holder
  state :: State
  reason :: Reason
  since_ms :: int
  next_terminal :: "Terminal option"
  deadline_ms :: "int option"
  writer :: "Terminal option"
  loaded_branch :: "Loaded option"

datatype Opened = Release string | Granted State | Unchanged State

record Leases =
  threads :: "(string \<times> Lease) list"
  last_output :: "(string \<times> int) list"
  writer_leaf :: "(string \<times> string) list"
  headless_ran :: "(string \<times> int) list"
  next_epoch :: nat

definition no_leases :: Leases where
  "no_leases = \<lparr>threads = [], last_output = [], writer_leaf = [], headless_ran = [], next_epoch = 0\<rparr>"

definition START_MARGIN_MS :: int where "START_MARGIN_MS = 1000"

definition OUTPUT_MEMORY_MS :: int where "OUTPUT_MEMORY_MS = 600000"

definition RELEASE_DEADLINE_MS :: int where "RELEASE_DEADLINE_MS = 600000"

definition MAX_THREADS :: nat where "MAX_THREADS = 256"

definition MAX_HEADLESS_THREADS :: nat where "MAX_HEADLESS_THREADS = 4096"

definition get_lease :: "Leases \<Rightarrow> string \<Rightarrow> Lease option" where
  "get_lease L thread = map_of (threads L) thread"

definition put_lease :: "string \<Rightarrow> Lease \<Rightarrow> Leases \<Rightarrow> Leases" where
  "put_lease thread l L = L\<lparr>threads := AList.update thread l (threads L)\<rparr>"

definition remove_lease :: "string \<Rightarrow> Leases \<Rightarrow> Leases" where
  "remove_lease thread L = L\<lparr>threads := AList.delete thread (threads L)\<rparr>"

definition handover_writer_in :: "Leases \<Rightarrow> string \<Rightarrow> Terminal option" where
  "handover_writer_in L thread =
     (case get_lease L thread of
        None \<Rightarrow> None
      | Some l \<Rightarrow>
          (case holder l of
             Headless _ \<Rightarrow> if state l \<in> {Releasing, ReleaseFailed} then writer l else None
           | _ \<Rightarrow> None))"

text \<open>\<open>Iterator::min_by_key\<close> on the value: the first minimum in iteration order.\<close>

fun min_by_value :: "('k \<times> int) list \<Rightarrow> ('k \<times> int) option" where
  "min_by_value [] = None"
| "min_by_value (x # xs) =
     (case min_by_value xs of
        None \<Rightarrow> Some x
      | Some y \<Rightarrow> if snd y < snd x then Some y else Some x)"

definition evict :: "(string \<times> 'v) option \<Rightarrow> (string \<times> 'w) list \<Rightarrow> (string \<times> 'w) list" where
  "evict victim m = (case victim of Some (k, _) \<Rightarrow> AList.delete k m | None \<Rightarrow> m)"

definition mark_headless :: "string \<Rightarrow> int \<Rightarrow> Leases \<Rightarrow> Leases" where
  "mark_headless thread now_ms L =
     (let ran = headless_ran L;
          ran = (if length ran \<ge> MAX_HEADLESS_THREADS \<and> map_of ran thread = None
                 then evict (min_by_value ran) ran else ran)
      in L\<lparr>headless_ran := AList.update thread now_ms ran\<rparr>)"

definition record_output :: "string \<Rightarrow> int \<Rightarrow> Leases \<Rightarrow> Leases" where
  "record_output thread now_ms L =
     (let out = last_output L;
          out = (if length out \<ge> MAX_THREADS \<and> map_of out thread = None
                 then evict (min_by_value (filter (\<lambda>(t, _). get_lease L t = None) out)) out
                 else out)
      in mark_headless thread now_ms (L\<lparr>last_output := AList.update thread now_ms out\<rparr>))"

definition writer_turn_started :: "string \<Rightarrow> Leases \<Rightarrow> Leases" where
  "writer_turn_started thread L = L\<lparr>writer_leaf := AList.delete thread (writer_leaf L)\<rparr>"

definition record_unobserved_output :: "string \<Rightarrow> int \<Rightarrow> Leases \<Rightarrow> Leases" where
  "record_unobserved_output thread now_ms L =
     (let L = record_output thread now_ms L
      in L\<lparr>writer_leaf := AList.delete thread (writer_leaf L)\<rparr>)"

definition writer_reported :: "string \<Rightarrow> string \<Rightarrow> int \<Rightarrow> Leases \<Rightarrow> Leases" where
  "writer_reported thread new_leaf now_ms L =
     (let L = mark_headless thread now_ms L;
          wl = writer_leaf L;
          wl = (if length wl \<ge> MAX_THREADS \<and> map_of wl thread = None
                then evict (case find (\<lambda>(t, _). get_lease L t = None) wl of
                              Some x \<Rightarrow> Some x
                            | None \<Rightarrow> (case wl of [] \<Rightarrow> None | x # _ \<Rightarrow> Some x)) wl
                else wl)
      in L\<lparr>writer_leaf := AList.update thread new_leaf wl\<rparr>)"

section \<open>Judging a terminal\<close>

definition output_since_start :: "Leases \<Rightarrow> string \<Rightarrow> Terminal \<Rightarrow> bool" where
  "output_since_start L thread t =
     (case map_of (last_output L) thread of
        None \<Rightarrow> True
      | Some at \<Rightarrow> at \<ge> started_ms t - START_MARGIN_MS)"

definition stale :: "Leases \<Rightarrow> string \<Rightarrow> Terminal \<Rightarrow> int \<Rightarrow> bool" where
  "stale L thread t now_ms =
     (case map_of (last_output L) thread of
        None \<Rightarrow> False
      | Some at \<Rightarrow> at \<ge> started_ms t - START_MARGIN_MS \<and> now_ms - at \<le> OUTPUT_MEMORY_MS)"

type_synonym descends = "Loaded \<Rightarrow> string \<Rightarrow> Branch"

definition by_branch ::
  "Leases \<Rightarrow> string \<Rightarrow> Terminal \<Rightarrow> Loaded option \<Rightarrow> descends \<Rightarrow> State option" where
  "by_branch L thread t loaded desc =
     (if \<not> plugin t
         \<or> \<not> (map_of (headless_ran L) thread \<noteq> None \<or> map_of (writer_leaf L) thread \<noteq> None)
      then None
      else Some
        (case (map_of (writer_leaf L) thread, loaded) of
           (Some wl, Some ld) \<Rightarrow>
             (case desc ld wl of
                Holds \<Rightarrow> Held
              | Unwritten True \<Rightarrow> if \<not> output_since_start L thread t then Held else Stale
              | _ \<Rightarrow> Stale)
         | _ \<Rightarrow> Stale))"

definition judge ::
  "Leases \<Rightarrow> string \<Rightarrow> Terminal \<Rightarrow> Loaded option \<Rightarrow> descends \<Rightarrow> int \<Rightarrow> State" where
  "judge L thread t loaded desc now_ms =
     (case by_branch L thread t loaded desc of
        Some s \<Rightarrow> s
      | None \<Rightarrow> if stale L thread t now_ms then Stale else Held)"

section \<open>Handover\<close>

definition set_lease :: "string \<Rightarrow> Holder \<Rightarrow> State \<Rightarrow> Reason \<Rightarrow> int \<Rightarrow> Leases \<Rightarrow> Leases" where
  "set_lease thread h s r now_ms L =
     put_lease thread
       \<lparr>epoch = next_epoch L + 1, holder = h, state = s, reason = r, since_ms = now_ms,
        next_terminal = None, deadline_ms = None, writer = None, loaded_branch = None\<rparr>
       (L\<lparr>next_epoch := next_epoch L + 1\<rparr>)"

text \<open>\<open>self.threads.get_mut(thread).expect("set above")\<close> and an update of that lease.\<close>

definition modify_lease :: "string \<Rightarrow> (Lease \<Rightarrow> Lease) \<Rightarrow> Leases \<Rightarrow> Leases" where
  "modify_lease thread f L =
     (case get_lease L thread of Some l \<Rightarrow> put_lease thread (f l) L | None \<Rightarrow> L)"

definition thread_held_by :: "Leases \<Rightarrow> string \<Rightarrow> string option" where
  "thread_held_by L session_id =
     map_option fst (find (\<lambda>(_, l). holder l = Headless session_id) (threads L))"

definition grant ::
  "string \<Rightarrow> Terminal \<Rightarrow> Loaded option \<Rightarrow> Reason \<Rightarrow> descends \<Rightarrow> int \<Rightarrow> Leases \<Rightarrow> State \<times> Leases" where
  "grant thread t loaded r desc now_ms L =
     (let s = judge L thread t loaded desc now_ms
      in (s, modify_lease thread (\<lambda>l. l\<lparr>loaded_branch := loaded\<rparr>)
               (set_lease thread (Tui t) s r now_ms L)))"

definition or_plugin :: "Terminal \<Rightarrow> Terminal \<Rightarrow> Terminal" where
  "or_plugin current t = current\<lparr>plugin := plugin current \<or> plugin t\<rparr>"

text \<open>
  The terminal already holds or awaits the lease: the lease with its plugin bit updated,
  \<open>None\<close> when it is another terminal.
\<close>

definition known_opener :: "Terminal \<Rightarrow> Lease \<Rightarrow> Lease option" where
  "known_opener t l =
     (case holder l of
        Tui current \<Rightarrow>
          if same_process current t then Some (l\<lparr>holder := Tui (or_plugin current t)\<rparr>) else None
      | Web current \<Rightarrow>
          if same_process current t then Some (l\<lparr>holder := Web (or_plugin current t)\<rparr>) else None
      | Headless _ \<Rightarrow>
          (case next_terminal l of
             Some n \<Rightarrow>
               if same_process n t then Some (l\<lparr>next_terminal := Some (or_plugin n t)\<rparr>) else None
           | None \<Rightarrow> None))"

definition holding_terminal :: "Lease \<Rightarrow> Terminal option" where
  "holding_terminal l =
     (if state l \<in> {Held, Stale}
      then (case holder l of Tui c \<Rightarrow> Some c | Web c \<Rightarrow> Some c | Headless _ \<Rightarrow> None)
      else None)"

text \<open>\<open>opened\<close>, when the lease's own terminal announces itself again.\<close>

definition reopened :: "string \<Rightarrow> Lease \<Rightarrow> descends \<Rightarrow> int \<Rightarrow> Leases \<Rightarrow> Opened \<times> Leases" where
  "reopened thread l desc now_ms L =
     (case holding_terminal l of
        None \<Rightarrow> (Unchanged (state l), L)
      | Some current \<Rightarrow>
          (case by_branch L thread current (loaded_branch l) desc of
             None \<Rightarrow> (Unchanged (state l), L)
           | Some judged \<Rightarrow>
               if judged \<noteq> state l
               then (Granted judged,
                     modify_lease thread (\<lambda>l'. l'\<lparr>loaded_branch := loaded_branch l\<rparr>)
                       (set_lease thread (holder l) judged (reason l) now_ms L))
               else (Unchanged (state l), L)))"

text \<open>\<open>opened\<close>, when the conversation passes to the terminal or to a release.\<close>

definition open_fresh ::
  "string \<Rightarrow> Terminal \<Rightarrow> Loaded option \<Rightarrow> string option \<Rightarrow> descends \<Rightarrow> int \<Rightarrow> Leases \<Rightarrow> Opened \<times> Leases" where
  "open_fresh thread t loaded headless desc now_ms L =
     (case headless of
        Some session_id \<Rightarrow>
          (Release session_id,
           modify_lease thread
             (\<lambda>l. l\<lparr>next_terminal := Some t, loaded_branch := loaded,
                    deadline_ms := Some (now_ms + RELEASE_DEADLINE_MS)\<rparr>)
             (set_lease thread (Headless session_id) Releasing TerminalOpened now_ms L))
      | None \<Rightarrow>
          (let (s, L') = grant thread t loaded TerminalOpened desc now_ms L in (Granted s, L')))"

definition opened ::
  "string \<Rightarrow> Terminal \<Rightarrow> Loaded option \<Rightarrow> string option \<Rightarrow> descends \<Rightarrow> int \<Rightarrow> Leases \<Rightarrow> Opened \<times> Leases" where
  "opened thread t loaded headless desc now_ms L =
     (case get_lease L thread of
        None \<Rightarrow> open_fresh thread t loaded headless desc now_ms L
      | Some l \<Rightarrow>
          (case known_opener t l of
             Some l' \<Rightarrow>
               (let l' = (if loaded \<noteq> None then l'\<lparr>loaded_branch := loaded\<rparr> else l')
                in reopened thread l' desc now_ms (put_lease thread l' L))
           | None \<Rightarrow>
               if state l = ReleaseFailed
               then (Unchanged ReleaseFailed,
                     if next_terminal l = None
                     then put_lease thread (l\<lparr>next_terminal := Some t, loaded_branch := loaded\<rparr>) L
                     else L)
               else open_fresh thread t loaded headless desc now_ms L))"

definition headless_ended :: "string \<Rightarrow> string \<Rightarrow> descends \<Rightarrow> int \<Rightarrow> Leases \<Rightarrow> bool \<times> Leases" where
  "headless_ended thread session_id desc now_ms L =
     (case get_lease L thread of
        None \<Rightarrow> (False, L)
      | Some l \<Rightarrow>
          if holder l \<noteq> Headless session_id then (False, L)
          else case next_terminal l of
                 Some n \<Rightarrow> (True, snd (grant thread n (loaded_branch l) HeadlessEnded desc now_ms L))
               | None \<Rightarrow> (True, remove_lease thread L))"

definition waiting_terminal :: "Lease \<Rightarrow> Terminal option" where
  "waiting_terminal l =
     (case holder l of Headless _ \<Rightarrow> next_terminal l | Tui t \<Rightarrow> Some t | Web t \<Rightarrow> Some t)"

definition release_failed ::
  "string \<Rightarrow> string \<Rightarrow> Terminal option \<Rightarrow> int \<Rightarrow> Leases \<Rightarrow> bool \<times> Leases" where
  "release_failed thread session_id w now_ms L =
     (let lease = get_lease L thread
      in if (case lease of Some l \<Rightarrow> holder l = Headless session_id \<and> state l = ReleaseFailed | None \<Rightarrow> False)
         then (False, L)
         else
           (let nxt = Option.bind lease waiting_terminal;
                ld = Option.bind lease loaded_branch;
                L = L\<lparr>writer_leaf := AList.delete thread (writer_leaf L)\<rparr>;
                L = set_lease thread (Headless session_id) ReleaseFailed HeadlessEnded now_ms L
            in (True, modify_lease thread
                  (\<lambda>l. l\<lparr>next_terminal := nxt, writer := w, loaded_branch := ld\<rparr>) L)))"

section \<open>Writers that ended unobserved\<close>

definition resolve_gone ::
  "(Terminal \<Rightarrow> bool) \<Rightarrow> Reason \<Rightarrow> int \<Rightarrow> string \<times> Terminal option \<times> Loaded option \<Rightarrow> Leases \<Rightarrow> Leases" where
  "resolve_gone alive r now_ms = (\<lambda>(thread, nxt, ld) L.
     let L = record_unobserved_output thread now_ms L
     in case (case nxt of Some n \<Rightarrow> if alive n then Some n else None | None \<Rightarrow> None) of
          Some n \<Rightarrow>
            modify_lease thread (\<lambda>l. l\<lparr>loaded_branch := ld\<rparr>)
              (set_lease thread (Tui n) Stale r now_ms L)
        | None \<Rightarrow> remove_lease thread L)"

definition lift_gone_writers ::
  "(Terminal \<Rightarrow> bool) \<Rightarrow> int \<Rightarrow> Leases \<Rightarrow> string list \<times> Leases" where
  "lift_gone_writers alive now_ms L =
     (let gone = map (\<lambda>(thread, l). (thread, next_terminal l, loaded_branch l))
                   (filter (\<lambda>(_, l). state l = ReleaseFailed
                      \<and> (case writer l of Some w \<Rightarrow> \<not> alive w | None \<Rightarrow> False)) (threads L))
      in (map fst gone, fold (resolve_gone alive HeadlessEnded now_ms) gone L))"

definition release_writer :: "string \<Rightarrow> Terminal \<Rightarrow> Leases \<Rightarrow> Leases" where
  "release_writer thread w L =
     (case get_lease L thread of
        Some l \<Rightarrow> if state l = Releasing then put_lease thread (l\<lparr>writer := Some w\<rparr>) L else L
      | None \<Rightarrow> L)"

definition past_deadline :: "int \<Rightarrow> Lease \<Rightarrow> bool" where
  "past_deadline now_ms l =
     (state l = Releasing \<and> (case deadline_ms l of Some d \<Rightarrow> now_ms \<ge> d | None \<Rightarrow> False))"

definition lift_unobserved_releases ::
  "(string \<Rightarrow> bool) \<Rightarrow> (Terminal \<Rightarrow> bool) \<Rightarrow> int \<Rightarrow> Leases \<Rightarrow> string list \<times> Leases" where
  "lift_unobserved_releases row_of alive now_ms L =
     (let gone = map (\<lambda>(thread, l). (thread, next_terminal l, loaded_branch l))
                   (filter (\<lambda>(_, l). past_deadline now_ms l
                      \<and> (case holder l of Headless sid \<Rightarrow> \<not> row_of sid | _ \<Rightarrow> False)
                      \<and> (case writer l of Some w \<Rightarrow> \<not> alive w | None \<Rightarrow> False)) (threads L))
      in (map fst gone, fold (resolve_gone alive HeadlessEndedUnobserved now_ms) gone L))"

definition overdue :: "int \<Rightarrow> Leases \<Rightarrow> string list" where
  "overdue now_ms L =
     concat (map (\<lambda>(_, l). case holder l of Headless sid \<Rightarrow> [sid] | _ \<Rightarrow> [])
       (filter (\<lambda>(_, l). past_deadline now_ms l) (threads L)))"

definition releasing :: "Leases \<Rightarrow> string \<Rightarrow> bool" where
  "releasing L thread = (case get_lease L thread of Some l \<Rightarrow> state l = Releasing | None \<Rightarrow> False)"

definition turn_started :: "string \<Rightarrow> bool \<Rightarrow> int \<Rightarrow> Leases \<Rightarrow> bool \<times> Leases" where
  "turn_started thread remote now_ms L =
     (case get_lease L thread of
        None \<Rightarrow> (False, L)
      | Some l \<Rightarrow>
          if state l \<noteq> Held then (False, L)
          else case (case (holder l, remote) of
                       (Tui t, True) \<Rightarrow> if plugin t then Some (Web t, WebInput) else None
                     | (Web t, False) \<Rightarrow> Some (Tui t, LocalInput)
                     | _ \<Rightarrow> None) of
                 None \<Rightarrow> (False, L)
               | Some (h, r) \<Rightarrow>
                   (True, modify_lease thread (\<lambda>l'. l'\<lparr>loaded_branch := loaded_branch l\<rparr>)
                      (set_lease thread h Held r now_ms L)))"

section \<open>Restart\<close>

definition expire_one ::
  "(Terminal \<Rightarrow> bool) \<Rightarrow> (string \<Rightarrow> bool) \<Rightarrow> int \<Rightarrow> string \<Rightarrow> Leases \<Rightarrow> bool \<times> Leases" where
  "expire_one terminal_alive headless_alive now_ms thread L =
     (case get_lease L thread of
        None \<Rightarrow> (False, L)
      | Some l \<Rightarrow>
          (case holder l of
             Tui t \<Rightarrow> if \<not> terminal_alive t then (True, remove_lease thread L) else (False, L)
           | Web t \<Rightarrow> if \<not> terminal_alive t then (True, remove_lease thread L) else (False, L)
           | Headless sid \<Rightarrow>
               if state l = ReleaseFailed
                  \<and> (case writer l of Some w \<Rightarrow> terminal_alive w | None \<Rightarrow> False)
               then (False, L)
               else if \<not> headless_alive sid
               then (True, resolve_gone terminal_alive HeadlessEnded now_ms
                       (thread, next_terminal l, loaded_branch l) L)
               else if (case next_terminal l of Some n \<Rightarrow> \<not> terminal_alive n | None \<Rightarrow> False)
               then (True, put_lease thread
                       (l\<lparr>next_terminal := None, loaded_branch := None, state := Held,
                          deadline_ms := None\<rparr>) L)
               else (False, L)))"

definition expire ::
  "(Terminal \<Rightarrow> bool) \<Rightarrow> (string \<Rightarrow> bool) \<Rightarrow> int \<Rightarrow> Leases \<Rightarrow> string list \<times> Leases" where
  "expire terminal_alive headless_alive now_ms L =
     fold (\<lambda>thread (changed, L).
             let (c, L') = expire_one terminal_alive headless_alive now_ms thread L
             in (if c then changed @ [thread] else changed, L'))
       (map fst (threads L)) ([], L)"

definition web_to_tui :: "Lease \<Rightarrow> Lease" where
  "web_to_tui l = (case holder l of Web t \<Rightarrow> l\<lparr>holder := Tui t\<rparr> | _ \<Rightarrow> l)"

definition load_leases :: "Leases option \<Rightarrow> (Terminal \<Rightarrow> bool) \<Rightarrow> int \<Rightarrow> Leases" where
  "load_leases file terminal_alive now_ms =
     (let L = (case file of Some L \<Rightarrow> L | None \<Rightarrow> no_leases);
          L = snd (expire terminal_alive (\<lambda>_. False) now_ms L)
      in L\<lparr>threads := map (\<lambda>(k, l). (k, web_to_tui l)) (threads L)\<rparr>)"

section \<open>What viewers see\<close>

record View =
  v_epoch :: nat
  v_holder :: string
  v_state :: State
  v_reason :: Reason
  takeable :: bool
  v_device :: "string option"
  v_since :: string

text \<open>\<open>rfc3339\<close> formats a time stamp.\<close>

definition view :: "(int \<Rightarrow> string) \<Rightarrow> Lease \<Rightarrow> string option \<Rightarrow> View" where
  "view rfc3339 l device =
     (let (h, tk) = (case holder l of
                       Tui t \<Rightarrow> (''tui'', plugin t \<and> state l = Held)
                     | Web _ \<Rightarrow> (''web'', state l = Held)
                     | Headless _ \<Rightarrow> (''headless'', state l = Held))
      in \<lparr>v_epoch = epoch l, v_holder = h, v_state = state l, v_reason = reason l, takeable = tk,
          v_device = device, v_since = rfc3339 (since_ms l)\<rparr>)"

text \<open>Which line a terminal shows, as the situation it describes and the remedy it names.\<close>

datatype situation = StillRunning | NotConfirmedStopped | OlderBranch

datatype remedy =
    CheckProcess u32 string | RestartService string | TakesOver | ResumeLater string | ResumeNow string

definition notice_for :: "Lease \<Rightarrow> string \<Rightarrow> Terminal \<Rightarrow> (situation \<times> remedy) option" where
  "notice_for l thread opener =
     (case (case (holder l, state l, next_terminal l) of
              (Headless _, Releasing, Some n) \<Rightarrow>
                if same_process n opener then Some (n, StillRunning) else None
            | (Headless _, ReleaseFailed, _) \<Rightarrow> Some (opener, NotConfirmedStopped)
            | (Tui t, Stale, _) \<Rightarrow> if same_process t opener then Some (t, OlderBranch) else None
            | _ \<Rightarrow> None) of
        None \<Rightarrow> None
      | Some (t, sit) \<Rightarrow>
          Some (sit,
            case (state l, plugin t) of
              (ReleaseFailed, _) \<Rightarrow>
                (case writer l of Some w \<Rightarrow> CheckProcess (pid w) thread | None \<Rightarrow> RestartService thread)
            | (Releasing, True) \<Rightarrow> TakesOver
            | (Releasing, False) \<Rightarrow> ResumeLater thread
            | _ \<Rightarrow> ResumeNow thread))"

definition device_code :: "string \<Rightarrow> string option" where
  "device_code device_id =
     (let code = to_ascii_lowercase (rev (take 4 (rev (filter is_ascii_alphanumeric device_id))))
      in if length code = 4 then Some code else None)"

section \<open>Ancestry\<close>

definition parent_rel :: "parents_map \<Rightarrow> (string \<times> string) set" where
  "parent_rel ps = {(a, b). map_of ps a = Some (Some b)}"

lemma reaches_loop_None [simp]: "reaches_loop ps n None anc = False"
  by (cases n) simp_all

lemma reaches_loop_iff:
  "reaches_loop ps n (Some a) anc \<longleftrightarrow> (\<exists>i < n. (a, anc) \<in> parent_rel ps ^^ i)"
proof (induction n arbitrary: a)
  case 0
  then show ?case by simp
next
  case (Suc n)
  show ?case
  proof (cases "a = anc")
    case True
    then show ?thesis by (auto intro!: exI [of _ 0])
  next
    case False
    have "(\<exists>i < Suc n. (a, anc) \<in> parent_rel ps ^^ i)
      \<longleftrightarrow> (\<exists>i < n. (a, anc) \<in> parent_rel ps ^^ Suc i)"
      using False by (metis (no_types, lifting) Suc_less_eq2 less_Suc_eq_0_disj pair_in_Id_conv relpow.simps(1))
    also have "\<dots> \<longleftrightarrow> (\<exists>b. map_of ps a = Some (Some b) \<and> (\<exists>i < n. (b, anc) \<in> parent_rel ps ^^ i))"
      by (auto simp: parent_rel_def simp del: relpow.simps
          dest!: relpow_Suc_D2 intro!: relpow_Suc_I2)
    also have "\<dots> \<longleftrightarrow> reaches_loop ps n (Option.bind (map_of ps a) (\<lambda>p. p)) anc"
    proof (cases "\<exists>b. map_of ps a = Some (Some b)")
      case True
      then show ?thesis using Suc.IH by auto
    next
      case no: False
      then have "Option.bind (map_of ps a) (\<lambda>p. p) = None"
        by (cases "map_of ps a") auto
      with no show ?thesis by simp
    qed
    finally show ?thesis using False by simp
  qed
qed

lemma parent_rel_bound: "finite (parent_rel ps)" "card (parent_rel ps) \<le> length ps"
proof -
  have sub: "parent_rel ps \<subseteq> (\<lambda>(a, p). (a, the p)) ` set ps"
    by (force simp: parent_rel_def dest: map_of_SomeD)
  then show "finite (parent_rel ps)" by (rule finite_subset) simp
  have "card (parent_rel ps) \<le> card ((\<lambda>(a, p). (a, the p)) ` set ps)"
    by (rule card_mono [OF _ sub]) simp
  also have "\<dots> \<le> card (set ps)" by (rule card_image_le) simp
  also have "\<dots> \<le> length ps" by (rule card_length)
  finally show "card (parent_rel ps) \<le> length ps" .
qed

text \<open>
  Walking a transcript from a record towards the root decides ancestry. The loop, which runs
  at most once more than the transcript has records, finds a record exactly when it is an
  ancestor of the start or the start itself, also in a transcript whose parents form a cycle.
\<close>

theorem reaches_correct: "reaches ps a anc \<longleftrightarrow> (a, anc) \<in> (parent_rel ps)\<^sup>*"
proof -
  have "(a, anc) \<in> (parent_rel ps)\<^sup>* \<longleftrightarrow> (\<exists>i \<le> card (parent_rel ps). (a, anc) \<in> parent_rel ps ^^ i)"
    by (simp add: rtrancl_finite_eq_relpow [OF parent_rel_bound(1)])
  moreover have "(a, anc) \<in> (parent_rel ps)\<^sup>*" if "(a, anc) \<in> parent_rel ps ^^ i" for i
    using that by (rule relpow_imp_rtrancl)
  ultimately show ?thesis
    using parent_rel_bound(2) [of ps] unfolding reaches_def reaches_loop_iff
    by (metis Suc_eq_plus1 le_imp_less_Suc order.trans)
qed

section \<open>The lease table\<close>

interpretation lease_table: keyed_removal get_lease put_lease remove_lease
  by unfold_locales
    (simp_all add: get_lease_def put_lease_def remove_lease_def update_conv' delete_conv')

lemmas get_put = lease_table.look_put and get_del = lease_table.look_del

lemma next_epoch_simps [simp]:
  "next_epoch (put_lease t l L) = next_epoch L"
  "next_epoch (remove_lease t L) = next_epoch L"
  "next_epoch (mark_headless t now L) = next_epoch L"
  "next_epoch (record_output t now L) = next_epoch L"
  "next_epoch (record_unobserved_output t now L) = next_epoch L"
  "next_epoch (writer_turn_started t L) = next_epoch L"
  "next_epoch (writer_reported t lf now L) = next_epoch L"
  by (simp_all add: put_lease_def remove_lease_def mark_headless_def record_output_def
      record_unobserved_output_def writer_turn_started_def writer_reported_def Let_def)

lemma threads_simps [simp]:
  "threads (mark_headless t now L) = threads L"
  "threads (record_output t now L) = threads L"
  "threads (record_unobserved_output t now L) = threads L"
  "threads (writer_turn_started t L) = threads L"
  "threads (writer_reported t lf now L) = threads L"
  by (simp_all add: mark_headless_def record_output_def record_unobserved_output_def
      writer_turn_started_def writer_reported_def Let_def)

lemma get_lease_cong: "threads L = threads L' \<Longrightarrow> get_lease L = get_lease L'"
  by (simp add: get_lease_def fun_eq_iff)

text \<open>A lease set anew with the fields the caller adds, as one insertion.\<close>

definition fresh_lease :: "Leases \<Rightarrow> Holder \<Rightarrow> State \<Rightarrow> Reason \<Rightarrow> int \<Rightarrow> Lease" where
  "fresh_lease L h s r now =
     \<lparr>epoch = next_epoch L + 1, holder = h, state = s, reason = r, since_ms = now,
      next_terminal = None, deadline_ms = None, writer = None, loaded_branch = None\<rparr>"

definition put_fresh :: "string \<Rightarrow> Lease \<Rightarrow> Leases \<Rightarrow> Leases" where
  "put_fresh t l L = put_lease t l (L\<lparr>next_epoch := next_epoch L + 1\<rparr>)"

lemma modify_set:
  "modify_lease t f (set_lease t h s r now L) = put_fresh t (f (fresh_lease L h s r now)) L"
  by (simp add: modify_lease_def set_lease_def get_put put_fresh_def fresh_lease_def)
    (simp add: put_lease_def)

lemma set_fresh: "set_lease t h s r now L = put_fresh t (fresh_lease L h s r now) L"
  by (simp add: set_lease_def put_fresh_def fresh_lease_def)

lemma fresh_lease_simps [simp]:
  "epoch (fresh_lease L h s r now) = next_epoch L + 1" "holder (fresh_lease L h s r now) = h"
  "state (fresh_lease L h s r now) = s" "next_terminal (fresh_lease L h s r now) = None"
  "deadline_ms (fresh_lease L h s r now) = None" "writer (fresh_lease L h s r now) = None"
  by (simp_all add: fresh_lease_def)

lemma put_fresh_simps [simp]:
  "get_lease (put_fresh t l L) t' = (if t' = t then Some l else get_lease L t')"
  "next_epoch (put_fresh t l L) = next_epoch L + 1"
  by (simp_all add: put_fresh_def get_put) (simp add: get_lease_def)

section \<open>Operations and reachable states\<close>

datatype lop =
    RecordOutput string int
  | RecordUnobserved string int
  | WriterTurnStarted string
  | WriterReported string string int
  | OpenedBy string Terminal "Loaded option" "string option" descends int
  | HeadlessEndedOp string string descends int
  | ReleaseFailedOp string string "Terminal option" int
  | LiftGoneWriters "Terminal \<Rightarrow> bool" int
  | ReleaseWriter string Terminal
  | LiftUnobserved "string \<Rightarrow> bool" "Terminal \<Rightarrow> bool" int
  | TurnStarted string bool int
  | Restart "Terminal \<Rightarrow> bool" int

fun apply_op :: "lop \<Rightarrow> Leases \<Rightarrow> Leases" where
  "apply_op (RecordOutput t now) L = record_output t now L"
| "apply_op (RecordUnobserved t now) L = record_unobserved_output t now L"
| "apply_op (WriterTurnStarted t) L = writer_turn_started t L"
| "apply_op (WriterReported t lf now) L = writer_reported t lf now L"
| "apply_op (OpenedBy t tm ld hl desc now) L = snd (opened t tm ld hl desc now L)"
| "apply_op (HeadlessEndedOp t sid desc now) L = snd (headless_ended t sid desc now L)"
| "apply_op (ReleaseFailedOp t sid w now) L = snd (release_failed t sid w now L)"
| "apply_op (LiftGoneWriters alive now) L = snd (lift_gone_writers alive now L)"
| "apply_op (ReleaseWriter t w) L = release_writer t w L"
| "apply_op (LiftUnobserved row_of alive now) L = snd (lift_unobserved_releases row_of alive now L)"
| "apply_op (TurnStarted t remote now) L = snd (turn_started t remote now L)"
| "apply_op (Restart alive now) L = load_leases (Some L) alive now"

inductive lreach :: "Leases \<Rightarrow> bool" where
  lr_start: "lreach no_leases"
| lr_step: "lreach L \<Longrightarrow> lreach (apply_op op L)"

section \<open>The invariant\<close>

text \<open>
  A headless holder is never stale and only a headless holder hands over or has a failed release;
  a handover under way has a waiting terminal and a deadline; nobody waits otherwise.
\<close>

definition lease_ok :: "Lease \<Rightarrow> bool" where
  "lease_ok l \<longleftrightarrow>
     (case holder l of
        Headless _ \<Rightarrow> state l \<noteq> Stale
      | _ \<Rightarrow> state l \<in> {Held, Stale} \<and> next_terminal l = None \<and> writer l = None)
     \<and> (state l = Releasing \<longleftrightarrow> deadline_ms l \<noteq> None)
     \<and> (state l = Releasing \<longrightarrow> next_terminal l \<noteq> None)
     \<and> (next_terminal l \<noteq> None \<longrightarrow> state l \<in> {Releasing, ReleaseFailed})"

text \<open>What any step may do to the table: keep a lease's epoch and state, or give a new epoch.\<close>

definition evolves :: "Leases \<Rightarrow> Leases \<Rightarrow> bool" where
  "evolves L L' \<longleftrightarrow> next_epoch L \<le> next_epoch L'
     \<and> (\<forall>t l'. get_lease L' t = Some l' \<longrightarrow>
          epoch l' \<le> next_epoch L' \<and>
          (next_epoch L < epoch l'
           \<or> (\<exists>l. get_lease L t = Some l \<and> epoch l = epoch l' \<and> state l = state l')))"

definition leases_ok :: "Leases \<Rightarrow> bool" where
  "leases_ok L \<longleftrightarrow> distinct (map fst (threads L))
     \<and> (\<forall>t l. get_lease L t = Some l \<longrightarrow> lease_ok l \<and> epoch l \<le> next_epoch L)
     \<and> (\<forall>t t' l l'. get_lease L t = Some l \<and> get_lease L t' = Some l' \<and> epoch l = epoch l' \<longrightarrow> t = t')"

text \<open>A good step: from a good state to a good state, evolving.\<close>

definition good :: "Leases \<Rightarrow> Leases \<Rightarrow> bool" where
  "good L L' \<longleftrightarrow> leases_ok L \<longrightarrow> leases_ok L' \<and> evolves L L'"

lemma distinct_threads [simp]:
  "distinct (map fst (threads L)) \<Longrightarrow> distinct (map fst (threads (put_lease t l L)))"
  "distinct (map fst (threads L)) \<Longrightarrow> distinct (map fst (threads (put_fresh t l L)))"
  "distinct (map fst (threads L)) \<Longrightarrow> distinct (map fst (threads (remove_lease t L)))"
  by (simp_all add: put_lease_def put_fresh_def remove_lease_def distinct_update distinct_delete)

lemma good_refl: "threads L' = threads L \<Longrightarrow> next_epoch L' = next_epoch L \<Longrightarrow> good L L'"
  by (auto simp: good_def leases_ok_def evolves_def get_lease_def)

lemma evolves_trans: "evolves L L' \<Longrightarrow> evolves L' L'' \<Longrightarrow> evolves L L''"
proof -
  assume a: "evolves L L'" and b: "evolves L' L''"
  have "epoch l'' \<le> next_epoch L'' \<and> (next_epoch L < epoch l''
      \<or> (\<exists>l. get_lease L t = Some l \<and> epoch l = epoch l'' \<and> state l = state l''))"
    if "get_lease L'' t = Some l''" for t l''
  proof -
    from b that have "epoch l'' \<le> next_epoch L''" and "next_epoch L' < epoch l''
      \<or> (\<exists>l'. get_lease L' t = Some l' \<and> epoch l' = epoch l'' \<and> state l' = state l'')"
      by (auto simp: evolves_def)
    then show ?thesis using a by (fastforce simp: evolves_def)
  qed
  with a b show "evolves L L''" by (auto simp: evolves_def)
qed

lemma good_trans: "good L L' \<Longrightarrow> good L' L'' \<Longrightarrow> good L L''"
  using evolves_trans by (auto simp: good_def)

lemma good_put:
  assumes "get_lease L t = Some l" and "epoch l' = epoch l" and "state l' = state l"
    and "lease_ok l \<Longrightarrow> lease_ok l'"
  shows "good L (put_lease t l' L)"
  using assms unfolding good_def leases_ok_def evolves_def by (auto simp: get_put)

lemma good_fresh:
  assumes "epoch l = next_epoch L + 1" and "lease_ok l"
  shows "good L (put_fresh t l L)"
  using assms unfolding good_def leases_ok_def evolves_def
  by (auto dest: le_SucI) (metis Suc_n_not_le_n)+

lemma good_remove: "good L (remove_lease t L)"
  unfolding good_def leases_ok_def evolves_def by (auto simp: get_del)

lemma good_fold: "(\<And>x L. x \<in> set xs \<Longrightarrow> good L (f x L)) \<Longrightarrow> good L (fold f xs L)"
  by (induction xs arbitrary: L) (auto intro: good_trans good_refl)

lemma lease_ok_loaded [simp]: "lease_ok (l\<lparr>loaded_branch := x\<rparr>) = lease_ok l"
  by (cases "holder l") (simp_all add: lease_ok_def)

lemma by_branch_cases: "by_branch L t tm ld desc = Some s \<Longrightarrow> s = Held \<or> s = Stale"
  by (auto simp: by_branch_def split: if_splits option.splits Branch.splits bool.splits)

lemma judge_cases: "judge L t tm ld desc now = Held \<or> judge L t tm ld desc now = Stale"
  by (auto simp: judge_def split: option.splits dest: by_branch_cases)

lemma good_grant: "good L (snd (grant t tm ld r desc now L))"
  unfolding grant_def Let_def modify_set snd_conv
  using judge_cases [of L t tm ld desc now] by (intro good_fresh) (auto simp: lease_ok_def)

lemma good_open_fresh: "good L (snd (open_fresh t tm ld hl desc now L))"
proof (cases hl)
  case None
  then show ?thesis
    using good_grant [of L t tm ld TerminalOpened desc now] by (simp add: open_fresh_def split_beta)
next
  case (Some sid)
  then show ?thesis
    by (auto simp: open_fresh_def modify_set lease_ok_def intro!: good_fresh)
qed

lemma known_opener_keeps:
  assumes "known_opener tm l = Some l'"
  shows "epoch l' = epoch l" and "state l' = state l" and "lease_ok l \<Longrightarrow> lease_ok l'"
  using assms
  by (auto simp: known_opener_def lease_ok_def split: Holder.splits if_splits option.splits)

lemma good_reopened:
  "good L (snd (reopened t l desc now L))"
proof -
  have "good L (put_fresh t ((fresh_lease L (holder l) judged (reason l) now)\<lparr>loaded_branch := ld\<rparr>) L)"
    if "holding_terminal l = Some c" "judged = Held \<or> judged = Stale" for c judged ld
    using that by (intro good_fresh)
      (auto simp: holding_terminal_def lease_ok_def split: Holder.splits if_splits)
  then show ?thesis
    by (auto simp: reopened_def modify_set good_refl dest: by_branch_cases split: option.splits)
qed

lemma good_opened: "good L (snd (opened t tm ld hl desc now L))"
proof (cases "get_lease L t")
  case None
  then show ?thesis by (simp add: opened_def good_open_fresh)
next
  case l: (Some l)
  show ?thesis
  proof (cases "known_opener tm l")
    case None
    have "good L (put_lease t (l\<lparr>next_terminal := Some tm, loaded_branch := ld\<rparr>) L)"
      if "state l = ReleaseFailed"
      by (rule good_put [OF l]) (use that in \<open>auto simp: lease_ok_def split: Holder.splits\<close>)
    with None l show ?thesis by (auto simp: opened_def good_open_fresh good_refl)
  next
    case (Some l')
    let ?l = "if ld \<noteq> None then l'\<lparr>loaded_branch := ld\<rparr> else l'"
    have "good L (put_lease t ?l L)"
      using known_opener_keeps [OF Some] by (intro good_put [OF l]) auto
    from good_trans [OF this good_reopened [of "put_lease t ?l L" t ?l desc now]] Some l
    show ?thesis by (simp add: opened_def Let_def)
  qed
qed

lemma good_headless_ended: "good L (snd (headless_ended t sid desc now L))"
  by (auto simp: headless_ended_def good_grant good_remove good_refl split: option.splits)

lemma good_release_failed: "good L (snd (release_failed t sid w now L))"
proof -
  let ?L = "L\<lparr>writer_leaf := AList.delete t (writer_leaf L)\<rparr>"
  have "good L ?L" by (rule good_refl) simp_all
  moreover have "good ?L (put_fresh t ((fresh_lease ?L (Headless sid) ReleaseFailed HeadlessEnded now)
      \<lparr>next_terminal := n, writer := w, loaded_branch := ld\<rparr>) ?L)" for n ld
    by (rule good_fresh) (simp_all add: lease_ok_def)
  ultimately have step: "good L (put_fresh t ((fresh_lease ?L (Headless sid) ReleaseFailed
      HeadlessEnded now)\<lparr>next_terminal := n, writer := w, loaded_branch := ld\<rparr>) ?L)" for n ld
    by (rule good_trans)
  show ?thesis
    unfolding release_failed_def Let_def modify_set by (simp add: good_refl step)
qed

lemma good_resolve_gone: "good L (resolve_gone alive r now x L)"
proof -
  obtain t n ld where x: "x = (t, n, ld)" by (cases x)
  let ?L = "record_unobserved_output t now L"
  have 1: "good L ?L" by (rule good_refl) simp_all
  have "good ?L (put_fresh t ((fresh_lease ?L (Tui m) Stale r now)\<lparr>loaded_branch := ld\<rparr>) ?L)" for m
    by (rule good_fresh) (simp_all add: lease_ok_def)
  note fresh = good_trans [OF 1 this] and gone = good_trans [OF 1 good_remove]
  show ?thesis
    unfolding resolve_gone_def x Let_def modify_set prod.case
    by (auto simp only: fresh gone split: option.splits)
qed

lemma good_release_writer: "good L (release_writer t w L)"
proof -
  have "good L (put_lease t (l\<lparr>writer := Some w\<rparr>) L)"
    if "get_lease L t = Some l" "state l = Releasing" for l
    by (rule good_put [OF that(1)]) (use that(2) in \<open>auto simp: lease_ok_def split: Holder.splits\<close>)
  then show ?thesis by (auto simp: release_writer_def good_refl split: option.splits)
qed

lemma good_turn_started: "good L (snd (turn_started t remote now L))"
proof -
  have "good L (put_fresh t ((fresh_lease L h Held r now)\<lparr>loaded_branch := ld\<rparr>) L)"
    if "h = Tui tm \<or> h = Web tm" for h r ld tm
    by (rule good_fresh) (use that in \<open>auto simp: lease_ok_def\<close>)
  then show ?thesis
    by (auto simp: turn_started_def modify_set good_refl split: option.splits Holder.splits bool.splits)
qed

lemma good_expire_one: "good L (snd (expire_one alive (\<lambda>_. False) now t L))"
  by (auto simp: expire_one_def good_refl good_remove good_resolve_gone
      split: option.splits Holder.splits)

lemma snd_expire:
  "snd (expire alive ha now L) = fold (\<lambda>t L. snd (expire_one alive ha now t L)) (map fst (threads L)) L"
proof -
  have "snd (fold (\<lambda>t (changed, L). let (c, L') = expire_one alive ha now t L
      in (if c then changed @ [t] else changed, L')) ts (cs, M))
    = fold (\<lambda>t L. snd (expire_one alive ha now t L)) ts M" for ts cs M
    by (induction ts arbitrary: cs M) (simp_all add: split_beta Let_def)
  then show ?thesis by (simp add: expire_def)
qed

lemma good_restart: "good L (load_leases (Some L) alive now)"
proof -
  let ?E = "snd (expire alive (\<lambda>_. False) now L)"
  let ?W = "?E\<lparr>threads := map (\<lambda>(k, l). (k, web_to_tui l)) (threads ?E)\<rparr>"
  have E: "good L ?E" unfolding snd_expire by (rule good_fold) (rule good_expire_one)
  have get: "get_lease ?W t = map_option web_to_tui (get_lease ?E t)" for t
    by (simp add: get_lease_def map_of_map)
  have keep: "epoch (web_to_tui l) = epoch l" "state (web_to_tui l) = state l"
    "lease_ok l \<Longrightarrow> lease_ok (web_to_tui l)" for l
    by (auto simp: web_to_tui_def lease_ok_def split: Holder.splits)
  have "good ?E ?W"
    unfolding good_def leases_ok_def evolves_def get
    by (auto simp: keep comp_def split_def)
  with E have "good L ?W" by (rule good_trans)
  then show ?thesis by (simp add: load_leases_def Let_def)
qed

lemma good_apply_op: "good L (apply_op op L)"
  by (cases op)
    (auto simp: good_opened good_headless_ended good_release_failed good_release_writer
      good_turn_started good_restart lift_gone_writers_def lift_unobserved_releases_def Let_def
      intro!: good_fold good_resolve_gone good_refl)

lemma lreach_ok: "lreach L \<Longrightarrow> leases_ok L"
proof (induction rule: lreach.induct)
  case lr_start
  then show ?case by (simp add: leases_ok_def no_leases_def get_lease_def)
next
  case (lr_step L op)
  then show ?case using good_apply_op [of L op] by (simp add: good_def)
qed


definition terminal_a :: Terminal where
  "terminal_a = \<lparr>pid = 7, started_ms = 1000000, plugin = True\<rparr>"

definition sample_leases :: Leases where
  "sample_leases = apply_op (OpenedBy ''c'' terminal_a None (Some ''web'') (\<lambda>_ _. Unknown) 5) no_leases"

lemma sample_leases_reach: "lreach sample_leases"
  unfolding sample_leases_def by (intro lr_step lr_start)

lemma sample_leases_get:
  "get_lease sample_leases ''c'' = Some \<lparr>epoch = 1, holder = Headless ''web'', state = Releasing,
     reason = TerminalOpened, since_ms = 5, next_terminal = Some terminal_a,
     deadline_ms = Some 600005, writer = None, loaded_branch = None\<rparr>"
  by code_simp


section \<open>Epochs\<close>

text \<open>
  An epoch names one handover. Whatever operation runs, a lease found afterwards with the
  epoch of a lease found before belongs to the same conversation and is in the same state; every
  change of state takes an epoch never used before.
\<close>

theorem epoch_names_handover:
  assumes "lreach L" and "get_lease L t = Some l" and "get_lease (apply_op op L) t' = Some l'"
    and "epoch l' = epoch l"
  shows "t' = t \<and> state l' = state l"
proof -
  note ok = lreach_ok [OF assms(1)]
  then have "evolves L (apply_op op L)" using good_apply_op by (simp add: good_def)
  moreover have "epoch l \<le> next_epoch L" using ok assms(2) by (auto simp: leases_ok_def)
  ultimately obtain m where m: "get_lease L t' = Some m" "epoch m = epoch l'" "state m = state l'"
    using assms(3,4) by (fastforce simp: evolves_def)
  then have "t' = t" using ok assms(2,4) by (auto simp: leases_ok_def)
  with m assms(2) show ?thesis by simp
qed

theorem epoch_names_handover_witness:
  "\<exists>l l'. get_lease sample_leases ''c'' = Some l
     \<and> get_lease (apply_op (ReleaseWriter ''c'' terminal_a) sample_leases) ''c'' = Some l'
     \<and> epoch l' = epoch l \<and> state l' = state l"
proof -
  obtain l' where l': "get_lease (apply_op (ReleaseWriter ''c'' terminal_a) sample_leases) ''c'' = Some l'"
    and e: "epoch l' = 1"
    by (simp add: release_writer_def sample_leases_get get_put)
  from epoch_names_handover [OF sample_leases_reach sample_leases_get l'] l' e sample_leases_get
  show ?thesis by auto
qed

section \<open>A failed release keeps everyone out\<close>

text \<open>
  The only ways a failed release ends: its own session reports its end, the recorded writer
  process is found gone, or the daemon restarts without a recorded writer that still runs.
\<close>

fun lifts :: "lop \<Rightarrow> string \<Rightarrow> Lease \<Rightarrow> bool" where
  "lifts (HeadlessEndedOp t' sid _ _) t l = (t' = t \<and> holder l = Headless sid)"
| "lifts (LiftGoneWriters alive _) t l = (case writer l of Some w \<Rightarrow> \<not> alive w | None \<Rightarrow> False)"
| "lifts (Restart alive _) t l = (case writer l of Some w \<Rightarrow> \<not> alive w | None \<Rightarrow> True)"
| "lifts _ t l = False"

lemma get_resolve_gone_other:
  "t \<noteq> fst x \<Longrightarrow> get_lease (resolve_gone alive r now x L) t = get_lease L t"
  by (cases x, auto simp: resolve_gone_def Let_def modify_set get_del split: option.splits)
    (simp_all add: get_lease_def)

lemma get_fold_resolve_gone:
  "t \<notin> fst ` set xs \<Longrightarrow> get_lease (fold (resolve_gone alive r now) xs L) t = get_lease L t"
  by (induction xs arbitrary: L) (auto simp: get_resolve_gone_other)

lemma get_open_fresh_other:
  "t' \<noteq> t \<Longrightarrow> get_lease (snd (open_fresh t tm ld hl desc now L)) t' = get_lease L t'"
  by (auto simp: open_fresh_def grant_def Let_def modify_set split: option.splits)

lemma get_opened_other:
  "t' \<noteq> t \<Longrightarrow> get_lease (snd (opened t tm ld hl desc now L)) t' = get_lease L t'"
  by (auto simp: opened_def reopened_def Let_def modify_set get_put get_open_fresh_other
      split: option.splits)

lemma get_others:
  assumes "t' \<noteq> t"
  shows "get_lease (snd (headless_ended t sid desc now L)) t' = get_lease L t'"
    and "get_lease (snd (release_failed t sid w now L)) t' = get_lease L t'"
    and "get_lease (snd (turn_started t remote now L)) t' = get_lease L t'"
    and "get_lease (release_writer t tm L) t' = get_lease L t'"
  using assms
  by (auto simp: headless_ended_def grant_def release_failed_def turn_started_def release_writer_def
      Let_def modify_set get_put get_del split: option.splits)
    (simp_all add: get_lease_def)

lemma opened_release_failed:
  assumes "get_lease L t = Some l" and "state l = ReleaseFailed" and "holder l = Headless sid"
  shows "fst (opened t tm ld hl desc now L) = Unchanged ReleaseFailed"
    and "\<exists>l'. get_lease (snd (opened t tm ld hl desc now L)) t = Some l'
      \<and> state l' = ReleaseFailed \<and> holder l' = Headless sid"
  using assms
  by (auto simp: opened_def known_opener_def reopened_def holding_terminal_def Let_def get_put
      split: option.splits if_splits)

lemma get_lift_other:
  assumes "leases_ok L" and "get_lease L t = Some l" and "\<not> P l"
  shows "get_lease (fold (resolve_gone alive r now)
    (map (\<lambda>(t, l). (t, next_terminal l, loaded_branch l)) (filter (\<lambda>(_, l). P l) (threads L))) L) t = Some l"
proof -
  have "t \<notin> fst ` set (map (\<lambda>(t, l). (t, next_terminal l, loaded_branch l))
      (filter (\<lambda>(_, l). P l) (threads L)))"
  proof
    assume "t \<in> fst ` set (map (\<lambda>(t, l). (t, next_terminal l, loaded_branch l))
      (filter (\<lambda>(_, l). P l) (threads L)))"
    then obtain m where m: "(t, m) \<in> set (threads L)" and "P m" by auto
    have "map_of (threads L) t = Some m"
      using assms(1) m by (intro map_of_is_SomeI) (auto simp: leases_ok_def)
    with assms(2,3) \<open>P m\<close> show False by (simp add: get_lease_def)
  qed
  from get_fold_resolve_gone [OF this] assms(2) show ?thesis by simp
qed

lemma expire_one_keeps:
  assumes "get_lease L t = Some l" and "state l = ReleaseFailed" and "holder l = Headless sid"
    and "writer l = Some w" and "alive w"
  shows "get_lease (snd (expire_one alive ha now t' L)) t = Some l"
proof (cases "t' = t")
  case True
  with assms show ?thesis by (simp add: expire_one_def)
next
  case False
  with assms(1) show ?thesis
    by (auto simp: expire_one_def get_del get_put get_resolve_gone_other split: option.splits Holder.splits)
qed

lemma restart_keeps:
  assumes "get_lease L t = Some l" and "state l = ReleaseFailed" and "holder l = Headless sid"
    and "writer l = Some w" and "alive w"
  shows "get_lease (load_leases (Some L) alive now) t = Some l"
proof -
  have fold: "get_lease (fold (\<lambda>t L. snd (expire_one alive (\<lambda>_. False) now t L)) ts M) t = Some l"
    if "get_lease M t = Some l" for ts M
    using that
  proof (induction ts arbitrary: M)
    case (Cons t' ts)
    have "get_lease (snd (expire_one alive (\<lambda>_. False) now t' M)) t = Some l"
      using expire_one_keeps [of M t l sid w alive] Cons.prems assms(2-5) by blast
    from Cons.IH [OF this] show ?case by simp
  qed simp
  have "get_lease (snd (expire alive (\<lambda>_. False) now L)) t = Some l"
    unfolding snd_expire by (rule fold) (rule assms(1))
  moreover have "web_to_tui l = l" using assms(3) by (simp add: web_to_tui_def)
  ultimately show ?thesis
    by (simp add: load_leases_def Let_def get_lease_def map_of_map)
qed

text \<open>
  A writer whose release failed keeps its conversation. Until that writer is known to be gone
  (see \<open>lifts\<close>), every operation leaves the conversation with a failed release held by a headless
  writer, and every terminal that opens it is told so and granted nothing.
\<close>

theorem release_failed_keeps_out:
  assumes "lreach L" and "get_lease L t = Some l" and "state l = ReleaseFailed" and "\<not> lifts op t l"
  shows "(\<exists>l' sid. get_lease (apply_op op L) t = Some l' \<and> state l' = ReleaseFailed
      \<and> holder l' = Headless sid)
    \<and> fst (opened t tm ld hl desc now L) = Unchanged ReleaseFailed"
proof -
  note ok = lreach_ok [OF assms(1)]
  then have "lease_ok l" using assms(2) by (auto simp: leases_ok_def)
  then obtain sid where h: "holder l = Headless sid"
    using assms(3) by (cases "holder l") (auto simp: lease_ok_def)
  have "\<exists>l' sid. get_lease (apply_op op L) t = Some l' \<and> state l' = ReleaseFailed
      \<and> holder l' = Headless sid"
  proof (cases op)
    case (OpenedBy t' tm' ld' hl' desc' now')
    then show ?thesis
      using assms(2) opened_release_failed(2) [OF assms(2,3) h, of tm' ld' hl' desc' now'] assms(3) h
      by (cases "t' = t") (auto simp: get_opened_other)
  next
    case (HeadlessEndedOp t' sid' desc' now')
    then show ?thesis
      using assms(2-4) h get_others(1) [of t t' sid' desc' now' L]
      by (cases "t' = t") (auto, simp add: headless_ended_def)
  next
    case (ReleaseFailedOp t' sid' w now')
    then show ?thesis
      using assms(2,3) h get_others(2) [of t t' sid' w now' L]
      by (cases "t' = t") (auto, simp add: release_failed_def Let_def modify_set)
  next
    case (LiftGoneWriters alive now')
    then show ?thesis
      using assms(3,4) h get_lift_other [OF ok assms(2), of "\<lambda>l. state l = ReleaseFailed
        \<and> (case writer l of Some w \<Rightarrow> \<not> alive w | None \<Rightarrow> False)" alive HeadlessEnded now']
      by (simp add: lift_gone_writers_def Let_def)
  next
    case (ReleaseWriter t' w)
    then show ?thesis
      using assms(2,3) h get_others(4) [of t t' w L]
      by (cases "t' = t") (auto, simp add: release_writer_def)
  next
    case (LiftUnobserved row_of alive now')
    then show ?thesis
      using assms(3) h get_lift_other [OF ok assms(2), of "\<lambda>l. past_deadline now' l
        \<and> (case holder l of Headless sid \<Rightarrow> \<not> row_of sid | _ \<Rightarrow> False)
        \<and> (case writer l of Some w \<Rightarrow> \<not> alive w | None \<Rightarrow> False)" alive HeadlessEndedUnobserved now']
      by (simp add: lift_unobserved_releases_def Let_def past_deadline_def)
  next
    case (TurnStarted t' remote now')
    then show ?thesis
      using assms(2,3) h get_others(3) [of t t' remote now' L]
      by (cases "t' = t") (auto, simp add: turn_started_def)
  next
    case (Restart alive now')
    then obtain w where "writer l = Some w" "alive w" using assms(4) by (auto split: option.splits)
    with restart_keeps [OF assms(2,3) h] Restart assms(3) h show ?thesis by simp
  qed (use assms(2,3) h in \<open>simp_all add: get_lease_def\<close>)
  with opened_release_failed(1) [OF assms(2,3) h] show ?thesis by blast
qed

definition failed_leases :: Leases where
  "failed_leases = apply_op (ReleaseFailedOp ''c'' ''web'' (Some terminal_a) 9) sample_leases"

theorem release_failed_keeps_out_witness:
  "fst (opened ''c'' \<lparr>pid = 8, started_ms = 0, plugin = True\<rparr> None None (\<lambda>_ _. Holds) 10 failed_leases)
     = Unchanged ReleaseFailed"
proof -
  have r: "lreach failed_leases" unfolding failed_leases_def by (rule lr_step [OF sample_leases_reach])
  obtain l where l: "get_lease failed_leases ''c'' = Some l" and "state l = ReleaseFailed"
    by (simp add: failed_leases_def release_failed_def Let_def modify_set sample_leases_get)
  from release_failed_keeps_out [OF r this, of "RecordOutput ''c'' 1"] show ?thesis by simp
qed

section \<open>Fail closed\<close>

text \<open>Evidence that a terminal loaded the headless writer's last record.\<close>

definition has_evidence :: "Leases \<Rightarrow> string \<Rightarrow> descends \<Rightarrow> Terminal \<Rightarrow> Loaded option \<Rightarrow> bool" where
  "has_evidence L t desc tm ld \<longleftrightarrow>
     (\<exists>wl b. map_of (writer_leaf L) t = Some wl \<and> ld = Some b
        \<and> (desc b wl = Holds
           \<or> desc b wl = Unwritten True
             \<and> (\<exists>at. map_of (last_output L) t = Some at \<and> at < started_ms tm - START_MARGIN_MS)))"

lemma by_branch_Held: "by_branch L t tm ld desc = Some Held \<Longrightarrow> has_evidence L t desc tm ld"
  by (auto simp: by_branch_def has_evidence_def output_since_start_def not_le
      split: if_splits option.splits Branch.splits bool.splits)

lemma judge_Held:
  assumes "judge L t tm ld desc now = Held" and "plugin tm" and "map_of (headless_ran L) t \<noteq> None"
  shows "has_evidence L t desc tm ld"
proof -
  have "by_branch L t tm ld desc \<noteq> None" using assms(2,3) by (simp add: by_branch_def)
  then have "by_branch L t tm ld desc = Some Held" using assms(1) by (auto simp: judge_def)
  then show ?thesis by (rule by_branch_Held)
qed



section \<open>Bounded memory\<close>

lemma min_by_value_in: "min_by_value xs = Some x \<Longrightarrow> x \<in> set xs"
  by (induction xs arbitrary: x) (auto split: option.splits if_splits)

text \<open>
  Forgetting old output never affects a conversation with a lease: recording output for one
  conversation keeps the recorded output time of every other conversation that has a lease, and
  sets its own.
\<close>

theorem record_output_keeps_leased:
  assumes "get_lease L t = Some l"
  shows "map_of (last_output (record_output thread now L)) t
    = (if t = thread then Some now else map_of (last_output L) t)"
proof -
  let ?cands = "filter (\<lambda>(t, _). get_lease L t = None) (last_output L)"
  have "map_of (evict (min_by_value ?cands) (last_output L)) t = map_of (last_output L) t"
  proof (cases "min_by_value ?cands")
    case None
    then show ?thesis by (simp add: evict_def)
  next
    case (Some x)
    then have "get_lease L (fst x) = None" using min_by_value_in [OF Some] by auto
    with assms have "t \<noteq> fst x" by auto
    with Some show ?thesis by (simp add: evict_def delete_conv' split_beta)
  qed
  then show ?thesis
    by (simp add: record_output_def mark_headless_def Let_def update_conv')
qed

theorem record_output_keeps_leased_witness:
  "map_of (last_output (record_output ''d'' 9 (record_output ''c'' 5 sample_leases))) ''c'' = Some 5"
proof -
  have "get_lease (record_output ''c'' 5 sample_leases) ''c'' = get_lease sample_leases ''c''"
    by (simp add: get_lease_def)
  then have l: "\<exists>l. get_lease (record_output ''c'' 5 sample_leases) ''c'' = Some l"
    by (simp add: sample_leases_get)
  then obtain l where "get_lease (record_output ''c'' 5 sample_leases) ''c'' = Some l" ..
  from record_output_keeps_leased [OF this, of "''d''" 9]
  show ?thesis
    using record_output_keeps_leased [OF sample_leases_get, of "''c''" 5] by simp
qed

end
