(* ===== verification/Ticket.thy ===== *)
theory Ticket
  imports Prelude
begin

text \<open>
  Receipts for queued instructions (\<open>src/rc/ticket.rs\<close>), the authority that admits them
  (\<open>src/rc/authority.rs\<close>, \<open>src/rc/cloud/ingress.rs\<close>) and the permission modes a non-owner may add to
  (\<open>src/rc/turn_mode.rs\<close>). Both halves of a receipt share one atomic cell; every operation on it is
  one compare-and-exchange, so an execution of the two sides is a sequence of such steps in any
  order. The locale \<open>authority\<close> is the contract of the trait \<open>Authority\<close>: it runs the acceptance step
  at most once and answers what that step answered, or refuses without running it. It is
  interpreted on the guard and the cloud authority of the program.
\<close>

section \<open>The cell\<close>

datatype cell = QUEUED | TAKEN | ABANDONED

text \<open>\<open>AtomicU8::compare_exchange\<close>: the old value on success, the found value on failure.\<close>

definition compare_exchange :: "cell \<Rightarrow> cell \<Rightarrow> cell \<Rightarrow> (cell + cell) \<times> cell" where
  "compare_exchange current new c = (if c = current then (Inr c, new) else (Inl c, c))"

section \<open>Authority\<close>

locale authority =
  fixes admit :: "'a \<Rightarrow> ('s \<Rightarrow> bool \<times> 's) \<Rightarrow> 's \<Rightarrow> bool \<times> 's"
  assumes admit_once: "admit a accept s = (False, s) \<or> admit a accept s = accept s"
begin

lemma admitted_ran: "fst (admit a accept s) \<Longrightarrow> admit a accept s = accept s"
  using admit_once [of a accept s] by auto

lemma admit_invariant: "P s \<Longrightarrow> (\<And>s. P s \<Longrightarrow> P (snd (accept s))) \<Longrightarrow> P (snd (admit a accept s))"
  using admit_once [of a accept s] by auto

end

text \<open>
  A cloud connection's authority, as what its checks find under the read locks: whether it acts
  for a controller and that delegation is current, whether the connection is live, whether its
  lease runs, and whether the permit still matches policy and role.
\<close>

record ExecutionAuthority =
  has_controller :: bool
  controller_current :: bool
  live :: bool
  lease_current :: bool
  authority_matches :: bool

definition execution_allowed :: "ExecutionAuthority \<Rightarrow> bool" where
  "execution_allowed a =
     ((\<not> has_controller a \<or> controller_current a) \<and> live a \<and> lease_current a \<and> authority_matches a)"

definition execution_admit :: "ExecutionAuthority \<Rightarrow> ('s \<Rightarrow> bool \<times> 's) \<Rightarrow> 's \<Rightarrow> bool \<times> 's" where
  "execution_admit a accept s = (if execution_allowed a then accept s else (False, s))"

type_synonym Guard = "ExecutionAuthority option"

definition guard_admit :: "Guard \<Rightarrow> ('s \<Rightarrow> bool \<times> 's) \<Rightarrow> 's \<Rightarrow> bool \<times> 's" where
  "guard_admit g accept s =
     (case g of Some a \<Rightarrow> execution_admit a accept s | None \<Rightarrow> accept s)"

interpretation execution: authority execution_admit
  by unfold_locales (simp add: execution_admit_def)

interpretation guard: authority guard_admit
  by unfold_locales (auto simp: guard_admit_def execution_admit_def split: option.splits)

datatype rpc_error = Forbidden string

definition guard_check :: "Guard \<Rightarrow> rpc_error + unit" where
  "guard_check g =
     (if fst (guard_admit g (\<lambda>s. (True, s)) ()) then Inr ()
      else Inl (Forbidden ''request authority expired before execution admission''))"

text \<open>The project an authority is delegated for, if any, against the request's project.\<close>

definition check_project :: "(string \<times> string) option \<Rightarrow> string \<Rightarrow> string \<Rightarrow> rpc_error + unit" where
  "check_project delegated pid path =
     (if (case delegated of Some (aid, apath) \<Rightarrow> aid \<noteq> pid \<or> apath \<noteq> path | None \<Rightarrow> False)
      then Inl (Forbidden ''project binding changed outside delegated authority'')
      else Inr ())"

section \<open>Permission modes\<close>

datatype PermissionMode = Default | AcceptEdits | Auto | Plan | Bypass

definition non_owner_may_add :: "PermissionMode option \<Rightarrow> bool" where
  "non_owner_may_add mode = (mode = Some Default \<or> mode = Some Plan)"

datatype ModeOwnerOnly = ModeOwnerOnly "PermissionMode option"

definition require :: "bool \<Rightarrow> PermissionMode option \<Rightarrow> ModeOwnerOnly + unit" where
  "require caller_is_owner mode =
     (if caller_is_owner \<or> non_owner_may_add mode then Inr () else Inl (ModeOwnerOnly mode))"

section \<open>Tickets and receipts\<close>

record Ticket =
  t_authority :: Guard
  owner_control :: bool

definition ticket_authorized :: "Guard \<Rightarrow> Ticket \<times> cell" where
  "ticket_authorized g = (\<lparr>t_authority = g, owner_control = True\<rparr>, QUEUED)"

definition with_control_ceiling :: "bool \<Rightarrow> Ticket \<Rightarrow> Ticket" where
  "with_control_ceiling owner t = t\<lparr>owner_control := owner\<rparr>"

datatype ticket_error = AuthorityExpired rpc_error | NeedsOwner | ModeRefused ModeOwnerOnly

definition check_authority :: "Ticket \<Rightarrow> ticket_error + unit" where
  "check_authority t =
     (case guard_check (t_authority t) of Inl e \<Rightarrow> Inl (AuthorityExpired e) | Inr u \<Rightarrow> Inr u)"

definition check_control :: "bool \<Rightarrow> Ticket \<Rightarrow> ticket_error + unit" where
  "check_control requires_owner t =
     r_bind (check_authority t) (\<lambda>_. ensure (\<not> requires_owner \<or> owner_control t) NeedsOwner)"

definition check_turn_mode :: "PermissionMode option \<Rightarrow> Ticket \<Rightarrow> ticket_error + unit" where
  "check_turn_mode mode t =
     (case require (owner_control t) mode of Inl e \<Rightarrow> Inl (ModeRefused e) | Inr u \<Rightarrow> Inr u)"

definition take_step :: "cell \<Rightarrow> bool \<times> cell" where
  "take_step c = (let (r, c') = compare_exchange QUEUED TAKEN c in (is_ok r, c'))"

definition accept :: "Ticket \<Rightarrow> cell \<Rightarrow> bool \<times> cell" where
  "accept t c =
     (let (ok, c') = guard_admit (t_authority t) take_step c
      in if ok then (True, c') else (False, snd (compare_exchange QUEUED ABANDONED c')))"

datatype Abandon = NeverRan | AlreadyTaken

definition abandon :: "cell \<Rightarrow> Abandon \<times> cell" where
  "abandon c =
     (case compare_exchange QUEUED ABANDONED c of
        (Inr _, c') \<Rightarrow> (NeverRan, c')
      | (Inl found, c') \<Rightarrow> (if found = ABANDONED then NeverRan else AlreadyTaken, c'))"

text \<open>\<open>Taken::wait\<close> on a loaded value: it returns, waits forever, or waits for a notification.\<close>

datatype taken_wait = Returns | Never | Waits

definition taken_wait_step :: "cell \<Rightarrow> taken_wait" where
  "taken_wait_step c = (case c of TAKEN \<Rightarrow> Returns | ABANDONED \<Rightarrow> Never | QUEUED \<Rightarrow> Waits)"

section \<open>Both sides at once\<close>

text \<open>
  The executor may try to accept at any time, with the authority as it then stands; the caller may
  ask to abandon at any time, any number of times.
\<close>

datatype answer = Accepted bool | Abandoned Abandon

inductive trun :: "cell \<Rightarrow> answer list \<Rightarrow> bool" where
  tr_start: "trun QUEUED []"
| tr_accept: "trun c as \<Longrightarrow> accept t c = (ok, c') \<Longrightarrow> trun c' (as @ [Accepted ok])"
| tr_abandon: "trun c as \<Longrightarrow> abandon c = (r, c') \<Longrightarrow> trun c' (as @ [Abandoned r])"

lemma accept_cases:
  assumes "accept t c = (ok, c')"
  shows "(ok \<longrightarrow> c = QUEUED \<and> c' = TAKEN) \<and> (\<not> ok \<longrightarrow> c' = (if c = QUEUED then ABANDONED else c))"
proof -
  consider "guard_admit (t_authority t) take_step c = (False, c)"
    | "guard_admit (t_authority t) take_step c = take_step c"
    using guard.admit_once [of "t_authority t" take_step c] by blast
  then show ?thesis
    using assms by cases (auto simp: accept_def take_step_def compare_exchange_def split: if_splits)
qed

lemma abandon_cases:
  "abandon c = (r, c') \<Longrightarrow>
     (r = NeverRan \<longleftrightarrow> c \<noteq> TAKEN) \<and> c' = (if c = QUEUED then ABANDONED else c)"
  by (cases c) (auto simp: abandon_def compare_exchange_def)

text \<open>What the cell says about the answers given so far.\<close>

definition cell_ok :: "cell \<Rightarrow> answer list \<Rightarrow> bool" where
  "cell_ok c as \<longleftrightarrow>
     (case c of
        QUEUED \<Rightarrow> as = []
      | TAKEN \<Rightarrow> count_list as (Accepted True) = 1 \<and> Abandoned NeverRan \<notin> set as
      | ABANDONED \<Rightarrow> Accepted True \<notin> set as \<and> Abandoned AlreadyTaken \<notin> set as)"

lemma trun_ok: "trun c as \<Longrightarrow> cell_ok c as"
proof (induction rule: trun.induct)
  case tr_start
  then show ?case by (simp add: cell_ok_def)
next
  case (tr_accept c as t ok c')
  show ?case
    using tr_accept.IH accept_cases [OF tr_accept.hyps(2)]
    by (auto simp: cell_ok_def split: cell.splits if_splits)
next
  case (tr_abandon c as r c')
  have "r = NeverRan \<or> r = AlreadyTaken" by (cases r) auto
  then show ?case
    using tr_abandon.IH abandon_cases [OF tr_abandon.hyps(2)]
    by (auto simp: cell_ok_def split: cell.splits if_splits)
qed

text \<open>
  C23. Either it is taken and executed, or it is abandoned and discarded, never both. However the
  executor's and the caller's steps interleave, and whatever happens to the authority in between,
  the instruction is accepted at most once; it is never both accepted and reported as never run;
  and asking again to abandon always gives the same answer.
\<close>

theorem taken_or_abandoned_never_both:
  assumes "trun c as"
  shows "count_list as (Accepted True) \<le> 1
    \<and> \<not> (Accepted True \<in> set as \<and> Abandoned NeverRan \<in> set as)
    \<and> \<not> (Abandoned NeverRan \<in> set as \<and> Abandoned AlreadyTaken \<in> set as)"
  using trun_ok [OF assms] by (cases c) (auto simp: cell_ok_def count_list_0_iff)

definition internal_ticket :: Ticket where
  "internal_ticket = fst (ticket_authorized None)"

theorem taken_or_abandoned_never_both_witness:
  "\<exists>c as. trun c as \<and> as = [Abandoned NeverRan, Accepted False, Abandoned NeverRan]
     \<and> Accepted True \<notin> set as"
proof -
  have "trun ABANDONED ([] @ [Abandoned NeverRan])"
    by (rule tr_abandon [OF tr_start]) (simp add: abandon_def compare_exchange_def)
  then have "trun ABANDONED (([] @ [Abandoned NeverRan]) @ [Accepted False])"
    by (rule tr_accept [where t = internal_ticket]) code_simp
  then have r: "trun ABANDONED ((([] @ [Abandoned NeverRan]) @ [Accepted False]) @ [Abandoned NeverRan])"
    by (rule tr_abandon) (simp add: abandon_def compare_exchange_def)
  from taken_or_abandoned_never_both [OF r] r show ?thesis by fastforce
qed

section \<open>What a non-owner may do\<close>

text \<open>
  A revoked authority and a mode that acts unasked keep a non-owner out. An instruction is
  taken only while its authority admits it; without owner control it never passes a check that
  requires the owner, and its words enter only a turn known to run in Default or Plan: a mode the
  device cannot read counts as neither.
\<close>

theorem non_owner_limits:
  "(\<not> fst (accept t c) \<or> t_authority t = None \<or> (\<exists>a. t_authority t = Some a \<and> execution_allowed a))
   \<and> (check_control True (with_control_ceiling False t) \<noteq> Inr ())
   \<and> (check_turn_mode mode (with_control_ceiling False t) = Inr ()
        \<longleftrightarrow> mode = Some Default \<or> mode = Some Plan)
   \<and> check_turn_mode mode (with_control_ceiling True t) = Inr ()"
proof -
  have "t_authority t = None \<or> (\<exists>a. t_authority t = Some a \<and> execution_allowed a)" if "fst (accept t c)"
    using that by (auto simp: accept_def guard_admit_def execution_admit_def Let_def
        split: option.splits if_splits)
  moreover have "check_control True (with_control_ceiling False t) \<noteq> Inr ()"
    by (auto simp: check_control_def with_control_ceiling_def r_bind_eq_Inr)
  ultimately show ?thesis
    by (auto simp: check_turn_mode_def with_control_ceiling_def require_def non_owner_may_add_def)
qed

definition revoked_ticket :: Ticket where
  "revoked_ticket = \<lparr>t_authority = Some \<lparr>has_controller = False, controller_current = False, live = True,
     lease_current = False, authority_matches = True\<rparr>, owner_control = False\<rparr>"

theorem non_owner_limits_witness:
  "fst (accept internal_ticket QUEUED) \<and> \<not> fst (accept revoked_ticket QUEUED)
   \<and> check_turn_mode (Some Auto) (with_control_ceiling False internal_ticket) \<noteq> Inr ()"
proof -
  have "fst (accept internal_ticket QUEUED)" by code_simp
  moreover have "\<not> fst (accept revoked_ticket QUEUED)"
    using non_owner_limits [of revoked_ticket QUEUED None]
    by (auto simp: revoked_ticket_def execution_allowed_def)
  moreover have "check_turn_mode (Some Auto) (with_control_ceiling False internal_ticket) \<noteq> Inr ()"
    using non_owner_limits [of internal_ticket QUEUED "Some Auto"] by simp
  ultimately show ?thesis by blast
qed

end
