(* ===== verification/PeerAccess.thy ===== *)
theory PeerAccess
  imports Prelude
begin

text \<open>
  The executor's resource policy (\<open>crates/agit-peer/src/access.rs\<close>): principals, resources, the four
  levels of access, policy documents and their validation, and the lookup of a principal's access.
  The levels form a linear order, in which a ceiling is a minimum. The locale \<open>deny_by_default\<close> is
  what a client of a policy lookup relies on.
\<close>

record Principal =
  issuer :: string
  account_id :: string

datatype Resource = Machine | Project string | SessionRes string

datatype Access = Deny | Read | Control | Admin

definition can_read :: "Access \<Rightarrow> bool" where
  "can_read a \<longleftrightarrow> a \<noteq> Deny"

definition can_control :: "Access \<Rightarrow> bool" where
  "can_control a \<longleftrightarrow> a = Control \<or> a = Admin"

definition is_admin :: "Access \<Rightarrow> bool" where
  "is_admin a \<longleftrightarrow> a = Admin"

fun role :: "Access \<Rightarrow> string" where
  "role Deny = ''denied''"
| "role Read = ''viewer''"
| "role Control = ''operator''"
| "role Admin = ''owner''"

record Rule =
  principal :: Principal
  resource :: Resource
  access :: Access

record Policy =
  version :: u32
  revision :: u64
  rules :: "Rule list"

definition MAX_RULES :: nat where
  "MAX_RULES = 4096"

definition default_policy :: Policy where
  "default_policy = \<lparr>version = 1, revision = 0, rules = []\<rparr>"

definition valid_identifier :: "string \<Rightarrow> bool" where
  "valid_identifier v \<longleftrightarrow> v \<noteq> [] \<and> length v \<le> 1024 \<and> \<not> has_control v"

datatype policy_error =
  UnsupportedVersion | TooManyRules | InvalidPrincipal | InvalidResource | DuplicateRule

definition validate_rule ::
  "Rule \<Rightarrow> (Principal \<times> Resource) list \<Rightarrow> policy_error + (Principal \<times> Resource) list" where
  "validate_rule r keys =
     r_bind (ensure (valid_identifier (issuer (principal r))) InvalidPrincipal) (\<lambda>_.
     r_bind (ensure (valid_identifier (account_id (principal r))) InvalidPrincipal) (\<lambda>_.
     r_bind (case resource r of
               Project i \<Rightarrow> ensure (valid_identifier i) InvalidResource
             | SessionRes i \<Rightarrow> ensure (valid_identifier i) InvalidResource
             | Machine \<Rightarrow> Inr ()) (\<lambda>_.
     r_bind (ensure ((principal r, resource r) \<notin> set keys) DuplicateRule) (\<lambda>_.
       Inr ((principal r, resource r) # keys)))))"

definition validate :: "Policy \<Rightarrow> policy_error + unit" where
  "validate p =
     r_bind (ensure (version p = 1) UnsupportedVersion) (\<lambda>_.
     r_bind (ensure (length (rules p) \<le> MAX_RULES) TooManyRules) (\<lambda>_.
     r_bind (r_fold validate_rule (rules p) []) (\<lambda>_. Inr ())))"

text \<open>\<open>TryFrom<PolicyDocument>\<close>, and \<open>Policy::new\<close>, which fixes the version.\<close>

definition try_from :: "u32 \<Rightarrow> u64 \<Rightarrow> Rule list \<Rightarrow> policy_error + Policy" where
  "try_from ver rev_no rs =
     (let p = \<lparr>version = ver, revision = rev_no, rules = rs\<rparr> in r_bind (validate p) (\<lambda>_. Inr p))"

definition new_policy :: "u64 \<Rightarrow> Rule list \<Rightarrow> policy_error + Policy" where
  "new_policy rev_no rs =
     (let p = \<lparr>version = 1, revision = rev_no, rules = rs\<rparr> in r_bind (validate p) (\<lambda>_. Inr p))"

definition find_rule :: "Policy \<Rightarrow> Principal \<Rightarrow> Resource \<Rightarrow> Access option" where
  "find_rule p who r =
     map_option access (find (\<lambda>rule. principal rule = who \<and> resource rule = r) (rules p))"

definition policy_access :: "Policy \<Rightarrow> Principal \<Rightarrow> string option \<Rightarrow> string option \<Rightarrow> Access" where
  "policy_access p who session project =
     (case Option.bind session (\<lambda>i. find_rule p who (SessionRes i)) of
        Some a \<Rightarrow> a
      | None \<Rightarrow>
          (case Option.bind project (\<lambda>i. find_rule p who (Project i)) of
             Some a \<Rightarrow> a
           | None \<Rightarrow> (case find_rule p who Machine of Some a \<Rightarrow> a | None \<Rightarrow> Deny)))"

section \<open>The order of access\<close>

instantiation Access :: linorder
begin

fun rank :: "Access \<Rightarrow> nat" where
  "rank Deny = 0"
| "rank Read = 1"
| "rank Control = 2"
| "rank Admin = 3"

definition less_eq_Access :: "Access \<Rightarrow> Access \<Rightarrow> bool" where
  "a \<le> b \<longleftrightarrow> rank a \<le> rank b"

definition less_Access :: "Access \<Rightarrow> Access \<Rightarrow> bool" where
  "a < b \<longleftrightarrow> rank a < rank (b :: Access)"

instance
proof
  fix x y :: Access
  show "x \<le> y \<Longrightarrow> y \<le> x \<Longrightarrow> x = y"
    by (cases x; cases y) (simp_all add: less_eq_Access_def)
qed (auto simp: less_eq_Access_def less_Access_def)

end

lemma access_levels:
  "can_read a \<longleftrightarrow> Read \<le> a" "can_control a \<longleftrightarrow> Control \<le> a" "is_admin a \<longleftrightarrow> Admin \<le> a"
  "Deny \<le> a" "a \<le> Admin"
  by (cases a; simp add: can_read_def can_control_def is_admin_def less_eq_Access_def)+

lemma levels_mono:
  "a \<le> b \<Longrightarrow> can_read a \<Longrightarrow> can_read b" "a \<le> b \<Longrightarrow> can_control a \<Longrightarrow> can_control b"
  "a \<le> b \<Longrightarrow> is_admin a \<Longrightarrow> is_admin b"
  by (auto simp: access_levels intro: order.trans)

lemma role_inj: "role a = role b \<longleftrightarrow> a = b"
  by (cases a; cases b) simp_all

section \<open>Policies\<close>

text \<open>
  What a client may rely on: without a rule that applies to it, a principal has no access; and
  the access it has is that of some rule for it.
\<close>

locale deny_by_default =
  fixes lookup :: "'p \<Rightarrow> Principal \<Rightarrow> 'r \<Rightarrow> Access"
    and applies :: "'p \<Rightarrow> Principal \<Rightarrow> 'r \<Rightarrow> Access \<Rightarrow> bool"
  assumes granted: "lookup p who r = a \<Longrightarrow> a = Deny \<or> applies p who r a"
begin

lemma no_rule_denied: "(\<And>a. \<not> applies p who r a) \<Longrightarrow> lookup p who r = Deny"
  using granted by blast

lemma readable_has_rule: "can_read (lookup p who r) \<Longrightarrow> applies p who r (lookup p who r)"
  using granted by (auto simp: can_read_def)

end

definition rule_applies ::
  "Policy \<Rightarrow> Principal \<Rightarrow> string option \<times> string option \<Rightarrow> Access \<Rightarrow> bool" where
  "rule_applies p who sp a \<longleftrightarrow>
     (\<exists>r \<in> set (rules p). principal r = who \<and> access r = a
        \<and> resource r \<in> {Machine} \<union> SessionRes ` set_option (fst sp) \<union> Project ` set_option (snd sp))"

lemma find_rule_Some:
  "find_rule p who res = Some a \<Longrightarrow>
     \<exists>r \<in> set (rules p). principal r = who \<and> resource r = res \<and> access r = a"
  by (auto simp: find_rule_def dest!: find_SomeD)

lemma find_rule_None:
  "find_rule p who res = None \<longleftrightarrow> \<not> (\<exists>r \<in> set (rules p). principal r = who \<and> resource r = res)"
  by (auto simp: find_rule_def find_None_iff)

lemma policy_access_cases:
  assumes "policy_access p who session project = a"
  shows "a = Deny \<or> rule_applies p who (session, project) a"
  using assms
  by (auto simp: policy_access_def rule_applies_def bind_eq_Some_conv split: option.splits
      dest!: find_rule_Some)

interpretation policy: deny_by_default "\<lambda>p who (s, pr). policy_access p who s pr" rule_applies
  using policy_access_cases by unfold_locales auto

lemma validate_rules_distinct:
  "r_fold validate_rule rs keys = Inr keys' \<Longrightarrow> distinct keys \<Longrightarrow>
     distinct (map (\<lambda>r. (principal r, resource r)) rs)
     \<and> set keys \<inter> set (map (\<lambda>r. (principal r, resource r)) rs) = {}"
proof (induction rs arbitrary: keys)
  case (Cons r rs)
  from Cons.prems(1) obtain k where v: "validate_rule r keys = Inr k"
    and f: "r_fold validate_rule rs k = Inr keys'" by (auto simp: r_bind_eq_Inr)
  then have k: "k = (principal r, resource r) # keys" "(principal r, resource r) \<notin> set keys"
    by (auto simp: validate_rule_def r_bind_eq_Inr ensure_eq split: if_splits)
  from Cons.IH [OF f] k Cons.prems(2) show ?case by auto
qed simp

lemma validate_unique:
  assumes "validate p = Inr ()" and "r \<in> set (rules p)" and "r' \<in> set (rules p)"
    and "principal r = principal r'" and "resource r = resource r'"
  shows "r = r'"
proof -
  from assms(1) obtain ks where "r_fold validate_rule (rules p) [] = Inr ks"
    by (auto simp: validate_def r_bind_eq_Inr split: if_splits)
  from validate_rules_distinct [OF this]
  have "inj_on (\<lambda>r. (principal r, resource r)) (set (rules p))" by (simp add: distinct_map)
  with assms(2-5) show ?thesis by (auto dest: inj_onD)
qed

lemma find_rule_unique:
  assumes "validate p = Inr ()" and "r \<in> set (rules p)"
  shows "find_rule p (principal r) (resource r) = Some (access r)"
proof -
  obtain a where a: "find_rule p (principal r) (resource r) = Some a"
    using assms(2) find_rule_None [of p "principal r" "resource r"]
    by (cases "find_rule p (principal r) (resource r)") auto
  from find_rule_Some [OF this] validate_unique [OF assms(1,2)] a show ?thesis by fastforce
qed

text \<open>
  In a validated policy the order of the rules does not matter and the most specific rule
  decides. A rule for the session is the answer whatever the project and the machine say, a rule
  for the project whatever the machine says, and a principal no rule applies to has no access.
\<close>

theorem most_specific_rule_decides:
  assumes "validate p = Inr ()"
  shows "(r \<in> set (rules p) \<and> resource r = SessionRes s
        \<longrightarrow> policy_access p (principal r) (Some s) project = access r)
    \<and> (r \<in> set (rules p) \<and> resource r = Project pr
        \<and> \<not> (\<exists>q \<in> set (rules p). principal q = principal r \<and> (\<exists>s. session = Some s \<and> resource q = SessionRes s))
        \<longrightarrow> policy_access p (principal r) session (Some pr) = access r)
    \<and> ((\<forall>a. \<not> rule_applies p who (session, project) a) \<longrightarrow> policy_access p who session project = Deny)"
proof -
  note u = find_rule_unique [OF assms, of r]
  have "Option.bind session (\<lambda>i. find_rule p (principal r) (SessionRes i)) = None"
    if "\<not> (\<exists>q \<in> set (rules p). principal q = principal r \<and> (\<exists>s. session = Some s \<and> resource q = SessionRes s))"
    using that by (cases session) (auto simp: find_rule_None)
  moreover have "policy_access p who session project = Deny"
    if "\<forall>a. \<not> rule_applies p who (session, project) a"
    using policy.no_rule_denied [of p who "(session, project)"] that by simp
  ultimately show ?thesis using u by (auto simp: policy_access_def)
qed

definition alice :: Principal where
  "alice = \<lparr>issuer = ''https://cloud.example'', account_id = ''alice''\<rparr>"

definition sample_policy :: Policy where
  "sample_policy = \<lparr>version = 1, revision = 1,
     rules = [\<lparr>principal = alice, resource = Machine, access = Admin\<rparr>,
              \<lparr>principal = alice, resource = SessionRes ''hidden'', access = Deny\<rparr>]\<rparr>"

theorem most_specific_rule_decides_witness:
  "policy_access sample_policy alice (Some ''hidden'') (Some ''p'') = Deny"
proof -
  let ?r = "\<lparr>principal = alice, resource = SessionRes ''hidden'', access = Deny\<rparr>"
  have v: "validate sample_policy = Inr ()"
    by (simp add: validate_def sample_policy_def validate_rule_def valid_identifier_def alice_def
        MAX_RULES_def)
  have "?r \<in> set (rules sample_policy)" by (simp add: sample_policy_def)
  with most_specific_rule_decides [OF v, of ?r "''hidden''" "Some ''p''"] show ?thesis by simp
qed

end
