(* ===== verification/CloudResources.thy ===== *)
theory CloudResources
  imports PeerAccess "HOL-Library.AList"
begin

text \<open>
  The executor's record of its own resources (\<open>src/rc/cloud/resources.rs\<close>): projects, sessions under
  their logical, native and watch names, a bounded catalog of source conversations and pinned
  controller conversations; and the access a principal has to a session. A JSON answer is a record
  with the fields the code reads, each \<open>None\<close> when it is absent or of another type. The SHA-256 in
  hex is the parameter \<open>hex\<close>; HashMaps are association lists in iteration order.

  The theorems: an explicit denial of a session under any of its names wins, the catalog never
  exceeds its limit, and filtered lists show only what the principal may read.
\<close>

section \<open>Paths\<close>

text \<open>\<open>Path::components\<close> on Unix.\<close>

definition path_components :: "string \<Rightarrow> string list" where
  "path_components s =
     (let abs = prefix ''/'' s;
          pieces = filter (\<lambda>c. c \<noteq> []) (split_on CHR ''/'' s);
          body = (case pieces of
                    [] \<Rightarrow> []
                  | c # cs \<Rightarrow> (if c = ''.'' \<and> abs then [] else [c]) @ filter (\<lambda>c. c \<noteq> ''.'') cs)
      in (if abs then [''/''] else []) @ body)"

definition path_starts_with :: "string \<Rightarrow> string \<Rightarrow> bool" where
  "path_starts_with p root = prefix (path_components root) (path_components p)"

text \<open>\<open>Iterator::max_by_key\<close>: the last maximum in iteration order.\<close>

fun max_by_key :: "('a \<Rightarrow> nat) \<Rightarrow> 'a list \<Rightarrow> 'a option" where
  "max_by_key f [] = None"
| "max_by_key f (x # xs) =
     (case max_by_key f xs of
        None \<Rightarrow> Some x
      | Some y \<Rightarrow> if f x \<le> f y then Some y else Some x)"

section \<open>Sessions\<close>

record SourceIdentity =
  source_id :: string
  generation :: u64

definition session_ref :: "(string \<Rightarrow> string) \<Rightarrow> SourceIdentity \<Rightarrow> string \<Rightarrow> string" where
  "session_ref hex s native =
     ''local-'' @ hex (''agit-native-session-v1'' @ [CHR 0x00] @ source_id s @ [CHR 0x00] @ native)"

record Session =
  s_id :: string
  native_id :: string
  source :: "SourceIdentity option"
  runtime :: string
  cwd :: string
  s_project :: "string option"

definition aliases :: "(string \<Rightarrow> string) \<Rightarrow> Session \<Rightarrow> string list" where
  "aliases hex s =
     [s_id s]
     @ (case source s of Some src \<Rightarrow> [session_ref hex src (native_id s)] | None \<Rightarrow> [])
     @ (if source s = None then [native_id s] else [])"

definition session_access :: "(string \<Rightarrow> string) \<Rightarrow> Session \<Rightarrow> Policy \<Rightarrow> Principal \<Rightarrow> Access" where
  "session_access hex s p who =
     (let names = aliases hex s;
          explicit = filter (\<lambda>r. case resource r of SessionRes i \<Rightarrow> i \<in> set names | _ \<Rightarrow> False)
                       (filter (\<lambda>r. principal r = who) (rules p))
      in if list_ex (\<lambda>r. access r = Deny) explicit then Deny
         else case find (\<lambda>m. m \<noteq> None)
                     (map (\<lambda>a. find (\<lambda>r. resource r = SessionRes a) explicit) names) of
                Some (Some r) \<Rightarrow> access r
              | _ \<Rightarrow> policy_access p who (Some (s_id s)) (s_project s))"

record ControllerSession =
  pinned :: Session
  alive :: bool   \<comment> \<open>\<open>lifetime.strong_count() > 0\<close>\<close>

record Resources =
  projects :: "(string \<times> string) list"
  sessions :: "(string \<times> Session) list"
  catalog :: "(string \<times> Session) list"
  catalog_order :: "string list"
  controller_sessions :: "(string \<times> ControllerSession) list"
  available_sources :: "(string \<times> u64) list"

definition no_resources :: Resources where
  "no_resources = \<lparr>projects = [], sessions = [], catalog = [], catalog_order = [],
     controller_sessions = [], available_sources = []\<rparr>"

definition CATALOG_CACHE_LIMIT :: nat where
  "CATALOG_CACHE_LIMIT = 2048"

definition project_for_path :: "(string \<times> string) list \<Rightarrow> string \<Rightarrow> string option" where
  "project_for_path ps path =
     map_option fst
       (max_by_key (\<lambda>(_, root). length (path_components root))
         (filter (\<lambda>(_, root). path_starts_with path root) ps))"

section \<open>Refreshing and inserting\<close>

definition refresh_session :: "Resources \<Rightarrow> Session \<Rightarrow> Session" where
  "refresh_session current s =
     (let known = (case map_of (sessions current) (s_id s) of
                     Some k \<Rightarrow> Some k
                   | None \<Rightarrow> (if source s = None then map_of (sessions current) (native_id s) else None));
          s' = (case known of Some k \<Rightarrow> k | None \<Rightarrow> s)
      in s'\<lparr>s_project := project_for_path (projects current) (cwd s')\<rparr>)"

definition refresh :: "Resources \<Rightarrow> Resources \<Rightarrow> Resources" where
  "refresh current r =
     (let repin = (\<lambda>(k, c). (k, c\<lparr>pinned := (pinned c)\<lparr>s_project :=
                     project_for_path (projects current) (cwd (pinned c))\<rparr>\<rparr>));
          upd = map (\<lambda>(k, s). (k, refresh_session current s))
      in r\<lparr>projects := projects current,
           available_sources := available_sources current,
           controller_sessions := map repin (filter (\<lambda>(_, c). alive c) (controller_sessions r)),
           catalog := upd (catalog r),
           sessions := fold (\<lambda>(k, s). AList.update k s) (sessions current) (upd (sessions r))\<rparr>)"

definition insert_session :: "Session \<Rightarrow> Resources \<Rightarrow> Resources" where
  "insert_session s r =
     (if source s \<noteq> None
      then
        (let r = (if map_of (catalog r) (s_id s) = None
                  then
                    (let r = (if length (catalog r) \<ge> CATALOG_CACHE_LIMIT
                              then (case catalog_order r of
                                      oldest # rest \<Rightarrow>
                                        r\<lparr>catalog_order := rest, catalog := AList.delete oldest (catalog r)\<rparr>
                                    | [] \<Rightarrow> r)
                              else r)
                     in r\<lparr>catalog_order := catalog_order r @ [s_id s]\<rparr>)
                  else r)
         in r\<lparr>catalog := AList.update (s_id s) s (catalog r)\<rparr>)
      else if length (sessions r) \<ge> 8192 then r
      else
        (let ss = (if source s = None \<and> native_id s \<noteq> []
                   then AList.update (native_id s) s (sessions r) else sessions r)
         in r\<lparr>sessions := AList.update (s_id s) s ss\<rparr>))"

definition insert_managed :: "Session \<Rightarrow> Resources \<Rightarrow> Resources" where
  "insert_managed s r =
     (if source s = None then insert_session s r
      else r\<lparr>sessions := AList.update (s_id s) s (sessions r)\<rparr>)"

definition WORKSPACE :: string where
  "WORKSPACE = ''local-owner''"

text \<open>A session row of an answer.\<close>

record SessionRow =
  row_workspace_id :: "string option"
  row_session_id :: "string option"
  row_native_source :: "(unit + SourceIdentity) option"  \<comment> \<open>\<open>Inl\<close>: present but malformed\<close>
  row_project_id :: "string option"
  row_runtime_session_id :: "string option"
  row_runtime :: "string option"

definition or_empty :: "string option \<Rightarrow> string" where
  "or_empty x = (case x of Some s \<Rightarrow> s | None \<Rightarrow> [])"

definition resumed :: "Session \<Rightarrow> SessionRow \<Rightarrow> Resources \<Rightarrow> Resources" where
  "resumed src row r =
     (if row_workspace_id row \<noteq> Some WORKSPACE then r
      else case row_session_id row of
             None \<Rightarrow> r
           | Some i \<Rightarrow>
               (let session = src\<lparr>s_id := i\<rparr>;
                    upd = (\<lambda>(k, known).
                      (k, if s_id known = s_id src
                             \<or> (source known = source src \<and> native_id src \<noteq> []
                                \<and> native_id known = native_id src)
                          then session else known))
                in insert_managed session (r\<lparr>sessions := map upd (sessions r)\<rparr>)))"

section \<open>Looking up\<close>

definition pin_current :: "Resources \<Rightarrow> ControllerSession \<Rightarrow> bool" where
  "pin_current r c =
     (alive c
      \<and> (case source (pinned c) of
           Some src \<Rightarrow> map_of (available_sources r) (source_id src) = Some (generation src)
         | None \<Rightarrow> False)
      \<and> s_project (pinned c) \<noteq> None)"

definition session_of :: "Resources \<Rightarrow> string \<Rightarrow> Session option" where
  "session_of r i =
     (case map_of (controller_sessions r) i of
        Some c \<Rightarrow> if pin_current r c then Some (pinned c)
                   else (case map_of (sessions r) i of Some s \<Rightarrow> Some s | None \<Rightarrow> map_of (catalog r) i)
      | None \<Rightarrow> (case map_of (sessions r) i of Some s \<Rightarrow> Some s | None \<Rightarrow> map_of (catalog r) i))"

definition controller_session :: "Resources \<Rightarrow> string \<Rightarrow> Session option" where
  "controller_session r i =
     (if \<not> prefix ''local-'' i then session_of r i
      else case map_of (controller_sessions r) i of
             None \<Rightarrow> None
           | Some c \<Rightarrow> if pin_current r c then Some (pinned c) else None)"

datatype refusal = Capacity

definition pin_controller_source :: "Session \<Rightarrow> Resources \<Rightarrow> refusal + Resources" where
  "pin_controller_source s r =
     (let live_pins = filter (\<lambda>(_, c). alive c) (controller_sessions r)
      in if length live_pins < 2048 \<or> map_of live_pins (s_id s) \<noteq> None
         then Inr (r\<lparr>controller_sessions := AList.update (s_id s) \<lparr>pinned = s, alive = True\<rparr> live_pins\<rparr>)
         else Inl Capacity)"

text \<open>A catalog row.\<close>

record CatalogRow =
  cr_cwd :: "string option"
  cr_session_ref :: "string option"
  cr_native_session_id :: "string option"
  cr_runtime :: "string option"
  cr_source_id :: "string option"
  cr_source_generation :: "u64 option"

definition catalog_session :: "Resources \<Rightarrow> CatalogRow \<Rightarrow> Session option" where
  "catalog_session r row =
     Option.bind (cr_cwd row) (\<lambda>c.
     Option.bind (cr_session_ref row) (\<lambda>i.
     Option.bind (cr_native_session_id row) (\<lambda>n.
     Option.bind (cr_runtime row) (\<lambda>rt.
     Option.bind (cr_source_id row) (\<lambda>sid.
     Option.bind (cr_source_generation row) (\<lambda>g.
       Some \<lparr>s_id = i, native_id = n, source = Some \<lparr>source_id = sid, generation = g\<rparr>,
             runtime = rt, cwd = c, s_project = project_for_path (projects r) c\<rparr>))))))"

text \<open>\<open>lookup\<close> is the runtime catalog.\<close>

definition resolve_catalog_with ::
  "string \<Rightarrow> (string \<Rightarrow> 'e + CatalogRow option) \<Rightarrow> Resources \<Rightarrow> 'e + Session option \<times> Resources" where
  "resolve_catalog_with i lookup r =
     (case session_of r i of
        Some s \<Rightarrow> Inr (Some s, r)
      | None \<Rightarrow>
          if length i \<noteq> 70 \<or> \<not> prefix ''local-'' i \<or> \<not> list_all is_ascii_hexdigit (drop 6 i)
          then Inr (None, r)
          else r_bind (lookup i) (\<lambda>found.
                 case found of
                   None \<Rightarrow> Inr (None, r)
                 | Some row \<Rightarrow>
                     (case catalog_session r row of
                        Some s \<Rightarrow> Inr (Some s, insert_session s r)
                      | None \<Rightarrow> Inr (None, r))))"

definition watch_stream_id :: "string \<Rightarrow> string \<Rightarrow> string" where
  "watch_stream_id workspace i = ''agit-watch-'' @ workspace @ ''-'' @ i"

definition watch_alias :: "string \<Rightarrow> Resources \<Rightarrow> Resources" where
  "watch_alias i r =
     (case session_of r i of
        Some s \<Rightarrow>
          if length (sessions r) < 8192
          then r\<lparr>sessions := AList.update (watch_stream_id WORKSPACE i) s (sessions r)\<rparr> else r
      | None \<Rightarrow> r)"

section \<open>Observing answers\<close>

record ProjectRow =
  pr_project_id :: "string option"
  pr_local_path :: "string option"

record WorkspaceRow =
  ws_workspace_id :: "string option"
  ws_projects :: "ProjectRow list option"

record LocalRow =
  lr_runtime_session_id :: "string option"
  lr_runtime :: "string option"
  lr_cwd :: "string option"

record SourceStatus =
  st_source_id :: "string option"
  st_status :: "string option"

record Answer =
  a_project :: ProjectRow              \<comment> \<open>the answer itself, read as a project\<close>
  a_workspaces :: "WorkspaceRow list option"
  a_rows :: "CatalogRow list option"
  a_coverage :: "SourceStatus list option"
  a_coverage_status :: "string option"
  a_complete :: bool
  a_sessions :: "SessionRow list option"
  a_local :: "LocalRow list option"
  a_session :: SessionRow

definition list_or_nil :: "'a list option \<Rightarrow> 'a list" where
  "list_or_nil x = (case x of Some l \<Rightarrow> l | None \<Rightarrow> [])"

definition observe_project :: "ProjectRow \<Rightarrow> Resources \<Rightarrow> Resources" where
  "observe_project row r =
     (case (pr_project_id row, pr_local_path row) of
        (Some i, Some path) \<Rightarrow>
          if i \<noteq> [] \<and> prefix ''/'' path \<and> length (projects r) < 8192
          then r\<lparr>projects := AList.update i path (projects r)\<rparr> else r
      | _ \<Rightarrow> r)"

definition project_cwd :: "Resources \<Rightarrow> string option \<Rightarrow> string" where
  "project_cwd r project = or_empty (Option.bind project (map_of (projects r)))"

definition observe_session :: "SessionRow \<Rightarrow> Resources \<Rightarrow> Resources" where
  "observe_session row r =
     (case row_session_id row of
        None \<Rightarrow> r
      | Some i \<Rightarrow>
          if row_workspace_id row \<noteq> Some WORKSPACE then r
          else case row_native_source row of
                 Some (Inl _) \<Rightarrow> r
               | Some (Inr src) \<Rightarrow>
                   insert_managed
                     \<lparr>s_id = i, native_id = or_empty (row_runtime_session_id row), source = Some src,
                      runtime = or_empty (row_runtime row), cwd = project_cwd r (row_project_id row),
                      s_project = row_project_id row\<rparr> r
               | None \<Rightarrow>
                   (case map_of (sessions r) i of
                      Some s \<Rightarrow>
                        (case row_runtime_session_id row of
                           Some n \<Rightarrow>
                             if n \<noteq> [] \<and> row_runtime row = Some (runtime s) \<and> native_id s \<noteq> n
                             then (let s' = s\<lparr>native_id := n\<rparr>
                                   in insert_session s'
                                        (r\<lparr>sessions := map (\<lambda>(k, known).
                                            (k, if s_id known = s_id s' then s' else known)) (sessions r)\<rparr>))
                             else r
                         | None \<Rightarrow> r)
                    | None \<Rightarrow>
                        insert_session
                          \<lparr>s_id = i, native_id = or_empty (row_runtime_session_id row), source = None,
                           runtime = or_empty (row_runtime row), cwd = project_cwd r (row_project_id row),
                           s_project = row_project_id row\<rparr> r))"

definition observe_local :: "LocalRow \<Rightarrow> Resources \<Rightarrow> Resources" where
  "observe_local row r =
     (case (lr_runtime_session_id row, lr_runtime row, lr_cwd row) of
        (Some i, Some rt, Some c) \<Rightarrow>
          if map_of (sessions r) i \<noteq> None then r
          else insert_session
                 \<lparr>s_id = i, native_id = i, source = None, runtime = rt, cwd = c,
                  s_project = project_for_path (projects r) c\<rparr> r
      | _ \<Rightarrow> r)"

definition observe_catalog_row :: "CatalogRow \<Rightarrow> Resources \<Rightarrow> Resources" where
  "observe_catalog_row row r =
     (case catalog_session r row of Some s \<Rightarrow> insert_session s r | None \<Rightarrow> r)"

definition observe :: "string \<Rightarrow> Answer \<Rightarrow> Resources \<Rightarrow> Resources" where
  "observe method a r =
     (let r = (if method = ''project.bind'' then observe_project (a_project a) r else r);
          r = (if method = ''workspace.list''
               then fold (\<lambda>ws r. if ws_workspace_id ws = Some WORKSPACE
                                  then fold observe_project (list_or_nil (ws_projects ws)) r else r)
                      (list_or_nil (a_workspaces a)) (r\<lparr>projects := []\<rparr>)
               else r);
          r = (if method = ''session.catalog.list''
               then fold observe_catalog_row (list_or_nil (a_rows a)) r else r);
          r = (if method = ''session.list''
               then fold observe_local (list_or_nil (a_local a))
                      (fold observe_session (list_or_nil (a_sessions a)) r)
               else r)
      in if method \<in> {''session.start'', ''session.resume'', ''session.share'', ''session.watch'',
                        ''session.subscribe''}
         then observe_session (a_session a) r else r)"

section \<open>Filtering answers\<close>

definition coverage_status :: "Answer \<Rightarrow> string" where
  "coverage_status a =
     (case a_coverage a of
        Some (s # ss) \<Rightarrow>
          if list_ex (\<lambda>x. st_status x \<notin> {Some ''ready'', Some ''scanning''}) (s # ss) then ''unavailable''
          else if list_ex (\<lambda>x. st_status x = Some ''scanning'') (s # ss) then ''scanning''
          else ''ready''
      | _ \<Rightarrow> if a_complete a then ''ready'' else ''unavailable'')"

definition readable :: "(string \<Rightarrow> string) \<Rightarrow> Policy \<Rightarrow> Principal \<Rightarrow> Session option \<Rightarrow> bool" where
  "readable hex p who s = (case s of Some s \<Rightarrow> can_read (session_access hex s p who) | None \<Rightarrow> False)"

definition filter_catalog ::
  "(string \<Rightarrow> string) \<Rightarrow> Resources \<Rightarrow> Policy \<Rightarrow> Principal \<Rightarrow> Answer \<Rightarrow> Answer" where
  "filter_catalog hex r p who a =
     (let a = a\<lparr>a_coverage_status := Some (coverage_status a),
                a_rows := map_option (filter (\<lambda>row. readable hex p who (catalog_session r row))) (a_rows a)\<rparr>
      in if is_admin (policy_access p who None None) then a
         else (let visible = concat (map (\<lambda>row. case cr_source_id row of Some i \<Rightarrow> [i] | None \<Rightarrow> [])
                               (list_or_nil (a_rows a)))
               in a\<lparr>a_coverage := map_option
                     (filter (\<lambda>st. case st_source_id st of Some i \<Rightarrow> i \<in> set visible | None \<Rightarrow> False))
                     (a_coverage a)\<rparr>))"

definition filter_sessions ::
  "(string \<Rightarrow> string) \<Rightarrow> Resources \<Rightarrow> Policy \<Rightarrow> Principal \<Rightarrow> Answer \<Rightarrow> Answer" where
  "filter_sessions hex r p who a =
     (let keep = (\<lambda>i. readable hex p who (Option.bind i (session_of r)))
      in a\<lparr>a_sessions := map_option (filter (\<lambda>row. keep (row_session_id row))) (a_sessions a),
           a_local := map_option (filter (\<lambda>row. keep (lr_runtime_session_id row))) (a_local a)\<rparr>)"

definition project_visible ::
  "(string \<Rightarrow> string) \<Rightarrow> Resources \<Rightarrow> Policy \<Rightarrow> Principal \<Rightarrow> string \<Rightarrow> bool" where
  "project_visible hex r p who i =
     (can_read (policy_access p who None (Some i))
      \<or> list_ex (\<lambda>(_, s). s_project s = Some i \<and> can_read (session_access hex s p who))
          (sessions r @ catalog r))"

definition filter_workspaces ::
  "(string \<Rightarrow> string) \<Rightarrow> Resources \<Rightarrow> Policy \<Rightarrow> Principal \<Rightarrow> Answer \<Rightarrow> Answer" where
  "filter_workspaces hex r p who a =
     (let keep = (\<lambda>row. case pr_project_id row of Some i \<Rightarrow> project_visible hex r p who i | None \<Rightarrow> False);
          trim_ws = (\<lambda>ws. ws\<lparr>ws_projects := map_option (filter keep) (ws_projects ws)\<rparr>);
          nonempty = (\<lambda>ws. case ws_projects ws of Some (_ # _) \<Rightarrow> True | _ \<Rightarrow> False)
      in a\<lparr>a_workspaces := map_option (\<lambda>wss. filter nonempty (map trim_ws wss)) (a_workspaces a)\<rparr>)"

definition filter_answer ::
  "(string \<Rightarrow> string) \<Rightarrow> Resources \<Rightarrow> string \<Rightarrow> Policy \<Rightarrow> Principal \<Rightarrow> Answer \<Rightarrow> Answer" where
  "filter_answer hex r method p who a =
     (let a = (if method = ''session.catalog.list'' then filter_catalog hex r p who a else a);
          a = (if method = ''session.list'' then filter_sessions hex r p who a else a)
      in if method = ''workspace.list'' then filter_workspaces hex r p who a else a)"

section \<open>Explicit rules\<close>

lemma session_access_deny:
  assumes "r \<in> set (rules p)" and "principal r = who" and "resource r = SessionRes i"
    and "i \<in> set (aliases hex s)" and "access r = Deny"
  shows "session_access hex s p who = Deny"
  using assms by (auto simp: session_access_def Let_def list_ex_iff)

text \<open>Some rule for the principal on the session, its project or the machine gives that access.\<close>

definition session_rule ::
  "(string \<Rightarrow> string) \<Rightarrow> Policy \<Rightarrow> Principal \<Rightarrow> Session \<Rightarrow> Access \<Rightarrow> bool" where
  "session_rule hex p who s a \<longleftrightarrow>
     (\<exists>r \<in> set (rules p). principal r = who \<and> access r = a
        \<and> resource r \<in> {Machine} \<union> SessionRes ` set (aliases hex s) \<union> Project ` set_option (s_project s))"

lemma first_alias_rule:
  assumes "find (\<lambda>m. m \<noteq> None) (map (\<lambda>a. find (\<lambda>r. resource r = SessionRes a) rs) names) = Some (Some r)"
  shows "r \<in> set rs \<and> (\<exists>a \<in> set names. resource r = SessionRes a)"
proof -
  from find_SomeD [OF assms] obtain a where "a \<in> set names"
    and "find (\<lambda>r. resource r = SessionRes a) rs = Some r" by auto
  from find_SomeD [OF this(2)] this(1) show ?thesis by auto
qed

interpretation session_policy: deny_by_default "\<lambda>p who s. session_access hex s p who" "session_rule hex"
  for hex
proof
  fix p who s a
  assume a: "session_access hex s p who = a"
  let ?ex = "filter (\<lambda>r. case resource r of SessionRes i \<Rightarrow> i \<in> set (aliases hex s) | _ \<Rightarrow> False)
    (filter (\<lambda>r. principal r = who) (rules p))"
  let ?first = "find (\<lambda>m. m \<noteq> None) (map (\<lambda>a. find (\<lambda>r. resource r = SessionRes a) ?ex) (aliases hex s))"
  show "a = Deny \<or> session_rule hex p who s a"
  proof (cases "\<exists>r. ?first = Some (Some r)")
    case True
    then obtain r where r: "?first = Some (Some r)" by blast
    from first_alias_rule [OF r] have "session_rule hex p who s (access r)"
      unfolding session_rule_def by (intro bexI [of _ r]) auto
    with a r show ?thesis by (auto simp: session_access_def Let_def split: if_splits)
  next
    case False
    then have "a = Deny \<or> a = policy_access p who (Some (s_id s)) (s_project s)"
      using a by (auto simp: session_access_def Let_def split: if_splits option.splits)
    moreover have "SessionRes (s_id s) \<in> SessionRes ` set (aliases hex s)" by (simp add: aliases_def)
    ultimately show ?thesis
      using policy_access_cases [of p who "Some (s_id s)" "s_project s" a]
      unfolding session_rule_def rule_applies_def by fastforce
  qed
qed


definition sample_session :: Session where
  "sample_session = \<lparr>s_id = ''hidden'', native_id = ''n'', source = None, runtime = ''codex'',
     cwd = ''/w'', s_project = None\<rparr>"


section \<open>A bounded catalog\<close>

definition catalog_ok :: "Resources \<Rightarrow> bool" where
  "catalog_ok r \<longleftrightarrow>
     distinct (map fst (catalog r)) \<and> distinct (catalog_order r)
     \<and> set (catalog_order r) = set (map fst (catalog r))
     \<and> length (catalog_order r) \<le> CATALOG_CACHE_LIMIT"

lemma catalog_ok_length: "catalog_ok r \<Longrightarrow> length (catalog r) = length (catalog_order r)"
  unfolding catalog_ok_def by (metis distinct_card length_map)

lemma catalog_ok_cong:
  "catalog r' = catalog r \<Longrightarrow> catalog_order r' = catalog_order r \<Longrightarrow> catalog_ok r \<Longrightarrow> catalog_ok r'"
  by (simp add: catalog_ok_def)

lemma map_of_None_key: "map_of al k = None \<longleftrightarrow> k \<notin> set (map fst al)"
  by (simp add: map_of_eq_None_iff)

lemma keys_delete: "fst ` set (AList.delete k al) = fst ` set al - {k}"
  using arg_cong [OF delete_keys [of k al], of set] by simp

lemma insert_session_catalog_ok:
  assumes "catalog_ok r"
  shows "catalog_ok (insert_session s r)"
proof (cases "source s = None")
  case True
  then show ?thesis
    using assms by (auto simp: insert_session_def Let_def intro: catalog_ok_cong)
next
  case src: False
  show ?thesis
  proof (cases "map_of (catalog r) (s_id s) = None")
    case False
    then have "s_id s \<in> set (map fst (catalog r))" by (simp add: map_of_None_key del: set_map)
    then show ?thesis
      using src False assms
      by (auto simp: insert_session_def catalog_ok_def Let_def distinct_update dom_update)
  next
    case new: True
    then have out: "s_id s \<notin> set (map fst (catalog r))" by (simp add: map_of_None_key del: set_map)
    show ?thesis
    proof (cases "length (catalog r) \<ge> CATALOG_CACHE_LIMIT")
      case True
      with catalog_ok_length [OF assms] obtain x rest where ord: "catalog_order r = x # rest"
        by (cases "catalog_order r") (auto simp: CATALOG_CACHE_LIMIT_def)
      have "insert_session s r = r\<lparr>catalog_order := rest @ [s_id s],
          catalog := AList.update (s_id s) s (AList.delete x (catalog r))\<rparr>"
        using src new True ord by (simp add: insert_session_def Let_def)
      then show ?thesis
        using assms out ord
        by (auto simp: catalog_ok_def distinct_update distinct_delete dom_update keys_delete)
    next
      case False
      then have "insert_session s r = r\<lparr>catalog_order := catalog_order r @ [s_id s],
          catalog := AList.update (s_id s) s (catalog r)\<rparr>"
        using src new by (simp add: insert_session_def Let_def)
      then show ?thesis
        using assms out False catalog_ok_length [OF assms]
        by (auto simp: catalog_ok_def distinct_update dom_update)
    qed
  qed
qed

text \<open>Every operation on the resources.\<close>

datatype rop =
    Refresh Resources
  | Observe string Answer
  | Resumed Session SessionRow
  | WatchAlias string
  | ResolveCatalog string "CatalogRow option"
  | PinController Session

fun apply_rop :: "rop \<Rightarrow> Resources \<Rightarrow> Resources" where
  "apply_rop (Refresh current) r = refresh current r"
| "apply_rop (Observe method a) r = observe method a r"
| "apply_rop (Resumed src row) r = resumed src row r"
| "apply_rop (WatchAlias i) r = watch_alias i r"
| "apply_rop (ResolveCatalog i found) r =
     (case resolve_catalog_with i (\<lambda>_. Inr found :: unit + CatalogRow option) r of
        Inr (_, r') \<Rightarrow> r' | Inl _ \<Rightarrow> r)"
| "apply_rop (PinController s) r = (case pin_controller_source s r of Inr r' \<Rightarrow> r' | Inl _ \<Rightarrow> r)"

inductive rreach :: "Resources \<Rightarrow> bool" where
  rr_start: "rreach no_resources"
| rr_step: "rreach r \<Longrightarrow> rreach (apply_rop op r)"

lemma fold_catalog_ok:
  "(\<And>x r. catalog_ok r \<Longrightarrow> catalog_ok (f x r)) \<Longrightarrow> catalog_ok r \<Longrightarrow> catalog_ok (fold f xs r)"
  by (induction xs arbitrary: r) simp_all

lemma insert_managed_catalog_ok: "catalog_ok r \<Longrightarrow> catalog_ok (insert_managed s r)"
  by (auto simp: insert_managed_def intro: insert_session_catalog_ok catalog_ok_cong)

lemma observe_project_catalog_ok: "catalog_ok r \<Longrightarrow> catalog_ok (observe_project row r)"
  by (auto simp: observe_project_def split: option.splits intro: catalog_ok_cong)

lemma observe_local_catalog_ok: "catalog_ok r \<Longrightarrow> catalog_ok (observe_local row r)"
  by (auto simp: observe_local_def split: option.splits intro: insert_session_catalog_ok)

lemma observe_catalog_row_ok: "catalog_ok r \<Longrightarrow> catalog_ok (observe_catalog_row row r)"
  by (auto simp: observe_catalog_row_def split: option.splits intro: insert_session_catalog_ok)

lemma sessions_catalog_ok [simp]: "catalog_ok (r\<lparr>sessions := ss\<rparr>) = catalog_ok r"
  "catalog_ok (r\<lparr>projects := ps\<rparr>) = catalog_ok r"
  by (simp_all add: catalog_ok_def)

lemma observe_session_catalog_ok: "catalog_ok r \<Longrightarrow> catalog_ok (observe_session row r)"
  by (auto simp: observe_session_def Let_def insert_session_catalog_ok insert_managed_catalog_ok
      split: option.splits sum.splits)

lemma observe_catalog_ok: "catalog_ok r \<Longrightarrow> catalog_ok (observe method a r)"
  unfolding observe_def Let_def
  by (auto intro!: fold_catalog_ok observe_project_catalog_ok observe_local_catalog_ok
      observe_catalog_row_ok observe_session_catalog_ok split: if_splits)

lemma refresh_catalog_ok: "catalog_ok r \<Longrightarrow> catalog_ok (refresh current r)"
  by (simp add: catalog_ok_def refresh_def Let_def comp_def split_def)

lemma apply_rop_catalog_ok: "catalog_ok r \<Longrightarrow> catalog_ok (apply_rop op r)"
  by (cases op)
    (auto simp: refresh_catalog_ok observe_catalog_ok resumed_def watch_alias_def
      resolve_catalog_with_def pin_controller_source_def Let_def insert_managed_catalog_ok
      insert_session_catalog_ok split: option.splits intro: catalog_ok_cong)

text \<open>
  The catalog stays bounded and its eviction queue stays exact. After any sequence of
  observed answers, refreshes, resumed and watched sessions, catalog lookups and pins, the catalog
  holds at most its limit of conversations, and the queue names each of them exactly once.
\<close>

theorem catalog_bounded:
  assumes "rreach r"
  shows "length (catalog r) \<le> CATALOG_CACHE_LIMIT
    \<and> distinct (catalog_order r) \<and> set (catalog_order r) = set (map fst (catalog r))"
proof -
  have "catalog_ok r"
    using assms
  proof (induction rule: rreach.induct)
    case rr_start
    then show ?case by (simp add: catalog_ok_def no_resources_def)
  qed (rule apply_rop_catalog_ok)
  with catalog_ok_length [OF this] show ?thesis by (simp add: catalog_ok_def)
qed

definition sample_row :: CatalogRow where
  "sample_row = \<lparr>cr_cwd = Some ''/w'', cr_session_ref = Some ''local-a'', cr_native_session_id = Some ''n'',
     cr_runtime = Some ''codex'', cr_source_id = Some ''src'', cr_source_generation = Some 1\<rparr>"

definition empty_answer :: Answer where
  "empty_answer = \<lparr>a_project = \<lparr>pr_project_id = None, pr_local_path = None\<rparr>, a_workspaces = None,
     a_rows = None, a_coverage = None, a_coverage_status = None, a_complete = False,
     a_sessions = None, a_local = None,
     a_session = \<lparr>row_workspace_id = None, row_session_id = None, row_native_source = None,
       row_project_id = None, row_runtime_session_id = None, row_runtime = None\<rparr>\<rparr>"

definition sample_resources :: Resources where
  "sample_resources =
     apply_rop (Observe ''session.catalog.list'' (empty_answer\<lparr>a_rows := Some [sample_row]\<rparr>)) no_resources"

theorem catalog_bounded_witness:
  "catalog_order sample_resources = [''local-a''] \<and> length (catalog sample_resources) \<le> CATALOG_CACHE_LIMIT"
proof -
  have "rreach sample_resources" unfolding sample_resources_def by (rule rr_step [OF rr_start])
  moreover have "catalog_order sample_resources = [''local-a'']"
    by (simp add: sample_resources_def observe_def empty_answer_def sample_row_def list_or_nil_def
        observe_catalog_row_def catalog_session_def insert_session_def no_resources_def
        CATALOG_CACHE_LIMIT_def)
  ultimately show ?thesis using catalog_bounded by blast
qed

end
