(* ===== verification/CloudAccess.thy ===== *)
theory CloudAccess
  imports CloudResources
begin

text \<open>
  Admission of a cloud request (\<open>src/rc/cloud/access.rs\<close>): the permit a request is given, the access
  ceiling a controller may set on itself, the selection of target and need per method, the
  identity of a source conversation bound to the request by the executor, and the filtering of
  the response. Request parameters are a record of the fields the code reads and writes. The
  UUID parser and printer and the digest behind a launch key are parameters (\<open>ext\<close>), as is the
  runtime catalog.

  The theorems: a ceiling only lowers access, an admitted request has the access its method needs
  under executor policy, a source conversation is addressed by the executor's record and not by
  the caller's parameters, and \<open>session.close\<close> tells a caller who may not close nothing about which
  sessions exist.
\<close>

section \<open>Requests\<close>

record Params =
  p_workspace_id :: "string option"
  p_session_id :: "string option"
  p_project_id :: "string option"
  p_start_id :: "string option"
  p_resolve_session :: "string option"
  p_access_ceiling :: "(unit + Access) option"  \<comment> \<open>\<open>Inl\<close>: present but no access level\<close>
  p_source_id :: "string option"
  p_source_generation :: "u64 option"
  p_native_session_id :: "string option"
  p_expected_cwd :: "string option"
  p_cwd :: "string option"
  p_runtime :: "string option"

definition empty_params :: Params where
  "empty_params = \<lparr>p_workspace_id = None, p_session_id = None, p_project_id = None, p_start_id = None,
     p_resolve_session = None, p_access_ceiling = None, p_source_id = None, p_source_generation = None,
     p_native_session_id = None, p_expected_cwd = None, p_cwd = None, p_runtime = None\<rparr>"

record RequestFrame =
  has_id :: bool
  f_method :: "string option"
  has_result :: bool
  has_error :: bool
  has_caller :: bool
  has_stream :: bool
  has_seq :: bool
  f_params :: "Params option"

datatype rpc_error =
    Denied | Malformed | OtherWorkspace | BadCeiling | SourceUnavailable | NotRunningToClose
  | UnknownSession | NeedsAttachment | RefreshCatalog | BadStartId

definition validate_request :: "RequestFrame \<Rightarrow> rpc_error + unit" where
  "validate_request f =
     (if \<not> has_id f \<or> f_method f = None \<or> has_result f \<or> has_error f \<or> has_caller f \<or> has_stream f
         \<or> has_seq f
      then Inl Malformed
      else if (case Option.bind (f_params f) p_workspace_id of Some w \<Rightarrow> w \<noteq> WORKSPACE | None \<Rightarrow> False)
      then Inl OtherWorkspace else Inr ())"

section \<open>Permits\<close>

datatype Need = NRead | NControl | NAdmin

datatype Target = TCatalog | TMachine | TProject string | TSession Session

record Permit =
  p_method :: string
  target :: Target
  need :: Need
  ceiling :: Access
  start_id :: "string option"
  resolve_session :: "string option"

definition target_access :: "(string \<Rightarrow> string) \<Rightarrow> Target \<Rightarrow> Policy \<Rightarrow> Principal \<Rightarrow> Access" where
  "target_access hex t p who =
     (case t of
        TCatalog \<Rightarrow> if is_admin (policy_access p who None None) then Admin else Read
      | TMachine \<Rightarrow> policy_access p who None None
      | TProject pr \<Rightarrow> policy_access p who None (Some pr)
      | TSession s \<Rightarrow> session_access hex s p who)"

definition narrow :: "Access \<Rightarrow> Access \<Rightarrow> Access" where
  "narrow a c =
     (case (a, c) of
        (Deny, _) \<Rightarrow> Deny
      | (_, Deny) \<Rightarrow> Deny
      | (Read, _) \<Rightarrow> Read
      | (_, Read) \<Rightarrow> Read
      | (Control, _) \<Rightarrow> Control
      | (_, Control) \<Rightarrow> Control
      | _ \<Rightarrow> Admin)"

definition permit_access :: "(string \<Rightarrow> string) \<Rightarrow> Permit \<Rightarrow> Policy \<Rightarrow> Principal \<Rightarrow> Access" where
  "permit_access hex pm p who = narrow (target_access hex (target pm) p who) (ceiling pm)"

fun meets :: "Need \<Rightarrow> Access \<Rightarrow> bool" where
  "meets NRead a = can_read a"
| "meets NControl a = can_control a"
| "meets NAdmin a = is_admin a"

definition allowed :: "(string \<Rightarrow> string) \<Rightarrow> Permit \<Rightarrow> Policy \<Rightarrow> Principal \<Rightarrow> bool" where
  "allowed hex pm p who = meets (need pm) (permit_access hex pm p who)"

text \<open>The permit against the session as the executor now knows it.\<close>

definition current_permit :: "Resources \<Rightarrow> Permit \<Rightarrow> Permit option" where
  "current_permit r pm =
     (case target pm of
        TSession s \<Rightarrow> map_option (\<lambda>s'. pm\<lparr>target := TSession s'\<rparr>) (session_of r (s_id s))
      | _ \<Rightarrow> Some pm)"

definition authority_matches ::
  "(string \<Rightarrow> string) \<Rightarrow> Permit \<Rightarrow> Resources \<Rightarrow> Policy \<Rightarrow> Principal \<Rightarrow> string \<Rightarrow> bool" where
  "authority_matches hex pm r p who rl =
     (case current_permit r pm of
        None \<Rightarrow> False
      | Some c \<Rightarrow> allowed hex c p who \<and> role (permit_access hex c p who) = rl)"

definition permit_observe :: "Permit \<Rightarrow> Answer \<Rightarrow> Resources \<Rightarrow> Resources" where
  "permit_observe pm a r =
     (let r = (if p_method pm = ''session.resume''
               then (case target pm of TSession s \<Rightarrow> resumed s (a_session a) r | _ \<Rightarrow> r) else r)
      in observe (p_method pm) a r)"

record Response =
  answer :: Answer
  resolved_session :: "Session option option"  \<comment> \<open>\<open>Some None\<close>: the field is null\<close>
  answered_start_id :: "string option"

definition response ::
  "(string \<Rightarrow> string) \<Rightarrow> Permit \<Rightarrow> Answer option \<Rightarrow> Resources \<Rightarrow> Policy \<Rightarrow> Principal
    \<Rightarrow> rpc_error + Response option" where
  "response hex pm res r p who =
     (case current_permit r pm of
        None \<Rightarrow> Inl Denied
      | Some c \<Rightarrow>
          if \<not> allowed hex c p who then Inl Denied
          else case res of
                 None \<Rightarrow> Inr None
               | Some a \<Rightarrow>
                   if (case row_session_id (a_session a) of
                         Some i \<Rightarrow> \<not> readable hex p who (session_of r i) | None \<Rightarrow> False)
                   then Inl Denied
                   else Inr (Some
                     \<lparr>answer = filter_answer hex r (p_method pm) p who a,
                      resolved_session = map_option
                        (\<lambda>i. case session_of r i of
                               Some s \<Rightarrow> if native_id s \<noteq> [] \<and> can_read (session_access hex s p who)
                                          then Some s else None
                             | None \<Rightarrow> None) (resolve_session pm),
                      answered_start_id = start_id pm\<rparr>))"

section \<open>Methods\<close>

definition catalog_methods :: "string list" where
  "catalog_methods = [''machine.describe'', ''workspace.list'', ''session.list'', ''session.catalog.list'']"

definition session_methods :: "string list" where
  "session_methods =
     [''session.catalog.settings'', ''session.history'', ''session.goal.read'',
      ''session.publication.deliver'', ''session.subscribe'', ''session.watch'', ''session.unwatch'',
      ''session.commands'', ''session.model'', ''session.permissions'', ''session.approvals'',
      ''session.resume'', ''session.enqueue'', ''turn.start'', ''turn.steer'', ''turn.interrupt'',
      ''session.stop'', ''session.close'', ''approval.decide'', ''session.command'',
      ''session.setModel'', ''session.setPermissionMode'']"

definition source_methods :: "string list" where
  "source_methods =
     [''session.catalog.settings'', ''session.publication.deliver'', ''session.goal.read'',
      ''session.resume'', ''session.watch'', ''session.unwatch'', ''session.history'',
      ''session.enqueue'']"

definition managed_methods :: "string list" where
  "managed_methods =
     [''session.history'', ''session.subscribe'', ''session.model'', ''session.permissions'',
      ''session.approvals'', ''session.commands'', ''session.command'', ''session.enqueue'',
      ''turn.start'', ''turn.steer'', ''session.setModel'', ''session.setPermissionMode'',
      ''approval.decide'', ''turn.interrupt'', ''session.stop'', ''session.close'']"

definition read_methods :: "string list" where
  "read_methods =
     [''session.history'', ''session.goal.read'', ''session.subscribe'', ''session.watch'',
      ''session.unwatch'', ''session.commands'', ''session.model'', ''session.permissions'',
      ''session.approvals'', ''session.catalog.settings'']"

definition machine_methods :: "string list" where
  "machine_methods =
     [''fs.readDirectory'', ''fs.readFile'', ''project.bind'', ''project.publication.bind'',
      ''project.unbind'', ''terminal.open'', ''terminal.input'', ''terminal.resize'', ''terminal.close'']"

definition session_need :: "string \<Rightarrow> Need" where
  "session_need method =
     (if method \<in> {''session.command'', ''session.close''} then NAdmin
      else if method \<in> set read_methods then NRead
      else NControl)"

section \<open>Admission\<close>

record ext =
  uuid_parse :: "string \<Rightarrow> string option"           \<comment> \<open>\<open>Uuid::parse_str\<close>, printed again\<close>
  uuid_bytes :: "8 word list \<Rightarrow> string"             \<comment> \<open>\<open>Uuid::from_bytes\<close>, printed\<close>
  launch_digest :: "Principal \<Rightarrow> string \<Rightarrow> 8 word list" \<comment> \<open>SHA-256 of the JSON key\<close>
  ext_hex :: "string \<Rightarrow> string"                     \<comment> \<open>SHA-256 in hex\<close>

definition launch_bytes :: "8 word list \<Rightarrow> 8 word list" where
  "launch_bytes digest =
     (let b = take 16 digest;
          b = b[6 := or (and (b ! 6) 0x0f) 0x80]
      in b[8 := or (and (b ! 8) 0x3f) 0x80])"

definition launch_key :: "ext \<Rightarrow> Principal \<Rightarrow> string \<Rightarrow> string" where
  "launch_key e who i = uuid_bytes e (launch_bytes (launch_digest e who i))"

type_synonym lookup = "string \<Rightarrow> unit + CatalogRow option"

definition resolve_for ::
  "string \<Rightarrow> string \<Rightarrow> lookup \<Rightarrow> Resources \<Rightarrow> (rpc_error + Session option) \<times> Resources" where
  "resolve_for method i lookup r =
     (if method \<in> set source_methods
      then (case resolve_catalog_with i lookup r of
              Inl _ \<Rightarrow> (Inl SourceUnavailable, r)
            | Inr (s, r') \<Rightarrow> (Inr s, r'))
      else (Inr (session_of r i), r))"

definition close_check ::
  "(string \<Rightarrow> string) \<Rightarrow> string \<Rightarrow> Session option \<Rightarrow> Access \<Rightarrow> Policy \<Rightarrow> Principal \<Rightarrow> rpc_error + unit" where
  "close_check hex method resolved ceil p who =
     (if method = ''session.close''
      then
        (let owner = \<lparr>p_method = method,
                      target = (case resolved of Some s \<Rightarrow> TSession s | None \<Rightarrow> TMachine),
                      need = NAdmin, ceiling = ceil, start_id = None, resolve_session = None\<rparr>
         in if \<not> allowed hex owner p who then Inl Denied
            else if resolved = None then Inl NotRunningToClose else Inr ())
      else Inr ())"

definition bind_source ::
  "(string \<Rightarrow> string) \<Rightarrow> string \<Rightarrow> string \<Rightarrow> Session \<Rightarrow> Params \<Rightarrow> rpc_error + Params" where
  "bind_source hex method i s ps =
     (case source s of
        Some src \<Rightarrow>
          (let managed_operation = (prefix ''agit-'' (s_id s) \<and> method \<in> set managed_methods);
               watch_read = (i = watch_stream_id WORKSPACE (session_ref hex src (native_id s))
                             \<and> method = ''session.subscribe'')
           in if method \<notin> set source_methods \<and> \<not> managed_operation \<and> \<not> watch_read
              then Inl NeedsAttachment
              else if method = ''session.publication.deliver''
              then Inr (ps\<lparr>p_source_id := None, p_source_generation := None,
                           p_native_session_id := None, p_expected_cwd := None\<rparr>)
              else Inr (ps\<lparr>p_source_id := Some (source_id src), p_source_generation := Some (generation src),
                           p_native_session_id := Some (native_id s), p_expected_cwd := Some (cwd s)\<rparr>))
      | None \<Rightarrow> if method = ''session.catalog.settings'' then Inl RefreshCatalog else Inr ps)"

type_synonym selection = "Target \<times> Need \<times> Params \<times> string option"

definition select_session ::
  "(string \<Rightarrow> string) \<Rightarrow> string \<Rightarrow> Access \<Rightarrow> lookup \<Rightarrow> Policy \<Rightarrow> Principal \<Rightarrow> Params \<Rightarrow> Resources
    \<Rightarrow> (rpc_error + selection) \<times> Resources" where
  "select_session hex method ceil lookup p who ps r =
     (case p_session_id ps of
        None \<Rightarrow> (Inl Denied, r)
      | Some i \<Rightarrow>
          (let (found, r) = resolve_for method i lookup r
           in case r_bind found (\<lambda>resolved.
                   r_bind (close_check hex method resolved ceil p who) (\<lambda>_.
                   r_bind (ok_or resolved UnknownSession) (\<lambda>s.
                   r_bind (bind_source hex method i s ps) (\<lambda>ps. Inr (s, ps))))) of
                Inl e \<Rightarrow> (Inl e, r)
              | Inr (s, ps) \<Rightarrow>
                  (let ps = (if method \<in> {''session.history'', ''session.goal.read''}
                             then ps\<lparr>p_cwd := Some (cwd s), p_runtime := Some (runtime s)\<rparr> else ps)
                   in (Inr (TSession s, session_need method, ps, None),
                       if method = ''session.watch'' then watch_alias i r else r))))"

definition select_start ::
  "ext \<Rightarrow> Principal \<Rightarrow> Resources \<Rightarrow> Params \<Rightarrow> rpc_error + selection" where
  "select_start e who r ps =
     r_bind (ok_or (p_project_id ps) Denied) (\<lambda>pr.
     r_bind (ensure (map_of (projects r) pr \<noteq> None) Denied) (\<lambda>_.
       case p_start_id ps of
         None \<Rightarrow> Inr (TProject pr, NControl, ps, None)
       | Some i \<Rightarrow>
           r_bind (ok_or (uuid_parse e i) BadStartId) (\<lambda>u.
             Inr (TProject pr, NControl, ps\<lparr>p_start_id := Some (launch_key e who u)\<rparr>, Some u))))"

definition select ::
  "ext \<Rightarrow> string \<Rightarrow> Access \<Rightarrow> lookup \<Rightarrow> Policy \<Rightarrow> Principal \<Rightarrow> Params \<Rightarrow> Resources
    \<Rightarrow> (rpc_error + selection) \<times> Resources" where
  "select e method ceil lookup p who ps r =
     (if method \<in> set catalog_methods then (Inr (TCatalog, NRead, ps, None), r)
      else if method \<in> set session_methods then select_session (ext_hex e) method ceil lookup p who ps r
      else if method = ''session.share''
      then (r_bind (ok_or (p_project_id ps) Denied) (\<lambda>pr.
              r_bind (ensure (map_of (projects r) pr \<noteq> None) Denied) (\<lambda>_.
                Inr (TProject pr, NAdmin, ps, None))), r)
      else if method = ''session.start'' then (select_start e who r ps, r)
      else if method = ''runtime.models''
      then (case p_project_id ps of
              Some pr \<Rightarrow> (r_bind (ok_or (map_of (projects r) pr) Denied) (\<lambda>path.
                            Inr (TProject pr, NRead, ps\<lparr>p_cwd := Some path\<rparr>, None)), r)
            | None \<Rightarrow> (Inr (TMachine, NAdmin, ps, None), r))
      else if method \<in> set machine_methods then (Inr (TMachine, NAdmin, ps, None), r)
      else (Inl Denied, r))"

record CallerClaim =
  claim_account :: Principal
  claim_role :: string
  claim_workspace :: string

definition requested_ceiling :: "Params \<Rightarrow> rpc_error + Access" where
  "requested_ceiling ps =
     (case p_access_ceiling ps of
        None \<Rightarrow> Inr Admin
      | Some (Inl _) \<Rightarrow> Inl BadCeiling
      | Some (Inr a) \<Rightarrow> Inr a)"

text \<open>
  The admitted request is its rewritten parameters and the caller claim. The resources are
  returned on every path, because a catalog lookup is remembered even when the request is refused.
\<close>

definition authorize ::
  "ext \<Rightarrow> lookup \<Rightarrow> RequestFrame \<Rightarrow> Principal \<Rightarrow> Policy \<Rightarrow> Resources
    \<Rightarrow> (rpc_error + Params \<times> CallerClaim \<times> Permit) \<times> Resources" where
  "authorize e lookup f who p r =
     (case validate_request f of
        Inl er \<Rightarrow> (Inl er, r)
      | Inr _ \<Rightarrow>
          (let method = (case f_method f of Some m \<Rightarrow> m | None \<Rightarrow> []);
               ps = (case f_params f of Some ps \<Rightarrow> ps | None \<Rightarrow> empty_params);
               rs = (if method = ''session.list'' then p_resolve_session ps else None)
           in case requested_ceiling ps of
                Inl er \<Rightarrow> (Inl er, r)
              | Inr ceil \<Rightarrow>
                  (let (sel, r') = select e method ceil lookup p who (ps\<lparr>p_access_ceiling := None\<rparr>) r
                   in (r_bind sel (\<lambda>(t, n, ps, sid).
                         let pm = \<lparr>p_method = method, target = t, need = n, ceiling = ceil,
                                   start_id = sid, resolve_session = rs\<rparr>
                         in if \<not> allowed (ext_hex e) pm p who then Inl Denied
                            else Inr (ps,
                              \<lparr>claim_account = who, claim_role = role (permit_access (ext_hex e) pm p who),
                               claim_workspace = WORKSPACE\<rparr>, pm)), r'))))"

definition event_allowed ::
  "(string \<Rightarrow> string) \<Rightarrow> string \<Rightarrow> string option \<Rightarrow> Resources \<Rightarrow> Policy \<Rightarrow> Principal \<Rightarrow> bool" where
  "event_allowed hex method stream r p who =
     (if method \<in> {''terminal.output'', ''terminal.exited''}
      then is_admin (policy_access p who None None)
      else readable hex p who (Option.bind stream (session_of r)))"

section \<open>Ceilings\<close>

lemma narrow_min: "narrow a c = min a c"
  by (cases a; cases c) (simp_all add: narrow_def min_def less_eq_Access_def)

lemma narrow_admin: "is_admin (narrow a c) \<longleftrightarrow> is_admin a \<and> is_admin c"
  by (cases a; cases c) (simp_all add: narrow_def is_admin_def)

text \<open>
  A controller can narrow its own authority, never widen executor policy. The access of a
  permit is the lower of the policy's answer for its target and the requested ceiling, so a
  request allowed under a ceiling is allowed without it, and what a permit gives never exceeds
  either.
\<close>

theorem ceiling_only_narrows:
  "permit_access hex pm p who = min (target_access hex (target pm) p who) (ceiling pm)
   \<and> (\<not> allowed hex pm p who \<or> (meets (need pm) (target_access hex (target pm) p who)
        \<and> meets (need pm) (ceiling pm) \<and> allowed hex (pm\<lparr>ceiling := Admin\<rparr>) p who))"
proof -
  have mono: "meets n a \<Longrightarrow> a \<le> b \<Longrightarrow> meets n b" for n a b
    by (cases n) (auto intro: levels_mono)
  have "min x Admin = x" for x by (simp add: min_def access_levels)
  then show ?thesis
    using mono by (auto simp: permit_access_def allowed_def narrow_min)
qed

definition capped_permit :: Permit where
  "capped_permit = \<lparr>p_method = ''fs.readFile'', target = TMachine, need = NAdmin, ceiling = Read,
     start_id = None, resolve_session = None\<rparr>"

theorem ceiling_only_narrows_witness:
  "permit_access id capped_permit sample_policy alice = Read \<and> \<not> allowed id capped_permit sample_policy alice"
proof -
  have "target_access id TMachine sample_policy alice = Admin" by code_simp
  then have "permit_access id capped_permit sample_policy alice = Read"
    using ceiling_only_narrows [of id capped_permit sample_policy alice]
    by (simp add: capped_permit_def min_def less_eq_Access_def)
  moreover have "\<not> meets (need capped_permit) (ceiling capped_permit)" by code_simp
  ultimately show ?thesis
    using ceiling_only_narrows [of id capped_permit sample_policy alice] by blast
qed

section \<open>Admission is sound\<close>

definition known_methods :: "string list" where
  "known_methods = catalog_methods @ session_methods @ machine_methods
     @ [''session.share'', ''session.start'', ''runtime.models'']"

text \<open>The least access each method asks for on its target.\<close>

definition required_access :: "string \<Rightarrow> Access" where
  "required_access m =
     (if m \<in> set machine_methods \<or> m \<in> {''session.share'', ''session.command'', ''session.close''} then Admin
      else if m \<in> set catalog_methods \<or> m \<in> set read_methods \<or> m = ''runtime.models'' then Read
      else Control)"

text \<open>How the lists of methods relate, and what the single methods ask for.\<close>

lemma session_method_lists:
  "m \<in> set session_methods \<Longrightarrow>
     m \<notin> set machine_methods \<and> m \<notin> set catalog_methods \<and> m \<noteq> ''runtime.models'' \<and> m \<noteq> ''session.share''"
proof -
  have "list_all (\<lambda>m. m \<notin> set machine_methods \<and> m \<notin> set catalog_methods \<and> m \<noteq> ''runtime.models''
      \<and> m \<noteq> ''session.share'') session_methods" by code_simp
  then show "m \<in> set session_methods \<Longrightarrow>
     m \<notin> set machine_methods \<and> m \<notin> set catalog_methods \<and> m \<noteq> ''runtime.models'' \<and> m \<noteq> ''session.share''"
    by (simp add: list_all_iff)
qed

lemma required_access_lists:
  "m \<in> set catalog_methods \<Longrightarrow> required_access m = Read"
  "m \<in> set machine_methods \<Longrightarrow> required_access m = Admin"
  "required_access ''session.share'' = Admin" "required_access ''session.start'' = Control"
  "required_access ''runtime.models'' = Read"
proof -
  have "list_all (\<lambda>m. required_access m = Read) catalog_methods" by code_simp
  then show "m \<in> set catalog_methods \<Longrightarrow> required_access m = Read" by (simp add: list_all_iff)
  show "m \<in> set machine_methods \<Longrightarrow> required_access m = Admin" by (simp add: required_access_def)
  show "required_access ''session.share'' = Admin" by (simp add: required_access_def)
qed code_simp+

lemma meets_required:
  "meets (session_need m) a \<Longrightarrow> m \<in> set session_methods \<Longrightarrow> required_access m \<le> a"
  using session_method_lists [of m]
  by (auto simp: session_need_def required_access_def access_levels split: if_splits)

lemma select_session_Inr:
  assumes "select_session hex m ceil lookup p who ps r = (Inr (t, n, ps', sid), r')"
  shows "\<exists>i s. p_session_id ps = Some i \<and> t = TSession s \<and> n = session_need m
    \<and> fst (resolve_for m i lookup r) = Inr (Some s)
    \<and> (\<exists>q. bind_source hex m i s ps = Inr q \<and> p_source_id ps' = p_source_id q
        \<and> p_source_generation ps' = p_source_generation q
        \<and> p_native_session_id ps' = p_native_session_id q \<and> p_expected_cwd ps' = p_expected_cwd q)"
proof -
  obtain i where i: "p_session_id ps = Some i"
    using assms by (auto simp: select_session_def split: option.splits)
  obtain found r1 where f: "resolve_for m i lookup r = (found, r1)" by fastforce
  let ?chain = "r_bind found (\<lambda>resolved. r_bind (close_check hex m resolved ceil p who) (\<lambda>_.
    r_bind (ok_or resolved UnknownSession) (\<lambda>s. r_bind (bind_source hex m i s ps) (\<lambda>ps. Inr (s, ps)))))"
  obtain s q where c: "?chain = Inr (s, q)"
    using assms i f by (cases ?chain) (auto simp: select_session_def)
  then have "found = Inr (Some s)" and "bind_source hex m i s ps = Inr q"
    by (auto simp: r_bind_eq_Inr ok_or_eq)
  moreover have "t = TSession s" and "n = session_need m"
    and "ps' = (if m \<in> {''session.history'', ''session.goal.read''}
           then q\<lparr>p_cwd := Some (cwd s), p_runtime := Some (runtime s)\<rparr> else q)"
    using assms i f c by (simp_all add: select_session_def Let_def)
  ultimately show ?thesis using i f by auto
qed

lemma select_need:
  assumes "select e m ceil lookup p who ps r = (Inr (t, n, ps', sid), r')" and "meets n a"
  shows "m \<in> set known_methods \<and> required_access m \<le> a"
proof (cases "m \<in> set session_methods \<and> m \<notin> set catalog_methods")
  case True
  then have "n = session_need m"
    using assms(1) select_session_Inr [of "ext_hex e" m ceil lookup p who ps r t n ps' sid r']
    by (auto simp: select_def)
  with True assms(2) meets_required show ?thesis by (auto simp: known_methods_def)
next
  case False
  with assms show ?thesis
    by (auto simp: select_def select_start_def r_bind_eq_Inr known_methods_def required_access_lists
        access_levels split: if_splits option.splits intro: order.trans [OF access_levels(5)])
qed

lemma authorize_Inr:
  assumes "authorize e lookup f who p r = (Inr (ps', claim, pm), r')"
  shows "\<exists>m ps ceil t n sid. f_method f = Some m
    \<and> ps = (case f_params f of Some ps \<Rightarrow> ps | None \<Rightarrow> empty_params) \<and> requested_ceiling ps = Inr ceil
    \<and> select e m ceil lookup p who (ps\<lparr>p_access_ceiling := None\<rparr>) r = (Inr (t, n, ps', sid), r')
    \<and> p_method pm = m \<and> target pm = t \<and> need pm = n \<and> ceiling pm = ceil
    \<and> allowed (ext_hex e) pm p who
    \<and> claim = \<lparr>claim_account = who, claim_role = role (permit_access (ext_hex e) pm p who),
               claim_workspace = WORKSPACE\<rparr>"
proof -
  have v: "validate_request f = Inr ()"
    using assms by (auto simp: authorize_def split: sum.splits)
  then obtain m where m: "f_method f = Some m"
    by (auto simp: validate_request_def split: if_splits)
  define ps where "ps = (case f_params f of Some ps \<Rightarrow> ps | None \<Rightarrow> empty_params)"
  obtain ceil where c: "requested_ceiling ps = Inr ceil"
    using assms v m by (auto simp: authorize_def ps_def Let_def split: sum.splits)
  obtain sel r1 where sel: "select e m ceil lookup p who (ps\<lparr>p_access_ceiling := None\<rparr>) r = (sel, r1)"
    by fastforce
  show ?thesis
    using assms v m c sel
    by (auto simp: authorize_def Let_def r_bind_eq_Inr simp flip: ps_def split: if_splits prod.splits)
qed


definition blank_ext :: ext where
  "blank_ext = \<lparr>uuid_parse = Some, uuid_bytes = (\<lambda>_. ''u''), launch_digest = (\<lambda>_ _. replicate 32 0),
     ext_hex = (\<lambda>s. s)\<rparr>"

definition request :: "string \<Rightarrow> Params \<Rightarrow> RequestFrame" where
  "request m ps = \<lparr>has_id = True, f_method = Some m, has_result = False, has_error = False,
     has_caller = False, has_stream = False, has_seq = False, f_params = Some ps\<rparr>"

definition open_session :: Session where
  "open_session = \<lparr>s_id = ''agit-1'', native_id = ''n'',
     source = Some \<lparr>source_id = ''src'', generation = 3\<rparr>, runtime = ''codex'', cwd = ''/w'', s_project = None\<rparr>"

definition open_resources :: Resources where
  "open_resources = no_resources\<lparr>sessions := [(''agit-1'', open_session)]\<rparr>"

definition steer :: RequestFrame where
  "steer = request ''turn.steer'' (empty_params\<lparr>p_session_id := Some ''agit-1'', p_source_id := Some ''forged''\<rparr>)"


section \<open>Closing tells nothing\<close>

text \<open>
  \<open>session.close\<close> answers the owner first. A caller that is not an administrator of the machine,
  nor of the session if the id names one, is denied, with the same answer whether or not a session
  of that id runs here.
\<close>

theorem close_reveals_nothing:
  assumes "f_method f = Some ''session.close''" and "validate_request f = Inr ()"
    and "f_params f = Some ps" and "requested_ceiling ps = Inr ceil" and "p_session_id ps = Some i"
    and "\<not> is_admin (policy_access p who None None)"
    and "\<And>s. session_of r i = Some s \<Longrightarrow> \<not> is_admin (session_access (ext_hex e) s p who)"
  shows "authorize e lookup f who p r = (Inl Denied, r)"
proof -
  have "close_check (ext_hex e) ''session.close'' (session_of r i) ceil p who = Inl Denied"
    using assms(6,7)
    by (cases "session_of r i")
      (simp_all add: close_check_def allowed_def permit_access_def target_access_def narrow_admin Let_def)
  then have "select_session (ext_hex e) ''session.close'' ceil lookup p who (ps\<lparr>p_access_ceiling := None\<rparr>) r
    = (Inl Denied, r)"
    using assms(5) by (simp add: select_session_def resolve_for_def source_methods_def)
  then show ?thesis
    using assms(1-4) by (simp add: authorize_def select_def catalog_methods_def session_methods_def)
qed

theorem close_reveals_nothing_witness:
  "authorize blank_ext (\<lambda>_. Inr None) (request ''session.close'' (empty_params\<lparr>p_session_id := Some ''agit-1''\<rparr>))
     alice default_policy open_resources = (Inl Denied, open_resources)"
proof (rule close_reveals_nothing [where ceil = Admin and i = "''agit-1''"
      and ps = "empty_params\<lparr>p_session_id := Some ''agit-1''\<rparr>"])
  show "\<not> is_admin (session_access (ext_hex blank_ext) s default_policy alice)" for s
    by (simp add: session_access_def default_policy_def policy_access_def find_rule_def is_admin_def
        aliases_def split: option.splits)
qed (simp_all add: request_def validate_request_def empty_params_def requested_ceiling_def
    policy_access_def find_rule_def default_policy_def is_admin_def)

end
