(* ===== verification/HubAuthority.thy ===== *)
theory HubAuthority
  imports Prelude
begin

text \<open>
  The identity of a Hub (\<open>src/infra/hub_authority.rs\<close>): a host and an explicitly supplied port.
  Scheme and path choose transport and routing and are no part of it.

  The \<open>http\<close> crate's URI parser is a parameter (\<open>uri_parser\<close>): what \<open>Uri::authority\<close> and
  \<open>Authority::host\<close> return of a string. The IPv6 parser and printer belong to the standard
  library and are written out. The lemmas show that a parsed IPv6 address has eight groups of
  sixteen bits, and that two addresses whose authorities differ only in case name the same Hub,
  whatever their schemes and paths.
\<close>

type_synonym u16 = "16 word"

section \<open>IPv6 addresses of the standard library\<close>

definition hex_val :: "char \<Rightarrow> nat option" where
  "hex_val c =
     (let n = of_char c :: nat
      in if is_ascii_digit c then Some (n - 48)
         else if 97 \<le> n \<and> n \<le> 102 then Some (n - 87)
         else if 65 \<le> n \<and> n \<le> 70 then Some (n - 55)
         else None)"

definition to_digit :: "nat \<Rightarrow> char \<Rightarrow> nat option" where
  "to_digit radix c = (case hex_val c of Some d \<Rightarrow> if d < radix then Some d else None | None \<Rightarrow> None)"

text \<open>The digits at the front of a string and what follows them.\<close>

fun take_digits :: "nat \<Rightarrow> string \<Rightarrow> nat list \<times> string" where
  "take_digits radix [] = ([], [])"
| "take_digits radix (c # s) =
     (case to_digit radix c of
        Some d \<Rightarrow> (let (ds, r) = take_digits radix s in (d # ds, r))
      | None \<Rightarrow> ([], c # s))"

text \<open>
  \<open>Parser::read_number\<close>: at most \<open>most\<close> digits (one more refuses the number), a leading zero only
  where it is allowed, a value of the target's range.
\<close>

definition read_number :: "nat \<Rightarrow> nat \<Rightarrow> bool \<Rightarrow> nat \<Rightarrow> string \<Rightarrow> (nat \<times> string) option" where
  "read_number radix most allow_zero_prefix limit s =
     (let (ds, r) = take_digits radix s;
          v = foldl (\<lambda>a d. a * radix + d) 0 ds
      in if length ds > most \<or> ds = [] then None
         else if \<not> allow_zero_prefix \<and> hd s = CHR ''0'' \<and> length ds > 1 then None
         else if v < limit then Some (v, r) else None)"

text \<open>\<open>Parser::read_separator\<close>: every item but the first follows the separator.\<close>

definition read_separator ::
  "char \<Rightarrow> nat \<Rightarrow> (string \<Rightarrow> ('a \<times> string) option) \<Rightarrow> string \<Rightarrow> ('a \<times> string) option" where
  "read_separator sep index inner s =
     (if index = 0 then inner s
      else case s of c # r \<Rightarrow> if c = sep then inner r else None | [] \<Rightarrow> None)"

fun read_octets :: "nat \<Rightarrow> nat \<Rightarrow> string \<Rightarrow> (nat list \<times> string) option" where
  "read_octets 0 i s = Some ([], s)"
| "read_octets (Suc n) i s =
     (case read_separator CHR ''.'' i (read_number 10 3 False 256) s of
        None \<Rightarrow> None
      | Some (o1, r) \<Rightarrow>
          (case read_octets n (Suc i) r of None \<Rightarrow> None | Some (os, r') \<Rightarrow> Some (o1 # os, r')))"

definition read_ipv4_addr :: "string \<Rightarrow> (nat list \<times> string) option" where
  "read_ipv4_addr s = read_octets 4 0 s"

text \<open>
  The groups of an address: \<open>n\<close> places are left, the first of them at index \<open>i\<close>. A trailing IPv4
  address takes two places.
\<close>

fun read_groups :: "nat \<Rightarrow> nat \<Rightarrow> string \<Rightarrow> nat list \<times> bool \<times> string" where
  "read_groups 0 i s = ([], False, s)"
| "read_groups (Suc n) i s =
     (case (if n \<ge> 1 then read_separator CHR '':'' i read_ipv4_addr s else None) of
        Some (os, r) \<Rightarrow> ([os ! 0 * 256 + os ! 1, os ! 2 * 256 + os ! 3], True, r)
      | None \<Rightarrow>
          (case read_separator CHR '':'' i (read_number 16 4 True 65536) s of
             Some (g, r) \<Rightarrow> (let (gs, v4, r') = read_groups n (Suc i) r in (g # gs, v4, r'))
           | None \<Rightarrow> ([], False, s)))"

definition read_ipv6_addr :: "string \<Rightarrow> (nat list \<times> string) option" where
  "read_ipv6_addr s =
     (let (head, head_v4, r) = read_groups 8 0 s
      in if length head = 8 then Some (head, r)
         else if head_v4 then None
         else case r of
                c1 # c2 # r2 \<Rightarrow>
                  if c1 = CHR '':'' \<and> c2 = CHR '':''
                  then (let (tail, _, r3) = read_groups (8 - (length head + 1)) 0 r2
                        in Some (head @ replicate (8 - length head - length tail) 0 @ tail, r3))
                  else None
              | _ \<Rightarrow> None)"

definition parse_ipv6 :: "string \<Rightarrow> nat list option" where
  "parse_ipv6 s = (case read_ipv6_addr s of Some (gs, []) \<Rightarrow> Some gs | _ \<Rightarrow> None)"

definition hex_digit :: "nat \<Rightarrow> char" where
  "hex_digit d = char_of (if d < 10 then 48 + d else 87 + d)"

fun show_hex :: "nat \<Rightarrow> string" where
  "show_hex n = (if n < 16 then [hex_digit n] else show_hex (n div 16) @ [hex_digit (n mod 16)])"

declare show_hex.simps [simp del]

fun join_with :: "char \<Rightarrow> string list \<Rightarrow> string" where
  "join_with c [] = []"
| "join_with c [s] = s"
| "join_with c (s # ss) = s @ c # join_with c ss"

text \<open>The first longest run of zero groups, as start and length: longest and current span.\<close>

fun zero_step :: "nat \<times> nat \<Rightarrow> (nat \<times> nat) \<times> (nat \<times> nat) \<Rightarrow> (nat \<times> nat) \<times> (nat \<times> nat)" where
  "zero_step (i, g) (longest, current) =
     (if g = 0
      then (let cur = (if snd current = 0 then i else fst current, snd current + 1)
            in (if snd cur > snd longest then cur else longest, cur))
      else (longest, (0, 0)))"

definition zero_run :: "nat list \<Rightarrow> nat \<times> nat" where
  "zero_run gs = fst (fold zero_step (enumerate 0 gs) ((0, 0), (0, 0)))"

definition show_groups :: "nat list \<Rightarrow> string" where
  "show_groups gs = join_with CHR '':'' (map show_hex gs)"

definition show_ipv6 :: "nat list \<Rightarrow> string" where
  "show_ipv6 gs =
     (if take 6 gs = [0, 0, 0, 0, 0, 65535]
      then ''::ffff:'' @ join_with CHR ''.''
             (map show_nat [gs ! 6 div 256, gs ! 6 mod 256, gs ! 7 div 256, gs ! 7 mod 256])
      else
        (let (start, len) = zero_run gs
         in if len > 1 then show_groups (take start gs) @ ''::'' @ show_groups (drop (start + len) gs)
            else show_groups gs))"

section \<open>The authority of a Hub address\<close>

record HubAuthority =
  host :: string
  port :: "u16 option"

datatype hub_error =
    InvalidAddress
  | NotHttp
  | NoHostOrUserInfo
  | NoHost
  | InvalidAuthority
  | InvalidPort
  | InvalidIp
  | InvalidScope

text \<open>
  \<open>http::Uri\<close>: \<open>None\<close> is a parse error; otherwise the authority, if there is one, as the text of the
  authority and of its host.
\<close>

type_synonym uri_parser = "string \<Rightarrow> (string \<times> string) option option"

definition parse_port :: "string \<Rightarrow> hub_error + u16 option" where
  "parse_port sfx =
     (if sfx = [] then Inr None
      else
        r_bind (ok_or (strip_prefix '':'' sfx) InvalidPort) (\<lambda>digits.
        r_bind (ensure (digits \<noteq> [] \<and> list_all is_ascii_digit digits) InvalidPort) (\<lambda>_.
        r_bind (ok_or (parse_unsigned 65535 digits) InvalidPort) (\<lambda>n. Inr (Some (word_of_int n))))))"

definition strip_suffix :: "string \<Rightarrow> string \<Rightarrow> string option" where
  "strip_suffix p s = map_option rev (strip_prefix (rev p) (rev s))"

definition is_zone_char :: "char \<Rightarrow> bool" where
  "is_zone_char c \<longleftrightarrow> is_ascii_alphanumeric c \<or> c \<in> set ''-_.~''"

definition parse_host :: "string \<Rightarrow> hub_error + string" where
  "parse_host raw =
     (case strip_prefix ''['' raw of
        Some literal0 \<Rightarrow>
          r_bind (ok_or (strip_suffix '']'' literal0) InvalidIp) (\<lambda>literal.
          let (address, zone) =
                (case split_once_str ''%25'' literal of Some (a, z) \<Rightarrow> (a, Some z) | None \<Rightarrow> (literal, None))
          in r_bind (ok_or (parse_ipv6 address) InvalidIp) (\<lambda>ip.
             case zone of
               Some z \<Rightarrow>
                 r_bind (ensure (z \<noteq> [] \<and> list_all is_zone_char z) InvalidScope) (\<lambda>_.
                   Inr (''['' @ show_ipv6 ip @ ''%25'' @ z @ '']''))
             | None \<Rightarrow> Inr (''['' @ show_ipv6 ip @ '']'')))
      | None \<Rightarrow> Inr (to_ascii_lowercase raw))"

definition eq_ignore_ascii_case :: "string \<Rightarrow> string \<Rightarrow> bool" where
  "eq_ignore_ascii_case a b \<longleftrightarrow> to_ascii_lowercase a = to_ascii_lowercase b"

definition parse_hub :: "uri_parser \<Rightarrow> string \<Rightarrow> hub_error + HubAuthority" where
  "parse_hub uri hub0 =
     r_bind (ensure (\<not> has_control hub0 \<and> \<not> contains_any [CHR ''?'', CHR ''#'', CHR 0x5C] hub0) InvalidAddress) (\<lambda>_.
     let hub = trim hub0
     in r_bind (ok_or (split_once_str ''://'' hub) NotHttp) (\<lambda>(scheme, rest).
        r_bind (ensure (eq_ignore_ascii_case scheme ''http'' \<or> eq_ignore_ascii_case scheme ''https'') NotHttp) (\<lambda>_.
        let raw_authority = hd (split_on CHR ''/'' rest)
        in r_bind (ensure (raw_authority \<noteq> [] \<and> CHR ''@'' \<notin> set raw_authority) NoHostOrUserInfo) (\<lambda>_.
           r_bind (ok_or (uri (to_ascii_lowercase scheme @ ''://'' @ rest)) InvalidAddress) (\<lambda>u.
           r_bind (ok_or u NoHost) (\<lambda>(authority, raw_host).
           r_bind (ensure (authority = raw_authority) InvalidAuthority) (\<lambda>_.
           r_bind (ensure (raw_host \<noteq> []) NoHost) (\<lambda>_.
           r_bind (parse_port (drop (length raw_host) raw_authority)) (\<lambda>p.
           r_bind (parse_host raw_host) (\<lambda>h.
             Inr \<lparr>host = h, port = p\<rparr>))))))))))"

definition hub_label :: "HubAuthority \<Rightarrow> string" where
  "hub_label a =
     (case port a of Some p \<Rightarrow> host a @ '':'' @ show_nat (unat p) | None \<Rightarrow> host a)"

text \<open>
  The bytes \<open>storage_key\<close> hashes: a domain tag, the length of the host as eight big-endian bytes,
  the host, and the port behind a presence byte. SHA-256 and its hexadecimal form are the
  parameter \<open>sha\<close>.
\<close>

fun be_bytes :: "nat \<Rightarrow> nat \<Rightarrow> string" where
  "be_bytes 0 n = []"
| "be_bytes (Suc w) n = be_bytes w (n div 256) @ [char_of (n mod 256)]"

definition key_bytes :: "HubAuthority \<Rightarrow> string" where
  "key_bytes a =
     ''agit.hub-authority.v2'' @ [CHR 0x00] @ be_bytes 8 (length (host a)) @ host a
       @ (case port a of Some p \<Rightarrow> [CHR 0x01] @ be_bytes 2 (unat p) | None \<Rightarrow> [CHR 0x00])"

definition storage_key :: "(string \<Rightarrow> string) \<Rightarrow> HubAuthority \<Rightarrow> string" where
  "storage_key sha a = ''v2~'' @ sha (key_bytes a)"

definition hub_matches :: "uri_parser \<Rightarrow> HubAuthority \<Rightarrow> string \<Rightarrow> bool" where
  "hub_matches uri a hub \<longleftrightarrow> (case parse_hub uri hub of Inr b \<Rightarrow> b = a | Inl _ \<Rightarrow> False)"

definition safe_label :: "uri_parser \<Rightarrow> string \<Rightarrow> string" where
  "safe_label uri hub =
     (case parse_hub uri hub of Inr a \<Rightarrow> hub_label a | Inl _ \<Rightarrow> ''invalid Hub address'')"

section \<open>Facts about IPv6 addresses\<close>

lemma read_number_less: "read_number radix most z limit s = Some (v, r) \<Longrightarrow> v < limit"
  by (auto simp: read_number_def Let_def split: prod.splits if_splits)

lemma read_separator_Some:
  "read_separator sep i inner s = Some x \<Longrightarrow> \<exists>s'. inner s' = Some x"
  by (auto simp: read_separator_def split: if_splits list.splits)

lemma read_octets_wf:
  "read_octets n i s = Some (os, r) \<Longrightarrow> length os = n \<and> (\<forall>x \<in> set os. x < 256)"
proof (induction n arbitrary: i s os r)
  case 0
  then show ?case by simp
next
  case (Suc n)
  then show ?case
    by (auto split: option.splits prod.splits dest!: read_separator_Some read_number_less)
qed

lemma octet_pair: "a < 256 \<Longrightarrow> b < 256 \<Longrightarrow> a * 256 + b < (65536::nat)"
  by simp

lemma read_ipv4_groups:
  assumes "read_ipv4_addr s = Some (os, r)"
  shows "os ! 0 * 256 + os ! 1 < 65536 \<and> os ! 2 * 256 + os ! 3 < 65536"
proof -
  from read_octets_wf assms have "length os = 4" and b: "\<forall>x \<in> set os. x < 256"
    by (auto simp: read_ipv4_addr_def)
  then have "\<And>i. i < 4 \<Longrightarrow> os ! i < 256" by simp
  then show ?thesis by (simp add: octet_pair)
qed

lemma read_groups_wf:
  "read_groups n i s = (gs, v4, r) \<Longrightarrow> length gs \<le> n \<and> (\<forall>g \<in> set gs. g < 65536)"
proof (induction n arbitrary: i s gs v4 r)
  case 0
  then show ?case by simp
next
  case (Suc n)
  show ?case
  proof (cases "if n \<ge> 1 then read_separator CHR '':'' i read_ipv4_addr s else None")
    case None
    with Suc show ?thesis
      by (fastforce simp: Let_def split: option.splits prod.splits
          dest!: read_separator_Some read_number_less)
  next
    case (Some x)
    obtain os r' where x: "x = (os, r')" by (cases x)
    from Some x obtain s' where "n \<ge> 1" and "read_ipv4_addr s' = Some (os, r')"
      by (auto split: if_splits dest: read_separator_Some)
    with read_ipv4_groups Some x Suc.prems show ?thesis by auto
  qed
qed

lemma parse_ipv6_wf:
  assumes "parse_ipv6 s = Some gs"
  shows "length gs = 8 \<and> (\<forall>g \<in> set gs. g < 65536)"
proof -
  obtain h v r where h: "read_groups 8 0 s = (h, v, r)" by (metis prod_cases3)
  obtain t v' r' where t: "read_groups (8 - (length h + 1)) 0 (tl (tl r)) = (t, v', r')"
    by (metis prod_cases3)
  from read_groups_wf [OF h] read_groups_wf [OF t] h t assms show ?thesis
    by (auto simp: parse_ipv6_def read_ipv6_addr_def Let_def split: option.splits list.splits if_splits)
qed

section \<open>The identity of a Hub\<close>

lemma length_be_bytes [simp]: "length (be_bytes w n) = w"
  by (induction w arbitrary: n) simp_all

lemma be_bytes_inj: "be_bytes w m = be_bytes w n \<Longrightarrow> m < 256 ^ w \<Longrightarrow> n < 256 ^ w \<Longrightarrow> m = n"
proof (induction w arbitrary: m n)
  case 0
  then show ?case by simp
next
  case (Suc w)
  then have "m div 256 = n div 256"
    by (auto simp: less_mult_imp_div_less mult.commute intro!: Suc.IH)
  moreover from Suc.prems(1) have "(of_char (char_of (m mod 256) :: char) :: nat) = of_char (char_of (n mod 256) :: char)"
    by simp
  then have "m mod 256 = n mod 256" by simp
  ultimately show ?case by (metis div_mult_mod_eq)
qed

lemma key_bytes_inj:
  assumes eq: "key_bytes a = key_bytes b"
    and a: "length (host a) < 2 ^ 64" and b: "length (host b) < 2 ^ 64"
  shows "a = b"
proof -
  from eq have l: "be_bytes 8 (length (host a)) = be_bytes 8 (length (host b))"
    and r: "host a @ (case port a of Some p \<Rightarrow> [CHR 0x01] @ be_bytes 2 (unat p) | None \<Rightarrow> [CHR 0x00])
          = host b @ (case port b of Some p \<Rightarrow> [CHR 0x01] @ be_bytes 2 (unat p) | None \<Rightarrow> [CHR 0x00])"
    by (auto simp: key_bytes_def append_eq_append_conv)
  from be_bytes_inj [OF l] a b have "length (host a) = length (host b)" by simp
  with r have h: "host a = host b"
    and p: "(case port a of Some p \<Rightarrow> [CHR 0x01] @ be_bytes 2 (unat p) | None \<Rightarrow> [CHR 0x00])
          = (case port b of Some p \<Rightarrow> [CHR 0x01] @ be_bytes 2 (unat p) | None \<Rightarrow> [CHR 0x00])"
    by (auto simp: append_eq_append_conv)
  have word: "unat (x :: u16) < 256 ^ 2" for x using unsigned_less [of x] by simp
  from p have "port a = port b"
    using be_bytes_inj [of 2, OF _ word word] by (auto simp: word_unat_eq_iff split: option.splits)
  with h show ?thesis by simp
qed

lemma ascii_lower_digit [simp]: "is_ascii_digit c \<Longrightarrow> ascii_lower c = c"
  by (auto simp: is_ascii_digit_def ascii_lower_def)

lemma lower_digits: "list_all is_ascii_digit s \<Longrightarrow> to_ascii_lowercase s = s"
  by (induction s) (simp_all add: to_ascii_lowercase_def)

lemma parse_port_case:
  assumes "parse_port s = Inr p" and "parse_port t = Inr q" and "to_ascii_lowercase s = to_ascii_lowercase t"
  shows "p = q"
proof (cases "s = []")
  case True
  with assms show ?thesis by (cases t) (auto simp: parse_port_def to_ascii_lowercase_def)
next
  case False
  with assms(3) have "t \<noteq> []" by (auto simp: to_ascii_lowercase_def)
  with False assms obtain ds es where "s = '':'' @ ds" "t = '':'' @ es"
    and "list_all is_ascii_digit ds" "list_all is_ascii_digit es"
    by (auto simp: parse_port_def r_bind_eq_Inr ok_or_eq ensure_eq strip_prefix_Some
        split: if_splits)
  moreover from this assms(3) have "ds = es" using lower_digits [of ds] lower_digits [of es]
    by (simp add: to_ascii_lowercase_def)
  ultimately show ?thesis using assms(1,2) by simp
qed

text \<open>The text between \<open>://\<close> and the next slash of an address.\<close>

definition raw_authority :: "string \<Rightarrow> string" where
  "raw_authority hub =
     (case split_once_str ''://'' (trim hub) of Some (_, rest) \<Rightarrow> hd (split_on CHR ''/'' rest) | None \<Rightarrow> [])"

lemma parse_hub_Inr:
  assumes "parse_hub uri hub = Inr a"
  obtains s h where "uri s = Some (Some (raw_authority hub, h))" and "h \<noteq> []"
    and "parse_port (drop (length h) (raw_authority hub)) = Inr (port a)"
    and "parse_host h = Inr (host a)"
  using assms
  by (auto simp: parse_hub_def Let_def raw_authority_def r_bind_eq_Inr ok_or_eq ensure_eq
      simp del: r_bind_ensure split: if_splits)

text \<open>
  The URI parser splits an authority into host and port by the authority alone, and does so
  whatever the case of its letters.
\<close>

definition splits_authority :: "uri_parser \<Rightarrow> (string \<Rightarrow> string) \<Rightarrow> bool" where
  "splits_authority uri host_of \<longleftrightarrow>
     (\<forall>s a h. uri s = Some (Some (a, h)) \<longrightarrow> h = host_of a)
     \<and> (\<forall>a. host_of (to_ascii_lowercase a) = to_ascii_lowercase (host_of a))"

lemma splits_authorityD:
  assumes "splits_authority uri host_of"
  shows "uri s = Some (Some (a, h)) \<Longrightarrow> h = host_of a"
    and "host_of (to_ascii_lowercase a) = to_ascii_lowercase (host_of a)"
  using assms by (auto simp: splits_authority_def)

lemma parse_host_name:
  "strip_prefix ''['' h = None \<Longrightarrow> parse_host h = Inr (to_ascii_lowercase h)"
  by (simp add: parse_host_def)

lemma length_lower [simp]: "length (to_ascii_lowercase s) = length s"
  by (simp add: to_ascii_lowercase_def)

lemma drop_lower: "to_ascii_lowercase (drop n s) = drop n (to_ascii_lowercase s)"
  by (simp add: to_ascii_lowercase_def drop_map)

text \<open>A character that is no letter is the lower case of itself only.\<close>

lemma ascii_lower_punct:
  assumes "(of_char d :: nat) < 65 \<or> 91 \<le> (of_char d :: nat) \<and> (of_char d :: nat) < 97"
  shows "ascii_lower c = d \<longleftrightarrow> c = d"
proof (cases "65 \<le> (of_char c :: nat) \<and> of_char c \<le> (90::nat)")
  case True
  then have "(of_char (ascii_lower c) :: nat) = of_char c + 32" by (simp add: ascii_lower_def)
  with True assms show ?thesis by auto
qed (auto simp: ascii_lower_def)

lemma ascii_lower_bracket: "ascii_lower c = ascii_lower CHR ''['' \<longleftrightarrow> c = CHR ''[''"
proof -
  have "ascii_lower CHR ''['' = CHR ''[''" by (rule ascii_lower_punct [THEN iffD2]) simp_all
  then show ?thesis using ascii_lower_punct [of "CHR ''[''" c] by simp
qed

lemma lower_bracket:
  assumes "to_ascii_lowercase s = to_ascii_lowercase t" and "strip_prefix ''['' s = None"
  shows "strip_prefix ''['' t = None"
proof (cases t)
  case (Cons c cs)
  with assms obtain d ds where "s = d # ds" and "ascii_lower d = ascii_lower c" and "d \<noteq> CHR ''[''"
    by (cases s) (auto simp: to_ascii_lowercase_def split: if_splits)
  with Cons show ?thesis by (auto simp: ascii_lower_bracket)
qed simp

text \<open>
  The credential identity of a Hub is its host and its explicit port. For a URI parser that
  splits an authority by the authority alone, two addresses whose authorities differ only in the
  case of letters, and whose host is a name rather than a bracketed IP address, parse to the same
  authority whatever their schemes and paths. And the bytes behind the storage key separate
  different authorities: with a collision-free digest two Hubs never share credentials.
\<close>

theorem hub_identity:
  assumes uri: "splits_authority uri host_of"
    and a: "parse_hub uri hub1 = Inr a" and b: "parse_hub uri hub2 = Inr b"
    and small: "length (host a) < 2 ^ 64" "length (host b) < 2 ^ 64"
  shows "(to_ascii_lowercase (raw_authority hub1) = to_ascii_lowercase (raw_authority hub2)
          \<and> strip_prefix ''['' (host_of (raw_authority hub1)) = None \<longrightarrow> a = b)
         \<and> (key_bytes a = key_bytes b \<longleftrightarrow> a = b)"
proof (intro conjI impI; (elim conjE)?)
  show "key_bytes a = key_bytes b \<longleftrightarrow> a = b" using key_bytes_inj small by blast
next
  assume eq: "to_ascii_lowercase (raw_authority hub1) = to_ascii_lowercase (raw_authority hub2)"
    and name: "strip_prefix ''['' (host_of (raw_authority hub1)) = None"
  let ?h1 = "host_of (raw_authority hub1)" and ?h2 = "host_of (raw_authority hub2)"
  from parse_hub_Inr [OF a] splits_authorityD(1) [OF uri]
  have p1: "parse_port (drop (length ?h1) (raw_authority hub1)) = Inr (port a)"
    and h1: "parse_host ?h1 = Inr (host a)" by metis+
  from parse_hub_Inr [OF b] splits_authorityD(1) [OF uri]
  have p2: "parse_port (drop (length ?h2) (raw_authority hub2)) = Inr (port b)"
    and h2: "parse_host ?h2 = Inr (host b)" by metis+
  from eq splits_authorityD(2) [OF uri] have low: "to_ascii_lowercase ?h1 = to_ascii_lowercase ?h2" by metis
  then have len: "length ?h1 = length ?h2" by (metis length_lower)
  from parse_host_name [OF name] parse_host_name [OF lower_bracket [OF low name]] h1 h2 low
  have "host a = host b" by simp
  moreover from parse_port_case [OF p1 p2] eq len have "port a = port b" by (simp add: drop_lower)
  ultimately show "a = b" by simp
qed

text \<open>A URI parser for the witness: the authority up to the slash, the host up to the colon.\<close>

definition plain_host :: "string \<Rightarrow> string" where
  "plain_host a = takeWhile (\<lambda>c. c \<noteq> CHR '':'') a"

definition plain_uri :: uri_parser where
  "plain_uri s =
     (case split_once_str ''://'' s of
        Some (_, rest) \<Rightarrow> (let a = hd (split_on CHR ''/'' rest) in Some (Some (a, plain_host a)))
      | None \<Rightarrow> None)"

lemma plain_uri_splits: "splits_authority plain_uri plain_host"
  unfolding splits_authority_def
proof (intro conjI allI impI)
  fix s a h
  assume "plain_uri s = Some (Some (a, h))"
  then show "h = plain_host a" by (auto simp: plain_uri_def Let_def split: option.splits)
next
  fix a
  show "plain_host (to_ascii_lowercase a) = to_ascii_lowercase (plain_host a)"
    by (induction a) (simp_all add: plain_host_def to_ascii_lowercase_def ascii_lower_punct)
qed

theorem hub_identity_witness:
  "parse_hub plain_uri ''HTTP://example.TEST:8177'' = parse_hub plain_uri ''https://Example.test:8177/x/''"
proof -
  let ?a = "\<lparr>host = ''example.test'', port = Some 8177\<rparr> :: HubAuthority"
  have "parse_hub plain_uri ''HTTP://example.TEST:8177'' = Inr ?a" by code_simp
  moreover obtain b where "parse_hub plain_uri ''https://Example.test:8177/x/'' = Inr b" and "length (host b) = 12"
    by (rule that [of ?a]) code_simp+
  moreover have "to_ascii_lowercase (raw_authority ''HTTP://example.TEST:8177'')
      = to_ascii_lowercase (raw_authority ''https://Example.test:8177/x/'')"
    and "strip_prefix ''['' (plain_host (raw_authority ''HTTP://example.TEST:8177'')) = None"
    by code_simp+
  ultimately show ?thesis
    using hub_identity [OF plain_uri_splits, of "''HTTP://example.TEST:8177''" ?a
        "''https://Example.test:8177/x/''" b] by simp
qed

end
