(* ===== verification/SessionPrivacy.thy ===== *)
theory SessionPrivacy
  imports HubAuthority Resolve
begin

text \<open>
  Session ownership and snapshot bindings (\<open>src/domain/session_privacy.rs\<close>): accounts, owners and
  their resolution, registered configurations, the binding of a published snapshot to its source,
  committer attribution, and the publication manifest a push carries.

  Parameters (\<open>privacy_ext\<close>): the UUID parser (its value printed again), the RFC 3339 parser, the URI
  parser of the Hub address, and the hexadecimal SHA-256 digests of the serialised records.

  The lemmas show that a manifest is accepted exactly when it is free of conflicts (a declarative
  specification with no table), that the committer of a commit is read from its header alone, and
  what the validated records say about ownership.
\<close>

definition SESSION_ENVELOPE_VERSION :: u32 where
  "SESSION_ENVELOPE_VERSION = 2"

definition MAX_REVISION :: u64 where
  "MAX_REVISION = 9007199254740991"

datatype privacy_error =
    HubError hub_error
  | InvalidHub
  | InvalidHubPath
  | NoncanonicalHub
  | InvalidIdentity
  | InvalidRepositoryId
  | InvalidRevision
  | InvalidOid
  | DigestPrefix
  | DigestLength
  | InvalidSession
  | InvalidTime
  | UnsupportedVersion
  | DuplicatePreserved
  | AmbiguousSnapshot
  | OtherRepository
  | ConflictingSource
  | OwnerChanged
  | MixedConfigurations
  | ForkDiffers
  | CreatorWithoutHub
  | OwnerWithoutHub
  | CreatorNotOwner
  | CommitterNotAccount
  | NoOwnerPrincipal
  | GuessedOwner
  | OrganizationEncrypted
  | NoAccountOwner
  | RegistrationDiffers
  | CommitTooLarge
  | NoHeaderBoundary
  | NoCommitter
  | AmbiguousCommitter
  | InvalidGitIdentity
  | ConfigDiffers

section \<open>Identifiers\<close>

record AccountIdentity =
  a_hub :: string
  a_account :: string

record SourceCommitter =
  git_identity :: string
  sc_account :: "AccountIdentity option"

record OwnerKeyBinding =
  ok_account :: string
  key_version :: u64

record privacy_ext =
  uuid_canon :: "string \<Rightarrow> string option"     \<comment> \<open>\<open>Uuid::parse_str\<close>, printed again\<close>
  rfc3339 :: "string \<Rightarrow> bool"                 \<comment> \<open>\<open>DateTime::parse_from_rfc3339\<close> succeeds\<close>
  uri_of :: uri_parser
  key_digest :: "OwnerKeyBinding \<Rightarrow> string"   \<comment> \<open>hexadecimal SHA-256 of the serialised binding\<close>
  committer_digest :: "SourceCommitter \<Rightarrow> string"

definition is_identifier_char :: "char \<Rightarrow> bool" where
  "is_identifier_char c \<longleftrightarrow> is_ascii_alphanumeric c \<or> c \<in> set ''-_.''"

definition validate_identifier :: "string \<Rightarrow> privacy_error + unit" where
  "validate_identifier v =
     ensure (v \<noteq> [] \<and> length v \<le> 128 \<and> v \<noteq> ''.'' \<and> v \<noteq> ''..'' \<and> list_all is_identifier_char v)
       InvalidIdentity"

definition validate_repository_id :: "privacy_ext \<Rightarrow> string \<Rightarrow> privacy_error + unit" where
  "validate_repository_id e v = ensure (uuid_canon e v = Some v) InvalidRepositoryId"

definition validate_revision :: "u64 \<Rightarrow> privacy_error + unit" where
  "validate_revision v = ensure (v > 0 \<and> v \<le> MAX_REVISION) InvalidRevision"

definition validate_oid :: "string \<Rightarrow> privacy_error + unit" where
  "validate_oid v = ensure (length v \<in> {40, 64} \<and> list_all is_lower_hex v) InvalidOid"

definition validate_digest :: "string \<Rightarrow> privacy_error + unit" where
  "validate_digest v =
     r_bind (ok_or (strip_prefix ''sha256:'' v) DigestPrefix) (\<lambda>hex.
     r_bind (ensure (length hex = 64) DigestLength) (\<lambda>_.
       validate_oid hex))"

definition map_err :: "('e \<Rightarrow> 'f) \<Rightarrow> 'e + 'a \<Rightarrow> 'f + 'a" where
  "map_err f r = (case r of Inl e \<Rightarrow> Inl (f e) | Inr a \<Rightarrow> Inr a)"

definition trim_end_slash :: "string \<Rightarrow> string" where
  "trim_end_slash s = rev (dropWhile (\<lambda>c. c = CHR ''/'') (rev s))"

definition canonical_hub :: "privacy_ext \<Rightarrow> string \<Rightarrow> privacy_error + string" where
  "canonical_hub e hub =
     r_bind (map_err HubError (parse_hub (uri_of e) hub)) (\<lambda>_.
     r_bind (ok_or (split_once_str ''://'' (trim_end_slash (trim hub))) InvalidHub) (\<lambda>(scheme, rest).
     let (authority, path) = (case split_once CHR ''/'' rest of Some ap \<Rightarrow> ap | None \<Rightarrow> (rest, []))
     in r_bind (ensure (\<not> list_ex (\<lambda>part. part = ''.'' \<or> part = ''..'') (split_on CHR ''/'' path))
                  InvalidHubPath) (\<lambda>_.
        let pre = to_ascii_lowercase scheme @ ''://'' @ to_ascii_lowercase authority
        in Inr (if path = [] then pre else pre @ ''/'' @ path))))"

section \<open>Accounts and owners\<close>

definition account_validate :: "privacy_ext \<Rightarrow> AccountIdentity \<Rightarrow> privacy_error + unit" where
  "account_validate e a =
     r_bind (canonical_hub e (a_hub a)) (\<lambda>h.
     r_bind (ensure (h = a_hub a) NoncanonicalHub) (\<lambda>_.
       validate_identifier (a_account a)))"

definition account_new :: "privacy_ext \<Rightarrow> string \<Rightarrow> string \<Rightarrow> privacy_error + AccountIdentity" where
  "account_new e hub account =
     r_bind (canonical_hub e hub) (\<lambda>h.
     let identity = \<lparr>a_hub = h, a_account = account\<rparr>
     in r_bind (account_validate e identity) (\<lambda>_. Inr identity))"

datatype SessionScheme = PlainScheme | OwnerScheme

datatype SessionOwner = User string | Organization string

datatype OwnerResolution = Creator | FirstCommitter | RepositoryOwner | Unresolved

fun owner_validate :: "SessionOwner \<Rightarrow> privacy_error + unit" where
  "owner_validate (User i) = validate_identifier i"
| "owner_validate (Organization i) = validate_identifier i"

record SessionPrivacy =
  scheme :: SessionScheme
  sp_hub :: "string option"
  creator :: "string option"
  owner :: "SessionOwner option"
  owner_source :: OwnerResolution

text \<open>\<open>if let Some(x) = o { body(x)? }\<close>.\<close>

definition if_some :: "'a option \<Rightarrow> ('a \<Rightarrow> 'e + unit) \<Rightarrow> 'e + unit" where
  "if_some x f = (case x of Some a \<Rightarrow> f a | None \<Rightarrow> Inr ())"

definition privacy_new :: "privacy_ext \<Rightarrow> AccountIdentity option \<Rightarrow> privacy_error + SessionPrivacy" where
  "privacy_new e c =
     r_bind (if_some c (account_validate e)) (\<lambda>_.
       Inr \<lparr>scheme = PlainScheme, sp_hub = map_option a_hub c, creator = map_option a_account c,
            owner = map_option (\<lambda>i. User (a_account i)) c,
            owner_source = (if c \<noteq> None then Creator else Unresolved)\<rparr>)"

definition source_check :: "SessionPrivacy \<Rightarrow> privacy_error + unit" where
  "source_check p =
     (case owner_source p of
        Creator \<Rightarrow>
          ensure (case creator p of Some c \<Rightarrow> owner p = Some (User c) | None \<Rightarrow> False) CreatorNotOwner
      | FirstCommitter \<Rightarrow> ensure (case owner p of Some (User _) \<Rightarrow> True | _ \<Rightarrow> False) CommitterNotAccount
      | RepositoryOwner \<Rightarrow> ensure (owner p \<noteq> None) NoOwnerPrincipal
      | Unresolved \<Rightarrow> ensure (owner p = None \<and> creator p = None) GuessedOwner)"

definition privacy_validate :: "privacy_ext \<Rightarrow> SessionPrivacy \<Rightarrow> privacy_error + unit" where
  "privacy_validate e p =
     r_bind (if_some (sp_hub p) (\<lambda>h. r_bind (canonical_hub e h) (\<lambda>c. ensure (c = h) NoncanonicalHub))) (\<lambda>_.
     r_bind (if_some (creator p) (\<lambda>c. r_bind (validate_identifier c) (\<lambda>_.
               ensure (sp_hub p \<noteq> None) CreatorWithoutHub))) (\<lambda>_.
     r_bind (if_some (owner p) (\<lambda>w. r_bind (owner_validate w) (\<lambda>_.
               ensure (sp_hub p \<noteq> None) OwnerWithoutHub))) (\<lambda>_.
     r_bind (source_check p) (\<lambda>_.
       ensure (scheme p = PlainScheme \<or> \<not> (case owner p of Some (Organization _) \<Rightarrow> True | _ \<Rightarrow> False))
         OrganizationEncrypted))))"

record SessionPrivacyConfig =
  cf_repository :: string
  cf_session :: string
  privacy :: SessionPrivacy
  cf_revision :: u64
  created_at :: string

definition config_validate :: "privacy_ext \<Rightarrow> SessionPrivacyConfig \<Rightarrow> privacy_error + unit" where
  "config_validate e c =
     r_bind (validate_repository_id e (cf_repository c)) (\<lambda>_.
     r_bind (ensure (is_bare_id (cf_session c)) InvalidSession) (\<lambda>_.
     r_bind (privacy_validate e (privacy c)) (\<lambda>_.
     r_bind (validate_revision (cf_revision c)) (\<lambda>_.
     r_bind (ensure (rfc3339 e (created_at c)) InvalidTime) (\<lambda>_.
       if scheme (privacy c) = OwnerScheme
       then ensure (case owner (privacy c) of Some (User _) \<Rightarrow> True | _ \<Rightarrow> False) NoAccountOwner
       else Inr ())))))"

definition verify_registration ::
  "privacy_ext \<Rightarrow> SessionPrivacyConfig \<Rightarrow> string \<Rightarrow> string \<Rightarrow> SessionPrivacy \<Rightarrow> privacy_error + unit" where
  "verify_registration e c repository sess local =
     r_bind (config_validate e c) (\<lambda>_.
     r_bind (privacy_validate e local) (\<lambda>_.
       ensure (cf_repository c = repository \<and> cf_session c = sess) RegistrationDiffers))"

definition key_validate :: "OwnerKeyBinding \<Rightarrow> privacy_error + unit" where
  "key_validate k =
     r_bind (validate_identifier (ok_account k)) (\<lambda>_. validate_revision (key_version k))"

definition recipient_id :: "privacy_ext \<Rightarrow> OwnerKeyBinding \<Rightarrow> privacy_error + string" where
  "recipient_id e k = r_bind (key_validate k) (\<lambda>_. Inr (''session-owner-'' @ key_digest e k))"

definition key_fingerprint :: "privacy_ext \<Rightarrow> OwnerKeyBinding \<Rightarrow> privacy_error + string" where
  "key_fingerprint e k = r_bind (key_validate k) (\<lambda>_. Inr (''sha256:'' @ key_digest e k))"

section \<open>Committers\<close>

datatype CommitterAttribution = Account string | Unmapped string

fun attribution_validate :: "CommitterAttribution \<Rightarrow> privacy_error + unit" where
  "attribution_validate (Account a) = validate_identifier a"
| "attribution_validate (Unmapped d) = validate_digest d"

definition committer_validate :: "privacy_ext \<Rightarrow> SourceCommitter \<Rightarrow> privacy_error + unit" where
  "committer_validate e s =
     r_bind (ensure (git_identity s \<noteq> [] \<and> length (git_identity s) \<le> 16 * 1024
               \<and> \<not> list_ex (\<lambda>b. b \<in> {CHR 0x0A, CHR 0x0D, CHR 0x00}) (git_identity s)) InvalidGitIdentity) (\<lambda>_.
       if_some (sc_account s) (account_validate e))"

text \<open>The identities of the \<open>committer\<close> lines of a commit header.\<close>

definition committer_lines :: "string \<Rightarrow> string list" where
  "committer_lines header = List.map_filter (strip_prefix ''committer '') (split_on CHR 0x0A header)"

definition BLANK_LINE :: string where
  "BLANK_LINE = [CHR 0x0A, CHR 0x0A]"

definition from_commit ::
  "privacy_ext \<Rightarrow> string \<Rightarrow> AccountIdentity option \<Rightarrow> privacy_error + SourceCommitter" where
  "from_commit e bytes account =
     r_bind (ensure (length bytes \<le> 1024 * 1024) CommitTooLarge) (\<lambda>_.
     r_bind (ok_or (split_once_str BLANK_LINE bytes) NoHeaderBoundary) (\<lambda>(header, _).
     case committer_lines header of
       [] \<Rightarrow> Inl NoCommitter
     | identity # others \<Rightarrow>
         r_bind (ensure (others = []) AmbiguousCommitter) (\<lambda>_.
         let s = \<lparr>git_identity = identity, sc_account = account\<rparr>
         in r_bind (committer_validate e s) (\<lambda>_. Inr s))))"

definition attribution ::
  "privacy_ext \<Rightarrow> SourceCommitter \<Rightarrow> string \<Rightarrow> privacy_error + CommitterAttribution" where
  "attribution e s hub0 =
     r_bind (committer_validate e s) (\<lambda>_.
     r_bind (canonical_hub e hub0) (\<lambda>hub.
       case sc_account s of
         Some a \<Rightarrow>
           if a_hub a = hub then Inr (Account (a_account a))
           else Inr (Unmapped (''sha256:'' @ committer_digest e s))
       | None \<Rightarrow> Inr (Unmapped (''sha256:'' @ committer_digest e s))))"

section \<open>Snapshots\<close>

record SessionSnapshotBinding =
  b_repository :: string
  b_session :: string
  published_session :: string
  owner_key :: OwnerKeyBinding
  committer :: CommitterAttribution
  source_commit :: string

definition binding_validate :: "privacy_ext \<Rightarrow> SessionSnapshotBinding \<Rightarrow> privacy_error + unit" where
  "binding_validate e b =
     r_bind (validate_repository_id e (b_repository b)) (\<lambda>_.
     r_bind (ensure (is_bare_id (b_session b) \<and> is_bare_id (published_session b)) InvalidSession) (\<lambda>_.
     r_bind (key_validate (owner_key b)) (\<lambda>_.
     r_bind (attribution_validate (committer b)) (\<lambda>_.
       validate_oid (source_commit b)))))"

definition verify_config ::
  "privacy_ext \<Rightarrow> SessionSnapshotBinding \<Rightarrow> SessionPrivacyConfig \<Rightarrow> privacy_error + unit" where
  "verify_config e b c =
     r_bind (binding_validate e b) (\<lambda>_.
     r_bind (config_validate e c) (\<lambda>_.
       ensure (scheme (privacy c) = OwnerScheme \<and> cf_repository c = b_repository b
               \<and> cf_session c = b_session b
               \<and> owner (privacy c) = Some (User (ok_account (owner_key b)))) ConfigDiffers))"

record AcceptedSnapshot =
  s_version :: u32
  binding :: SessionSnapshotBinding
  published_commit :: string
  envelope_digest :: string

definition snapshot_validate :: "privacy_ext \<Rightarrow> AcceptedSnapshot \<Rightarrow> privacy_error + unit" where
  "snapshot_validate e s =
     r_bind (ensure (s_version s = SESSION_ENVELOPE_VERSION) UnsupportedVersion) (\<lambda>_.
     r_bind (binding_validate e (binding s)) (\<lambda>_.
     r_bind (validate_oid (published_commit s)) (\<lambda>_.
       validate_digest (envelope_digest s))))"

datatype ForkContext = Original | Sanitized

record ForkOrigin =
  fo_commit :: string
  fo_context :: ForkContext
  fo_snapshot :: "AcceptedSnapshot option"

definition fork_validate :: "privacy_ext \<Rightarrow> ForkOrigin \<Rightarrow> privacy_error + unit" where
  "fork_validate e f =
     r_bind (validate_oid (fo_commit f)) (\<lambda>_.
       if_some (fo_snapshot f) (\<lambda>s.
         r_bind (snapshot_validate e s) (\<lambda>_.
           ensure (published_commit s = fo_commit f) ForkDiffers)))"

section \<open>The publication manifest\<close>

datatype PublishedSnapshot =
    FileLine string
  | PlainSnapshot string string u64
  | SessionOwnerV2 AcceptedSnapshot u64

fun commit_of :: "PublishedSnapshot \<Rightarrow> string" where
  "commit_of (FileLine c) = c"
| "commit_of (PlainSnapshot c _ _) = c"
| "commit_of (SessionOwnerV2 s _) = published_commit s"

record SessionPublicationManifest =
  m_version :: u32
  m_repository :: string
  snapshots :: "PublishedSnapshot list"
  preserved_commits :: "string list"

text \<open>
  The tables of the check: commits seen, the configuration of each session, source commits seen,
  and the owner account and public identity of each session.
\<close>

type_synonym config = "SessionScheme \<times> u64"

record tables =
  commits :: "string set"
  sessions :: "string \<rightharpoonup> config"
  sources :: "string set"
  owners :: "string \<rightharpoonup> string \<times> string"

definition preserve_commit :: "string \<Rightarrow> tables \<Rightarrow> privacy_error + tables" where
  "preserve_commit c t =
     r_bind (validate_oid c) (\<lambda>_.
     r_bind (ensure (c \<notin> commits t) DuplicatePreserved) (\<lambda>_.
       Inr (t\<lparr>commits := insert c (commits t)\<rparr>)))"

text \<open>The end of an iteration: the session's configuration is the one it had, if it had one.\<close>

definition register_config :: "string \<Rightarrow> SessionScheme \<Rightarrow> u64 \<Rightarrow> tables \<Rightarrow> privacy_error + tables" where
  "register_config sess sch rv t =
     r_bind (ensure (is_bare_id sess) InvalidSession) (\<lambda>_.
     r_bind (validate_revision rv) (\<lambda>_.
     r_bind (if_some (sessions t sess) (\<lambda>previous.
               ensure (previous = (sch, rv)) MixedConfigurations)) (\<lambda>_.
       Inr (t\<lparr>sessions := (sessions t)(sess \<mapsto> (sch, rv))\<rparr>))))"

definition register_owner ::
  "privacy_ext \<Rightarrow> string \<Rightarrow> AcceptedSnapshot \<Rightarrow> tables \<Rightarrow> privacy_error + tables" where
  "register_owner e repository s t =
     r_bind (snapshot_validate e s) (\<lambda>_.
     r_bind (ensure (b_repository (binding s) = repository) OtherRepository) (\<lambda>_.
     r_bind (ensure (source_commit (binding s) \<notin> sources t) ConflictingSource) (\<lambda>_.
     let authority = (ok_account (owner_key (binding s)), published_session (binding s))
     in r_bind (if_some (owners t (b_session (binding s))) (\<lambda>previous.
                  ensure (previous = authority) OwnerChanged)) (\<lambda>_.
          Inr (t\<lparr>sources := insert (source_commit (binding s)) (sources t),
                 owners := (owners t)(b_session (binding s) \<mapsto> authority)\<rparr>)))))"

fun register_entry :: "privacy_ext \<Rightarrow> string \<Rightarrow> PublishedSnapshot \<Rightarrow> tables \<Rightarrow> privacy_error + tables" where
  "register_entry e repository (FileLine c) t = Inr t"
| "register_entry e repository (PlainSnapshot c sess rv) t =
     register_config sess PlainScheme rv t"
| "register_entry e repository (SessionOwnerV2 s rv) t =
     r_bind (register_owner e repository s t)
       (register_config (b_session (binding s)) OwnerScheme rv)"

definition publish_entry ::
  "privacy_ext \<Rightarrow> string \<Rightarrow> PublishedSnapshot \<Rightarrow> tables \<Rightarrow> privacy_error + tables" where
  "publish_entry e repository entry t =
     r_bind (validate_oid (commit_of entry)) (\<lambda>_.
     r_bind (ensure (commit_of entry \<notin> commits t) AmbiguousSnapshot) (\<lambda>_.
       register_entry e repository entry (t\<lparr>commits := insert (commit_of entry) (commits t)\<rparr>)))"

definition no_tables :: tables where
  "no_tables = \<lparr>commits = {}, sessions = Map.empty, sources = {}, owners = Map.empty\<rparr>"

definition manifest_validate :: "privacy_ext \<Rightarrow> SessionPublicationManifest \<Rightarrow> privacy_error + unit" where
  "manifest_validate e m =
     r_bind (ensure (m_version m = SESSION_ENVELOPE_VERSION) UnsupportedVersion) (\<lambda>_.
     r_bind (validate_repository_id e (m_repository m)) (\<lambda>_.
     r_bind (r_fold preserve_commit (preserved_commits m) no_tables) (\<lambda>t.
     r_bind (r_fold (publish_entry e (m_repository m)) (snapshots m) t) (\<lambda>_. Inr ()))))"

section \<open>What the manifest check accepts\<close>

lemmas validate_defs = validate_identifier_def validate_repository_id_def validate_revision_def
  validate_oid_def validate_digest_def

lemma if_some_simps [simp]:
  "if_some None f = Inr ()"
  "if_some (Some a) f = f a"
  by (simp_all add: if_some_def)

lemma if_some_ok: "if_some x f = Inr u \<longleftrightarrow> (\<forall>a. x = Some a \<longrightarrow> f a = Inr ())"
  by (cases x) auto

text \<open>A table filled entry by entry, each entry agreeing with what the table holds for its key.\<close>

fun agrees :: "('k \<rightharpoonup> 'v) \<Rightarrow> ('k \<times> 'v) list \<Rightarrow> bool" where
  "agrees m [] \<longleftrightarrow> True"
| "agrees m ((k, v) # kvs) \<longleftrightarrow> m k \<in> {None, Some v} \<and> agrees (m(k \<mapsto> v)) kvs"

text \<open>One value per key.\<close>

definition single_valued_list :: "('k \<times> 'v) list \<Rightarrow> bool" where
  "single_valued_list kvs \<longleftrightarrow> (\<forall>(k, v) \<in> set kvs. \<forall>(k', v') \<in> set kvs. k = k' \<longrightarrow> v = v')"

lemma agrees_iff:
  "agrees m kvs \<longleftrightarrow> (\<forall>(k, v) \<in> set kvs. m k \<in> {None, Some v}) \<and> single_valued_list kvs"
proof (induction m kvs rule: agrees.induct)
  case (1 m)
  then show ?case by (simp add: single_valued_list_def)
next
  case (2 m k v kvs)
  show ?case
    unfolding agrees.simps 2 by (auto simp: single_valued_list_def fun_upd_def split: if_splits) (metis+)?
qed

lemma agrees_Cons: "agrees m (x # xs) \<longleftrightarrow> m (fst x) \<in> {None, Some (snd x)} \<and> agrees (m(fst x \<mapsto> snd x)) xs"
  by (cases x) simp

text \<open>What an entry adds to the tables.\<close>

fun entry_config :: "PublishedSnapshot \<Rightarrow> (string \<times> config) option" where
  "entry_config (FileLine _) = None"
| "entry_config (PlainSnapshot _ i r) = Some (i, (PlainScheme, r))"
| "entry_config (SessionOwnerV2 s r) = Some (b_session (binding s), (OwnerScheme, r))"

fun entry_snapshot :: "PublishedSnapshot \<Rightarrow> AcceptedSnapshot option" where
  "entry_snapshot (SessionOwnerV2 s _) = Some s"
| "entry_snapshot _ = None"

definition authority_of :: "AcceptedSnapshot \<Rightarrow> string \<times> (string \<times> string)" where
  "authority_of s =
     (b_session (binding s), (ok_account (owner_key (binding s)), published_session (binding s)))"

definition entry_ok :: "privacy_ext \<Rightarrow> string \<Rightarrow> PublishedSnapshot \<Rightarrow> bool" where
  "entry_ok e repository en \<longleftrightarrow>
     is_ok (validate_oid (commit_of en))
     \<and> (case entry_snapshot en of
          Some s \<Rightarrow> is_ok (snapshot_validate e s) \<and> b_repository (binding s) = repository
        | None \<Rightarrow> True)
     \<and> (case entry_config en of
          Some (i, _, r) \<Rightarrow> is_bare_id i \<and> is_ok (validate_revision r)
        | None \<Rightarrow> True)"

text \<open>
  The declarative reading of a manifest: every entry valid and of this repository, no commit named
  twice, no source snapshot published twice, and for every session one configuration, one owner
  and one public identity.
\<close>

definition manifest_ok :: "privacy_ext \<Rightarrow> SessionPublicationManifest \<Rightarrow> bool" where
  "manifest_ok e m \<longleftrightarrow>
     m_version m = 2
     \<and> uuid_canon e (m_repository m) = Some (m_repository m)
     \<and> list_all (\<lambda>c. is_ok (validate_oid c)) (preserved_commits m)
     \<and> list_all (entry_ok e (m_repository m)) (snapshots m)
     \<and> distinct (preserved_commits m @ map commit_of (snapshots m))
     \<and> distinct (map (\<lambda>s. source_commit (binding s)) (List.map_filter entry_snapshot (snapshots m)))
     \<and> single_valued_list (List.map_filter entry_config (snapshots m))
     \<and> single_valued_list (map authority_of (List.map_filter entry_snapshot (snapshots m)))"

lemma preserve_commit_ok:
  "preserve_commit c t = Inr u \<longleftrightarrow>
     is_ok (validate_oid c) \<and> c \<notin> commits t \<and> u = t\<lparr>commits := insert c (commits t)\<rparr>"
  by (auto simp: preserve_commit_def r_bind_eq_Inr is_ok_iff)

lemma preserve_fold:
  "r_fold preserve_commit cs t = Inr u \<longleftrightarrow>
     list_all (\<lambda>c. is_ok (validate_oid c)) cs \<and> distinct cs \<and> set cs \<inter> commits t = {}
     \<and> u = t\<lparr>commits := set cs \<union> commits t\<rparr>"
proof (induction cs arbitrary: t)
  case Nil
  then show ?case by auto
next
  case (Cons c cs)
  show ?case by (auto simp: r_bind_eq_Inr Cons.IH preserve_commit_ok)
qed

text \<open>What one iteration asks of the tables, and the tables after it.\<close>

definition fits :: "PublishedSnapshot \<Rightarrow> tables \<Rightarrow> bool" where
  "fits en t \<longleftrightarrow>
     commit_of en \<notin> commits t
     \<and> (case entry_snapshot en of
          Some s \<Rightarrow> source_commit (binding s) \<notin> sources t
            \<and> owners t (fst (authority_of s)) \<in> {None, Some (snd (authority_of s))}
        | None \<Rightarrow> True)
     \<and> (case entry_config en of Some (i, c) \<Rightarrow> sessions t i \<in> {None, Some c} | None \<Rightarrow> True)"

definition add_entry :: "PublishedSnapshot \<Rightarrow> tables \<Rightarrow> tables" where
  "add_entry en t =
     \<lparr>commits = insert (commit_of en) (commits t),
      sessions = (case entry_config en of Some (i, c) \<Rightarrow> (sessions t)(i \<mapsto> c) | None \<Rightarrow> sessions t),
      sources = (case entry_snapshot en of
                   Some s \<Rightarrow> insert (source_commit (binding s)) (sources t) | None \<Rightarrow> sources t),
      owners = (case entry_snapshot en of
                  Some s \<Rightarrow> (owners t)(fst (authority_of s) \<mapsto> snd (authority_of s)) | None \<Rightarrow> owners t)\<rparr>"

lemma register_config_ok:
  "register_config i sch r t = Inr u \<longleftrightarrow>
     is_bare_id i \<and> is_ok (validate_revision r) \<and> sessions t i \<in> {None, Some (sch, r)}
     \<and> u = t\<lparr>sessions := (sessions t)(i \<mapsto> (sch, r))\<rparr>"
  by (cases "sessions t i") (auto simp: register_config_def r_bind_eq_Inr is_ok_iff ensure_eq)

lemma register_owner_ok:
  "register_owner e repository s t = Inr u \<longleftrightarrow>
     is_ok (snapshot_validate e s) \<and> b_repository (binding s) = repository
     \<and> source_commit (binding s) \<notin> sources t
     \<and> owners t (fst (authority_of s)) \<in> {None, Some (snd (authority_of s))}
     \<and> u = t\<lparr>sources := insert (source_commit (binding s)) (sources t),
              owners := (owners t)(fst (authority_of s) \<mapsto> snd (authority_of s))\<rparr>"
  by (cases "owners t (b_session (binding s))")
    (auto simp: register_owner_def authority_of_def r_bind_eq_Inr is_ok_iff ensure_eq Let_def)

lemma publish_entry_ok:
  "publish_entry e repository en t = Inr u \<longleftrightarrow>
     entry_ok e repository en \<and> fits en t \<and> u = add_entry en t"
proof -
  have head: "publish_entry e repository en t = Inr u \<longleftrightarrow>
      is_ok (validate_oid (commit_of en)) \<and> commit_of en \<notin> commits t
      \<and> register_entry e repository en (t\<lparr>commits := insert (commit_of en) (commits t)\<rparr>) = Inr u"
    by (auto simp: publish_entry_def r_bind_eq_Inr is_ok_iff)
  show ?thesis
  proof (cases en)
    case (FileLine c)
    then show ?thesis unfolding head by (auto simp: entry_ok_def fits_def add_entry_def)
  next
    case (PlainSnapshot c i r)
    then show ?thesis unfolding head
      by (auto simp: entry_ok_def fits_def add_entry_def register_config_ok)
  next
    case (SessionOwnerV2 s r)
    then show ?thesis unfolding head
      by (auto simp: entry_ok_def fits_def add_entry_def register_config_ok register_owner_ok
          r_bind_eq_Inr authority_of_def)
  qed
qed

lemma publish_fold:
  "is_ok (r_fold (publish_entry e repository) es t) \<longleftrightarrow>
     list_all (entry_ok e repository) es
     \<and> distinct (map commit_of es) \<and> set (map commit_of es) \<inter> commits t = {}
     \<and> distinct (map (\<lambda>s. source_commit (binding s)) (List.map_filter entry_snapshot es))
     \<and> set (map (\<lambda>s. source_commit (binding s)) (List.map_filter entry_snapshot es)) \<inter> sources t = {}
     \<and> agrees (sessions t) (List.map_filter entry_config es)
     \<and> agrees (owners t) (map authority_of (List.map_filter entry_snapshot es))"
proof (induction es arbitrary: t)
  case Nil
  then show ?case by (simp add: map_filter_simps)
next
  case (Cons en es)
  have step: "is_ok (r_fold (publish_entry e repository) (en # es) t) \<longleftrightarrow>
      entry_ok e repository en \<and> fits en t \<and> is_ok (r_fold (publish_entry e repository) es (add_entry en t))"
    by (auto simp: is_ok_bind publish_entry_ok)
  show ?case
    unfolding step Cons.IH
    by (cases en) (auto simp: fits_def add_entry_def map_filter_simps agrees_Cons)
qed

text \<open>
  C25. The manifest check is exact. Its four tables, filled in one pass, accept a publication
  manifest exactly when it satisfies the declarative reading: the version is supported, every
  entry is valid and of the manifest's repository, no commit is named twice (preserved or
  published), no source snapshot is published under two identities, and each session has one
  scheme and revision, one owner account and one public identity.
\<close>

theorem manifest_validate_exact: "is_ok (manifest_validate e m) \<longleftrightarrow> manifest_ok e m"
proof -
  have "is_ok (manifest_validate e m) \<longleftrightarrow>
      m_version m = 2 \<and> uuid_canon e (m_repository m) = Some (m_repository m)
      \<and> (\<exists>t. r_fold preserve_commit (preserved_commits m) no_tables = Inr t
           \<and> is_ok (r_fold (publish_entry e (m_repository m)) (snapshots m) t))"
    by (auto simp: manifest_validate_def is_ok_bind validate_repository_id_def
        SESSION_ENVELOPE_VERSION_def is_ok_iff r_bind_eq_Inr split: if_splits)
  also have "\<dots> \<longleftrightarrow> manifest_ok e m"
    by (auto simp: preserve_fold publish_fold manifest_ok_def agrees_iff no_tables_def)
  finally show ?thesis .
qed

section \<open>Committers are read from the header\<close>

lemma split_once_str_SomeD: "split_once_str p s = Some (a, b) \<Longrightarrow> s = a @ p @ b"
proof (induction s arbitrary: a)
  case Nil
  then show ?case by (simp split: if_splits)
next
  case (Cons x xs)
  then show ?case by (auto simp: strip_prefix_Some split: option.splits)
qed

text \<open>The first occurrence of a pattern does not depend on what follows it.\<close>

lemma split_once_str_tail:
  assumes "split_once_str p s = Some (a, b)" and "p \<noteq> []"
  shows "split_once_str p (a @ p @ b') = Some (a, b')"
  using assms
proof (induction s arbitrary: a)
  case Nil
  then show ?case by simp
next
  case (Cons x xs)
  show ?case
  proof (cases "strip_prefix p (x # xs)")
    case None
    with Cons.prems(1) obtain a' where a: "a = x # a'" and xs: "split_once_str p xs = Some (a', b)" by auto
    from None split_once_str_SomeD [OF xs] have "\<not> prefix p ((x # a' @ p) @ b)" by (simp add: strip_prefix_None)
    then have "\<not> prefix p ((x # a' @ p) @ b')"
      using prefix_length_prefix [of p "(x # a' @ p) @ b'" "x # a' @ p"] prefixI prefix_prefix by fastforce
    with Cons.IH [OF xs Cons.prems(2)] a show ?thesis by (simp add: strip_prefix_None [symmetric])
  next
    case (Some r)
    with Cons.prems show ?thesis by (cases p) auto
  qed
qed

lemma from_commit_Inr:
  "from_commit e bytes account = Inr s \<longleftrightarrow>
     length bytes \<le> 1024 * 1024
     \<and> (\<exists>header body. split_once_str BLANK_LINE bytes = Some (header, body)
          \<and> committer_lines header = [git_identity s])
     \<and> sc_account s = account \<and> committer_validate e s = Inr ()"
proof (cases "split_once_str BLANK_LINE bytes")
  case None
  then show ?thesis by (simp add: from_commit_def)
next
  case (Some hb)
  then show ?thesis
    by (cases s; cases "committer_lines (fst hb)")
      (auto simp: from_commit_def r_bind_eq_Inr Let_def split: prod.splits if_splits)
qed

lemma attribution_Account:
  assumes "committer_validate e s = Inr ()"
  shows "attribution e s hub = Inr (Account a) \<longleftrightarrow>
     (\<exists>i. sc_account s = Some i \<and> a_account i = a \<and> canonical_hub e hub = Inr (a_hub i))"
  using assms by (auto simp: attribution_def r_bind_eq_Inr split: option.splits if_splits)

text \<open>
  A source committer is evidence from the header of the commit. Its Git identity is the one
  \<open>committer\<close> line before the first blank line; nothing in the message, however it is worded, changes
  the result. And it is attributed to an account exactly when that account was given for the same
  Hub; otherwise the attribution is the digest of the private evidence.
\<close>

theorem committer_evidence:
  assumes "from_commit e bytes account = Inr s"
  shows "(\<exists>header body. bytes = header @ BLANK_LINE @ body \<and> committer_lines header = [git_identity s]
            \<and> (\<forall>message. length (header @ BLANK_LINE @ message) \<le> 1024 * 1024 \<longrightarrow>
                   from_commit e (header @ BLANK_LINE @ message) account = Inr s))
         \<and> (\<forall>hub a. attribution e s hub = Inr (Account a) \<longleftrightarrow>
              (\<exists>i. account = Some i \<and> a_account i = a \<and> canonical_hub e hub = Inr (a_hub i)))"
proof -
  from assms obtain header body where h: "split_once_str BLANK_LINE bytes = Some (header, body)"
    and c: "committer_lines header = [git_identity s]" and a: "sc_account s = account"
    and v: "committer_validate e s = Inr ()" by (auto simp: from_commit_Inr)
  have "split_once_str BLANK_LINE (header @ BLANK_LINE @ message) = Some (header, message)" for message
    by (rule split_once_str_tail [OF h]) (simp add: BLANK_LINE_def)
  with c a v have "\<forall>message. length (header @ BLANK_LINE @ message) \<le> 1024 * 1024 \<longrightarrow>
      from_commit e (header @ BLANK_LINE @ message) account = Inr s"
    by (auto simp: from_commit_Inr)
  with split_once_str_SomeD [OF h] c attribution_Account [OF v] a show ?thesis by blast
qed

text \<open>Parameters for the witnesses: any text is a UUID and a time, and digests are zero.\<close>

definition plain_ext :: privacy_ext where
  "plain_ext = \<lparr>uuid_canon = Some, rfc3339 = (\<lambda>_. True), uri_of = plain_uri,
     key_digest = (\<lambda>_. replicate 64 CHR ''0''), committer_digest = (\<lambda>_. replicate 64 CHR ''0'')\<rparr>"

definition sample_commit :: string where
  "sample_commit = ''tree t'' @ [CHR 0x0A] @ ''committer A <a@x> 1 +0000'' @ [CHR 0x0A, CHR 0x0A] @ ''committer B''"

theorem committer_evidence_witness:
  "\<exists>s header body. from_commit plain_ext sample_commit None = Inr s \<and> sample_commit = header @ BLANK_LINE @ body
     \<and> committer_lines header = [''A <a@x> 1 +0000'']"
proof -
  have "split_once_str BLANK_LINE sample_commit
      = Some (''tree t'' @ [CHR 0x0A] @ ''committer A <a@x> 1 +0000'', ''committer B'')"
    and "committer_lines (''tree t'' @ [CHR 0x0A] @ ''committer A <a@x> 1 +0000'') = [''A <a@x> 1 +0000'']"
    by code_simp+
  moreover have "length sample_commit = 45" by (simp add: sample_commit_def)
  moreover have "committer_validate plain_ext \<lparr>git_identity = ''A <a@x> 1 +0000'', sc_account = None\<rparr> = Inr ()"
    by (simp add: committer_validate_def)
  ultimately have c: "from_commit plain_ext sample_commit None
      = Inr \<lparr>git_identity = ''A <a@x> 1 +0000'', sc_account = None\<rparr>"
    by (simp add: from_commit_Inr)
  from committer_evidence [OF this] c show ?thesis by auto
qed

section \<open>Ownership\<close>

text \<open>A session born here is valid, and an account given for a Hub is canonical there.\<close>

lemma account_new_valid: "account_new e hub a = Inr i \<Longrightarrow> account_validate e i = Inr ()"
  by (auto simp: account_new_def r_bind_eq_Inr Let_def)

lemma privacy_new_valid: "privacy_new e c = Inr p \<Longrightarrow> privacy_validate e p = Inr ()"
  by (cases c) (auto simp: privacy_new_def privacy_validate_def account_validate_def source_check_def
      r_bind_eq_Inr ensure_eq split: if_splits)

text \<open>A snapshot that passes its registration is encrypted to the account that owns the session.\<close>

lemma verify_config_owner:
  assumes "verify_config e b c = Inr ()"
  shows "owner (privacy c) = Some (User (ok_account (owner_key b)))"
    and "owner_source (privacy c) = Creator \<Longrightarrow> creator (privacy c) = Some (ok_account (owner_key b))"
    and "owner_source (privacy c) \<noteq> Unresolved"
  using assms
  by (auto simp: verify_config_def config_validate_def privacy_validate_def source_check_def
      r_bind_eq_Inr ensure_eq split: OwnerResolution.splits option.splits if_splits)

end
