(* ===== verification/SessionGrants.thy ===== *)
theory SessionGrants
  imports SessionPrivacy
begin

text \<open>
  Read authorization for the originals of a session (\<open>src/domain/session_grants.rs\<close>): the target of a
  grant (a whole session or one published commit), the policy of a session with its two revisions,
  the mutations a client sends and the checks it makes of the answers, and the effective access of
  a reader. Revisions are \<open>i64\<close>; the fresh UUID of an idempotency key is an argument.

  The lemmas show that a verified answer is the one that was asked for and that its revision is the
  mathematical successor of the expected one, and which entitlements can let a reader in.
\<close>

type_synonym i64 = "64 word"

datatype grant_error =
    Privacy privacy_error
  | InvalidTargetSession
  | InvalidEnvelopeDigest
  | TargetDiffers
  | InvalidGrantRevision
  | PolicyElsewhere
  | ScopeChanged
  | NotSessionTarget
  | PolicyContradicts
  | RevisionExhausted
  | UnexpectedRevisions
  | ActiveSessionEntitlements

abbreviation lift_privacy :: "privacy_error + 'a \<Rightarrow> grant_error + 'a" where
  "lift_privacy \<equiv> map_err Privacy"

section \<open>Targets\<close>

datatype GrantScope = SessionScope | CommitScope

fun scope_str :: "GrantScope \<Rightarrow> string" where
  "scope_str SessionScope = ''session''"
| "scope_str CommitScope = ''commit''"

datatype GrantTarget =
    SessionTarget (agent_id: string) (session_id: string)
  | CommitTarget (agent_id: string) (session_id: string) (target_commit: string) (target_digest: string)

fun target_scope :: "GrantTarget \<Rightarrow> GrantScope" where
  "target_scope (SessionTarget _ _) = SessionScope"
| "target_scope (CommitTarget _ _ _ _) = CommitScope"

definition target_validate :: "privacy_ext \<Rightarrow> GrantTarget \<Rightarrow> grant_error + unit" where
  "target_validate e t =
     r_bind (lift_privacy (validate_repository_id e (agent_id t))) (\<lambda>_.
     r_bind (ensure (is_bare_id (session_id t)) InvalidTargetSession) (\<lambda>_.
       case t of
         SessionTarget _ _ \<Rightarrow> Inr ()
       | CommitTarget _ _ c d \<Rightarrow>
           r_bind (lift_privacy (validate_oid c)) (\<lambda>_.
           r_bind (ensure (prefix ''sha256:'' d \<and> length d = 71) InvalidEnvelopeDigest) (\<lambda>_.
             lift_privacy (validate_oid (drop 7 d))))))"

definition target_session :: "privacy_ext \<Rightarrow> string \<Rightarrow> string \<Rightarrow> grant_error + GrantTarget" where
  "target_session e agent sess =
     (let t = SessionTarget agent sess in r_bind (target_validate e t) (\<lambda>_. Inr t))"

definition target_of_snapshot :: "privacy_ext \<Rightarrow> AcceptedSnapshot \<Rightarrow> grant_error + GrantTarget" where
  "target_of_snapshot e s =
     r_bind (lift_privacy (snapshot_validate e s)) (\<lambda>_.
       Inr (CommitTarget (b_repository (binding s)) (b_session (binding s)) (published_commit s)
              (envelope_digest s)))"

definition target_verify :: "privacy_ext \<Rightarrow> GrantTarget \<Rightarrow> GrantTarget \<Rightarrow> grant_error + unit" where
  "target_verify e t expected =
     r_bind (target_validate e t) (\<lambda>_.
     r_bind (target_validate e expected) (\<lambda>_. ensure (t = expected) TargetDiffers))"

section \<open>Policies\<close>

record SessionGrantPolicy =
  gp_agent :: string
  gp_session :: string
  grant_scope :: GrantScope
  policy_revision :: i64
  grant_revision :: i64

definition valid_revision :: "i64 \<Rightarrow> grant_error + unit" where
  "valid_revision r = ensure (0 <s r) InvalidGrantRevision"

definition policy_target :: "privacy_ext \<Rightarrow> SessionGrantPolicy \<Rightarrow> grant_error + GrantTarget" where
  "policy_target e p = target_session e (gp_agent p) (gp_session p)"

definition policy_validate :: "privacy_ext \<Rightarrow> SessionGrantPolicy \<Rightarrow> grant_error + unit" where
  "policy_validate e p =
     r_bind (policy_target e p) (\<lambda>_.
     r_bind (valid_revision (policy_revision p)) (\<lambda>_. valid_revision (grant_revision p)))"

definition policy_verify :: "privacy_ext \<Rightarrow> SessionGrantPolicy \<Rightarrow> string \<Rightarrow> string \<Rightarrow> grant_error + unit" where
  "policy_verify e p agent sess =
     r_bind (policy_validate e p) (\<lambda>_.
       ensure (gp_agent p = agent \<and> gp_session p = sess) PolicyElsewhere)"

definition verify_target :: "privacy_ext \<Rightarrow> SessionGrantPolicy \<Rightarrow> GrantTarget \<Rightarrow> grant_error + unit" where
  "verify_target e p t =
     r_bind (policy_verify e p (agent_id t) (session_id t)) (\<lambda>_.
     r_bind (target_validate e t) (\<lambda>_.
       ensure (grant_scope p = target_scope t) ScopeChanged))"

record GrantPolicyMutation =
  pm_target :: GrantTarget
  pm_scope :: GrantScope
  pm_policy_revision :: i64
  pm_grant_revision :: i64
  pm_key :: string

definition disable :: "privacy_ext \<Rightarrow> string \<Rightarrow> SessionGrantPolicy \<Rightarrow> grant_error + GrantPolicyMutation" where
  "disable e key p =
     r_bind (policy_validate e p) (\<lambda>_.
     r_bind (policy_target e p) (\<lambda>t.
       Inr \<lparr>pm_target = t, pm_scope = CommitScope, pm_policy_revision = policy_revision p,
            pm_grant_revision = grant_revision p, pm_key = key\<rparr>))"

definition policy_mutation_validate :: "privacy_ext \<Rightarrow> GrantPolicyMutation \<Rightarrow> grant_error + unit" where
  "policy_mutation_validate e m =
     r_bind (target_validate e (pm_target m)) (\<lambda>_.
     r_bind (ensure (target_scope (pm_target m) = SessionScope) NotSessionTarget) (\<lambda>_.
     r_bind (valid_revision (pm_policy_revision m)) (\<lambda>_.
     r_bind (valid_revision (pm_grant_revision m)) (\<lambda>_.
       lift_privacy (validate_identifier (pm_key m))))))"

record GrantPolicyResult =
  pr_policy :: SessionGrantPolicy
  converted_recipients :: u64
  converted_snapshots :: u64

definition policy_result_verify ::
  "privacy_ext \<Rightarrow> GrantPolicyResult \<Rightarrow> GrantPolicyMutation \<Rightarrow> grant_error + unit" where
  "policy_result_verify e r m =
     r_bind (policy_mutation_validate e m) (\<lambda>_.
     r_bind (policy_verify e (pr_policy r) (agent_id (pm_target m)) (session_id (pm_target m))) (\<lambda>_.
       ensure (grant_scope (pr_policy r) = pm_scope m
               \<and> pm_policy_revision m \<le>s policy_revision (pr_policy r)
               \<and> pm_grant_revision m \<le>s grant_revision (pr_policy r)) PolicyContradicts))"

section \<open>Grants\<close>

datatype GrantOperation = Grant string | Revoke string | StopExplicit

record GrantMutation =
  gm_target :: GrantTarget
  gm_policy_revision :: i64
  gm_grant_revision :: i64
  gm_key :: string
  gm_action :: GrantOperation

definition grant_new :: "string \<Rightarrow> GrantTarget \<Rightarrow> i64 \<Rightarrow> i64 \<Rightarrow> GrantOperation \<Rightarrow> GrantMutation" where
  "grant_new key t p g action =
     \<lparr>gm_target = t, gm_policy_revision = p, gm_grant_revision = g, gm_key = key, gm_action = action\<rparr>"

definition I64_MAX :: i64 where
  "I64_MAX = 9223372036854775807"

definition grant_validate :: "privacy_ext \<Rightarrow> GrantMutation \<Rightarrow> grant_error + unit" where
  "grant_validate e m =
     r_bind (target_validate e (gm_target m)) (\<lambda>_.
     r_bind (valid_revision (gm_policy_revision m)) (\<lambda>_.
     r_bind (valid_revision (gm_grant_revision m)) (\<lambda>_.
     r_bind (ensure (gm_grant_revision m <s I64_MAX) RevisionExhausted) (\<lambda>_.
     r_bind (lift_privacy (validate_identifier (gm_key m))) (\<lambda>_.
       case gm_action m of
         Grant p \<Rightarrow> lift_privacy (validate_identifier p)
       | Revoke a \<Rightarrow> lift_privacy (validate_identifier a)
       | StopExplicit \<Rightarrow> Inr ())))))"

record GrantResult =
  gr_target :: GrantTarget
  gr_policy_revision :: i64
  gr_grant_revision :: i64

definition grant_result_verify :: "privacy_ext \<Rightarrow> GrantResult \<Rightarrow> GrantMutation \<Rightarrow> grant_error + unit" where
  "grant_result_verify e r m =
     r_bind (grant_validate e m) (\<lambda>_.
     r_bind (target_verify e (gr_target r) (gm_target m)) (\<lambda>_.
       ensure (gr_policy_revision r = gm_policy_revision m
               \<and> gr_grant_revision r = gm_grant_revision m + 1) UnexpectedRevisions))"

section \<open>Readers\<close>

record ReaderAccess =
  current_member :: bool
  owner_default :: bool
  committer_default :: bool
  explicit_grant :: bool
  session_explicit_grant :: bool
  revoked :: bool
  session_revoked :: bool
  default_suppressed :: bool
  membership_invalidated :: bool
  session_membership_invalidated :: bool

definition can_read :: "ReaderAccess \<Rightarrow> bool" where
  "can_read r \<longleftrightarrow>
     current_member r \<and> \<not> revoked r \<and> \<not> session_revoked r
     \<and> ((\<not> membership_invalidated r
          \<and> (explicit_grant r \<or> (\<not> default_suppressed r \<and> (owner_default r \<or> committer_default r))))
        \<or> (\<not> session_membership_invalidated r \<and> session_explicit_grant r))"

definition verify_scope :: "ReaderAccess \<Rightarrow> GrantScope \<Rightarrow> grant_error + unit" where
  "verify_scope r s =
     ensure (s = SessionScope
             \<or> \<not> session_explicit_grant r \<and> \<not> session_revoked r
               \<and> \<not> session_membership_invalidated r \<and> \<not> default_suppressed r) ActiveSessionEntitlements"

section \<open>Verified answers\<close>

lemma map_err_ok [simp]: "map_err f r = Inr a \<longleftrightarrow> r = Inr a"
  by (simp add: map_err_def split: sum.splits)

lemma target_session_ok:
  "target_session e a i = Inr t \<longleftrightarrow> t = SessionTarget a i \<and> target_validate e t = Inr ()"
  by (auto simp: target_session_def Let_def r_bind_eq_Inr)

text \<open>The target made from an accepted snapshot is a valid commit target.\<close>

lemma target_of_snapshot_valid:
  assumes "target_of_snapshot e s = Inr t"
  shows "target_validate e t = Inr ()" and "target_scope t = CommitScope"
proof -
  from assms have v: "snapshot_validate e s = Inr ()"
    and t: "t = CommitTarget (b_repository (binding s)) (b_session (binding s)) (published_commit s) (envelope_digest s)"
    by (auto simp: target_of_snapshot_def r_bind_eq_Inr)
  from v obtain hex where "envelope_digest s = ''sha256:'' @ hex" and "length hex = 64" and "validate_oid hex = Inr ()"
    by (auto simp: snapshot_validate_def validate_digest_def r_bind_eq_Inr ok_or_eq strip_prefix_Some split: if_splits)
  with v t show "target_validate e t = Inr ()"
    by (auto simp: target_validate_def snapshot_validate_def binding_validate_def r_bind_eq_Inr split: if_splits)
  from t show "target_scope t = CommitScope" by simp
qed

lemma valid_revision_ok: "valid_revision r = Inr u \<longleftrightarrow> 0 < sint r"
  by (simp add: valid_revision_def ensure_eq word_sless_alt)

text \<open>Below the maximum the successor of a revision is its mathematical successor.\<close>

lemma sint_succ: "r <s I64_MAX \<Longrightarrow> sint (r + 1) = sint r + 1"
proof -
  assume "r <s I64_MAX"
  then have less: "sint r < 9223372036854775807" by (simp add: I64_MAX_def word_sless_alt)
  have "- 9223372036854775808 \<le> sint r" using sint_ge [of r] by simp
  with less have "signed_take_bit 63 (sint r + 1) = sint r + 1" by (intro signed_take_bit_int_eq_self) simp_all
  then show ?thesis by (simp add: sint_word_ariths)
qed

lemma grant_result_verify_ok:
  "grant_result_verify e r m = Inr u \<longleftrightarrow>
     grant_validate e m = Inr () \<and> gr_target r = gm_target m
     \<and> gr_policy_revision r = gm_policy_revision m \<and> gr_grant_revision r = gm_grant_revision m + 1"
  by (auto simp: grant_result_verify_def target_verify_def grant_validate_def r_bind_eq_Inr ensure_eq
      split: if_splits)

lemma grant_validate_revision:
  "grant_validate e m = Inr u \<Longrightarrow> 0 < sint (gm_grant_revision m) \<and> gm_grant_revision m <s I64_MAX"
  by (auto simp: grant_validate_def r_bind_eq_Inr valid_revision_ok split: if_splits)

lemma disable_ok:
  "disable e key p = Inr m \<Longrightarrow> policy_validate e p = Inr ()
     \<and> pm_target m = SessionTarget (gp_agent p) (gp_session p) \<and> pm_scope m = CommitScope
     \<and> pm_policy_revision m = policy_revision p \<and> pm_grant_revision m = grant_revision p"
  by (auto simp: disable_def r_bind_eq_Inr policy_target_def target_session_ok)

text \<open>
  C39. What a verified answer of the Hub establishes. A grant or revocation is answered for exactly
  the requested target, under the policy revision the client saw, with the grant revision that
  follows the expected one as a number: the addition never wraps. Once the answer to a
  \<open>disable\<close> request is verified, the session's policy refuses every session-wide target.
\<close>

theorem verified_answers:
  "(grant_result_verify e r m = Inr () \<longrightarrow>
      gr_target r = gm_target m \<and> gr_policy_revision r = gm_policy_revision m
      \<and> sint (gr_grant_revision r) = sint (gm_grant_revision m) + 1 \<and> 1 < sint (gr_grant_revision r))
   \<and> (disable e key p = Inr d \<and> policy_result_verify e q d = Inr () \<longrightarrow>
        verify_target e (pr_policy q) (SessionTarget (gp_agent p) (gp_session p)) = Inl ScopeChanged)"
proof (intro conjI impI; (elim conjE)?)
  assume "grant_result_verify e r m = Inr ()"
  then have "grant_validate e m = Inr ()" and eq: "gr_target r = gm_target m"
    "gr_policy_revision r = gm_policy_revision m" "gr_grant_revision r = gm_grant_revision m + 1"
    by (simp_all add: grant_result_verify_ok)
  from grant_validate_revision [OF this(1)] eq sint_succ
  show "gr_target r = gm_target m" and "gr_policy_revision r = gm_policy_revision m"
    and "sint (gr_grant_revision r) = sint (gm_grant_revision m) + 1" and "1 < sint (gr_grant_revision r)"
    by simp_all
next
  assume "disable e key p = Inr d" and v: "policy_result_verify e q d = Inr ()"
  from disable_ok [OF this(1)] have d: "pm_target d = SessionTarget (gp_agent p) (gp_session p)"
    and s: "pm_scope d = CommitScope" by simp_all
  from v d have "policy_verify e (pr_policy q) (gp_agent p) (gp_session p) = Inr ()"
    and "target_validate e (SessionTarget (gp_agent p) (gp_session p)) = Inr ()"
    by (auto simp: policy_result_verify_def policy_mutation_validate_def r_bind_eq_Inr split: if_splits)
  moreover from v s have "grant_scope (pr_policy q) = CommitScope"
    by (auto simp: policy_result_verify_def r_bind_eq_Inr ensure_eq)
  ultimately show "verify_target e (pr_policy q) (SessionTarget (gp_agent p) (gp_session p)) = Inl ScopeChanged"
    by (simp add: verify_target_def)
qed

definition sample_session :: string where
  "sample_session = ''agit-'' @ replicate 40 CHR ''a''"

definition sample_grant :: GrantMutation where
  "sample_grant = grant_new ''k'' (SessionTarget ''r'' sample_session) 1 7 StopExplicit"

theorem verified_answers_witness:
  "sint (gr_grant_revision \<lparr>gr_target = SessionTarget ''r'' sample_session, gr_policy_revision = 1,
      gr_grant_revision = 8\<rparr>) = sint (gm_grant_revision sample_grant) + 1"
proof -
  let ?r = "\<lparr>gr_target = SessionTarget ''r'' sample_session, gr_policy_revision = 1, gr_grant_revision = 8\<rparr>"
  have "grant_result_verify plain_ext ?r sample_grant = Inr ()" by code_simp
  with verified_answers [of plain_ext ?r sample_grant] show ?thesis by blast
qed

section \<open>Who can read\<close>

text \<open>Under a commit policy only the commit's own entitlements count.\<close>

lemma can_read_commit_policy:
  assumes "verify_scope r CommitScope = Inr ()"
  shows "can_read r \<longleftrightarrow> current_member r \<and> \<not> revoked r \<and> \<not> membership_invalidated r
           \<and> (explicit_grant r \<or> owner_default r \<or> committer_default r)"
  using assms by (auto simp: verify_scope_def can_read_def ensure_eq)

text \<open>Revocation and loss of membership win over every entitlement.\<close>

lemma revocation_wins: "revoked r \<or> session_revoked r \<or> \<not> current_member r \<Longrightarrow> \<not> can_read r"
  by (auto simp: can_read_def)

text \<open>A suppressed default comes back only through an explicit grant.\<close>

lemma suppressed_default_needs_grant:
  "default_suppressed r \<Longrightarrow> can_read r \<Longrightarrow> explicit_grant r \<or> session_explicit_grant r"
  by (auto simp: can_read_def)

end
