(* ===== verification/Utf8.thy ===== *)
theory Utf8
  imports Prelude
begin

text \<open>
  UTF-8 as the Rust standard library reads it: the decoding of \<open>to_string_lossy\<close> (a sequence that
  breaks off is one replacement character) and the check of \<open>str::from_utf8\<close>. Code points and bytes
  are integers.

  The lemmas show how validity splits: after a valid prefix what follows decides, and before an
  ASCII byte nothing can be left open.
\<close>

section \<open>Decoding\<close>

type_synonym uchar = int

definition byte :: "char \<Rightarrow> int" where
  "byte c = of_char c"

definition between :: "int \<Rightarrow> int \<Rightarrow> int \<Rightarrow> bool" where
  "between lo hi b \<longleftrightarrow> lo \<le> b \<and> b \<le> hi"

text \<open>How many bytes follow a leading byte, and the range of the first of them.\<close>

definition lead :: "int \<Rightarrow> (nat \<times> int \<times> int) option" where
  "lead b =
     (if between 0xC2 0xDF b then Some (1, 0x80, 0xBF)
      else if b = 0xE0 then Some (2, 0xA0, 0xBF)
      else if b = 0xED then Some (2, 0x80, 0x9F)
      else if between 0xE1 0xEF b then Some (2, 0x80, 0xBF)
      else if b = 0xF0 then Some (3, 0x90, 0xBF)
      else if between 0xF1 0xF3 b then Some (3, 0x80, 0xBF)
      else if b = 0xF4 then Some (3, 0x80, 0x8F)
      else None)"

text \<open>The continuation bytes that are there: what is left to read, the value so far, the rest.\<close>

fun cont :: "nat \<Rightarrow> int \<Rightarrow> int \<Rightarrow> int \<Rightarrow> int list \<Rightarrow> nat \<times> int \<times> int list" where
  "cont n lo hi v [] = (n, v, [])"
| "cont n lo hi v (b # bs) =
     (if n = 0 \<or> \<not> between lo hi b then (n, v, b # bs) else cont (n - 1) 0x80 0xBF (v * 64 + b mod 64) bs)"

lemma cont_length: "length (snd (snd (cont n lo hi v bs))) \<le> length bs"
  by (induction n lo hi v bs rule: cont.induct) auto

text \<open>A sequence that breaks off is one replacement character.\<close>

function decode :: "int list \<Rightarrow> uchar list" where
  "decode [] = []"
| "decode (b # bs) =
     (if b < 0x80 then b # decode bs
      else case lead b of
             None \<Rightarrow> 0xFFFD # decode bs
           | Some (n, lo, hi) \<Rightarrow>
               (let r = cont n lo hi (b mod 2 ^ (6 - n)) bs
                in (if fst r = 0 then fst (snd r) else 0xFFFD) # decode (snd (snd r))))"
  by pat_completeness auto
termination
  by (relation "measure length") (simp_all add: less_Suc_eq_le cont_length)

definition lossy :: "string \<Rightarrow> uchar list" where
  "lossy s = decode (map byte s)"

definition codes :: "string \<Rightarrow> uchar list" where
  "codes s = map byte s"

section \<open>Validity\<close>

function valid_bytes :: "int list \<Rightarrow> bool" where
  "valid_bytes [] = True"
| "valid_bytes (b # bs) =
     (if b < 0x80 then valid_bytes bs
      else case lead b of
             None \<Rightarrow> False
           | Some (n, lo, hi) \<Rightarrow>
               (let r = cont n lo hi 0 bs in if fst r = 0 then valid_bytes (snd (snd r)) else False))"
  by pat_completeness auto
termination
  by (relation "measure length") (simp_all add: less_Suc_eq_le cont_length)

definition valid_utf8 :: "string \<Rightarrow> bool" where
  "valid_utf8 s = valid_bytes (map byte s)"

lemma cont_append:
  "fst (cont n lo hi v bs) = 0 \<Longrightarrow> cont n lo hi v (bs @ cs) = (let r = cont n lo hi v bs in (0, fst (snd r), snd (snd r) @ cs))"
proof (induction n lo hi v bs rule: cont.induct)
  case (1 n lo hi v)
  then show ?case by (cases cs) auto
qed (auto simp: Let_def)

lemma valid_bytes_append: "valid_bytes as \<Longrightarrow> valid_bytes (as @ bs) \<longleftrightarrow> valid_bytes bs"
proof (induction as rule: valid_bytes.induct)
  case (2 a as)
  show ?case
  proof (cases "a < 0x80")
    case False
    with "2.prems" obtain n lo hi where l: "lead a = Some (n, lo, hi)" and z: "fst (cont n lo hi 0 as) = 0"
      and "valid_bytes (snd (snd (cont n lo hi 0 as)))"
      by (auto simp: Let_def split: if_splits option.splits)
    with "2.IH"(2) [OF False l _ refl] False show ?thesis by (simp add: cont_append Let_def)
  qed (use 2 in simp)
qed simp

text \<open>A continuation never reaches across an ASCII byte.\<close>

lemma cont_ascii:
  assumes "b < 0x80" and "0x80 \<le> lo" and "fst (cont n lo hi v (as @ b # bs)) = 0"
  shows "fst (cont n lo hi v as) = 0"
  using assms(2,3)
proof (induction n lo hi v as rule: cont.induct)
  case (1 n lo hi v)
  with assms(1) show ?case by (auto simp: between_def split: if_splits)
qed (auto split: if_splits)

lemma lead_range: "lead b = Some (n, lo, hi) \<Longrightarrow> 0x80 \<le> lo"
  by (auto simp: lead_def split: if_splits)

lemma valid_bytes_before_ascii: "valid_bytes (as @ b # bs) \<Longrightarrow> b < 0x80 \<Longrightarrow> valid_bytes as"
proof (induction as rule: valid_bytes.induct)
  case (2 a as)
  show ?case
  proof (cases "a < 0x80 \<or> lead a = None")
    case True
    with 2 show ?thesis by (auto split: option.splits if_splits)
  next
    case False
    then obtain n lo hi where l: "lead a = Some (n, lo, hi)" and a: "\<not> a < 0x80" by auto
    with "2.prems" have "fst (cont n lo hi 0 (as @ b # bs)) = 0" by (auto simp: Let_def split: if_splits)
    from cont_ascii [OF "2.prems"(2) lead_range [OF l] this] have z: "fst (cont n lo hi 0 as) = 0" .
    with "2.prems"(1) l a have "valid_bytes (snd (snd (cont n lo hi 0 as)) @ b # bs)"
      by (simp add: cont_append Let_def)
    with "2.IH"(2) [OF a l _ refl] "2.prems"(2) z l a show ?thesis by (simp add: Let_def)
  qed
qed simp

lemma valid_utf8_append: "valid_utf8 s \<Longrightarrow> valid_utf8 (s @ t) \<longleftrightarrow> valid_utf8 t"
  by (simp add: valid_utf8_def valid_bytes_append)

lemma byte_newline [simp]: "byte CHR 0x0A = 10"
  by (simp add: byte_def)

lemma valid_utf8_newline: "valid_utf8 (s @ CHR 0x0A # t) \<longleftrightarrow> valid_utf8 s \<and> valid_utf8 t"
proof
  assume v: "valid_utf8 (s @ CHR 0x0A # t)"
  then have "valid_utf8 s" by (auto simp: valid_utf8_def dest: valid_bytes_before_ascii)
  with v show "valid_utf8 s \<and> valid_utf8 t" by (simp add: valid_utf8_append) (simp add: valid_utf8_def)
next
  assume "valid_utf8 s \<and> valid_utf8 t"
  then show "valid_utf8 (s @ CHR 0x0A # t)" by (simp add: valid_utf8_append) (simp add: valid_utf8_def)
qed

end
