(* ===== verification/PathPolicy.thy ===== *)
theory PathPolicy
  imports Prelude
begin

text \<open>
  Path confinement on the machine (\<open>src/rc/policy.rs\<close>): where a spelled path lands, whether that is
  inside the bound projects, and under which names a file is reached along the way. The Unix
  build is modelled.

  The operating system's answers (\<open>readlink\<close>, \<open>realpath\<close>, \<open>lstat\<close>, \<open>stat\<close>, \<open>readdir\<close>) are a
  parameter, the record \<open>fs\<close>. Paths are the component lists Rust compares them by.

  The second half of the theory gives the kernel's own path walk over a tree of files,
  directories and symbolic links, derives the answers from it, and proves that the location the
  resolver reports is the one the kernel opens: what is judged confined is what is opened.
\<close>

section \<open>Paths\<close>

datatype component = RootDir | CurDir | ParentDir | Normal string

type_synonym path = "component list"

text \<open>
  \<open>Path::components\<close>: repeated slashes and inner dots disappear, a leading dot of a relative path
  is kept.
\<close>

definition body_component :: "string \<Rightarrow> component option" where
  "body_component s =
     (if s = [] \<or> s = ''.'' then None else if s = ''..'' then Some ParentDir else Some (Normal s))"

definition parse_path :: "string \<Rightarrow> path" where
  "parse_path s =
     (let segs = split_on CHR ''/'' s
      in if prefix ''/'' s then RootDir # List.map_filter body_component segs
         else if hd segs = ''.'' then CurDir # List.map_filter body_component (tl segs)
         else List.map_filter body_component segs)"

definition is_absolute :: "path \<Rightarrow> bool" where
  "is_absolute p \<longleftrightarrow> p \<noteq> [] \<and> hd p = RootDir"

definition join :: "path \<Rightarrow> path \<Rightarrow> path" where
  "join p q =
     (if is_absolute q then q else if p = [] then q else p @ filter (\<lambda>c. c \<noteq> CurDir) q)"

text \<open>\<open>Path::parent\<close>, \<open>PathBuf::pop\<close>, \<open>Path::starts_with\<close> and \<open>Path::ancestors\<close>.\<close>

definition parent :: "path \<Rightarrow> path option" where
  "parent p = (if p = [] \<or> last p = RootDir then None else Some (butlast p))"

definition pop :: "path \<Rightarrow> path" where
  "pop p = (case parent p of Some q \<Rightarrow> q | None \<Rightarrow> p)"

definition starts_with :: "path \<Rightarrow> path \<Rightarrow> bool" where
  "starts_with p q \<longleftrightarrow> prefix q p"

function ancestors :: "path \<Rightarrow> path list" where
  "ancestors p = p # (case parent p of Some q \<Rightarrow> ancestors q | None \<Rightarrow> [])"
  by pat_completeness auto
termination
  by (relation "measure length") (auto simp: parent_def split: if_splits)

declare ancestors.simps [simp del]

text \<open>\<open>lexical\<close> folds the spelling without asking the file system.\<close>

definition lexical_step :: "component \<Rightarrow> path \<Rightarrow> path" where
  "lexical_step c out =
     (case c of
        ParentDir \<Rightarrow> pop out
      | CurDir \<Rightarrow> out
      | RootDir \<Rightarrow> [RootDir]
      | Normal n \<Rightarrow> out @ [Normal n])"

definition lexical :: "path \<Rightarrow> path" where
  "lexical p = fold lexical_step p []"

section \<open>The file system's answers\<close>

datatype file_type = FileT | DirT | LinkT

datatype stat_result = Meta file_type | NotFound | StatError

text \<open>An entry of \<open>readdir\<close> may itself be an error, and so may the question of its type.\<close>

datatype dir_result = Entries "(string \<times> file_type option) option list" | DirMissing | DirError

record fs =
  read_link :: "path \<Rightarrow> path option"
  canonicalize :: "path \<Rightarrow> path option"
  symlink_metadata :: "path \<Rightarrow> stat_result"
  metadata :: "path \<Rightarrow> stat_result"
  read_dir :: "path \<Rightarrow> dir_result"

definition canonical :: "fs \<Rightarrow> path \<Rightarrow> path" where
  "canonical f p = (case canonicalize f p of Some c \<Rightarrow> c | None \<Rightarrow> lexical p)"

section \<open>Budgets\<close>

record AliasBudget =
  dirents :: nat
  links :: nat
  segments :: nat

definition new_budget :: AliasBudget where
  "new_budget = \<lparr>dirents = 200000, links = 2000, segments = 2000000\<rparr>"

definition for_one_path :: AliasBudget where
  "for_one_path = new_budget\<lparr>segments := 250000\<rparr>"

text \<open>What cannot be charged is charged to zero.\<close>

definition take_n :: "nat \<Rightarrow> nat \<Rightarrow> bool \<times> nat" where
  "take_n n counter = (if n \<le> counter then (True, counter - n) else (False, 0))"

definition take_dirent :: "AliasBudget \<Rightarrow> bool \<times> AliasBudget" where
  "take_dirent b = (let (ok, left) = take_n 1 (dirents b) in (ok, b\<lparr>dirents := left\<rparr>))"

definition take_link :: "AliasBudget \<Rightarrow> bool \<times> AliasBudget" where
  "take_link b = (let (ok, left) = take_n 1 (links b) in (ok, b\<lparr>links := left\<rparr>))"

definition take_segments :: "nat \<Rightarrow> AliasBudget \<Rightarrow> bool \<times> AliasBudget" where
  "take_segments deep b = (let (ok, left) = take_n deep (segments b) in (ok, b\<lparr>segments := left\<rparr>))"

text \<open>The optional account of the resolver: without one everything is free.\<close>

definition charge :: "nat \<Rightarrow> AliasBudget option \<Rightarrow> bool \<times> AliasBudget option" where
  "charge deep w =
     (case w of
        None \<Rightarrow> (True, None)
      | Some b \<Rightarrow> (let (ok, b') = take_segments deep b in (ok, Some b')))"

section \<open>The resolver\<close>

definition MAX_LINK_HOPS :: nat where
  "MAX_LINK_HOPS = 40"

text \<open>
  What a segment that is no link turns out to be: the spelling on disk, a tail that does not exist
  yet (only in what was spelled, never in a link's text), or nothing that can be judged.
\<close>

definition settle_segment :: "fs \<Rightarrow> bool \<Rightarrow> path \<Rightarrow> path option" where
  "settle_segment f spliced cur =
     (case canonicalize f cur of
        Some real \<Rightarrow> Some real
      | None \<Rightarrow>
          (case symlink_metadata f cur of
             Meta _ \<Rightarrow> None
           | NotFound \<Rightarrow> if spliced then None else Some cur
           | StatError \<Rightarrow> None))"

text \<open>
  The loop: the location so far, the segments still to walk (each marked when it came out of a
  link's text), the links followed, and the account. A link's text goes back onto the queue.
\<close>

function resolve_loop ::
  "fs \<Rightarrow> path \<Rightarrow> (component \<times> bool) list \<Rightarrow> nat \<Rightarrow> AliasBudget option \<Rightarrow> path option \<times> AliasBudget option" where
  "resolve_loop f cur [] hops w = (Some cur, w)"
| "resolve_loop f cur ((RootDir, spliced) # rest) hops w = resolve_loop f [RootDir] rest hops w"
| "resolve_loop f cur ((CurDir, spliced) # rest) hops w = resolve_loop f cur rest hops w"
| "resolve_loop f cur ((ParentDir, spliced) # rest) hops w = resolve_loop f (pop cur) rest hops w"
| "resolve_loop f cur ((Normal name, spliced) # rest) hops w =
     (let here = cur @ [Normal name];
          (ok, w) = charge (length here) w
      in if \<not> ok then (None, w)
         else case read_link f here of
                Some target \<Rightarrow>
                  if hops + 1 > MAX_LINK_HOPS then (None, w)
                  else
                    (let (ok, w) = charge (length target) w
                     in if \<not> ok then (None, w)
                        else resolve_loop f (if is_absolute target then [] else cur)
                               (map (\<lambda>c. (c, True)) target @ rest) (hops + 1) w)
              | None \<Rightarrow>
                  (case settle_segment f spliced here of
                     Some cur' \<Rightarrow> resolve_loop f cur' rest hops w
                   | None \<Rightarrow> (None, w)))"
  by pat_completeness auto
termination
  by (relation "measures [\<lambda>(f, cur, rest, hops, w). MAX_LINK_HOPS - hops,
                          \<lambda>(f, cur, rest, hops, w). length rest]") auto

definition resolve_ancestor :: "fs \<Rightarrow> path \<Rightarrow> AliasBudget option \<Rightarrow> path option \<times> AliasBudget option" where
  "resolve_ancestor f p w = resolve_loop f [] (map (\<lambda>c. (c, False)) p) 0 w"

definition resolve_existing_ancestor :: "fs \<Rightarrow> path \<Rightarrow> path option" where
  "resolve_existing_ancestor f p = fst (resolve_ancestor f p (Some for_one_path))"

definition resolve_metered :: "fs \<Rightarrow> path \<Rightarrow> AliasBudget \<Rightarrow> path option \<times> AliasBudget" where
  "resolve_metered f p b =
     (let (r, w) = resolve_ancestor f p (Some b) in (r, case w of Some b' \<Rightarrow> b' | None \<Rightarrow> b))"

definition absolutize :: "string \<Rightarrow> path \<Rightarrow> path" where
  "absolutize s cwd = (let raw = parse_path s in if is_absolute raw then raw else join cwd raw)"

definition resolve_against :: "fs \<Rightarrow> string \<Rightarrow> path \<Rightarrow> path option" where
  "resolve_against f s cwd = resolve_existing_ancestor f (absolutize s cwd)"

section \<open>Confinement\<close>

type_synonym roots = "path list"

definition within :: "path \<Rightarrow> roots \<Rightarrow> bool" where
  "within resolved rs \<longleftrightarrow> list_ex (\<lambda>r. resolved = r \<or> starts_with resolved r) rs"

definition is_within :: "fs \<Rightarrow> path \<Rightarrow> roots \<Rightarrow> bool" where
  "is_within f target rs =
     (case resolve_existing_ancestor f target of Some t \<Rightarrow> within t rs | None \<Rightarrow> False)"

definition from_untrusted :: "fs \<Rightarrow> path list \<Rightarrow> roots" where
  "from_untrusted f rs = List.map_filter (canonicalize f) rs"

definition for_reading :: "fs \<Rightarrow> path list \<Rightarrow> roots" where
  "for_reading f rs = List.map_filter (resolve_existing_ancestor f) rs"

datatype PolicyError =
    OutsideAllowlist path
  | OutsideHome path
  | NotADirectory path
  | SystemDirectory path
  | Missing path

definition require_within :: "fs \<Rightarrow> path \<Rightarrow> roots \<Rightarrow> PolicyError + path" where
  "require_within f target rs =
     (case resolve_existing_ancestor f target of
        Some t \<Rightarrow> if within t rs then Inr t else Inl (OutsideAllowlist target)
      | None \<Rightarrow> Inl (OutsideAllowlist target))"

definition require_dir_under :: "fs \<Rightarrow> path \<Rightarrow> path \<Rightarrow> PolicyError + path" where
  "require_dir_under f target home =
     (case require_within f target (from_untrusted f [home]) of
        Inl _ \<Rightarrow> Inl (OutsideHome target)
      | Inr judged \<Rightarrow>
          if metadata f judged = Meta DirT then Inr judged else Inl (NotADirectory target))"

text \<open>The home directory is found by the configuration; without one nothing is under it.\<close>

definition require_dir_under_home :: "fs \<Rightarrow> path option \<Rightarrow> path \<Rightarrow> PolicyError + path" where
  "require_dir_under_home f user_home target =
     (case user_home of None \<Rightarrow> Inl (OutsideHome target) | Some home \<Rightarrow> require_dir_under f target home)"

definition is_under_home :: "fs \<Rightarrow> path option \<Rightarrow> path \<Rightarrow> bool" where
  "is_under_home f user_home target =
     (case user_home of None \<Rightarrow> False | Some home \<Rightarrow> is_within f target (from_untrusted f [home]))"

definition NEVER_BIND :: "string list" where
  "NEVER_BIND =
     [''/'', ''/etc'', ''/usr'', ''/bin'', ''/sbin'', ''/lib'', ''/lib64'', ''/boot'', ''/dev'', ''/proc'',
      ''/sys'', ''/var/lib'', ''/var/run'', ''/run'']"

definition is_never_bind :: "fs \<Rightarrow> path \<Rightarrow> path \<Rightarrow> bool" where
  "is_never_bind f canonical_target raw_target \<longleftrightarrow>
     parent canonical_target = None
     \<or> list_ex (\<lambda>d. let listed = parse_path d
                    in canonical_target = listed \<or> raw_target = listed
                       \<or> canonicalize f listed = Some canonical_target) NEVER_BIND"

definition require_bindable_dir :: "fs \<Rightarrow> path \<Rightarrow> PolicyError + path" where
  "require_bindable_dir f target =
     (case canonicalize f target of
        None \<Rightarrow> Inl (Missing target)
      | Some c \<Rightarrow>
          if metadata f c \<noteq> Meta DirT then Inl (NotADirectory target)
          else if is_never_bind f c target then Inl (SystemDirectory c)
          else Inr c)"

section \<open>The names along a resolution\<close>

function names_loop ::
  "fs \<Rightarrow> path list \<Rightarrow> path \<Rightarrow> path \<Rightarrow> nat \<Rightarrow> path list option" where
  "names_loop f names walked [] budget = Some names"
| "names_loop f names walked (RootDir # tail) budget = names_loop f names [RootDir] tail budget"
| "names_loop f names walked (CurDir # tail) budget = names_loop f names walked tail budget"
| "names_loop f names walked (ParentDir # tail) budget = names_loop f names (pop walked) tail budget"
| "names_loop f names walked (Normal n # tail) budget =
     (let here = walked @ [Normal n]
      in case symlink_metadata f here of
           Meta t \<Rightarrow>
             if t = LinkT
             then (case budget of
                     0 \<Rightarrow> None
                   | Suc left \<Rightarrow>
                       (case read_link f here of
                          None \<Rightarrow> None
                        | Some target \<Rightarrow>
                            (let walked = (if is_absolute target then [] else walked);
                                 spliced = join target tail
                             in names_loop f (names @ [join walked spliced]) walked spliced left)))
             else names_loop f names here tail budget
         | NotFound \<Rightarrow> names_loop f names here tail budget
         | StatError \<Rightarrow> None)"
  by pat_completeness auto
termination
  by (relation "measures [\<lambda>(f, names, walked, rest, budget). budget,
                          \<lambda>(f, names, walked, rest, budget). length rest]") auto

definition names_along_resolution :: "fs \<Rightarrow> path \<Rightarrow> path list option" where
  "names_along_resolution f spelled = names_loop f [spelled] [] spelled MAX_LINK_HOPS"

section \<open>The kernel's path walk\<close>

text \<open>
  A file system: the absolute names that exist (lists of components from the root), with what is
  there. A link carries the path in its text.
\<close>

datatype node = FileN | DirN | LinkN path

type_synonym tree = "(string list \<times> node) list"

abbreviation at :: "tree \<Rightarrow> string list \<Rightarrow> node option" where
  "at t q \<equiv> map_of t q"

text \<open>
  Where a walk ends: at something that exists, at a name that does not exist in a directory that
  does (where an open may create it), at a missing directory, or in an error (a component of a
  file, too many links).
\<close>

datatype walk_result = Found "string list" | Create "string list" | KMissing | KError

abbreviation nothing_left :: "path \<Rightarrow> bool" where
  "nothing_left r \<equiv> list_all (\<lambda>c. c = CurDir) r"

text \<open>
  Path resolution as POSIX describes it: \<open>..\<close> leaves the directory reached so far, a link's text takes
  the link's place, a link at the end is followed only if \<open>follow\<close> says so, and at most \<open>h\<close> links are
  followed.
\<close>

function kwalk :: "tree \<Rightarrow> bool \<Rightarrow> nat \<Rightarrow> string list \<Rightarrow> path \<Rightarrow> walk_result" where
  "kwalk t follow h cur [] = Found cur"
| "kwalk t follow h cur (RootDir # r) = kwalk t follow h [] r"
| "kwalk t follow h cur (CurDir # r) = kwalk t follow h cur r"
| "kwalk t follow h cur (ParentDir # r) =
     (if at t cur = Some DirN then kwalk t follow h (butlast cur) r else KError)"
| "kwalk t follow h cur (Normal n # r) =
     (if at t cur \<noteq> Some DirN then KError
      else case at t (cur @ [n]) of
             None \<Rightarrow> if nothing_left r then Create (cur @ [n]) else KMissing
           | Some (LinkN target) \<Rightarrow>
               if nothing_left r \<and> \<not> follow then Found (cur @ [n])
               else (case h of 0 \<Rightarrow> KError | Suc h' \<Rightarrow> kwalk t follow h' cur (target @ r))
           | Some _ \<Rightarrow> kwalk t follow h (cur @ [n]) r)"
  by pat_completeness auto
termination
  by (relation "measures [\<lambda>(t, follow, h, cur, r). h, \<lambda>(t, follow, h, cur, r). length r]") auto

definition abs_path :: "string list \<Rightarrow> path" where
  "abs_path q = RootDir # map Normal q"

text \<open>What opening an absolute path reaches, creating the last name if it is missing.\<close>

definition kopen :: "tree \<Rightarrow> path \<Rightarrow> string list option" where
  "kopen t p = (case kwalk t True MAX_LINK_HOPS [] p of Found q \<Rightarrow> Some q | Create q \<Rightarrow> Some q | _ \<Rightarrow> None)"

text \<open>The answers of the file system, each by such a walk; relative paths are not asked about.\<close>

fun type_of :: "node \<Rightarrow> file_type" where
  "type_of FileN = FileT"
| "type_of DirN = DirT"
| "type_of (LinkN _) = LinkT"

definition tree_stat :: "tree \<Rightarrow> bool \<Rightarrow> path \<Rightarrow> stat_result" where
  "tree_stat t follow p =
     (case kwalk t follow MAX_LINK_HOPS [] p of
        Found q \<Rightarrow> (case at t q of Some x \<Rightarrow> Meta (type_of x) | None \<Rightarrow> NotFound)
      | Create _ \<Rightarrow> NotFound
      | KMissing \<Rightarrow> NotFound
      | KError \<Rightarrow> StatError)"

definition tree_read_link :: "tree \<Rightarrow> path \<Rightarrow> path option" where
  "tree_read_link t p =
     (case kwalk t False MAX_LINK_HOPS [] p of
        Found q \<Rightarrow> (case at t q of Some (LinkN target) \<Rightarrow> Some target | _ \<Rightarrow> None)
      | _ \<Rightarrow> None)"

definition tree_canonicalize :: "tree \<Rightarrow> path \<Rightarrow> path option" where
  "tree_canonicalize t p =
     (case kwalk t True MAX_LINK_HOPS [] p of Found q \<Rightarrow> Some (abs_path q) | _ \<Rightarrow> None)"

definition tree_read_dir :: "tree \<Rightarrow> path \<Rightarrow> dir_result" where
  "tree_read_dir t p =
     (case kwalk t True MAX_LINK_HOPS [] p of
        Found q \<Rightarrow>
          if at t q = Some DirN
          then Entries (map (\<lambda>(k, x). Some (last k, Some (type_of x)))
                          (filter (\<lambda>(k, _). k \<noteq> [] \<and> butlast k = q) t))
          else DirError
      | Create _ \<Rightarrow> DirMissing
      | KMissing \<Rightarrow> DirMissing
      | KError \<Rightarrow> DirError)"

definition tree_fs :: "tree \<Rightarrow> fs" where
  "tree_fs t = \<lparr>read_link = tree_read_link t, canonicalize = tree_canonicalize t,
     symlink_metadata = tree_stat t False, metadata = tree_stat t True, read_dir = tree_read_dir t\<rparr>"

lemma tree_fs_simps [simp]:
  "read_link (tree_fs t) = tree_read_link t"
  "canonicalize (tree_fs t) = tree_canonicalize t"
  "symlink_metadata (tree_fs t) = tree_stat t False"
  "metadata (tree_fs t) = tree_stat t True"
  "read_dir (tree_fs t) = tree_read_dir t"
  by (simp_all add: tree_fs_def)

section \<open>The resolver finds what the kernel opens\<close>

text \<open>A name is real when every directory on the way is a directory and no link is among them.\<close>

definition real :: "tree \<Rightarrow> string list \<Rightarrow> bool" where
  "real t q \<longleftrightarrow>
     (\<forall>k < length q. at t (take k q) = Some DirN) \<and> (at t q = Some FileN \<or> at t q = Some DirN)"

lemma real_butlast: "real t q \<Longrightarrow> real t (butlast q)"
proof (cases "q = []")
  case False
  assume "real t q"
  moreover have "butlast q = take (length q - 1) q" by (simp add: butlast_conv_take)
  ultimately show ?thesis using False by (auto simp: real_def take_butlast)
qed simp

lemma real_snoc:
  assumes "real t q" and "at t q = Some DirN" and "at t (q @ [n]) = Some FileN \<or> at t (q @ [n]) = Some DirN"
  shows "real t (q @ [n])"
  using assms by (auto simp: real_def less_Suc_eq take_Cons')

text \<open>The walk along a real name finds no link.\<close>

lemma kwalk_along:
  assumes "real t (pre @ q)"
  shows "kwalk t follow h pre (map Normal q @ r) = kwalk t follow h (pre @ q) r"
  using assms
proof (induction q arbitrary: pre)
  case Nil
  then show ?case by simp
next
  case (Cons n q)
  have dir: "at t pre = Some DirN" using Cons.prems by (auto simp: real_def dest: spec [of _ "length pre"])
  have "at t (pre @ [n]) = Some FileN \<or> at t (pre @ [n]) = Some DirN"
  proof (cases q)
    case Nil
    with Cons.prems show ?thesis by (simp add: real_def)
  next
    case (Cons m q')
    with \<open>real t (pre @ n # q)\<close> show ?thesis by (auto simp: real_def dest!: spec [of _ "Suc (length pre)"])
  qed
  with dir Cons.IH [of "pre @ [n]"] Cons.prems show ?case by auto
qed

lemma kwalk_real: "real t q \<Longrightarrow> kwalk t follow h [] (abs_path q @ r) = kwalk t follow h q r"
  using kwalk_along [of t "[]" q follow h r] by (simp add: abs_path_def)

lemma abs_path_snoc: "abs_path (q @ [n]) = abs_path q @ [Normal n]"
  by (simp add: abs_path_def)

text \<open>The answers about a name in a real directory.\<close>

lemma tree_answers:
  assumes "real t q" and "at t q = Some DirN"
  shows "at t (q @ [n]) = None \<Longrightarrow>
           tree_read_link t (abs_path (q @ [n])) = None \<and> tree_canonicalize t (abs_path (q @ [n])) = None
           \<and> tree_stat t False (abs_path (q @ [n])) = NotFound"
    and "at t (q @ [n]) = Some (LinkN target) \<Longrightarrow>
           tree_read_link t (abs_path (q @ [n])) = Some target
           \<and> tree_stat t False (abs_path (q @ [n])) = Meta LinkT"
    and "at t (q @ [n]) = Some FileN \<or> at t (q @ [n]) = Some DirN \<Longrightarrow>
           tree_read_link t (abs_path (q @ [n])) = None
           \<and> tree_canonicalize t (abs_path (q @ [n])) = Some (abs_path (q @ [n]))
           \<and> (\<exists>x. tree_stat t False (abs_path (q @ [n])) = Meta x \<and> x \<noteq> LinkT)"
  using assms
  by (auto simp: tree_read_link_def tree_canonicalize_def tree_stat_def abs_path_snoc kwalk_real
      split: nat.splits)

text \<open>
  The resolver's location stands for the kernel's, or it is empty with an absolute path still to
  walk: at the start, and after an absolute link.
\<close>

definition tracks :: "path \<Rightarrow> string list \<Rightarrow> path \<Rightarrow> bool" where
  "tracks pcur cur rest \<longleftrightarrow> pcur = abs_path cur \<or> pcur = [] \<and> is_absolute rest"

lemma tracks_Cons:
  "tracks pcur cur (c # rest) \<Longrightarrow> c \<noteq> RootDir \<Longrightarrow> pcur = abs_path cur"
  by (auto simp: tracks_def is_absolute_def)

lemma tracks_abs [simp]: "tracks (abs_path cur) cur rest"
  by (simp add: tracks_def)

lemma pop_abs_path: "pop (abs_path q) = abs_path (butlast q)"
proof (cases q rule: rev_cases)
  case Nil
  then show ?thesis by (simp add: pop_def parent_def abs_path_def)
next
  case (snoc q' n)
  then show ?thesis by (simp add: pop_def parent_def abs_path_def butlast_append)
qed

text \<open>What a walk reaches, as \<open>kopen\<close> reads it.\<close>

fun reached :: "walk_result \<Rightarrow> string list option" where
  "reached (Found q) = Some q"
| "reached (Create q) = Some q"
| "reached _ = None"

lemma kopen_reached: "kopen t p = reached (kwalk t True MAX_LINK_HOPS [] p)"
  by (simp add: kopen_def split: walk_result.splits)

text \<open>One step of the resolver at a name, by what the kernel has there.\<close>

lemma abs_path_here: "abs_path cur @ [Normal n] = abs_path (cur @ [n])" "length (abs_path cur) = length cur + 1"
  by (simp_all add: abs_path_def)

lemma charge_None [simp]: "charge n None = (True, None)"
  by (simp add: charge_def)

lemma resolve_missing:
  assumes "real t cur" and "at t cur = Some DirN" and "at t (cur @ [n]) = None"
  shows "resolve_loop (tree_fs t) (abs_path cur) ((Normal n, spliced) # rest) hops None =
     (if spliced then (None, None) else resolve_loop (tree_fs t) (abs_path (cur @ [n])) rest hops None)"
  using tree_answers(1) [OF assms] by (auto simp: abs_path_here Let_def settle_segment_def)

lemma resolve_link:
  assumes "real t cur" and "at t cur = Some DirN" and "at t (cur @ [n]) = Some (LinkN target)"
  shows "resolve_loop (tree_fs t) (abs_path cur) ((Normal n, spliced) # rest) hops None =
     (if hops + 1 > MAX_LINK_HOPS then (None, None)
      else resolve_loop (tree_fs t) (if is_absolute target then [] else abs_path cur)
             (map (\<lambda>c. (c, True)) target @ rest) (hops + 1) None)"
  using tree_answers(2) [OF assms] by (auto simp: abs_path_here Let_def)

lemma resolve_plain:
  assumes "real t cur" and "at t cur = Some DirN"
    and "at t (cur @ [n]) = Some FileN \<or> at t (cur @ [n]) = Some DirN"
  shows "resolve_loop (tree_fs t) (abs_path cur) ((Normal n, spliced) # rest) hops None =
     resolve_loop (tree_fs t) (abs_path (cur @ [n])) rest hops None"
  using tree_answers(3) [OF assms] by (auto simp: abs_path_here Let_def settle_segment_def)

text \<open>An account can only turn an answer into no answer.\<close>

lemma resolve_metered_agrees:
  "fst (resolve_loop f cur rest hops w) \<in> {None, fst (resolve_loop f cur rest hops None)}"
proof (induction f cur rest hops w rule: resolve_loop.induct)
  case (5 f cur n spliced rest hops w)
  obtain ok1 w1 where c1: "charge (length (cur @ [Normal n])) w = (ok1, w1)" by (metis surj_pair)
  show ?case
  proof (cases "read_link f (cur @ [Normal n])")
    case None
    with "5.IH"(1) [OF refl c1 [symmetric] refl _ None] c1 show ?thesis
      by (auto simp: Let_def split: option.splits)
  next
    case (Some target)
    obtain ok2 w2 where c2: "charge (length target) w1 = (ok2, w2)" by (metis surj_pair)
    with Some "5.IH"(2) [OF refl c1 [symmetric] refl _ Some _ c2 [symmetric] refl] c1 show ?thesis
      by (auto simp: Let_def)
  qed
qed auto

declare resolve_loop.simps(5) [simp del]

lemma tracks_link: "tracks (if is_absolute target then [] else abs_path cur) cur (target @ rest)"
  by (cases target) (auto simp: tracks_def is_absolute_def)

lemma resolve_curdirs:
  "nothing_left (map fst rest) \<Longrightarrow> resolve_loop f cur rest hops w = (Some cur, w)"
  by (induction rest) auto

text \<open>
  The answer for a walk that ends: at something that exists it is that place; at a name that can be
  created it is that place or no answer (a dangling link); for any other walk it is not used.
\<close>

fun agrees_with :: "walk_result \<Rightarrow> path option \<Rightarrow> bool" where
  "agrees_with (Found q) r \<longleftrightarrow> r = Some (abs_path q)"
| "agrees_with (Create q) r \<longleftrightarrow> r = None \<or> r = Some (abs_path q)"
| "agrees_with _ r \<longleftrightarrow> True"

text \<open>The simulation, with as many links left to the kernel as the resolver has not used.\<close>

lemma resolve_simulates:
  assumes "real t cur" and "tracks pcur cur rest" and "at t [] = Some DirN"
    and "map fst steps = rest" and "h + hops = MAX_LINK_HOPS" and follow
  shows "agrees_with (kwalk t follow h cur rest) (fst (resolve_loop (tree_fs t) pcur steps hops None))"
  using assms
proof (induction t follow h cur rest arbitrary: pcur steps hops rule: kwalk.induct)
  case (1 t follow h cur)
  then show ?case by (auto simp: tracks_def is_absolute_def)
next
  case (2 t follow h cur r)
  from "2.prems" obtain b steps' where "steps = (RootDir, b) # steps'" by (cases steps) auto
  moreover have "abs_path [] = [RootDir]" by (simp add: abs_path_def)
  ultimately show ?case using "2.IH" [OF _ tracks_abs, of steps' hops] "2.prems" by (simp add: real_def)
next
  case (3 t follow h cur r)
  from "3.prems" obtain b steps' where "steps = (CurDir, b) # steps'" by (cases steps) auto
  with "3.IH" [of "abs_path cur" steps' hops] "3.prems" tracks_Cons [OF "3.prems"(2)] show ?case by simp
next
  case (4 t follow h cur r)
  from "4.prems" obtain b steps' where "steps = (ParentDir, b) # steps'" by (cases steps) auto
  with "4.IH" [of "abs_path (butlast cur)" steps' hops] "4.prems" tracks_Cons [OF "4.prems"(2)] show ?case
    by (simp add: pop_abs_path real_butlast)
next
  case (5 t follow h cur n r)
  from "5.prems" obtain b steps' where st: "steps = (Normal n, b) # steps'" and r: "map fst steps' = r"
    by (cases steps) auto
  have pc: "pcur = abs_path cur" using tracks_Cons [OF "5.prems"(2)] by simp
  show ?case
  proof (cases "at t cur = Some DirN")
    case dir: True
    note R = "5.prems"(1) dir
    consider "at t (cur @ [n]) = None" | target where "at t (cur @ [n]) = Some (LinkN target)"
      | x where "at t (cur @ [n]) = Some x" and "x = FileN \<or> x = DirN" by (metis node.exhaust option.exhaust)
    then show ?thesis
    proof cases
      case 1
      with r dir show ?thesis
        by (auto simp: st pc resolve_missing [OF R 1] resolve_curdirs)
    next
      case (2 target)
      show ?thesis
      proof (cases h)
        case 0
        with dir 2 "5.prems"(6) show ?thesis by simp
      next
        case (Suc h')
        have "map fst (map (\<lambda>c. (c, True)) target @ steps') = target @ r" and "h' + (hops + 1) = MAX_LINK_HOPS"
          using r Suc "5.prems"(5) by (simp_all add: comp_def)
        from "5.IH"(3) [OF _ 2 refl _ Suc "5.prems"(1) tracks_link "5.prems"(3) this "5.prems"(6)] this dir 2 Suc "5.prems"(6)
        show ?thesis by (simp add: st pc resolve_link [OF R 2])
      qed
    next
      case (3 x)
      then have plain: "real t (cur @ [n])" using real_snoc [OF R] by auto
      from 3 "5.IH"(1,2) [OF _ 3(1) _ plain tracks_abs "5.prems"(3) r "5.prems"(5,6)] dir
      show ?thesis by (auto simp: st pc resolve_plain [OF R])
    qed
  qed simp
qed

text \<open>What opening reaches is what the resolver answers, if it answers.\<close>

lemma resolve_ancestor_opens:
  assumes "at t [] = Some DirN" and "is_absolute p"
  shows "agrees_with (kwalk t True MAX_LINK_HOPS [] p) (fst (resolve_ancestor (tree_fs t) p None))"
  unfolding resolve_ancestor_def
  by (rule resolve_simulates) (use assms in \<open>auto simp: real_def tracks_def comp_def\<close>)

lemma resolve_opens:
  assumes "at t [] = Some DirN" and "is_absolute p" and "kopen t p = Some loc"
    and "resolve_existing_ancestor (tree_fs t) p = Some r"
  shows "r = abs_path loc"
proof -
  have "fst (resolve_ancestor (tree_fs t) p None) = Some r"
    using assms(4) resolve_metered_agrees [of "tree_fs t" "[]" "map (\<lambda>c. (c, False)) p" 0 "Some for_one_path"]
    by (auto simp: resolve_existing_ancestor_def resolve_ancestor_def)
  with resolve_ancestor_opens [OF assms(1,2)] assms(3) show ?thesis
    by (auto simp: kopen_def split: walk_result.splits)
qed

section \<open>Every recorded name opens the same file\<close>

lemma kwalk_drop_curdirs: "kwalk t follow h cur (dropWhile (\<lambda>c. c = CurDir) r) = kwalk t follow h cur r"
  by (induction r) auto

lemma nothing_left_filter: "nothing_left r \<longleftrightarrow> filter (\<lambda>c. c \<noteq> CurDir) r = []"
  by (induction r) auto

text \<open>A dot segment changes nothing.\<close>

abbreviation no_dots :: "path \<Rightarrow> path" where
  "no_dots r \<equiv> filter (\<lambda>c. c \<noteq> CurDir) r"

lemma no_dots_Cons:
  "no_dots r' = c # f \<Longrightarrow> \<exists>r2. dropWhile (\<lambda>c. c = CurDir) r' = c # r2 \<and> no_dots r2 = f"
  by (induction r') (auto split: if_splits)

lemma no_dots_Nil: "no_dots r' = [] \<Longrightarrow> dropWhile (\<lambda>c. c = CurDir) r' = []"
  unfolding filter_empty_conv dropWhile_eq_Nil_conv by blast

lemma kwalk_curdirs:
  "no_dots r' = no_dots r \<Longrightarrow> kwalk t follow h cur r' = kwalk t follow h cur r"
proof (induction t follow h cur r arbitrary: r' rule: kwalk.induct)
  case (1 t follow h cur)
  then have "dropWhile (\<lambda>c. c = CurDir) r' = []" by (intro no_dots_Nil) simp
  then show ?case by (metis kwalk_drop_curdirs)
next
  case (2 t follow h cur r)
  with no_dots_Cons [of r' RootDir "no_dots r"] obtain r2
    where "dropWhile (\<lambda>c. c = CurDir) r' = RootDir # r2" and "no_dots r2 = no_dots r" by auto
  with "2.IH" [of r2] kwalk_drop_curdirs [of t follow h cur r'] show ?case by simp
next
  case (3 t follow h cur r)
  from "3.IH" [of r'] "3.prems" show ?case by simp
next
  case (4 t follow h cur r)
  with no_dots_Cons [of r' ParentDir "no_dots r"] obtain r2
    where "dropWhile (\<lambda>c. c = CurDir) r' = ParentDir # r2" and "no_dots r2 = no_dots r" by auto
  with "4.IH" [of r2] kwalk_drop_curdirs [of t follow h cur r'] show ?case by (simp split: if_splits)
next
  case (5 t follow h cur n r)
  with no_dots_Cons [of r' "Normal n" "no_dots r"] obtain r2
    where d: "dropWhile (\<lambda>c. c = CurDir) r' = Normal n # r2" and f: "no_dots r2 = no_dots r" by auto
  have "nothing_left r2 \<longleftrightarrow> nothing_left r" by (simp add: nothing_left_filter f)
  then have "kwalk t follow h cur (Normal n # r2) = kwalk t follow h cur (Normal n # r)"
    using "5.IH"(1) [OF _ _ _ f] "5.IH"(2) [OF _ _ _ f] "5.IH"(3) [where r' = "_ @ r2"] f
    by (auto split: option.split node.split nat.split)
  with d kwalk_drop_curdirs [of t follow h cur r'] show ?case by simp
qed

lemma kwalk_more_links:
  "reached (kwalk t follow h cur r) = Some loc \<Longrightarrow> h \<le> h' \<Longrightarrow> kwalk t follow h' cur r = kwalk t follow h cur r"
proof (induction t follow h cur r arbitrary: h' rule: kwalk.induct)
  case (2 t follow h cur r)
  from "2.IH" [of h'] "2.prems" show ?case by simp
next
  case (3 t follow h cur r)
  from "3.IH" [of h'] "3.prems" show ?case by simp
next
  case (4 t follow h cur r)
  from "4.IH" [of h'] "4.prems" show ?case by (cases "at t cur = Some DirN") simp_all
next
  case (5 t follow h cur n r)
  show ?case
  proof (cases "at t cur = Some DirN")
    case dir: True
    consider "at t (cur @ [n]) = None" | target where "at t (cur @ [n]) = Some (LinkN target)"
      | x where "at t (cur @ [n]) = Some x" and "x = FileN \<or> x = DirN" by (metis node.exhaust option.exhaust)
    then show ?thesis
    proof cases
      case (2 target)
      show ?thesis
      proof (cases "nothing_left r \<and> \<not> follow")
        case False
        with "5.prems" dir 2 obtain h0 k where "h = Suc h0" and "h' = Suc k" and "h0 \<le> k"
          by (cases h; cases h') auto
        with "5.IH"(3) [OF _ 2 refl False, of h0 k] "5.prems" dir 2 False show ?thesis by auto
      qed (use dir 2 in simp)
    next
      case (3 x)
      with "5.IH"(1,2) [OF _ 3(1), of h'] "5.prems" dir show ?thesis by auto
    qed (use dir in simp)
  qed (use "5.prems" in simp)
qed simp_all

text \<open>A root segment occurs only at the front, in what is spelled and in the text of links.\<close>

definition wf_path :: "path \<Rightarrow> bool" where
  "wf_path p \<longleftrightarrow> RootDir \<notin> set (tl p)"

definition wf_tree :: "tree \<Rightarrow> bool" where
  "wf_tree t \<longleftrightarrow> at t [] = Some DirN
     \<and> list_all (\<lambda>(_, x). case x of LinkN target \<Rightarrow> wf_path target | _ \<Rightarrow> True) t"

lemma wf_tree_link: "wf_tree t \<Longrightarrow> at t q = Some (LinkN target) \<Longrightarrow> wf_path target"
  by (auto simp: wf_tree_def list_all_iff dest!: map_of_SomeD bspec)

lemma wf_path_Cons: "wf_path (c # r) \<Longrightarrow> wf_path r" "wf_path (c # r) \<Longrightarrow> \<not> is_absolute r"
  by (cases r; auto simp: wf_path_def is_absolute_def)+

text \<open>Joining a link's text with the rest of the path, as the kernel walks it.\<close>

lemma join_no_dots: "\<not> is_absolute tail \<Longrightarrow> no_dots (join target tail) = no_dots (target @ tail)"
  by (simp add: join_def)

lemma join_abs: "is_absolute target \<Longrightarrow> \<not> is_absolute tail \<Longrightarrow> is_absolute (join target tail)"
  by (cases target) (auto simp: join_def is_absolute_def)

lemma join_wf:
  assumes "wf_path target" and "RootDir \<notin> set tail"
  shows "wf_path (join target tail)"
  using assms by (cases target; cases tail) (auto simp: join_def wf_path_def is_absolute_def)

lemma join_tracks:
  assumes "\<not> is_absolute tail"
  shows "tracks (if is_absolute target then [] else abs_path cur) cur (join target tail)"
  using assms join_abs [of target tail] by (auto simp: tracks_def)

text \<open>A name recorded after a hop: the directory reached, and what is still to be walked.\<close>

lemma recorded_name_opens:
  assumes "real t cur" and "reached (kwalk t True h cur rest) = Some loc" and "h \<le> MAX_LINK_HOPS"
    and "tracks walked cur rest"
  shows "kopen t (join walked rest) = Some loc"
proof -
  have k: "reached (kwalk t True MAX_LINK_HOPS cur rest) = Some loc"
    using kwalk_more_links [OF assms(2,3)] assms(2) by simp
  show ?thesis
  proof (cases "is_absolute rest")
    case True
    then obtain r where "rest = RootDir # r" by (cases rest) (auto simp: is_absolute_def)
    with k show ?thesis by (simp add: kopen_reached join_def is_absolute_def)
  next
    case False
    with assms(4) have "walked = abs_path cur" by (simp add: tracks_def)
    moreover have "kwalk t True MAX_LINK_HOPS cur (no_dots rest) = kwalk t True MAX_LINK_HOPS cur rest"
      by (rule kwalk_curdirs) simp
    ultimately show ?thesis
      using k False kwalk_real [OF assms(1), of True MAX_LINK_HOPS "no_dots rest"]
      by (simp add: kopen_reached join_def abs_path_def)
  qed
qed

lemma names_curdirs: "nothing_left rest \<Longrightarrow> names_loop f names walked rest b = Some names"
  by (induction rest) auto

lemma names_same_file:
  assumes "names_loop f names walked rest b = Some ns" and "f = tree_fs t" and "wf_tree t"
    and "real t cur" and "tracks walked cur rest" and "wf_path rest"
    and "reached (kwalk t True b cur rest) = Some loc" and "b \<le> MAX_LINK_HOPS"
    and "list_all (\<lambda>n. kopen t n = Some loc) names"
  shows "list_all (\<lambda>n. kopen t n = Some loc) ns"
  using assms
proof (induction f names walked rest b arbitrary: cur rule: names_loop.induct)
  case (1 f names walked b)
  then show ?case by simp
next
  case (2 f names walked tail b)
  from 2 have "real t []" by (simp add: real_def wf_tree_def)
  with "2.IH" [of "[]"] "2.prems" wf_path_Cons show ?case by (simp add: tracks_def abs_path_def)
next
  case (3 f names walked tail b)
  with tracks_Cons [OF "3.prems"(5)] wf_path_Cons show ?case by simp
next
  case (4 f names walked tail b)
  from "4.prems"(7) have "at t cur = Some DirN" by (auto split: if_splits)
  with "4.IH" [of "butlast cur"] "4.prems" tracks_Cons [OF "4.prems"(5)] wf_path_Cons show ?case
    by (simp add: pop_abs_path real_butlast)
next
  case (5 f names walked n tail b)
  have w: "walked = abs_path cur" using tracks_Cons [OF "5.prems"(5)] by simp
  have dir: "at t cur = Some DirN" using "5.prems"(7) by (auto split: if_splits)
  note here = abs_path_here(1)
  note R = tree_answers [OF "5.prems"(4) dir, of n]
  have rel: "\<not> is_absolute tail" and wt: "wf_path tail" and nr: "RootDir \<notin> set tail"
    using wf_path_Cons [OF "5.prems"(6)] "5.prems"(6) by (auto simp: wf_path_def)
  consider "at t (cur @ [n]) = None" | target where "at t (cur @ [n]) = Some (LinkN target)"
    | x where "at t (cur @ [n]) = Some x" and "x = FileN \<or> x = DirN" by (metis node.exhaust option.exhaust)
  then show ?case
  proof cases
    case 1
    with "5.prems"(7) dir have "nothing_left tail" by (auto split: if_splits)
    with 1 R(1) "5.prems"(1,2,9) show ?thesis by (simp add: w here names_curdirs)
  next
    case (2 target)
    let ?walked = "if is_absolute target then [] else walked" and ?rest = "join target tail"
    from "5.prems"(7) dir 2 obtain b' where b: "b = Suc b'"
      and k: "reached (kwalk t True b' cur (target @ tail)) = Some loc" by (auto split: nat.splits)
    have k': "reached (kwalk t True b' cur ?rest) = Some loc"
      using k kwalk_curdirs [OF join_no_dots [OF rel], of t True b' cur target] by simp
    from b "5.prems"(8) have b': "b' \<le> MAX_LINK_HOPS" by simp
    have tr: "tracks ?walked cur ?rest" unfolding w by (rule join_tracks [OF rel])
    have wf: "wf_path ?rest" by (rule join_wf [OF wf_tree_link [OF "5.prems"(3) 2] nr])
    have l: "symlink_metadata f (walked @ [Normal n]) = Meta LinkT" "read_link f (walked @ [Normal n]) = Some target"
      using R(2) [OF 2] "5.prems"(2) by (simp_all add: w here)
    have "names_loop f (names @ [join ?walked ?rest]) ?walked ?rest b' = Some ns"
      using "5.prems"(1) l b by (simp add: Let_def)
    moreover have "list_all (\<lambda>m. kopen t m = Some loc) (names @ [join ?walked ?rest])"
      using recorded_name_opens [OF "5.prems"(4) k' b' tr] "5.prems"(9) by simp
    ultimately show ?thesis
      using "5.IH"(1) [OF refl l(1) refl b l(2) refl refl _ "5.prems"(2,3,4) tr wf k' b'] by blast
  next
    case (3 x)
    then have "real t (cur @ [n])" using real_snoc [OF "5.prems"(4) dir] by auto
    with 3 "5.IH"(2) [of _ _ "cur @ [n]"] R(3) "5.prems" dir wt show ?thesis
      by (auto simp: w here)
  qed
qed

section \<open>Confinement\<close>

text \<open>
  C2. What is judged confined is what is opened. For an absolute spelling that the kernel can open
  (or create the last name of), whatever links and parent segments it goes through: a path judged
  within the allowed roots opens inside them, the path handed back to the caller is the very
  location the kernel opens, and for something that exists the resolver, given enough of an
  account, does answer. A path on which the two could disagree (a dangling link, a cycle, a
  component of a file) gets no answer and is treated as outside.
\<close>

theorem confined_is_what_opens:
  assumes "wf_tree t" and "is_absolute p" and "kopen t p = Some loc"
  shows "(is_within (tree_fs t) p rs \<longrightarrow> within (abs_path loc) rs)
     \<and> (\<forall>q. require_within (tree_fs t) p rs = Inr q \<longrightarrow> q = abs_path loc \<and> within q rs)
     \<and> (kwalk t True MAX_LINK_HOPS [] p = Found loc \<longrightarrow>
          fst (resolve_ancestor (tree_fs t) p None) = Some (abs_path loc))"
proof -
  from assms(1) have root: "at t [] = Some DirN" by (simp add: wf_tree_def)
  from resolve_opens [OF root assms(2,3)] resolve_ancestor_opens [OF root assms(2)] show ?thesis
    by (auto simp: is_within_def require_within_def split: option.splits if_splits)
qed

text \<open>A project with a link to the root of the file system.\<close>

definition sample_tree :: tree where
  "sample_tree =
     [([], DirN), ([''w''], DirN), ([''w'', ''vendor''], LinkN [RootDir]),
      ([''w'', ''docs''], LinkN [ParentDir, Normal ''w'', Normal ''src'']), ([''w'', ''src''], DirN),
      ([''w'', ''src'', ''a''], FileN), ([''etc''], DirN), ([''etc'', ''passwd''], FileN)]"

theorem confined_is_what_opens_witness:
  "\<not> is_within (tree_fs sample_tree) (parse_path ''/w/vendor/../etc/passwd'') [parse_path ''/w'']
   \<and> fst (resolve_ancestor (tree_fs sample_tree) (parse_path ''/w/docs/a'') None) = Some (parse_path ''/w/src/a'')"
proof -
  have wf: "wf_tree sample_tree" by code_simp
  have "is_absolute (parse_path ''/w/vendor/../etc/passwd'')"
    and "kopen sample_tree (parse_path ''/w/vendor/../etc/passwd'') = Some [''etc'', ''passwd'']"
    and "\<not> within (abs_path [''etc'', ''passwd'']) [parse_path ''/w'']" by code_simp+
  with confined_is_what_opens [OF wf this(1,2), of "[parse_path ''/w'']"]
  have "\<not> is_within (tree_fs sample_tree) (parse_path ''/w/vendor/../etc/passwd'') [parse_path ''/w'']" by blast
  moreover have "is_absolute (parse_path ''/w/docs/a'')"
    and "kopen sample_tree (parse_path ''/w/docs/a'') = Some [''w'', ''src'', ''a'']"
    and "kwalk sample_tree True MAX_LINK_HOPS [] (parse_path ''/w/docs/a'') = Found [''w'', ''src'', ''a'']"
    and "abs_path [''w'', ''src'', ''a''] = parse_path ''/w/src/a''" by code_simp+
  with confined_is_what_opens [OF wf this(1,2)]
  have "fst (resolve_ancestor (tree_fs sample_tree) (parse_path ''/w/docs/a'') None) = Some (parse_path ''/w/src/a'')"
    by simp
  ultimately show ?thesis by blast
qed

text \<open>
  The names recorded along a resolution are names of the file: each of them, opened on its own,
  reaches the same location. So a control surface found among them is one the write would land
  on.
\<close>

theorem names_open_the_file:
  assumes "wf_tree t" and "is_absolute p" and "wf_path p" and "kopen t p = Some loc"
    and "names_along_resolution (tree_fs t) p = Some ns"
  shows "list_all (\<lambda>n. kopen t n = Some loc) ns"
proof (rule names_same_file)
  show "names_loop (tree_fs t) [p] [] p MAX_LINK_HOPS = Some ns"
    using assms(5) by (simp add: names_along_resolution_def)
qed (use assms in \<open>auto simp: real_def tracks_def kopen_reached wf_tree_def\<close>)

theorem names_open_the_file_witness:
  "list_all (\<lambda>n. kopen sample_tree n = Some [''w'', ''src'', ''a''])
     [parse_path ''/w/docs/a'', parse_path ''/w/../w/src/a'']"
proof -
  have "wf_tree sample_tree" and "is_absolute (parse_path ''/w/docs/a'')" and "wf_path (parse_path ''/w/docs/a'')"
    and "kopen sample_tree (parse_path ''/w/docs/a'') = Some [''w'', ''src'', ''a'']"
    and "names_along_resolution (tree_fs sample_tree) (parse_path ''/w/docs/a'')
         = Some [parse_path ''/w/docs/a'', parse_path ''/w/../w/src/a'']" by code_simp+
  from names_open_the_file [OF this] show ?thesis .
qed

end
