(* ===== verification/NameFold.thy ===== *)
theory NameFold
  imports PathPolicy Utf8
begin

text \<open>
  Which names are control surfaces (\<open>src/rc/policy.rs\<close>): the fold that decides whether two names may
  be one file on some file system, the table of control surfaces, and the two adjacent segments
  \<open>node_modules/.bin\<close>.

  A Rust \<open>char\<close> is its code point; a name is decoded by \<open>lossy\<close> of Utf8.
  The output of the fold is kept as a list of code points and the start of the current word as an
  index into it (the code keeps the byte offset of the same place).

  The lemmas show that a name keeps its fold, and so stays recognised, when it is respelled in the
  ways file systems ignore, and that within ASCII the fold is exact.
\<close>

section \<open>The fold\<close>

definition is_ignorable_in_names :: "uchar \<Rightarrow> bool" where
  "is_ignorable_in_names c \<longleftrightarrow>
     c = 0x00AD \<or> between 0x200B 0x200F c \<or> between 0x202A 0x202E c \<or> between 0x2060 0x2064 c
     \<or> between 0x206A 0x206F c \<or> between 0xFE00 0xFE0F c \<or> c = 0xFEFF \<or> between 0xE0000 0xE01EF c"

definition FOLDS_TO_ASCII :: "(uchar \<times> string) list" where
  "FOLDS_TO_ASCII =
     [(0x00DF, ''ss''), (0x1E9E, ''ss''), (0x017F, ''s''), (0x0130, ''i''), (0x0131, ''i''), (0x037E, '';''),
      (0x212A, ''k''), (0xFB00, ''ff''), (0xFB01, ''fi''), (0xFB02, ''fl''), (0xFB03, ''ffi''), (0xFB04, ''ffl''),
      (0xFB05, ''st''), (0xFB06, ''st'')]"

definition is_alnum :: "uchar \<Rightarrow> bool" where
  "is_alnum c \<longleftrightarrow> between 48 57 c \<or> between 65 90 c \<or> between 97 122 c"

definition lower :: "uchar \<Rightarrow> uchar" where
  "lower c = (if between 65 90 c then c + 32 else c)"

type_synonym fold_state = "uchar list \<times> nat \<times> bool"

definition collapse_opaque_word :: "fold_state \<Rightarrow> fold_state" where
  "collapse_opaque_word s =
     (case s of (out, word_at, opaque) \<Rightarrow>
        (if opaque then take word_at out @ [0xFFFD] else out, word_at, False))"

definition push_folded_ascii :: "uchar \<Rightarrow> fold_state \<Rightarrow> fold_state" where
  "push_folded_ascii c s =
     (case s of (out, word_at, opaque) \<Rightarrow>
        if is_alnum c then (out @ [c], word_at, opaque)
        else case collapse_opaque_word s of
               (out, _, opaque) \<Rightarrow> (out @ [c], length out + 1, opaque))"

definition fold_char :: "uchar \<Rightarrow> fold_state \<Rightarrow> fold_state" where
  "fold_char c s =
     (if is_ignorable_in_names c then s
      else case map_of FOLDS_TO_ASCII c of
             Some ascii \<Rightarrow> fold push_folded_ascii (codes ascii) s
           | None \<Rightarrow>
               if c \<ge> 128 then (case s of (out, word_at, _) \<Rightarrow> (out @ [c], word_at, True))
               else push_folded_ascii (lower c) s)"

text \<open>Trailing dots and spaces go last.\<close>

definition trim_dots :: "uchar list \<Rightarrow> uchar list" where
  "trim_dots s = rev (dropWhile (\<lambda>c. c = 46 \<or> c = 32) (rev s))"

definition fold_name :: "uchar list \<Rightarrow> uchar list" where
  "fold_name name = trim_dots (fst (collapse_opaque_word (fold fold_char name ([], 0, False))))"

section \<open>Control surfaces\<close>

definition CONTROL_SURFACES :: "string list" where
  "CONTROL_SURFACES =
     [''.git'', ''.hg'', ''.svn'', ''.claude'', ''.codex'', ''.cursor'', ''.vscode'', ''.idea'', ''.github'',
      ''.gitlab'', ''.envrc'', ''.direnv'', ''.husky'',
      ''.cargo'', ''.rustup'', ''.npmrc'', ''.yarnrc'', ''.yarnrc.yml'', ''.yarn'',
      ''.gradle'', ''.mvn'', ''.bundle'', ''.pre-commit-config.yaml'',
      ''.mcp.json'', ''opencode.json'', ''opencode.jsonc'', ''.opencode'',
      ''.agents'', ''.claude-plugin'', ''.cursor-plugin'',
      ''claude.md'', ''claude.local.md'', ''agents.md'', ''agents.override.md'']"

definition is_control_surface_name :: "uchar list \<Rightarrow> bool" where
  "is_control_surface_name name =
     (let folded = fold_name name
      in list_ex (\<lambda>s. folded = codes s) CONTROL_SURFACES \<or> prefix (codes ''.agit'') folded)"

fun component_text :: "component \<Rightarrow> string" where
  "component_text RootDir = ''/''"
| "component_text CurDir = ''.''"
| "component_text ParentDir = ''..''"
| "component_text (Normal n) = n"

datatype Vanish = Everywhere | AlsoOnWin32

definition vanishes_before_the_walk :: "uchar list \<Rightarrow> Vanish \<Rightarrow> bool" where
  "vanishes_before_the_walk seg v \<longleftrightarrow>
     seg = [] \<or> seg = codes ''.'' \<or> (v = AlsoOnWin32 \<and> seg \<noteq> codes ''..'' \<and> trim_dots seg = [])"

definition folded_is_node_modules :: "uchar list \<Rightarrow> bool" where
  "folded_is_node_modules s \<longleftrightarrow> suffix (codes ''node_modules'') s"

fun has_the_bin_pair :: "uchar list list \<Rightarrow> bool" where
  "has_the_bin_pair (a # b # r) \<longleftrightarrow>
     folded_is_node_modules a \<and> prefix (codes ''.bin'') b \<or> has_the_bin_pair (b # r)"
| "has_the_bin_pair _ \<longleftrightarrow> False"

definition pop_step :: "uchar list \<Rightarrow> uchar list list \<Rightarrow> uchar list list" where
  "pop_step seg popped = (if seg = codes ''..'' then butlast popped else popped @ [seg])"

definition holds_the_bin_pair :: "uchar list list \<Rightarrow> Vanish \<Rightarrow> bool" where
  "holds_the_bin_pair raw v =
     (let spelled = map (\<lambda>seg. if seg = codes ''..'' then seg else fold_name seg)
                      (filter (\<lambda>seg. \<not> vanishes_before_the_walk seg v) raw);
          popped = fold pop_step spelled []
      in has_the_bin_pair spelled \<or> has_the_bin_pair popped)"

text \<open>
  The segments of the path's text, backslashes read as slashes. The text is put together from the
  components: the empty and dot segments it may have had besides vanish in every reading.
\<close>

definition raw_segments :: "path \<Rightarrow> uchar list list" where
  "raw_segments p =
     concat (map (\<lambda>c. split_on 47 (map (\<lambda>u. if u = 92 then 47 else u) (lossy (component_text c)))) p)"

definition spells_node_modules_bin :: "path \<Rightarrow> bool" where
  "spells_node_modules_bin p =
     list_ex (holds_the_bin_pair (raw_segments p)) [Everywhere, AlsoOnWin32]"

definition is_control_surface :: "path \<Rightarrow> bool" where
  "is_control_surface p \<longleftrightarrow>
     list_ex (\<lambda>c. is_control_surface_name (lossy (component_text c))) p \<or> spells_node_modules_bin p"

text \<open>Segment by segment, names compared through the fold.\<close>

fun resolves_under :: "path \<Rightarrow> path \<Rightarrow> bool" where
  "resolves_under ts [] \<longleftrightarrow> True"
| "resolves_under [] (a # as) \<longleftrightarrow> False"
| "resolves_under (t # ts) (a # as) \<longleftrightarrow>
     (t = a \<or> fold_name (lossy (component_text t)) = fold_name (lossy (component_text a)))
     \<and> resolves_under ts as"

section \<open>Respellings\<close>

definition unfoldable :: "uchar \<Rightarrow> bool" where
  "unfoldable c \<longleftrightarrow> c \<ge> 128 \<and> \<not> is_ignorable_in_names c \<and> map_of FOLDS_TO_ASCII c = None"

text \<open>A stretch of a word with at least one character the fold does not look into.\<close>

definition opaque_stretch :: "uchar list \<Rightarrow> bool" where
  "opaque_stretch w \<longleftrightarrow> list_all (\<lambda>c. c < 128 \<and> is_alnum c \<or> unfoldable c) w \<and> list_ex unfoldable w"

text \<open>
  The ways a name is respelled that some file system ignores: format characters, letter case,
  characters that fold to ASCII, another normalization of a word with non-ASCII characters, and
  trailing dots and spaces.
\<close>

inductive respelled :: "uchar list \<Rightarrow> uchar list \<Rightarrow> bool" where
  format: "is_ignorable_in_names z \<Longrightarrow> respelled (a @ b) (a @ z # b)"
| letter_case: "c < 128 \<Longrightarrow> respelled (a @ lower c # b) (a @ c # b)"
| expansion: "map_of FOLDS_TO_ASCII c = Some s \<Longrightarrow> respelled (a @ codes s @ b) (a @ c # b)"
| normalization: "opaque_stretch w \<Longrightarrow> opaque_stretch w' \<Longrightarrow> respelled (a @ w @ b) (a @ w' @ b)"
| trailing: "c = 46 \<or> c = 32 \<Longrightarrow> respelled n (n @ [c])"
| step: "respelled n m \<Longrightarrow> respelled m k \<Longrightarrow> respelled n k"

lemma table_large: "map_of FOLDS_TO_ASCII c = Some s \<Longrightarrow> c \<ge> 128 \<and> \<not> is_ignorable_in_names c"
  by (auto simp: FOLDS_TO_ASCII_def is_ignorable_in_names_def between_def split: if_splits)

lemma ignorable_large: "is_ignorable_in_names c \<Longrightarrow> c \<ge> 128"
  by (auto simp: is_ignorable_in_names_def between_def)

lemma fold_char_ascii: "c < 128 \<Longrightarrow> fold_char c = push_folded_ascii (lower c)"
  using table_large [of c] ignorable_large [of c] by (cases "map_of FOLDS_TO_ASCII c") (auto simp: fold_char_def fun_eq_iff)

lemma lower_lower [simp]: "lower (lower c) = lower c" and lower_ascii: "c < 128 \<Longrightarrow> lower c < 128"
  by (auto simp: lower_def between_def)

lemma expansions_ascii:
  assumes "map_of FOLDS_TO_ASCII c = Some s"
  shows "list_all (\<lambda>u. u < 128 \<and> lower u = u) (codes s)"
proof -
  have "list_all (\<lambda>(_, s). list_all (\<lambda>u. u < 128 \<and> lower u = u) (codes s)) FOLDS_TO_ASCII"
    by (simp add: FOLDS_TO_ASCII_def codes_def byte_def lower_def between_def)
  with map_of_SomeD [OF assms] show ?thesis by (auto simp: list_all_iff)
qed

lemma fold_ascii_codes:
  "list_all (\<lambda>u. u < 128 \<and> lower u = u) us \<Longrightarrow> fold fold_char us s = fold push_folded_ascii us s"
  by (induction us arbitrary: s) (auto simp: fold_char_ascii)

lemma fold_char_expansion:
  assumes "map_of FOLDS_TO_ASCII c = Some s"
  shows "fold fold_char (codes s) st = fold_char c st"
  using assms table_large [OF assms] fold_ascii_codes [OF expansions_ascii [OF assms]] by (simp add: fold_char_def)

text \<open>
  States that differ only inside a word that will be replaced: they stay so, and the replacement
  makes them equal.
\<close>

fun alike :: "fold_state \<Rightarrow> fold_state \<Rightarrow> bool" where
  "alike (out, w, op) (out', w', op') \<longleftrightarrow>
     w = w' \<and> w \<le> length out \<and> w' \<le> length out' \<and> op = op'
     \<and> (if op then take w out = take w out' else out = out')"

lemma collapse_alike:
  "alike s s' \<Longrightarrow> fst (collapse_opaque_word s) = fst (collapse_opaque_word s')"
  by (cases s; cases s') (auto simp: collapse_opaque_word_def split: if_splits)

lemma push_alike: "alike s s' \<Longrightarrow> alike (push_folded_ascii c s) (push_folded_ascii c s')"
  by (cases s; cases s') (auto simp: push_folded_ascii_def collapse_opaque_word_def split: if_splits)

lemma fold_push_alike: "alike s s' \<Longrightarrow> alike (fold push_folded_ascii cs s) (fold push_folded_ascii cs s')"
  by (induction cs arbitrary: s s') (auto simp: push_alike)

lemma fold_char_alike: "alike s s' \<Longrightarrow> alike (fold_char c s) (fold_char c s')"
  by (cases s; cases s') (auto simp: fold_char_def push_alike fold_push_alike split: option.splits if_splits)

lemma fold_alike: "alike s s' \<Longrightarrow> alike (fold fold_char cs s) (fold fold_char cs s')"
  by (induction cs arbitrary: s s') (auto simp: fold_char_alike)

lemma alike_self: "fst (snd s) \<le> length (fst s) \<Longrightarrow> alike s s"
  by (cases s) auto

lemma fold_start: "alike (fold fold_char cs ([], 0, False)) (fold fold_char cs ([], 0, False))"
  by (rule fold_alike) simp

text \<open>A stretch of a word adds to the word, and makes it opaque if it has such a character.\<close>

lemma fold_stretch:
  assumes "list_all (\<lambda>c. c < 128 \<and> is_alnum c \<or> unfoldable c) ws" and "w \<le> length out"
  shows "\<exists>more. fold fold_char ws (out, w, op) = (out @ more, w, op \<or> list_ex unfoldable ws)"
  using assms
proof (induction ws arbitrary: out op)
  case Nil
  then show ?case by simp
next
  case (Cons c ws)
  have c: "fold_char c (out, w, op) = (out @ [if c < 128 then lower c else c], w, op \<or> unfoldable c)"
  proof (cases "c < 128")
    case True
    moreover have "is_alnum (lower c) = is_alnum c" by (auto simp: is_alnum_def lower_def between_def)
    ultimately show ?thesis using Cons.prems by (auto simp: fold_char_ascii push_folded_ascii_def unfoldable_def)
  next
    case False
    with Cons.prems show ?thesis by (auto simp: fold_char_def unfoldable_def)
  qed
  from Cons.IH [of "out @ [if c < 128 then lower c else c]" "op \<or> unfoldable c"] Cons.prems show ?case
    by (auto simp: c)
qed

lemma stretch_alike:
  assumes "opaque_stretch w" and "opaque_stretch w'" and "alike s s"
  shows "alike (fold fold_char w s) (fold fold_char w' s)"
proof -
  obtain out at' op where s: "s = (out, at', op)" by (cases s)
  from assms(3) s have le: "at' \<le> length out" by simp
  from fold_stretch [OF _ le, of w op] fold_stretch [OF _ le, of w' op] assms(1,2) s le show ?thesis
    by (auto simp: opaque_stretch_def)
qed

lemma trim_dots_snoc: "c = 46 \<or> c = 32 \<Longrightarrow> trim_dots (s @ [c]) = trim_dots s"
  by (auto simp: trim_dots_def)

lemma fold_name_trailing: "c = 46 \<or> c = 32 \<Longrightarrow> fold_name (n @ [c]) = fold_name n"
proof -
  assume c: "c = 46 \<or> c = 32"
  obtain out w op where s: "fold fold_char n ([], 0, False) = (out, w, op)" by (metis prod_cases3)
  from c have "lower c = c" and "\<not> is_alnum c" and "c < 128" by (auto simp: lower_def is_alnum_def between_def)
  then have "fst (collapse_opaque_word (fold fold_char (n @ [c]) ([], 0, False)))
      = fst (collapse_opaque_word (out, w, op)) @ [c]"
    by (simp add: s fold_char_ascii push_folded_ascii_def collapse_opaque_word_def)
  with c show ?thesis by (simp add: fold_name_def s trim_dots_snoc)
qed

lemma fold_name_alike:
  "alike (fold fold_char n ([], 0, False)) (fold fold_char m ([], 0, False)) \<Longrightarrow> fold_name n = fold_name m"
  by (simp add: fold_name_def collapse_alike)

lemma respelled_fold: "respelled n m \<Longrightarrow> fold_name n = fold_name m"
proof (induction rule: respelled.induct)
  case (format z a b)
  then have "fold_char z = (\<lambda>s. s)" by (auto simp: fold_char_def)
  then show ?case by (simp add: fold_name_def)
next
  case (letter_case c a b)
  then show ?case by (simp add: fold_name_def fold_char_ascii lower_ascii)
next
  case (expansion c s a b)
  then show ?case by (simp add: fold_name_def fold_char_expansion)
next
  case (normalization w w' a b)
  from stretch_alike [OF this fold_start [of a]] show ?case
    by (intro fold_name_alike) (simp add: fold_alike)
next
  case (trailing c n)
  then show ?case by (simp add: fold_name_trailing)
qed simp

text \<open>Within ASCII the fold is exact: lower case, without trailing dots and spaces.\<close>

lemma fold_ascii:
  assumes "list_all (\<lambda>c. c < 128) n"
  shows "fst (fold fold_char n (out, w, False)) = out @ map lower n \<and> \<not> snd (snd (fold fold_char n (out, w, False)))"
  using assms
proof (induction n arbitrary: out w)
  case (Cons c n)
  then show ?case
    by (cases "is_alnum (lower c)")
      (auto simp: fold_char_ascii push_folded_ascii_def collapse_opaque_word_def)
qed simp

lemma fold_name_ascii: "list_all (\<lambda>c. c < 128) n \<Longrightarrow> fold_name n = trim_dots (map lower n)"
  using fold_ascii [of n "[]" 0]
  by (cases "fold fold_char n ([], 0, False)") (auto simp: fold_name_def collapse_opaque_word_def)

text \<open>
  C40. A respelled name is still recognised: whatever combination of the ignored respellings turns
  one name into another, both are control surfaces or neither is.
\<close>

theorem respelled_names_recognised:
  "respelled n m \<Longrightarrow> is_control_surface_name n = is_control_surface_name m"
  by (simp add: is_control_surface_name_def respelled_fold)

theorem respelled_names_recognised_witness:
  "is_control_surface_name (codes ''.HU'' @ 0x017F # codes ''ky.'')"
proof -
  have 1: "respelled (codes ''.husky'') (codes ''.husky'' @ [46])" by (rule respelled.trailing) simp
  have 2: "respelled (codes ''.hu'' @ codes ''s'' @ codes ''ky.'') (codes ''.hu'' @ 0x017F # codes ''ky.'')"
    by (rule respelled.expansion) (simp add: FOLDS_TO_ASCII_def)
  have 3: "respelled (codes ''.h'' @ lower 85 # 0x017F # codes ''ky.'') (codes ''.h'' @ 85 # 0x017F # codes ''ky.'')"
    by (rule respelled.letter_case) simp
  have 4: "respelled (codes ''.'' @ lower 72 # 85 # 0x017F # codes ''ky.'') (codes ''.'' @ 72 # 85 # 0x017F # codes ''ky.'')"
    by (rule respelled.letter_case) simp
  have "respelled (codes ''.husky'') (codes ''.HU'' @ 0x017F # codes ''ky.'')"
    using respelled.step [OF respelled.step [OF respelled.step] , OF 1 _ _, of "codes ''.hu'' @ 0x017F # codes ''ky.''"] 2 3 4
    by (simp add: codes_def byte_def lower_def between_def)
  moreover have "fold_name (codes ''.husky'') = codes ''.husky''"
    by (subst fold_name_ascii) (simp_all add: codes_def byte_def lower_def between_def trim_dots_def)
  then have "is_control_surface_name (codes ''.husky'')"
    by (simp add: is_control_surface_name_def CONTROL_SURFACES_def)
  ultimately show ?thesis using respelled_names_recognised by blast
qed

end
