(* ===== verification/AliasScan.thy ===== *)
theory AliasScan
  imports NameFold
begin

text \<open>
  The reverse question of a write (\<open>src/rc/policy.rs\<close>): does some control surface's name in the
  workspace land on the file? The directories on two ancestor chains are read, every control
  surface found there is resolved, and what is inside it is walked exhaustively through its links.
  A directory, entry or link that cannot be answered, or an exhausted account, counts as yes.

  The queue of the walk is a stack with its top at the head. The lemmas show that the walk ends on
  every file system, and that it answers no only when every directory reachable from the control
  surface was read and none of its links lands on the file.
\<close>

section \<open>Locations\<close>

text \<open>What a link at \<open>p\<close> stands for: its text, seen from the directory it is in.\<close>

definition spliced_target :: "path \<Rightarrow> path \<Rightarrow> path option" where
  "spliced_target p target =
     (if is_absolute target then Some target else map_option (\<lambda>d. join d target) (parent p))"

definition location_of :: "fs \<Rightarrow> path \<Rightarrow> AliasBudget \<Rightarrow> path option \<times> AliasBudget" where
  "location_of f p b =
     (let (ok, b) = take_segments (length p) b
      in if \<not> ok then (None, b)
         else case symlink_metadata f p of
                Meta t \<Rightarrow>
                  if t = LinkT
                  then (case read_link f p of
                          None \<Rightarrow> (None, b)
                        | Some target \<Rightarrow>
                            (case spliced_target p target of
                               None \<Rightarrow> (None, b)
                             | Some q \<Rightarrow> resolve_metered f q b))
                  else resolve_metered f p b
              | NotFound \<Rightarrow> resolve_metered f p b
              | StatError \<Rightarrow> (None, b))"

section \<open>The walk inside a control surface\<close>

definition enqueue_if_dir :: "fs \<Rightarrow> path \<Rightarrow> path set \<Rightarrow> path list \<Rightarrow> (path set \<times> path list) option" where
  "enqueue_if_dir f p visited queue =
     (case metadata f p of
        Meta t \<Rightarrow>
          if t = DirT \<and> p \<notin> visited then Some (insert p visited, p # queue) else Some (visited, queue)
      | NotFound \<Rightarrow> Some (visited, queue)
      | StatError \<Rightarrow> None)"

text \<open>The state of the walk; \<open>Inl\<close> leaves it with the answer yes.\<close>

type_synonym scan_state = "path set \<times> path list \<times> AliasBudget"

definition scan_link :: "fs \<Rightarrow> path \<Rightarrow> path \<Rightarrow> scan_state \<Rightarrow> AliasBudget + scan_state" where
  "scan_link f target here s =
     (case s of (visited, queue, b) \<Rightarrow>
        let (ok, b) = take_link b
        in if \<not> ok then Inl b
           else case location_of f here b of
                  (None, b) \<Rightarrow> Inl b
                | (Some p, b) \<Rightarrow>
                    if resolves_under target p then Inl b
                    else case enqueue_if_dir f p visited queue of
                           None \<Rightarrow> Inl b
                         | Some (visited, queue) \<Rightarrow> Inr (visited, queue, b))"

definition scan_entry ::
  "fs \<Rightarrow> path \<Rightarrow> path \<Rightarrow> (string \<times> file_type option) option \<Rightarrow> scan_state \<Rightarrow> AliasBudget + scan_state" where
  "scan_entry f target dir entry s =
     (case s of (visited, queue, b) \<Rightarrow>
        case entry of
          None \<Rightarrow> Inl b
        | Some (name, ft) \<Rightarrow>
            let (ok, b) = take_dirent b; here = dir @ [Normal name]
            in if \<not> ok then Inl b
               else case ft of
                      None \<Rightarrow> Inl b
                    | Some LinkT \<Rightarrow> scan_link f target here (visited, queue, b)
                    | Some DirT \<Rightarrow>
                        if here \<in> visited then Inr (visited, queue, b)
                        else Inr (insert here visited, here # queue, b)
                    | Some FileT \<Rightarrow> Inr (visited, queue, b))"

definition scan_entries ::
  "fs \<Rightarrow> path \<Rightarrow> path \<Rightarrow> (string \<times> file_type option) option list \<Rightarrow> scan_state \<Rightarrow> AliasBudget + scan_state" where
  "scan_entries f target dir entries s = r_fold (scan_entry f target dir) entries s"

subsection \<open>Accounts\<close>

lemma take_segments_dirents [simp]: "dirents (snd (take_segments n b)) = dirents b"
  by (simp add: take_segments_def split: prod.splits)

lemma charge_dirents: "charge n (Some b) = (ok, w) \<Longrightarrow> \<exists>b'. w = Some b' \<and> dirents b' = dirents b"
  by (auto simp: charge_def take_segments_def split: prod.splits)

lemma resolve_loop_dirents:
  "w = Some b \<Longrightarrow> \<exists>b'. snd (resolve_loop f cur rest hops w) = Some b' \<and> dirents b' = dirents b"
proof (induction f cur rest hops w arbitrary: b rule: resolve_loop.induct)
  case (5 f cur n spliced rest hops w)
  obtain ok1 w1 where c1: "charge (length (cur @ [Normal n])) w = (ok1, w1)" by (metis surj_pair)
  with charge_dirents "5.prems" obtain b1 where w1: "w1 = Some b1" and b1: "dirents b1 = dirents b" by blast
  show ?case
  proof (cases "read_link f (cur @ [Normal n])")
    case None
    with "5.IH"(1) [OF refl c1 [symmetric] refl _ None _ w1] c1 w1 b1 show ?thesis
      by (auto simp: resolve_loop.simps(5) Let_def split: option.splits)
  next
    case (Some target)
    obtain ok2 w2 where c2: "charge (length target) w1 = (ok2, w2)" by (metis surj_pair)
    with charge_dirents w1 obtain b2 where w2: "w2 = Some b2" and b2: "dirents b2 = dirents b1" by blast
    from Some "5.IH"(2) [OF refl c1 [symmetric] refl _ Some _ c2 [symmetric] refl _ w2] c1 c2 w1 w2 b1 b2
    show ?thesis by (auto simp: resolve_loop.simps(5) Let_def)
  qed
qed auto

lemma resolve_metered_dirents [simp]: "dirents (snd (resolve_metered f p b)) = dirents b"
  using resolve_loop_dirents [OF refl, of f "[]" "map (\<lambda>c. (c, False)) p" 0 b]
  by (auto simp: resolve_metered_def resolve_ancestor_def split: prod.splits)

lemma location_of_dirents [simp]: "dirents (snd (location_of f p b)) = dirents b"
proof -
  obtain ok b' where t: "take_segments (length p) b = (ok, b')" by (metis surj_pair)
  then have "dirents b' = dirents b" by (metis snd_conv take_segments_dirents)
  then show ?thesis by (auto simp: location_of_def t split: stat_result.splits option.splits)
qed

lemma location_of_direntsD: "location_of f p b = (r, b') \<Longrightarrow> dirents b' = dirents b"
  by (metis location_of_dirents snd_conv)

lemma scan_link_dirents:
  "scan_link f target here (visited, queue, b) = Inr (v, q, b') \<Longrightarrow> dirents b' = dirents b"
  by (auto simp: scan_link_def Let_def take_link_def dest!: location_of_direntsD
      split: prod.splits option.splits if_splits)

text \<open>Every entry read is charged.\<close>

lemma scan_entry_dirents:
  assumes "scan_entry f target dir entry (visited, queue, b) = Inr (v, q, b')"
  shows "dirents b = dirents b' + 1"
proof -
  from assms obtain name ft where e: "entry = Some (name, Some ft)" and d: "dirents b \<ge> 1"
    by (auto simp: scan_entry_def take_dirent_def take_n_def Let_def split: option.splits if_splits)
  with assms show ?thesis
    by (cases ft) (auto simp: scan_entry_def take_dirent_def take_n_def Let_def
        dest!: scan_link_dirents split: if_splits)
qed

lemma scan_entries_dirents:
  "scan_entries f target dir es (visited, queue, b) = Inr (v, q, b') \<Longrightarrow>
     dirents b = dirents b' + length es \<and> (es = [] \<longrightarrow> q = queue)"
  unfolding scan_entries_def
proof (induction es arbitrary: visited queue b)
  case (Cons e es)
  then obtain v1 q1 b1 where "scan_entry f target dir e (visited, queue, b) = Inr (v1, q1, b1)"
    and "r_fold (scan_entry f target dir) es (v1, q1, b1) = Inr (v, q, b')"
    by (auto simp: r_bind_eq_Inr)
  with Cons.IH scan_entry_dirents show ?case by fastforce
qed simp

subsection \<open>The loop\<close>

function scan_loop :: "fs \<Rightarrow> path \<Rightarrow> path set \<Rightarrow> path list \<Rightarrow> AliasBudget \<Rightarrow> bool \<times> AliasBudget" where
  "scan_loop f target visited [] b = (False, b)"
| "scan_loop f target visited (dir # queue) b =
     (if \<not> fst (take_segments (length dir) b) then (True, snd (take_segments (length dir) b))
      else case read_dir f dir of
             DirMissing \<Rightarrow> scan_loop f target visited queue (snd (take_segments (length dir) b))
           | DirError \<Rightarrow> (True, snd (take_segments (length dir) b))
           | Entries es \<Rightarrow>
               (case scan_entries f target dir es (visited, queue, snd (take_segments (length dir) b)) of
                  Inl b \<Rightarrow> (True, b)
                | Inr (visited, queue, b) \<Rightarrow> scan_loop f target visited queue b))"
  by pat_completeness auto
termination
proof (relation "measures [\<lambda>(f, target, visited, queue, b). dirents b,
                            \<lambda>(f, target, visited, queue, b). length queue]", goal_cases)
  case (2 f target visited dir queue b es s v y q b')
  then have "dirents b = dirents b' + length es \<and> (es = [] \<longrightarrow> q = queue)"
    using scan_entries_dirents [of f target dir es visited queue "snd (take_segments (length dir) b)" v q b'] by auto
  then show ?case by (cases es) auto
qed auto

definition scan_for_alias :: "fs \<Rightarrow> path \<Rightarrow> path \<Rightarrow> AliasBudget \<Rightarrow> bool \<times> AliasBudget" where
  "scan_for_alias f start target b =
     (case enqueue_if_dir f start {} [] of
        None \<Rightarrow> (True, b)
      | Some (visited, queue) \<Rightarrow> scan_loop f target visited queue b)"

definition anchor_reaches :: "fs \<Rightarrow> path \<Rightarrow> path \<Rightarrow> AliasBudget \<Rightarrow> bool \<times> AliasBudget" where
  "anchor_reaches f anchor target b =
     (let (ok, b) = take_link b
      in if \<not> ok then (True, b)
         else case location_of f anchor b of
                (None, b) \<Rightarrow> (True, b)
              | (Some p, b) \<Rightarrow>
                  if resolves_under target p then (True, b) else scan_for_alias f p target b)"

section \<open>The two ancestor chains\<close>

text \<open>The levels in the order they are handed out; the flag marks the chain of the working directory.\<close>

definition scope_steps :: "path \<Rightarrow> path \<Rightarrow> (path \<times> bool) list" where
  "scope_steps target cwd =
     map (\<lambda>d. (d, False)) (tl (ancestors target)) @ map (\<lambda>d. (d, True)) (ancestors cwd)"

definition skip_level :: "roots \<Rightarrow> path \<Rightarrow> path \<times> bool \<Rightarrow> bool" where
  "skip_level rs target step =
     (case step of (dir, from_cwd) \<Rightarrow>
        \<not> list_ex (\<lambda>r. starts_with dir r) rs
        \<or> from_cwd \<and> length dir < length target \<and> starts_with target dir)"

text \<open>
  An entry of a level, with the answer so far in the account: \<open>Inl\<close> is the answer yes.
\<close>

definition ask :: "bool \<times> AliasBudget \<Rightarrow> AliasBudget + AliasBudget" where
  "ask r = (if fst r then Inl (snd r) else Inr (snd r))"

definition surface_entry ::
  "fs \<Rightarrow> path \<Rightarrow> path \<Rightarrow> (string \<times> file_type option) option \<Rightarrow> AliasBudget \<Rightarrow> AliasBudget + AliasBudget" where
  "surface_entry f target dir entry b =
     (case entry of
        None \<Rightarrow> Inl b
      | Some (name, ft) \<Rightarrow>
          let (ok, b) = take_dirent b; here = dir @ [Normal name]
          in if \<not> ok then Inl b
             else r_bind (if is_control_surface_name (lossy name)
                          then ask (anchor_reaches f here target b) else Inr b) (\<lambda>b.
                  if folded_is_node_modules (fold_name (lossy name))
                  then (case ft of
                          Some FileT \<Rightarrow> Inr b
                        | Some _ \<Rightarrow> ask (anchor_reaches f (here @ [Normal ''.bin'']) target b)
                        | None \<Rightarrow> Inl b)
                  else Inr b))"

definition surface_level ::
  "fs \<Rightarrow> roots \<Rightarrow> path \<Rightarrow> path \<times> bool \<Rightarrow> AliasBudget \<Rightarrow> AliasBudget + AliasBudget" where
  "surface_level f rs target step b =
     (let dir = fst step; (ok, b) = take_segments (length dir) b
      in if \<not> ok then Inl b
         else if skip_level rs target step then Inr b
         else case read_dir f dir of
                DirMissing \<Rightarrow> Inr b
              | DirError \<Rightarrow> Inl b
              | Entries es \<Rightarrow> r_fold (surface_entry f target dir) es b)"

definition reachable_under_a_control_surface_name_within ::
  "fs \<Rightarrow> path \<Rightarrow> path \<Rightarrow> roots \<Rightarrow> AliasBudget \<Rightarrow> bool \<times> AliasBudget" where
  "reachable_under_a_control_surface_name_within f target cwd rs b =
     (case r_fold (surface_level f rs target) (scope_steps target cwd) b of
        Inl b \<Rightarrow> (True, b) | Inr b \<Rightarrow> (False, b))"

definition reachable_under_a_control_surface_name :: "fs \<Rightarrow> path \<Rightarrow> path \<Rightarrow> roots \<Rightarrow> bool" where
  "reachable_under_a_control_surface_name f target cwd rs =
     fst (reachable_under_a_control_surface_name_within f target cwd rs new_budget)"

section \<open>A finished walk looked everywhere\<close>

text \<open>The location of a name when no account is kept.\<close>

definition free_location :: "fs \<Rightarrow> path \<Rightarrow> path option" where
  "free_location f p =
     (case symlink_metadata f p of
        Meta t \<Rightarrow>
          if t = LinkT
          then Option.bind (Option.bind (read_link f p) (spliced_target p)) (\<lambda>q. fst (resolve_ancestor f q None))
          else fst (resolve_ancestor f p None)
      | NotFound \<Rightarrow> fst (resolve_ancestor f p None)
      | StatError \<Rightarrow> None)"

lemma resolve_metered_free: "resolve_metered f p b = (Some q, b') \<Longrightarrow> fst (resolve_ancestor f p None) = Some q"
  using resolve_metered_agrees [of f "[]" "map (\<lambda>c. (c, False)) p" 0 "Some b"]
  by (auto simp: resolve_metered_def resolve_ancestor_def split: prod.splits)

lemma location_of_free: "location_of f p b = (Some q, b') \<Longrightarrow> free_location f p = Some q"
  by (auto simp: location_of_def free_location_def Let_def dest!: resolve_metered_free
      split: prod.splits if_splits stat_result.splits option.splits)

text \<open>The directories inside a control surface, through the links it holds.\<close>

inductive inside :: "fs \<Rightarrow> path \<Rightarrow> path \<Rightarrow> bool" for f start where
  surface: "metadata f start = Meta DirT \<Longrightarrow> inside f start start"
| subdir: "inside f start d \<Longrightarrow> read_dir f d = Entries es \<Longrightarrow> Some (n, Some DirT) \<in> set es \<Longrightarrow>
     inside f start (d @ [Normal n])"
| through_link: "inside f start d \<Longrightarrow> read_dir f d = Entries es \<Longrightarrow> Some (n, Some LinkT) \<in> set es \<Longrightarrow>
     free_location f (d @ [Normal n]) = Some p \<Longrightarrow> metadata f p = Meta DirT \<Longrightarrow> inside f start p"

text \<open>An entry that was looked at, with the directories it leads to among the visited ones.\<close>

definition cleared :: "fs \<Rightarrow> path \<Rightarrow> path set \<Rightarrow> path \<Rightarrow> (string \<times> file_type option) option \<Rightarrow> bool" where
  "cleared f target V d entry \<longleftrightarrow>
     (\<exists>n ft. entry = Some (n, Some ft)
        \<and> (ft = DirT \<longrightarrow> d @ [Normal n] \<in> V)
        \<and> (ft = LinkT \<longrightarrow>
             (\<exists>p. free_location f (d @ [Normal n]) = Some p \<and> \<not> resolves_under target p
                \<and> (metadata f p = Meta DirT \<longrightarrow> p \<in> V))))"

definition cleared_dir :: "fs \<Rightarrow> path \<Rightarrow> path set \<Rightarrow> path \<Rightarrow> bool" where
  "cleared_dir f target V d \<longleftrightarrow>
     (case read_dir f d of
        Entries es \<Rightarrow> (\<forall>e \<in> set es. cleared f target V d e) | DirMissing \<Rightarrow> True | DirError \<Rightarrow> False)"

lemma cleared_mono: "cleared f target V d e \<Longrightarrow> V \<subseteq> V' \<Longrightarrow> cleared f target V' d e"
  unfolding cleared_def by blast

lemma cleared_dir_mono: "cleared_dir f target V d \<Longrightarrow> V \<subseteq> V' \<Longrightarrow> cleared_dir f target V' d"
  unfolding cleared_dir_def using cleared_mono by (auto split: dir_result.splits)

text \<open>What a step adds: only directories it queued.\<close>

abbreviation grows :: "path set \<Rightarrow> path list \<Rightarrow> path set \<Rightarrow> path list \<Rightarrow> bool" where
  "grows V q V' q' \<equiv> V \<subseteq> V' \<and> V' - set q' \<subseteq> V - set q"

lemma enqueue_grows:
  assumes "enqueue_if_dir f p V q = Some (V', q')"
  shows "grows V q V' q'" and "metadata f p = Meta DirT \<longrightarrow> p \<in> V'"
  using assms by (auto simp: enqueue_if_dir_def split: stat_result.splits if_splits)

lemma scan_link_cleared:
  assumes "scan_link f target here (V, q, b) = Inr (V', q', b')"
  shows "grows V q V' q'
    \<and> (\<exists>p. free_location f here = Some p \<and> \<not> resolves_under target p \<and> (metadata f p = Meta DirT \<longrightarrow> p \<in> V'))"
proof -
  from assms obtain b1 p where "location_of f here b1 = (Some p, b')" and n: "\<not> resolves_under target p"
    and e: "enqueue_if_dir f p V q = Some (V', q')"
    by (auto simp: scan_link_def Let_def split: prod.splits option.splits if_splits)
  with location_of_free have "free_location f here = Some p" by blast
  with n enqueue_grows [OF e] show ?thesis by blast
qed

lemma scan_entry_cleared:
  assumes "scan_entry f target d entry (V, q, b) = Inr (V', q', b')"
  shows "grows V q V' q' \<and> cleared f target V' d entry"
proof -
  from assms obtain n ft where e: "entry = Some (n, Some ft)"
    by (auto simp: scan_entry_def Let_def split: option.splits prod.splits if_splits)
  show ?thesis
  proof (cases ft)
    case LinkT
    with assms e obtain b1 where "scan_link f target (d @ [Normal n]) (V, q, b1) = Inr (V', q', b')"
      by (auto simp: scan_entry_def Let_def split: prod.splits if_splits)
    from scan_link_cleared [OF this] e LinkT show ?thesis by (simp add: cleared_def)
  qed (use assms e in \<open>auto simp: scan_entry_def Let_def cleared_def split: prod.splits if_splits\<close>)
qed

lemma scan_entries_cleared:
  "scan_entries f target d es (V, q, b) = Inr (V', q', b') \<Longrightarrow>
     grows V q V' q' \<and> (\<forall>e \<in> set es. cleared f target V' d e)"
  unfolding scan_entries_def
proof (induction es arbitrary: V q b)
  case (Cons e es)
  then obtain V1 q1 b1 where s: "scan_entry f target d e (V, q, b) = Inr (V1, q1, b1)"
    and r: "r_fold (scan_entry f target d) es (V1, q1, b1) = Inr (V', q', b')"
    by (auto simp: r_bind_eq_Inr)
  from scan_entry_cleared [OF s] Cons.IH [OF r] cleared_mono show ?case by fastforce
qed simp

text \<open>The walk's invariant: visited directories that are not waiting have been read and cleared.\<close>

lemma scan_loop_cleared:
  assumes "fst (scan_loop f target V q b) = False" and "\<forall>d \<in> V - set q. cleared_dir f target V d"
  shows "\<exists>V'. V \<subseteq> V' \<and> (\<forall>d \<in> V'. cleared_dir f target V' d)"
  using assms
proof (induction f target V q b rule: scan_loop.induct)
  case (1 f target V b)
  then show ?case by auto
next
  case (2 f target V d q b)
  show ?case
  proof (cases "read_dir f d")
    case DirMissing
    moreover from DirMissing have "cleared_dir f target V d" by (simp add: cleared_dir_def)
    ultimately show ?thesis using 2 by (auto split: if_splits)
  next
    case DirError
    with 2 show ?thesis by (auto split: if_splits)
  next
    case (Entries es)
    with "2.prems"(1) obtain V1 q1 b1
      where s: "scan_entries f target d es (V, q, snd (take_segments (length d) b)) = Inr (V1, q1, b1)"
      and ok: "fst (take_segments (length d) b)" and l: "fst (scan_loop f target V1 q1 b1) = False"
      by (auto split: if_splits sum.splits)
    from scan_entries_cleared [OF s] have g: "V \<subseteq> V1" "V1 - set q1 \<subseteq> V - set q"
      and c: "\<forall>e \<in> set es. cleared f target V1 d e" by auto
    have "\<forall>x \<in> V1 - set q1. cleared_dir f target V1 x"
    proof
      fix x
      assume "x \<in> V1 - set q1"
      with g have x: "x \<in> V - set q" by blast
      show "cleared_dir f target V1 x"
      proof (cases "x = d")
        case True
        with c Entries show ?thesis by (simp add: cleared_dir_def)
      next
        case False
        with x "2.prems"(2) g(1) cleared_dir_mono show ?thesis by fastforce
      qed
    qed
    from "2.IH"(1) [OF _ Entries s refl refl l this] ok g(1) show ?thesis by blast
  qed
qed

text \<open>A name whose location is known and not the target's, and whose inside holds no link to it.\<close>

definition avoids :: "fs \<Rightarrow> path \<Rightarrow> path \<Rightarrow> bool" where
  "avoids f target anchor \<longleftrightarrow>
     (\<exists>p. free_location f anchor = Some p \<and> \<not> resolves_under target p
        \<and> (\<forall>d es n. inside f p d \<and> read_dir f d = Entries es \<and> Some (n, Some LinkT) \<in> set es \<longrightarrow>
             (\<exists>q. free_location f (d @ [Normal n]) = Some q \<and> \<not> resolves_under target q)))"

lemma inside_visited:
  assumes "inside f start d" and "metadata f start = Meta DirT \<longrightarrow> start \<in> V"
    and "\<forall>d \<in> V. cleared_dir f target V d"
  shows "d \<in> V"
  using assms
proof (induction rule: inside.induct)
  case (subdir d es n)
  then show ?case by (fastforce simp: cleared_dir_def cleared_def)
next
  case (through_link d es n p)
  then show ?case by (fastforce simp: cleared_dir_def cleared_def)
qed simp

lemma scan_for_alias_sound:
  assumes "fst (scan_for_alias f start target b) = False" and "inside f start d"
    and "read_dir f d = Entries es" and "Some (n, Some LinkT) \<in> set es"
  shows "\<exists>q. free_location f (d @ [Normal n]) = Some q \<and> \<not> resolves_under target q"
proof -
  from assms(1) obtain V q where e: "enqueue_if_dir f start {} [] = Some (V, q)"
    and l: "fst (scan_loop f target V q b) = False"
    by (auto simp: scan_for_alias_def split: option.splits)
  from enqueue_grows [OF e] have "\<forall>d \<in> V - set q. cleared_dir f target V d" by auto
  from scan_loop_cleared [OF l this] obtain V' where "V \<subseteq> V'" and c: "\<forall>d \<in> V'. cleared_dir f target V' d" by blast
  with enqueue_grows(2) [OF e] inside_visited [OF assms(2) _ c] have "d \<in> V'" by auto
  with c assms(3,4) show ?thesis by (fastforce simp: cleared_dir_def cleared_def)
qed

lemma anchor_reaches_sound: "fst (anchor_reaches f anchor target b) = False \<Longrightarrow> avoids f target anchor"
proof -
  assume "fst (anchor_reaches f anchor target b) = False"
  then obtain b1 p b2 where l: "location_of f anchor b1 = (Some p, b2)" and n: "\<not> resolves_under target p"
    and s: "fst (scan_for_alias f p target b2) = False"
    by (auto simp: anchor_reaches_def Let_def split: prod.splits if_splits option.splits)
  from location_of_free [OF l] n scan_for_alias_sound [OF s] show ?thesis unfolding avoids_def by blast
qed

lemma ask_Inr: "ask r = Inr b \<longleftrightarrow> fst r = False \<and> b = snd r"
  by (auto simp: ask_def)

lemma surface_entry_sound:
  assumes "surface_entry f target dir (Some (name, ft)) b = Inr b'"
  shows "(is_control_surface_name (lossy name) \<longrightarrow> avoids f target (dir @ [Normal name]))
    \<and> (folded_is_node_modules (fold_name (lossy name)) \<and> ft \<noteq> Some FileT \<longrightarrow>
         avoids f target (dir @ [Normal name] @ [Normal ''.bin'']))"
  using assms
  by (auto simp: surface_entry_def Let_def r_bind_eq_Inr ask_Inr intro: anchor_reaches_sound
      split: prod.splits if_splits option.splits file_type.splits)

lemma surface_level_sound:
  assumes "surface_level f rs target step b = Inr b'" and "\<not> skip_level rs target step"
    and "read_dir f (fst step) = Entries es" and "e \<in> set es"
  shows "\<exists>b1 b2. surface_entry f target (fst step) e b1 = Inr b2"
  using assms r_fold_each
  by (fastforce simp: surface_level_def Let_def split: prod.splits if_splits)

text \<open>
  C28. The reverse check answers no only after looking everywhere it is meant to. Then every
  control surface (and every \<open>.bin\<close> under a \<open>node_modules\<close>) in a directory of the two ancestor chains
  inside the roots has a known location that is neither the file nor a directory above it, and no
  link in any directory inside it, through whatever links it leads, lands on the file.
\<close>

theorem no_alias_left:
  assumes "fst (reachable_under_a_control_surface_name_within f target cwd rs b) = False"
    and "step \<in> set (scope_steps target cwd)" and "\<not> skip_level rs target step"
    and "read_dir f (fst step) = Entries es" and "Some (name, ft) \<in> set es"
  shows "(is_control_surface_name (lossy name) \<longrightarrow> avoids f target (fst step @ [Normal name]))
    \<and> (folded_is_node_modules (fold_name (lossy name)) \<and> ft \<noteq> Some FileT \<longrightarrow>
         avoids f target (fst step @ [Normal name] @ [Normal ''.bin'']))"
proof -
  from assms(1) obtain b' where "r_fold (surface_level f rs target) (scope_steps target cwd) b = Inr b'"
    by (auto simp: reachable_under_a_control_surface_name_within_def split: sum.splits)
  from r_fold_each [OF this assms(2)] obtain b1 b2 where "surface_level f rs target step b1 = Inr b2" by blast
  from surface_level_sound [OF this assms(3-5)] show ?thesis using surface_entry_sound by blast
qed

definition alias_tree :: tree where
  "alias_tree =
     [([], DirN), ([''w''], DirN), ([''w'', ''.git''], DirN), ([''w'', ''.git'', ''h''], LinkN [ParentDir, Normal ''s'']),
      ([''w'', ''s''], DirN), ([''w'', ''s'', ''x''], FileN), ([''w'', ''a''], FileN)]"

theorem no_alias_left_witness:
  "avoids (tree_fs alias_tree) (parse_path ''/w/a'') (parse_path ''/w'' @ [Normal ''.git''])"
proof -
  let ?b = "\<lparr>dirents = 9, links = 9, segments = 60\<rparr> :: AliasBudget"
  have "fst (reachable_under_a_control_surface_name_within (tree_fs alias_tree) (parse_path ''/w/a'') (parse_path ''/w'')
          [parse_path ''/w''] ?b) = False"
    by code_simp
  moreover have "(parse_path ''/w'', False) \<in> set (scope_steps (parse_path ''/w/a'') (parse_path ''/w''))" by code_simp
  moreover have "\<not> skip_level [parse_path ''/w''] (parse_path ''/w/a'') (parse_path ''/w'', False)" by code_simp
  moreover have "read_dir (tree_fs alias_tree) (fst (parse_path ''/w'', False))
      = Entries [Some (''.git'', Some DirT), Some (''s'', Some DirT), Some (''a'', Some FileT)]" by code_simp
  ultimately have "is_control_surface_name (lossy ''.git'') \<longrightarrow>
      avoids (tree_fs alias_tree) (parse_path ''/w/a'') (fst (parse_path ''/w'', False) @ [Normal ''.git''])"
    using no_alias_left [where name = "''.git''" and ft = "Some DirT"] by fastforce
  moreover have "is_control_surface_name (lossy ''.git'')" by code_simp
  ultimately show ?thesis by simp
qed

end
