(* ===== verification/Json.thy ===== *)
theory Json
  imports Prelude
begin

text \<open>
  JSON values as the program reads them: the accessors of \<open>serde_json::Value\<close> that answer nothing for a
  missing field or another type. Parsing is the library's, an argument where a model needs it.
\<close>

datatype json = JNull | JBool bool | JNum int | JStr string | JArr "json list" | JObj "(string \<times> json) list"

fun get :: "string \<Rightarrow> json \<Rightarrow> json option" where
  "get k (JObj kvs) = map_of kvs k"
| "get k _ = None"

fun as_str :: "json \<Rightarrow> string option" where
  "as_str (JStr s) = Some s"
| "as_str _ = None"

fun as_array :: "json \<Rightarrow> json list option" where
  "as_array (JArr xs) = Some xs"
| "as_array _ = None"

definition str_field :: "string \<Rightarrow> json \<Rightarrow> string option" where
  "str_field k v = Option.bind (get k v) as_str"

fun as_bool :: "json \<Rightarrow> bool option" where
  "as_bool (JBool b) = Some b"
| "as_bool _ = None"

definition bool_field :: "string \<Rightarrow> json \<Rightarrow> bool option" where
  "bool_field k v = Option.bind (get k v) as_bool"

end
