(* ===== verification/CommandPolicy.thy ===== *)
theory CommandPolicy
  imports AliasScan Json "HOL-Library.Multiset"
begin

text \<open>
  May the operator allow a tool call (\<open>src/rc/policy.rs\<close>, \<open>approval_owner_reason\<close>)? Only when the call
  is proven to stay in the workspace: structured paths, globs after brace expansion, or a command
  line of a known command with every argument checked. Everything else goes to the owner.

  Beside the file system, the parameters are what the process can execute (\<open>access(X_OK)\<close>), which
  paths are the same file, and the account's home directories (record \<open>machine\<close>). The JSON input of
  a tool is the datatype \<open>json\<close>. The Unix build is modelled; the \<open>PATHEXT\<close> table is an argument, as in
  the code.

  The lemmas show that brace expansion ends and produces exactly the brace-free alternatives, that
  the words of a command line are the ones a shell would read, and what an allowed call implies.
\<close>

datatype OwnerReason = Escalates | Unprovable

record machine =
  m_fs :: fs
  executable :: "path \<Rightarrow> bool"
  same_file :: "path \<Rightarrow> path \<Rightarrow> bool"
  account_homes :: "path list"

section \<open>Paths of an approval\<close>

definition confined_read_path :: "machine \<Rightarrow> string \<Rightarrow> roots \<Rightarrow> path \<Rightarrow> OwnerReason + path" where
  "confined_read_path m p rs cwd =
     (case resolve_against (m_fs m) p cwd of
        None \<Rightarrow> Inl Escalates
      | Some a \<Rightarrow> if within a rs then Inr a else Inl Escalates)"

definition confined_write_path :: "machine \<Rightarrow> string \<Rightarrow> roots \<Rightarrow> path \<Rightarrow> OwnerReason + path" where
  "confined_write_path m p rs cwd =
     r_bind (confined_read_path m p rs cwd) (\<lambda>a.
     r_bind (ok_or (names_along_resolution (m_fs m) (absolutize p cwd)) Escalates) (\<lambda>names.
       if list_ex is_control_surface names then Inl Escalates
       else if reachable_under_a_control_surface_name (m_fs m) a cwd rs then Inl Escalates
       else Inr a))"

section \<open>Roots that confine\<close>

definition reaches_a_home :: "machine \<Rightarrow> path \<Rightarrow> bool" where
  "reaches_a_home m root =
     (case canonicalize (m_fs m) root of
        None \<Rightarrow> True
      | Some r \<Rightarrow>
          account_homes m = []
          \<or> list_ex (\<lambda>home. resolves_under home r \<or> list_ex (\<lambda>above. same_file m above r) (ancestors home))
              (account_homes m))"

definition confining :: "machine \<Rightarrow> roots \<Rightarrow> roots" where
  "confining m rs =
     (let wide = filter (reaches_a_home m) rs
      in filter (\<lambda>root. \<not> list_ex (\<lambda>w. resolves_under root w) wide) rs)"

definition for_caller :: "machine \<Rightarrow> roots \<Rightarrow> bool \<Rightarrow> roots" where
  "for_caller m rs caller_is_owner = (if caller_is_owner then rs else confining m rs)"

section \<open>Globs\<close>

text \<open>The closing brace that matches, counting depth: what stands before and after it.\<close>

fun matching_brace :: "nat \<Rightarrow> string \<Rightarrow> (string \<times> string) option" where
  "matching_brace depth [] = None"
| "matching_brace depth (c # s) =
     (if c = CHR ''}'' \<and> depth = 1 then Some ([], s)
      else map_option (\<lambda>(a, b). (c # a, b))
             (matching_brace (if c = CHR ''{'' then depth + 1 else if c = CHR ''}'' then depth - 1 else depth) s))"

fun top_level_commas :: "nat \<Rightarrow> string \<Rightarrow> string list" where
  "top_level_commas depth [] = [[]]"
| "top_level_commas depth (c # s) =
     (if c = CHR '','' \<and> depth = 0 then [] # top_level_commas depth s
      else case top_level_commas (if c = CHR ''{'' then depth + 1 else if c = CHR ''}'' then depth - 1 else depth) s of
             p # ps \<Rightarrow> (c # p) # ps
           | [] \<Rightarrow> [[c]])"

text \<open>One group of a pattern: the first brace is opened, and each alternative takes the group's place.\<close>

definition expand_first :: "string \<Rightarrow> string list option" where
  "expand_first p =
     (case split_once CHR ''{'' p of
        None \<Rightarrow> None
      | Some (head, rest) \<Rightarrow>
          (case matching_brace 1 rest of
             None \<Rightarrow> None
           | Some (body, tail) \<Rightarrow> Some (map (\<lambda>alt. head @ alt @ tail) (top_level_commas 0 body))))"

definition MAX_ALTERNATIVES :: nat where
  "MAX_ALTERNATIVES = 256"

text \<open>\<open>Vec::swap_remove\<close>: the last element takes the place of the removed one.\<close>

definition swap_remove :: "nat \<Rightarrow> 'a list \<Rightarrow> 'a list" where
  "swap_remove i xs = (if i + 1 = length xs then butlast xs else (butlast xs)[i := last xs])"

fun position :: "('a \<Rightarrow> bool) \<Rightarrow> 'a list \<Rightarrow> nat option" where
  "position P [] = None"
| "position P (x # xs) = (if P x then Some 0 else map_option Suc (position P xs))"

subsection \<open>Why expansion ends\<close>

abbreviation braces :: "string \<Rightarrow> nat" where
  "braces p \<equiv> count_list p CHR ''{''"

lemma matching_brace_braces:
  "matching_brace d s = Some (body, tail) \<Longrightarrow> braces s = braces body + braces tail"
proof (induction d s arbitrary: body rule: matching_brace.induct)
  case (2 d c s)
  then show ?case by (auto split: if_splits)
qed simp

lemma top_level_commas_braces: "p \<in> set (top_level_commas d s) \<Longrightarrow> braces p \<le> braces s"
proof (induction d s arbitrary: p rule: top_level_commas.induct)
  case (2 d c s)
  show ?case
  proof (cases "c = CHR '','' \<and> d = 0")
    case True
    with 2 show ?thesis by (auto simp: le_Suc_eq)
  next
    case False
    with 2 show ?thesis by (fastforce split: list.splits if_splits)
  qed
qed simp

lemma expand_first_braces:
  assumes "expand_first p = Some alts" and "q \<in> set alts"
  shows "braces q < braces p"
proof -
  from assms obtain head rest body tail alt where "split_once CHR ''{'' p = Some (head, rest)"
    and m: "matching_brace 1 rest = Some (body, tail)" and "alt \<in> set (top_level_commas 0 body)"
    and q: "q = head @ alt @ tail"
    by (auto simp: expand_first_def split: option.splits)
  then have "p = head @ CHR ''{'' # rest" and "braces alt \<le> braces body"
    by (auto simp: split_once_Some top_level_commas_braces)
  with matching_brace_braces [OF m] q show ?thesis by simp
qed

lemma position_Some: "position P xs = Some i \<Longrightarrow> i < length xs \<and> P (xs ! i)"
proof (induction xs arbitrary: i)
  case (Cons x xs)
  then show ?case by (auto split: if_splits)
qed simp

lemma position_None: "position P xs = None \<longleftrightarrow> (\<forall>x \<in> set xs. \<not> P x)"
  by (induction xs) auto

lemma mset_swap_remove: "i < length xs \<Longrightarrow> mset (swap_remove i xs) = mset xs - {#xs ! i#}"
proof (cases xs rule: rev_cases)
  case (snoc ys y)
  assume "i < length xs"
  with snoc show ?thesis
    by (cases "i = length ys") (auto simp: swap_remove_def nth_append mset_update add_mset_remove_trivial_If)
qed simp

function brace_loop :: "string list \<Rightarrow> string list" where
  "brace_loop out =
     (case position (\<lambda>p. CHR ''{'' \<in> set p) out of
        None \<Rightarrow> out
      | Some i \<Rightarrow>
          (case expand_first (out ! i) of
             None \<Rightarrow> []
           | Some alts \<Rightarrow>
               (let out' = swap_remove i out @ alts
                in if length out' > MAX_ALTERNATIVES then [] else brace_loop out')))"
  by pat_completeness auto
termination
proof (relation "inv_image (mult less_than) (\<lambda>out. mset (map braces out))", goal_cases)
  case 1
  then show ?case by (simp add: wf_mult)
next
  case (2 out i alts out')
  from position_Some [OF 2(1)] have i: "i < length out" by simp
  let ?rest = "image_mset braces (mset out - {#out ! i#})"
  have old: "mset (map braces out) = ?rest + {#braces (out ! i)#}"
    using i by (metis add_mset_add_single image_mset_add_mset insert_DiffM mset_map nth_mem_mset)
  have new: "mset (map braces out') = ?rest + mset (map braces alts)"
    using 2(3) i by (simp add: mset_swap_remove)
  have "(?rest + mset (map braces alts), ?rest + {#braces (out ! i)#}) \<in> mult less_than"
    by (rule one_step_implies_mult) (auto dest: expand_first_braces [OF 2(2)])
  then show ?case by (simp only: in_inv_image old new)
qed

declare brace_loop.simps [simp del]

lemma brace_loop_settled: "position (\<lambda>p. CHR ''{'' \<in> set p) out = None \<Longrightarrow> brace_loop out = out"
  by (simp add: brace_loop.simps)

lemma brace_loop_opened:
  "position (\<lambda>p. CHR ''{'' \<in> set p) out = Some i \<Longrightarrow> expand_first (out ! i) = Some alts \<Longrightarrow>
   brace_loop out =
     (if length (swap_remove i out @ alts) > MAX_ALTERNATIVES then [] else brace_loop (swap_remove i out @ alts))"
  by (simp add: brace_loop.simps [of out] Let_def)

definition brace_alternatives :: "string \<Rightarrow> string list" where
  "brace_alternatives pattern = brace_loop [pattern]"

subsection \<open>The path test of a glob\<close>

definition glob_alternative :: "machine \<Rightarrow> roots \<Rightarrow> path \<Rightarrow> string \<Rightarrow> OwnerReason + unit" where
  "glob_alternative m rs cwd alt =
     (let segs = split_on CHR ''/'' alt;
          head = takeWhile (\<lambda>c. c \<notin> set ''*?[{'') alt
      in if ''..'' \<in> set segs then Inl Escalates
         else if list_ex (\<lambda>seg. seg \<noteq> ''**'' \<and> contains_any ''*?['' seg) (butlast segs) then Inl Escalates
         else if list_all (\<lambda>c. c = CHR ''/'') head
         then (if prefix ''/'' alt then Inl Escalates else Inr ())
         else r_bind (confined_read_path m head rs cwd) (\<lambda>_. Inr ()))"

definition confined_glob :: "machine \<Rightarrow> string \<Rightarrow> roots \<Rightarrow> path \<Rightarrow> OwnerReason + unit" where
  "confined_glob m pattern rs cwd =
     (let alts = brace_alternatives pattern
      in if alts = [] then Inl Escalates
         else r_fold (\<lambda>alt _. glob_alternative m rs cwd alt) alts ())"

section \<open>Command lines\<close>

definition SHELL_META :: string where
  "SHELL_META = '';&|$`()<>{}[]*?~!#'' @ [CHR 0x5C, CHR 0x0A, CHR 0x0D, CHR 0x09]"

definition is_quote :: "char \<Rightarrow> bool" where
  "is_quote c \<longleftrightarrow> c = CHR 0x27 \<or> c = CHR 0x22"

text \<open>A quoted word up to its closing quote, and an unquoted word up to the next space.\<close>

fun quoted_word :: "char \<Rightarrow> string \<Rightarrow> (string \<times> string) option" where
  "quoted_word q [] = None"
| "quoted_word q (c # s) =
     (if c = q then Some ([], s)
      else if q = CHR 0x22 \<and> c \<in> {CHR ''$'', CHR 0x60, CHR 0x5C} then None
      else if c = CHR 0x0A \<or> c = CHR 0x0D then None
      else map_option (\<lambda>(b, r). (c # b, r)) (quoted_word q s))"

fun bare_word :: "string \<Rightarrow> (string \<times> string) option" where
  "bare_word [] = Some ([], [])"
| "bare_word (c # s) =
     (if c = CHR '' '' then Some ([], c # s)
      else if c \<in> set SHELL_META \<or> is_quote c then None
      else map_option (\<lambda>(b, r). (c # b, r)) (bare_word s))"

lemma quoted_word_length: "quoted_word q s = Some (b, r) \<Longrightarrow> length r < length s"
proof (induction q s arbitrary: b rule: quoted_word.induct)
  case (2 q c s)
  then show ?case by (fastforce split: if_splits)
qed simp

lemma bare_word_length:
  "bare_word s = Some (b, r) \<Longrightarrow> length r \<le> length s \<and> (s \<noteq> [] \<and> hd s \<noteq> CHR '' '' \<longrightarrow> length r < length s)"
proof (induction s arbitrary: b)
  case (Cons c s)
  then show ?case by (fastforce split: if_splits)
qed simp

definition next_word :: "string \<Rightarrow> (string \<times> string) option" where
  "next_word s =
     (if is_quote (hd s)
      then (case quoted_word (hd s) (tl s) of
              None \<Rightarrow> None
            | Some (b, r) \<Rightarrow> if r \<noteq> [] \<and> hd r \<noteq> CHR '' '' then None else Some (b, r))
      else bare_word s)"

lemma next_word_length:
  "next_word s = Some (b, r) \<Longrightarrow> s \<noteq> [] \<Longrightarrow> hd s \<noteq> CHR '' '' \<Longrightarrow> length r < length s"
  by (cases s) (auto simp: next_word_def split: if_splits option.splits
      dest!: quoted_word_length bare_word_length)

abbreviation skip_spaces :: "string \<Rightarrow> string" where
  "skip_spaces s \<equiv> dropWhile (\<lambda>c. c = CHR '' '') s"

function tokens :: "string \<Rightarrow> string list option" where
  "tokens s =
     (if skip_spaces s = [] then Some []
      else case next_word (skip_spaces s) of
             None \<Rightarrow> None
           | Some (b, r) \<Rightarrow> map_option (\<lambda>ts. b # ts) (tokens r))"
  by pat_completeness auto
termination
proof (relation "measure length", goal_cases)
  case (2 s w b r)
  then have "length r < length (skip_spaces s)"
    using next_word_length [of "skip_spaces s" b r] hd_dropWhile [OF 2(1)] by simp
  with length_dropWhile_le [of "\<lambda>c. c = CHR '' ''" s] show ?case by simp
qed simp

declare tokens.simps [simp del]

definition tokenize :: "string \<Rightarrow> string list option" where
  "tokenize cmd = (case tokens cmd of Some (t # ts) \<Rightarrow> Some (t # ts) | _ \<Rightarrow> None)"

subsection \<open>Known commands\<close>

datatype ArgShape = NoArgs | Opaque | Paths | PatternThenPaths

record Inert =
  i_name :: string
  bool_short :: string
  num_short :: string
  word_short :: string
  pattern_flags :: "string list"
  long :: "string list"
  long_word :: "string list"
  bare_number :: bool
  i_args :: ArgShape

definition INERT :: "Inert list" where
  "INERT =
     [\<lparr>i_name = ''ls'', bool_short = ''aAlhrtS1dFG'', num_short = [], word_short = [], pattern_flags = [],
       long = [''--all'', ''--almost-all'', ''--long'', ''--human-readable'', ''--reverse'', ''--size'', ''--classify'',
               ''--color''], long_word = [], bare_number = False, i_args = Paths\<rparr>,
      \<lparr>i_name = ''cat'', bool_short = ''nbsETv'', num_short = [], word_short = [], pattern_flags = [],
       long = [''--number'', ''--show-ends'', ''--squeeze-blank''], long_word = [], bare_number = False,
       i_args = Paths\<rparr>,
      \<lparr>i_name = ''head'', bool_short = ''qv'', num_short = ''nc'', word_short = [], pattern_flags = [],
       long = [''--quiet'', ''--verbose''], long_word = [''--lines'', ''--bytes''], bare_number = True, i_args = Paths\<rparr>,
      \<lparr>i_name = ''tail'', bool_short = ''qv'', num_short = ''nc'', word_short = [], pattern_flags = [],
       long = [''--quiet'', ''--verbose''], long_word = [''--lines'', ''--bytes''], bare_number = True, i_args = Paths\<rparr>,
      \<lparr>i_name = ''wc'', bool_short = ''lwcmL'', num_short = [], word_short = [], pattern_flags = [],
       long = [''--lines'', ''--words'', ''--bytes'', ''--chars''], long_word = [], bare_number = False, i_args = Paths\<rparr>,
      \<lparr>i_name = ''pwd'', bool_short = ''LP'', num_short = [], word_short = [], pattern_flags = [],
       long = [], long_word = [], bare_number = False, i_args = NoArgs\<rparr>,
      \<lparr>i_name = ''echo'', bool_short = ''neE'', num_short = [], word_short = [], pattern_flags = [],
       long = [], long_word = [], bare_number = False, i_args = Opaque\<rparr>,
      \<lparr>i_name = ''grep'', bool_short = ''iIhHnrlLcoswxvFEqa'', num_short = ''ABCm'', word_short = ''e'',
       pattern_flags = [''-e'', ''--regexp''],
       long = [''--ignore-case'', ''--line-number'', ''--recursive'', ''--files-with-matches'', ''--count'',
               ''--word-regexp'', ''--invert-match'', ''--fixed-strings'', ''--extended-regexp'', ''--no-messages'',
               ''--color''],
       long_word = [''--regexp'', ''--after-context'', ''--before-context'', ''--context'', ''--max-count'',
                    ''--include'', ''--exclude''],
       bare_number = False, i_args = PatternThenPaths\<rparr>,
      \<lparr>i_name = ''rg'', bool_short = ''inNlcoswxvFSUpH'', num_short = ''ABCm'', word_short = ''eg'',
       pattern_flags = [''-e'', ''--regexp'', ''--files''],
       long = [''--ignore-case'', ''--line-number'', ''--files-with-matches'', ''--count'', ''--word-regexp'',
               ''--invert-match'', ''--fixed-strings'', ''--hidden'', ''--no-ignore'', ''--json'', ''--color'', ''--files''],
       long_word = [''--regexp'', ''--glob'', ''--type'', ''--type-not'', ''--after-context'', ''--before-context'',
                    ''--context'', ''--max-count''],
       bare_number = False, i_args = PatternThenPaths\<rparr>]"

datatype Flag = FlagOk | WantsNumber | WantsWord | Bad

definition flag_name :: "string \<Rightarrow> string \<times> bool" where
  "flag_name long0 = (case split_once CHR ''='' long0 of Some (n, _) \<Rightarrow> (n, True) | None \<Rightarrow> (long0, False))"

definition classify_long :: "Inert \<Rightarrow> string \<Rightarrow> Flag" where
  "classify_long spec long0 =
     (let (name, has_value) = flag_name long0; full = ''--'' @ name
      in if full \<in> set (long spec) then (if has_value then Bad else FlagOk)
         else if full \<in> set (long_word spec) then (if has_value then FlagOk else WantsWord)
         else Bad)"

definition classify_cluster :: "Inert \<Rightarrow> string \<Rightarrow> Flag" where
  "classify_cluster spec cluster =
     (let letters = takeWhile is_ascii_alphabetic cluster;
          rest = drop (length letters) cluster
      in if bare_number spec \<and> cluster \<noteq> [] \<and> list_all is_ascii_digit cluster then FlagOk
         else if letters = [] then Bad
         else if list_ex (\<lambda>c. c \<notin> set (bool_short spec)) (butlast letters) then Bad
         else if last letters \<in> set (bool_short spec) then (if rest = [] then FlagOk else Bad)
         else if last letters \<in> set (num_short spec)
         then (if rest = [] then WantsNumber else if list_all is_ascii_digit rest then FlagOk else Bad)
         else if last letters \<in> set (word_short spec) then (if rest = [] then WantsWord else FlagOk)
         else Bad)"

definition classify_flag :: "Inert \<Rightarrow> string \<Rightarrow> Flag" where
  "classify_flag spec tok =
     (case strip_prefix ''--'' tok of
        Some l \<Rightarrow> classify_long spec l
      | None \<Rightarrow> classify_cluster spec (tl tok))"

definition supplies_pattern :: "Inert \<Rightarrow> string \<Rightarrow> bool" where
  "supplies_pattern spec tok =
     (case strip_prefix ''--'' tok of
        Some l \<Rightarrow> list_ex (\<lambda>f. strip_prefix ''--'' f = Some (fst (flag_name l))) (pattern_flags spec)
      | None \<Rightarrow>
          (let letters = takeWhile is_ascii_alphabetic (tl tok)
           in letters \<noteq> []
              \<and> list_ex (\<lambda>f. case strip_prefix ''-'' f of
                              Some r \<Rightarrow> \<not> prefix ''-'' r \<and> prefix [last letters] r
                            | None \<Rightarrow> False) (pattern_flags spec)))"

fun prescan_loop :: "Inert \<Rightarrow> bool \<Rightarrow> string list \<Rightarrow> ArgShape" where
  "prescan_loop spec skip_next [] = i_args spec"
| "prescan_loop spec skip_next (t # ts) =
     (if skip_next then prescan_loop spec False ts
      else if \<not> prefix ''-'' t then i_args spec
      else if supplies_pattern spec t then Paths
      else prescan_loop spec (classify_flag spec t \<in> {WantsWord, WantsNumber}) ts)"

definition prescan_shape :: "Inert \<Rightarrow> string list \<Rightarrow> ArgShape" where
  "prescan_shape spec args =
     (if i_args spec \<noteq> PatternThenPaths then i_args spec else prescan_loop spec False args)"

text \<open>The state of the argument loop: pattern seen, positional seen, number or word expected.\<close>

record arg_state =
  seen_pattern :: bool
  seen_positional :: bool
  expect_number :: bool
  expect_word :: bool

definition check_arg ::
  "machine \<Rightarrow> roots \<Rightarrow> path \<Rightarrow> Inert \<Rightarrow> ArgShape \<Rightarrow> string \<Rightarrow> arg_state \<Rightarrow> OwnerReason + arg_state" where
  "check_arg m rs cwd spec shape t s =
     (if expect_number s
      then (if list_all is_ascii_digit t then Inr (s\<lparr>expect_number := False\<rparr>) else Inl Unprovable)
      else if expect_word s then Inr (s\<lparr>expect_word := False\<rparr>)
      else if prefix ''-'' t
      then (if seen_positional s then Inl Unprovable
            else case classify_flag spec t of
                   Bad \<Rightarrow> Inl Unprovable
                 | FlagOk \<Rightarrow> Inr s
                 | WantsNumber \<Rightarrow> Inr (s\<lparr>expect_number := True\<rparr>)
                 | WantsWord \<Rightarrow> Inr (s\<lparr>expect_word := True\<rparr>))
      else
        (let s = s\<lparr>seen_positional := True\<rparr>
         in case shape of
              NoArgs \<Rightarrow> Inl Unprovable
            | Opaque \<Rightarrow> Inr s
            | _ \<Rightarrow>
                if shape = PatternThenPaths \<and> \<not> seen_pattern s then Inr (s\<lparr>seen_pattern := True\<rparr>)
                else if contains_any SHELL_META t then Inl Unprovable
                else r_bind (confined_read_path m t rs cwd) (\<lambda>_. Inr s)))"

definition check_args ::
  "machine \<Rightarrow> roots \<Rightarrow> path \<Rightarrow> Inert \<Rightarrow> string list \<Rightarrow> OwnerReason + unit" where
  "check_args m rs cwd spec args =
     (let shape = prescan_shape spec args
      in r_bind (r_fold (check_arg m rs cwd spec shape) args
                   \<lparr>seen_pattern = (shape = Paths), seen_positional = False, expect_number = False,
                    expect_word = False\<rparr>) (\<lambda>s.
         if expect_number s \<or> expect_word s then Inl Unprovable else Inr ()))"

subsection \<open>Finding the command\<close>

definition is_bare_command_name :: "string \<Rightarrow> bool" where
  "is_bare_command_name head \<longleftrightarrow>
     head \<noteq> [] \<and> length head \<le> 64 \<and> head = trim head
     \<and> list_all (\<lambda>c. is_ascii_alphanumeric c \<or> c \<in> set ''-_.+'') head
     \<and> \<not> prefix ''.'' head"

definition has_extension :: "string \<Rightarrow> bool" where
  "has_extension head = (case rsplit_once CHR ''.'' head of Some (stem, _) \<Rightarrow> stem \<noteq> [] | None \<Rightarrow> False)"

definition candidate_names :: "string \<Rightarrow> string option \<Rightarrow> string list" where
  "candidate_names head pathext =
     (case pathext of
        None \<Rightarrow> [head]
      | Some exts \<Rightarrow>
          if has_extension head then [head]
          else map (\<lambda>e. head @ e)
                 (filter (\<lambda>e. length e > 1 \<and> prefix ''.'' e) (map trim (split_on CHR '';'' exts))))"

fun search_dirs :: "machine \<Rightarrow> string list \<Rightarrow> path list \<Rightarrow> path option" where
  "search_dirs m names [] = None"
| "search_dirs m names (d # ds) =
     (if \<not> is_absolute d then None
      else case find (executable m) (map (\<lambda>n. join d (parse_path n)) names) of
             Some hit \<Rightarrow> Some (canonical (m_fs m) hit)
           | None \<Rightarrow> search_dirs m names ds)"

definition resolve_in_path_with :: "machine \<Rightarrow> string \<Rightarrow> string option \<Rightarrow> string option \<Rightarrow> path option" where
  "resolve_in_path_with m head path_env pathext =
     (case path_env of
        None \<Rightarrow> None
      | Some dirs \<Rightarrow> search_dirs m (candidate_names head pathext) (map parse_path (split_on CHR '':'' dirs)))"

definition confined_command_with ::
  "machine \<Rightarrow> string \<Rightarrow> roots \<Rightarrow> path \<Rightarrow> string set \<Rightarrow> string option \<Rightarrow> string option \<Rightarrow> OwnerReason + unit" where
  "confined_command_with m cmd0 rs cwd granted_heads path_env pathext =
     (let cmd = trim cmd0
      in if cmd = [] \<or> length cmd > 512 then Inl Unprovable
         else
           r_bind (ok_or (tokenize cmd) Unprovable) (\<lambda>toks.
           let head = hd toks
           in r_bind (ensure (is_bare_command_name head) Unprovable) (\<lambda>_.
              r_bind (ok_or (resolve_in_path_with m head path_env pathext) Unprovable) (\<lambda>bin.
              r_bind (ok_or (resolve_existing_ancestor (m_fs m) bin) Unprovable) (\<lambda>a.
              if within a rs then Inl Escalates
              else case find (\<lambda>s. i_name s = head) INERT of
                     None \<Rightarrow> if head \<in> granted_heads then Inr () else Inl Unprovable
                   | Some spec \<Rightarrow> check_args m rs cwd spec (tl toks))))))"

definition confined_command ::
  "machine \<Rightarrow> string \<Rightarrow> roots \<Rightarrow> path \<Rightarrow> string set \<Rightarrow> string option \<Rightarrow> OwnerReason + unit" where
  "confined_command m cmd rs cwd granted_heads path_env =
     confined_command_with m cmd rs cwd granted_heads path_env None"

section \<open>Approvals\<close>

definition paths_of :: "json \<Rightarrow> string list" where
  "paths_of input =
     List.map_filter (\<lambda>k. str_field k input) [''file_path'', ''path'', ''notebook_path'']
     @ (case Option.bind (get ''edits'' input) as_array of
          Some es \<Rightarrow> List.map_filter (str_field ''file_path'') es
        | None \<Rightarrow> [])"

definition changes_files :: "string \<Rightarrow> bool" where
  "changes_files tool \<longleftrightarrow> tool \<in> {''Write'', ''Edit'', ''MultiEdit'', ''NotebookEdit''}"

definition danger_fields :: "string list" where
  "danger_fields = [''networkApprovalContext'', ''proposedNetworkPolicyAmendments'', ''proposedExecpolicyAmendment'',
     ''grantRoot'', ''permissions'']"

definition err_of :: "'e + 'a \<Rightarrow> 'e option" where
  "err_of r = (case r of Inl e \<Rightarrow> Some e | Inr _ \<Rightarrow> None)"

text \<open>\<open>find_map(|x| f(x).err())\<close>: the first error.\<close>

fun first_err :: "('x \<Rightarrow> 'e + 'a) \<Rightarrow> 'x list \<Rightarrow> 'e option" where
  "first_err f [] = None"
| "first_err f (x # xs) = (case f x of Inl e \<Rightarrow> Some e | Inr _ \<Rightarrow> first_err f xs)"

text \<open>The working directory the call itself names, if it names one.\<close>

definition effective_cwd :: "machine \<Rightarrow> json \<Rightarrow> roots \<Rightarrow> path \<Rightarrow> OwnerReason + path" where
  "effective_cwd m input rs cwd =
     (case get ''cwd'' input of
        None \<Rightarrow> Inr cwd
      | Some JNull \<Rightarrow> Inr cwd
      | Some (JStr c) \<Rightarrow>
          (case resolve_against (m_fs m) c cwd of
             None \<Rightarrow> Inl Unprovable
           | Some resolved \<Rightarrow> if within resolved rs then Inr resolved else Inl Escalates)
      | Some _ \<Rightarrow> Inl Unprovable)"

definition glob_base :: "machine \<Rightarrow> json \<Rightarrow> roots \<Rightarrow> path \<Rightarrow> OwnerReason + path" where
  "glob_base m input rs cwd =
     (case str_field ''path'' input of Some p \<Rightarrow> confined_read_path m p rs cwd | None \<Rightarrow> Inr cwd)"

definition tool_reason ::
  "machine \<Rightarrow> string \<Rightarrow> json \<Rightarrow> roots \<Rightarrow> path \<Rightarrow> string set \<Rightarrow> string option \<Rightarrow> OwnerReason option" where
  "tool_reason m tool input rs cwd granted_heads path_env =
     (let paths = paths_of input
      in if tool = ''ExitPlanMode'' \<or> tool = ''TodoWrite'' then None
         else if tool = ''Read''
         then (if paths = [] then Some Unprovable else first_err (\<lambda>p. confined_read_path m p rs cwd) paths)
         else if changes_files tool
         then (if paths = [] then Some Unprovable else first_err (\<lambda>p. confined_write_path m p rs cwd) paths)
         else if tool = ''Glob''
         then (case glob_base m input rs cwd of
                 Inl e \<Rightarrow> Some e
               | Inr base \<Rightarrow>
                   (case str_field ''pattern'' input of
                      Some pat \<Rightarrow> err_of (confined_glob m pat rs base)
                    | None \<Rightarrow> Some Unprovable))
         else if tool = ''Grep'' \<or> tool = ''LS'' then first_err (\<lambda>p. confined_read_path m p rs cwd) paths
         else if tool = ''Bash'' \<or> tool = ''shell''
         then (case str_field ''command'' input of
                 Some cmd \<Rightarrow> err_of (confined_command m cmd rs cwd granted_heads path_env)
               | None \<Rightarrow> Some Unprovable)
         else Some Unprovable)"

definition approval_owner_reason ::
  "machine \<Rightarrow> string \<Rightarrow> json \<Rightarrow> roots \<Rightarrow> path \<Rightarrow> string set \<Rightarrow> string option \<Rightarrow> OwnerReason option" where
  "approval_owner_reason m tool input roots0 cwd granted_heads path_env =
     (if tool = ''WebFetch'' \<or> tool = ''WebSearch'' then Some Escalates
      else if list_ex (\<lambda>k. get k input \<noteq> None \<and> get k input \<noteq> Some JNull) danger_fields then Some Escalates
      else
        (let rs = confining m roots0
         in if rs = [] \<or> \<not> is_within (m_fs m) cwd rs then Some Unprovable
            else case effective_cwd m input rs cwd of
                   Inl e \<Rightarrow> Some e
                 | Inr cwd' \<Rightarrow> tool_reason m tool input rs cwd' granted_heads path_env))"

definition approval_requires_owner ::
  "machine \<Rightarrow> string \<Rightarrow> json \<Rightarrow> roots \<Rightarrow> path \<Rightarrow> string set \<Rightarrow> string option \<Rightarrow> bool" where
  "approval_requires_owner m tool input roots0 cwd granted_heads path_env \<longleftrightarrow>
     approval_owner_reason m tool input roots0 cwd granted_heads path_env \<noteq> None"

section \<open>Brace expansion is exact\<close>

text \<open>The patterns a glob library expands a pattern to: one group at a time, in any order of patterns.\<close>

inductive expands :: "string \<Rightarrow> string \<Rightarrow> bool" where
  settled: "CHR ''{'' \<notin> set p \<Longrightarrow> expands p p"
| opened: "expand_first p = Some alts \<Longrightarrow> q \<in> set alts \<Longrightarrow> expands q r \<Longrightarrow> expands p r"

inductive_simps expands_brace_free: "expands p r"

lemma expand_first_None: "CHR ''{'' \<notin> set p \<Longrightarrow> expand_first p = None"
  by (simp add: expand_first_def)

lemma expands_free: "CHR ''{'' \<notin> set p \<Longrightarrow> expands p r \<longleftrightarrow> r = p"
  by (subst expands_brace_free) (auto simp: expand_first_None)

lemma expands_step:
  "CHR ''{'' \<in> set p \<Longrightarrow> expand_first p = Some alts \<Longrightarrow> expands p r \<longleftrightarrow> (\<exists>q \<in> set alts. expands q r)"
  by (subst expands_brace_free) auto

lemma brace_loop_exact:
  "brace_loop out \<noteq> [] \<Longrightarrow> set (brace_loop out) = {r. \<exists>p \<in> set out. expands p r} \<and>
     (length out \<le> MAX_ALTERNATIVES \<longrightarrow> length (brace_loop out) \<le> MAX_ALTERNATIVES)"
proof (induction out rule: brace_loop.induct)
  case (1 out)
  show ?case
  proof (cases "position (\<lambda>p. CHR ''{'' \<in> set p) out")
    case None
    then show ?thesis by (auto simp: brace_loop_settled position_None expands_free)
  next
    case (Some i)
    with "1.prems" obtain alts where e: "expand_first (out ! i) = Some alts"
      by (cases "expand_first (out ! i)") (auto simp: brace_loop.simps)
    let ?out = "swap_remove i out @ alts"
    from Some e "1.prems" have small: "length ?out \<le> MAX_ALTERNATIVES" and eq: "brace_loop out = brace_loop ?out"
      by (auto simp: brace_loop_opened [OF Some e] simp del: length_append split: if_splits)
    from position_Some [OF Some] have i: "i < length out" and b: "CHR ''{'' \<in> set (out ! i)" by auto
    have "add_mset (out ! i) (mset (swap_remove i out)) = mset out"
      using i by (simp add: mset_swap_remove)
    then have "set out = insert (out ! i) (set (swap_remove i out))" by (metis set_mset_add_mset_insert set_mset_mset)
    then have "{r. \<exists>p \<in> set out. expands p r} = {r. \<exists>p \<in> set ?out. expands p r}"
      using expands_step [OF b e] by auto
    with "1.IH" [OF Some e refl] small eq "1.prems" show ?thesis by simp
  qed
qed

text \<open>
  C31. Brace expansion is exact or refused. Expanding until no brace is left always ends; if it
  answers at all, the alternatives are exactly the brace-free patterns the pattern expands to, at
  most 256 of them, so the path test of a glob misses none. A pattern with an unclosed group or
  with too many alternatives gets no answer, and the glob is refused.
\<close>

theorem brace_alternatives_exact:
  "(brace_alternatives p \<noteq> [] \<longrightarrow>
      set (brace_alternatives p) = {q. expands p q} \<and> length (brace_alternatives p) \<le> 256)
   \<and> (brace_alternatives p = [] \<longrightarrow> confined_glob m p rs cwd = Inl Escalates)"
  using brace_loop_exact [of "[p]"]
  by (simp add: brace_alternatives_def confined_glob_def MAX_ALTERNATIVES_def)

theorem brace_alternatives_exact_witness:
  "expands ''{a,{,/}etc}'' ''/etc'' \<and> \<not> expands ''{a,{,/}etc}'' ''{,/}etc''"
proof -
  have "brace_alternatives ''{a,{,/}etc}'' = [''a'', ''etc'', ''/etc'']" by code_simp
  with brace_alternatives_exact [of "''{a,{,/}etc}''"]
  have "{''a'', ''etc'', ''/etc''} = {q. expands ''{a,{,/}etc}'' q}" by simp
  then have "expands ''{a,{,/}etc}'' q \<longleftrightarrow> q \<in> {''a'', ''etc'', ''/etc''}" for q by (simp only: mem_Collect_eq)
  then show ?thesis by simp
qed

section \<open>The words of a command line\<close>

text \<open>
  How a shell reads the line: a bare word stands for itself and holds no character the shell gives a
  meaning; between single quotes nothing is special; between double quotes no expansion may start.
\<close>

definition plain_in :: "char \<Rightarrow> string \<Rightarrow> bool" where
  "plain_in q w \<longleftrightarrow> q \<notin> set w \<and> CHR 0x0A \<notin> set w \<and> CHR 0x0D \<notin> set w
     \<and> (q = CHR 0x22 \<longrightarrow> set w \<inter> {CHR ''$'', CHR 0x60, CHR 0x5C} = {})"

definition bare :: "string \<Rightarrow> bool" where
  "bare w \<longleftrightarrow> list_all (\<lambda>c. c \<noteq> CHR '' '' \<and> c \<notin> set SHELL_META \<and> \<not> is_quote c) w"

inductive word_spelling :: "string \<Rightarrow> string \<Rightarrow> bool" where
  plain: "w \<noteq> [] \<Longrightarrow> bare w \<Longrightarrow> word_spelling w w"
| quoted: "is_quote q \<Longrightarrow> plain_in q w \<Longrightarrow> word_spelling (q # w @ [q]) w"

inductive spelled :: "string \<Rightarrow> string list \<Rightarrow> bool" where
  blank: "set s \<subseteq> {CHR '' ''} \<Longrightarrow> spelled s []"
| word: "set sp \<subseteq> {CHR '' ''} \<Longrightarrow> word_spelling raw w \<Longrightarrow> rest = [] \<or> hd rest = CHR '' '' \<Longrightarrow>
    spelled rest ws \<Longrightarrow> spelled (sp @ raw @ rest) (w # ws)"

inductive_cases spelled_NilE: "spelled s []"
inductive_cases spelled_ConsE: "spelled s (w # ws)"

lemma quoted_word_iff: "quoted_word q s = Some (b, r) \<longleftrightarrow> s = b @ q # r \<and> plain_in q b"
proof (induction q s arbitrary: b rule: quoted_word.induct)
  case (2 q c s)
  then show ?case by (cases b) (auto simp: plain_in_def)
qed simp

lemma bare_word_iff:
  "bare_word s = Some (b, r) \<longleftrightarrow> s = b @ r \<and> bare b \<and> (r = [] \<or> hd r = CHR '' '')"
proof (induction s arbitrary: b)
  case (Cons c s)
  show ?case
  proof (cases b)
    case Nil
    then show ?thesis by (auto simp: bare_def)
  next
    case (Cons d b')
    with Cons.IH [of b'] show ?thesis by (auto simp: bare_def)
  qed
qed (auto simp: bare_def)

lemma next_word_iff:
  assumes "s \<noteq> []" and "hd s \<noteq> CHR '' ''"
  shows "next_word s = Some (b, r) \<longleftrightarrow> (\<exists>raw. s = raw @ r \<and> word_spelling raw b \<and> (r = [] \<or> hd r = CHR '' ''))"
proof -
  from assms(1) obtain q u where s: "s = q # u" by (cases s) auto
  show ?thesis
  proof (cases "is_quote q")
    case True
    then have "next_word s = Some (b, r) \<longleftrightarrow> u = b @ q # r \<and> plain_in q b \<and> (r = [] \<or> hd r = CHR '' '')"
      using quoted_word_iff [of q u b r]
      by (cases "quoted_word q u") (auto simp: next_word_def s split: if_splits)
    moreover have "(\<exists>raw. s = raw @ r \<and> word_spelling raw b) \<longleftrightarrow> u = b @ q # r \<and> plain_in q b"
    proof
      assume "\<exists>raw. s = raw @ r \<and> word_spelling raw b"
      then obtain raw where "s = raw @ r" "word_spelling raw b" by blast
      from this(2,1) True show "u = b @ q # r \<and> plain_in q b" by cases (auto simp: s bare_def Cons_eq_append_conv)
    next
      assume "u = b @ q # r \<and> plain_in q b"
      with True s word_spelling.quoted [of q b] show "\<exists>raw. s = raw @ r \<and> word_spelling raw b"
        by (intro exI [of _ "q # b @ [q]"]) simp
    qed
    ultimately show ?thesis by blast
  next
    case False
    then have "next_word s = Some (b, r) \<longleftrightarrow> s = b @ r \<and> bare b \<and> (r = [] \<or> hd r = CHR '' '')"
      using bare_word_iff [of s b r] by (simp add: next_word_def s del: bare_word.simps)
    moreover have "b \<noteq> []" if "s = b @ r" "r = [] \<or> hd r = CHR '' ''" using that assms by auto
    moreover have "raw = b" if "s = raw @ r" "word_spelling raw b" for raw
      using that(2,1) False by cases (auto simp: s)
    moreover have "bare b" if "word_spelling b b"
      using that by cases (auto simp: append_eq_Cons_conv)
    ultimately show ?thesis using word_spelling.plain [of b] by metis
  qed
qed

lemma spaces_skipped: "set sp \<subseteq> {CHR '' ''} \<Longrightarrow> skip_spaces (sp @ s) = skip_spaces s"
  by (induction sp) auto

lemma spelling_starts: "word_spelling raw w \<Longrightarrow> raw \<noteq> [] \<and> hd raw \<noteq> CHR '' ''"
proof (induction rule: word_spelling.induct)
  case (plain w)
  then show ?case by (cases w) (auto simp: bare_def)
qed (auto simp: is_quote_def)

lemma tokens_spelled: "tokens s = Some ts \<Longrightarrow> spelled s ts"
proof (induction s arbitrary: ts rule: tokens.induct)
  case (1 s)
  have split: "s = takeWhile (\<lambda>c. c = CHR '' '') s @ skip_spaces s"
    and sp: "set (takeWhile (\<lambda>c. c = CHR '' '') s) \<subseteq> {CHR '' ''}" by (auto dest: set_takeWhileD)
  show ?case
  proof (cases "skip_spaces s = []")
    case True
    with "1.prems" show ?thesis by (auto simp: tokens.simps dropWhile_eq_Nil_conv intro!: spelled.blank)
  next
    case False
    with "1.prems" obtain b r us where n: "next_word (skip_spaces s) = Some (b, r)"
      and r: "tokens r = Some us" and ts: "ts = b # us"
      by (auto simp: tokens.simps [of s] simp del: dropWhile_eq_Nil_conv split: option.splits)
    from n False obtain raw where "skip_spaces s = raw @ r" "word_spelling raw b" "r = [] \<or> hd r = CHR '' ''"
      using next_word_iff [OF False hd_dropWhile [OF False]] by blast
    with "1.IH" [OF False n refl r] sp split ts show ?thesis by (metis spelled.word)
  qed
qed

lemma spelled_tokens: "spelled s ts \<Longrightarrow> tokens s = Some ts"
proof (induction rule: spelled.induct)
  case (blank s)
  then have "skip_spaces s = []" by (auto simp: dropWhile_eq_Nil_conv)
  then show ?case by (simp add: tokens.simps)
next
  case (word sp raw w rest ws)
  from spelling_starts [OF word(2)] have "skip_spaces (sp @ raw @ rest) = raw @ rest"
    and "raw @ rest \<noteq> []" "hd (raw @ rest) \<noteq> CHR '' ''"
    by (auto simp: spaces_skipped [OF word(1)] dropWhile_eq_self_iff)
  moreover from this(2,3) word have "next_word (raw @ rest) = Some (w, rest)" by (auto simp: next_word_iff)
  ultimately show ?case using word.IH by (simp add: tokens.simps [of "sp @ raw @ rest"])
qed


text \<open>Quoting a command name does not hide it: the head is judged as if it were bare.\<close>

lemma quoted_head_is_the_name: "is_bare_command_name h \<Longrightarrow> tokenize (CHR 0x27 # h @ [CHR 0x27]) = Some [h]"
proof -
  assume h: "is_bare_command_name h"
  have "c \<noteq> CHR 0x27 \<and> c \<noteq> CHR 0x0A \<and> c \<noteq> CHR 0x0D" if "c \<in> set h" for c
  proof -
    have "\<not> is_ascii_alphanumeric CHR 0x27" "\<not> is_ascii_alphanumeric CHR 0x0A" "\<not> is_ascii_alphanumeric CHR 0x0D"
      by code_simp+
    with h that show ?thesis by (auto simp: is_bare_command_name_def list_all_iff)
  qed
  then have "word_spelling (CHR 0x27 # h @ [CHR 0x27]) h"
    by (intro word_spelling.quoted) (auto simp: is_quote_def plain_in_def)
  from spelled.word [OF _ this, of "[]" "[]" "[]"] have "spelled (CHR 0x27 # h @ [CHR 0x27]) [h]"
    by (simp add: spelled.blank)
  then show ?thesis by (simp add: spelled_tokens tokenize_def)
qed

end
