(* ===== verification/ApprovalSafety.thy ===== *)
theory ApprovalSafety
  imports CommandPolicy "HOL-Library.Code_Target_Nat"
begin

text \<open>
  What an allowed call implies (\<open>src/rc/policy.rs\<close>, \<open>approval_owner_reason\<close> and \<open>confined_command_with\<close>).

  The argument loop of a known command is compared with the two readings a program may give its
  arguments: POSIX stops reading options at the first operand, GNU reads them anywhere. The policy
  accepts only lines on which both agree, and then every operand the command opens as a file is
  confined. The last part joins this with the kernel walk of PathPolicy: what an allowed call opens
  lies inside the roots that confine.
\<close>

section \<open>Two readings of an argument list\<close>

fun getopt :: "bool \<Rightarrow> Inert \<Rightarrow> string list \<Rightarrow> string list \<times> string list" where
  "getopt posix spec [] = ([], [])"
| "getopt posix spec (t # ts) =
     (if \<not> prefix ''-'' t
      then (if posix then ([], t # ts) else apsnd (Cons t) (getopt posix spec ts))
      else apfst (Cons t) (getopt posix spec
             (if classify_flag spec t \<in> {WantsNumber, WantsWord} then tl ts else ts)))"

text \<open>The operands a command opens, given the options and operands it reads.\<close>

definition opened_files :: "Inert \<Rightarrow> string list \<Rightarrow> string list \<Rightarrow> string list" where
  "opened_files spec flags ops =
     (case i_args spec of
        Opaque \<Rightarrow> []
      | PatternThenPaths \<Rightarrow> if list_ex (supplies_pattern spec) flags then ops else tl ops
      | _ \<Rightarrow> ops)"

abbreviation confined_to :: "machine \<Rightarrow> roots \<Rightarrow> path \<Rightarrow> string \<Rightarrow> bool" where
  "confined_to m rs cwd p \<equiv> \<exists>a. confined_read_path m p rs cwd = Inr a"

lemma prescan_getopt:
  "i_args spec = PatternThenPaths \<Longrightarrow>
   prescan_loop spec False args =
     (if list_ex (supplies_pattern spec) (fst (getopt True spec args)) then Paths else PatternThenPaths)"
proof (induction True spec args rule: getopt.induct)
  case (2 spec t ts)
  have skip: "prescan_loop spec True ts = prescan_loop spec False (tl ts)" using 2(3) by (cases ts) auto
  show ?case
  proof (cases "prefix ''-'' t")
    case True
    with 2 skip show ?thesis by (cases "classify_flag spec t") auto
  qed (use 2 in simp)
qed simp

text \<open>An operand, and what follows it: no option any more, and each further one passes the path test.\<close>

lemma operand_step:
  assumes "check_arg m rs cwd spec shape t s = Inr s'" and "\<not> prefix ''-'' t"
    and "\<not> expect_number s" and "\<not> expect_word s"
  shows "shape \<noteq> NoArgs \<and> seen_positional s' \<and> \<not> expect_number s' \<and> \<not> expect_word s'"
    and "seen_pattern s \<or> shape = PatternThenPaths \<Longrightarrow> seen_pattern s'"
    and "shape = Paths \<or> shape = PatternThenPaths \<and> seen_pattern s \<Longrightarrow> confined_to m rs cwd t"
  using assms by (cases shape; auto simp: check_arg_def Let_def result_simps split: if_splits)+

lemma operand_phase:
  assumes "r_fold (check_arg m rs cwd spec shape) args s = Inr s'" and "seen_positional s"
    and "\<not> expect_number s" and "\<not> expect_word s"
  shows "list_all (\<lambda>t. \<not> prefix ''-'' t) args
   \<and> (shape = Paths \<or> shape = PatternThenPaths \<and> seen_pattern s \<longrightarrow> list_all (confined_to m rs cwd) args)"
  using assms
proof (induction args arbitrary: s)
  case (Cons t ts)
  then obtain s1 where c: "check_arg m rs cwd spec shape t s = Inr s1"
    and r: "r_fold (check_arg m rs cwd spec shape) ts s1 = Inr s'" by (auto simp: result_simps)
  from c Cons.prems have t: "\<not> prefix ''-'' t" by (auto simp: check_arg_def)
  note s1 = operand_step [OF c t Cons.prems(3,4)]
  from Cons.IH [OF r] s1(1) have IH: "list_all (\<lambda>t. \<not> prefix ''-'' t) ts
    \<and> (shape = Paths \<or> shape = PatternThenPaths \<and> seen_pattern s1 \<longrightarrow> list_all (confined_to m rs cwd) ts)"
    by blast
  with t s1(2,3) show ?case by auto
qed simp

lemma getopt_no_options: "list_all (\<lambda>t. \<not> prefix ''-'' t) ts \<Longrightarrow> getopt posix spec ts = ([], ts)"
  by (induction ts) (cases posix; auto)+

text \<open>The option phase: every option is on the table, and both readings take the same arguments.\<close>

lemma option_step:
  assumes "r_fold (check_arg m rs cwd spec shape) (t # ts) s = Inr s'" and "prefix ''-'' t"
    and "\<not> seen_positional s" and "\<not> expect_number s" and "\<not> expect_word s"
    and "\<not> expect_number s'" and "\<not> expect_word s'"
  shows "classify_flag spec t \<noteq> Bad
   \<and> r_fold (check_arg m rs cwd spec shape)
       (if classify_flag spec t \<in> {WantsNumber, WantsWord} then tl ts else ts) s = Inr s'"
proof (cases "classify_flag spec t \<in> {WantsNumber, WantsWord}")
  case True
  have fresh: "s\<lparr>expect_number := False\<rparr> = s" "s\<lparr>expect_word := False\<rparr> = s" using assms(4,5) by auto
  from True assms show ?thesis
    by (cases ts) (auto simp: check_arg_def result_simps fresh split: if_splits)
next
  case False
  with assms show ?thesis by (cases "classify_flag spec t") (auto simp: check_arg_def result_simps)
qed

definition one_reading :: "machine \<Rightarrow> roots \<Rightarrow> path \<Rightarrow> Inert \<Rightarrow> ArgShape \<Rightarrow> bool \<Rightarrow> string list \<Rightarrow> bool" where
  "one_reading m rs cwd spec shape seen args =
     (let (flags, ops) = getopt True spec args
      in getopt False spec args = (flags, ops)
         \<and> list_all (\<lambda>f. classify_flag spec f \<noteq> Bad) flags
         \<and> (shape = NoArgs \<longrightarrow> ops = [])
         \<and> (shape = Paths \<longrightarrow> list_all (confined_to m rs cwd) ops)
         \<and> (shape = PatternThenPaths \<longrightarrow> list_all (confined_to m rs cwd) (if seen then ops else tl ops)))"

lemma option_phase:
  assumes "r_fold (check_arg m rs cwd spec shape) args s = Inr s'"
    and "\<not> seen_positional s" and "\<not> expect_number s" and "\<not> expect_word s"
    and "\<not> expect_number s'" and "\<not> expect_word s'"
  shows "one_reading m rs cwd spec shape (seen_pattern s) args"
  using assms
proof (induction True spec args rule: getopt.induct)
  case (2 spec t ts)
  show ?case
  proof (cases "prefix ''-'' t")
    case True
    from option_step [OF 2(3) True 2(4-8)] 2(2) [OF _ _ 2(4-8)] True
    show ?thesis by (auto simp: one_reading_def Let_def split: prod.splits)
  next
    case False
    from 2(3) obtain s1 where c: "check_arg m rs cwd spec shape t s = Inr s1"
      and r: "r_fold (check_arg m rs cwd spec shape) ts s1 = Inr s'" by (auto simp: result_simps)
    note s1 = operand_step [OF c False 2(5,6)]
    with operand_phase [OF r] have "list_all (\<lambda>t. \<not> prefix ''-'' t) ts"
      and "shape = Paths \<or> shape = PatternThenPaths \<longrightarrow> list_all (confined_to m rs cwd) ts" by auto
    with False s1 show ?thesis by (auto simp: one_reading_def getopt_no_options)
  qed
qed (simp add: one_reading_def)

lemma accepted_args_one_reading:
  assumes "check_args m rs cwd spec args = Inr ()"
  shows "\<exists>flags ops. getopt True spec args = (flags, ops) \<and> getopt False spec args = (flags, ops)
     \<and> list_all (\<lambda>f. classify_flag spec f \<noteq> Bad) flags \<and> (i_args spec = NoArgs \<longrightarrow> ops = [])
     \<and> list_all (confined_to m rs cwd) (opened_files spec flags ops)"
proof -
  let ?shape = "prescan_shape spec args"
  from assms have "one_reading m rs cwd spec ?shape (?shape = Paths) args"
    by (auto simp: check_args_def Let_def result_simps split: if_splits dest!: option_phase)
  moreover have "?shape = (if i_args spec = PatternThenPaths \<and>
      list_ex (supplies_pattern spec) (fst (getopt True spec args)) then Paths else i_args spec)"
    by (simp add: prescan_shape_def prescan_getopt)
  ultimately show ?thesis
    by (cases "i_args spec") (auto simp: one_reading_def opened_files_def split: if_splits prod.splits)
qed

section \<open>An accepted command line\<close>

text \<open>The words of the line, the program that will run, and what it may open.\<close>

definition harmless_command ::
  "machine \<Rightarrow> (string \<Rightarrow> bool) \<Rightarrow> roots \<Rightarrow> string set \<Rightarrow> string option \<Rightarrow> string option \<Rightarrow> string list \<Rightarrow> bool" where
  "harmless_command m ok rs granted_heads path_env pathext toks \<longleftrightarrow>
     (case toks of
        [] \<Rightarrow> False
      | head # args \<Rightarrow>
          is_bare_command_name head
          \<and> (\<exists>bin loc. resolve_in_path_with m head path_env pathext = Some bin
               \<and> resolve_existing_ancestor (m_fs m) bin = Some loc \<and> \<not> within loc rs)
          \<and> (case find (\<lambda>s. i_name s = head) INERT of
                None \<Rightarrow> head \<in> granted_heads
              | Some spec \<Rightarrow>
                  getopt True spec args = getopt False spec args
                  \<and> list_all (\<lambda>f. classify_flag spec f \<noteq> Bad) (fst (getopt True spec args))
                  \<and> (i_args spec = NoArgs \<longrightarrow> snd (getopt True spec args) = [])
                  \<and> list_all ok (opened_files spec (fst (getopt True spec args)) (snd (getopt True spec args)))))"

lemma confined_to_iff: "confined_to m rs cwd p \<longleftrightarrow> (\<exists>a. resolve_against (m_fs m) p cwd = Some a \<and> within a rs)"
  by (auto simp: confined_read_path_def split: option.splits if_splits)

lemma harmless_mono:
  "harmless_command m ok rs g pe px toks \<Longrightarrow> (\<And>p. ok p \<Longrightarrow> ok' p) \<Longrightarrow>
   harmless_command m ok' rs g pe px toks"
  by (auto simp: harmless_command_def list_all_iff split: list.splits option.splits)

lemma accepted_command:
  assumes "confined_command_with m cmd rs cwd granted_heads path_env pathext = Inr ()"
  shows "\<exists>toks. spelled (trim cmd) toks
     \<and> harmless_command m (confined_to m rs cwd) rs granted_heads path_env pathext toks"
proof -
  from assms obtain toks where t: "tokenize (trim cmd) = Some toks"
    by (auto simp: confined_command_with_def Let_def result_simps split: if_splits)
  then obtain head args where toks: "toks = head # args" and "spelled (trim cmd) toks"
    by (auto simp: tokenize_def tokens_spelled split: option.splits list.splits)
  moreover have "harmless_command m (confined_to m rs cwd) rs granted_heads path_env pathext (head # args)"
    using assms t unfolding harmless_command_def toks
    by (auto simp: confined_command_with_def Let_def result_simps split: if_splits option.splits
        dest!: accepted_args_one_reading)
  ultimately show ?thesis by blast
qed

text \<open>
  C29. A command line is accepted only when it is harmless. Its words are the shell's; the first is a
  bare name found outside the roots; it is granted by the owner, or a known command whose options
  are all on its table. In that case reading the options up to the first operand (POSIX) and reading
  them anywhere (GNU) give the same options and operands, and every operand the command opens as a
  file resolves inside the roots, the first one too when an option supplies the pattern.
\<close>

theorem accepted_command_harmless:
  assumes "confined_command m cmd rs cwd granted_heads path_env = Inr ()"
  shows "\<exists>toks. spelled (trim cmd) toks
     \<and> harmless_command m (\<lambda>p. \<exists>a. resolve_against (m_fs m) p cwd = Some a \<and> within a rs) rs
         granted_heads path_env None toks"
proof -
  from accepted_command [OF assms [unfolded confined_command_def]] obtain toks where "spelled (trim cmd) toks"
    and "harmless_command m (confined_to m rs cwd) rs granted_heads path_env None toks" by blast
  then show ?thesis by (auto simp only: confined_to_iff)
qed

definition machine_tree :: tree where
  "machine_tree = ([''bin''], DirN) # ([''bin'', ''grep''], FileN) # sample_tree"

definition sample_machine :: machine where
  "sample_machine =
     \<lparr>m_fs = tree_fs machine_tree,
      executable = (\<lambda>p. p = parse_path ''/bin/grep''), same_file = (=), account_homes = [parse_path ''/home/u'']\<rparr>"

theorem accepted_command_harmless_witness:
  "\<exists>toks. spelled ''grep -e x src/a'' toks
     \<and> harmless_command sample_machine
         (\<lambda>p. \<exists>a. resolve_against (m_fs sample_machine) p (parse_path ''/w'') = Some a \<and> within a [parse_path ''/w''])
         [parse_path ''/w''] {} (Some ''/bin'') None toks"
proof -
  have "confined_command sample_machine ''grep -e x src/a'' [parse_path ''/w''] (parse_path ''/w'') {} (Some ''/bin'')
        = Inr ()" by code_simp
  moreover have "trim ''grep -e x src/a'' = ''grep -e x src/a''" by code_simp
  ultimately show ?thesis using accepted_command_harmless by fastforce
qed

section \<open>An allowed call\<close>

lemma first_err_None: "first_err f xs = None \<longleftrightarrow> list_all (\<lambda>x. \<exists>a. f x = Inr a) xs"
  by (induction xs) (auto split: sum.splits)

lemma err_of_None: "err_of r = None \<longleftrightarrow> (\<exists>a. r = Inr a)"
  by (auto simp: err_of_def split: sum.splits)

text \<open>No root that confines contains a home directory of the account.\<close>

lemma resolves_under_refl [simp]: "resolves_under p p"
  by (induction p) auto

lemma confining_no_home: "r \<in> set (confining m rs) \<Longrightarrow> \<not> reaches_a_home m r \<and> r \<in> set rs"
  by (auto simp: confining_def Let_def list_ex_iff)

lemma within_absolute: "within a rs \<Longrightarrow> list_all is_absolute rs \<Longrightarrow> is_absolute a"
  by (auto simp: within_def list_ex_iff list_all_iff starts_with_def is_absolute_def prefix_def)

text \<open>What opening the path \<open>p\<close> from \<open>cwd\<close> reaches lies inside the roots.\<close>

definition opens_inside :: "tree \<Rightarrow> roots \<Rightarrow> path \<Rightarrow> string \<Rightarrow> bool" where
  "opens_inside t rs cwd p \<longleftrightarrow>
     (case kopen t (absolutize p cwd) of Some loc \<Rightarrow> within (abs_path loc) rs | None \<Rightarrow> True)"

lemma confined_opens_inside:
  assumes "wf_tree t" and "m_fs m = tree_fs t" and "is_absolute cwd" and "confined_to m rs cwd p"
  shows "opens_inside t rs cwd p"
proof (cases "kopen t (absolutize p cwd)")
  case (Some loc)
  from assms(4) obtain a where "resolve_existing_ancestor (tree_fs t) (absolutize p cwd) = Some a" "within a rs"
    by (auto simp: confined_read_path_def resolve_against_def assms(2) split: option.splits if_splits)
  moreover have "is_absolute (absolutize p cwd)"
    using assms(3) by (auto simp: absolutize_def Let_def join_def is_absolute_def)
  ultimately have "a = abs_path loc" using resolve_opens [OF _ _ Some] assms(1) by (simp add: wf_tree_def)
  with \<open>within a rs\<close> Some show ?thesis by (simp add: opens_inside_def)
qed (simp add: opens_inside_def)

lemma effective_cwd_absolute:
  "effective_cwd m input rs cwd = Inr cwd' \<Longrightarrow> is_absolute cwd \<Longrightarrow> list_all is_absolute rs \<Longrightarrow> is_absolute cwd'"
  by (auto simp: effective_cwd_def within_absolute split: option.splits json.splits if_splits)

text \<open>A write that is allowed: no name the path goes through is a control surface, nor an alias.\<close>

definition no_control_surface :: "fs \<Rightarrow> roots \<Rightarrow> path \<Rightarrow> string \<Rightarrow> bool" where
  "no_control_surface f rs cwd p \<longleftrightarrow>
     (\<exists>a names. resolve_against f p cwd = Some a \<and> names_along_resolution f (absolutize p cwd) = Some names
        \<and> list_all (\<lambda>n. \<not> is_control_surface n) names \<and> \<not> reachable_under_a_control_surface_name f a cwd rs)"

lemma confined_write:
  "confined_write_path m p rs cwd = Inr a \<Longrightarrow> confined_to m rs cwd p \<and> no_control_surface (m_fs m) rs cwd p"
  by (auto simp: confined_write_path_def confined_read_path_def no_control_surface_def result_simps list_ex_iff
      list_all_iff split: option.splits if_splits)

definition path_tool :: "string \<Rightarrow> bool" where
  "path_tool tool \<longleftrightarrow> tool \<in> {''Read'', ''Grep'', ''LS''} \<or> changes_files tool"

lemma tool_reason_paths:
  assumes "tool_reason m tool input rs cwd g pe = None" and "path_tool tool" and "p \<in> set (paths_of input)"
  shows "confined_to m rs cwd p \<and> (changes_files tool \<longrightarrow> no_control_surface (m_fs m) rs cwd p)"
proof (cases "changes_files tool")
  case True
  with assms have "\<exists>a. confined_write_path m p rs cwd = Inr a"
    by (auto simp: tool_reason_def Let_def changes_files_def first_err_None list_all_iff split: if_splits)
  with True confined_write show ?thesis by blast
next
  case False
  with assms show ?thesis
    by (auto simp: tool_reason_def Let_def path_tool_def changes_files_def first_err_None list_all_iff split: if_splits)
qed

lemma tool_reason_command:
  assumes "tool_reason m tool input rs cwd g pe = None" and "tool \<in> {''Bash'', ''shell''}"
  shows "\<exists>cmd toks. str_field ''command'' input = Some cmd \<and> spelled (trim cmd) toks
    \<and> harmless_command m (confined_to m rs cwd) rs g pe None toks"
proof -
  from assms obtain cmd where "str_field ''command'' input = Some cmd"
    and "confined_command_with m cmd rs cwd g pe None = Inr ()"
    by (auto simp: tool_reason_def Let_def changes_files_def err_of_None confined_command_def split: option.splits)
  with accepted_command show ?thesis by blast
qed



end
