(* ===== verification/Tail.thy ===== *)
theory Tail
  imports PathPolicy Utf8
begin

text \<open>
  The transcript tailer (\<open>src/rc/tail.rs\<close>): the daemon follows the file a runtime is writing and hands
  out each line once it is complete.

  A file is an inode: an identity (device and inode number) with its bytes and modification time.
  The record \<open>disk\<close> says what opening and asking about the tailer's path answers and what each inode
  holds; one poll sees one such state. A tailer keeps the handle it last read, so the bytes of a
  file that was replaced can still be compared. Byte counts are \<open>nat\<close>. Reading the header of a Codex
  transcript (\<open>poll_codex\<close>) is left out.

  The lemmas show that however a file grows between polls, the polls together hand out its complete
  lines, each once, whole, with its number and its place (as long as every poll finds whole
  characters); where a replay window starts; and two cases in which the code does not do this.
\<close>

section \<open>Files\<close>

type_synonym file_id = "nat \<times> nat"

record Inode =
  bytes :: string
  mtime :: "nat option"

datatype open_result = Opened file_id | OpenNotFound | OpenFailed

record disk =
  open_answer :: open_result
  stat_path :: "file_id option"
  inode :: "file_id \<Rightarrow> Inode"

datatype IoError = OpenError | InvalidData

definition opened_id :: "disk \<Rightarrow> file_id option" where
  "opened_id d = (case open_answer d of Opened i \<Rightarrow> Some i | _ \<Rightarrow> None)"

section \<open>Lines\<close>

text \<open>\<open>read_line\<close> and \<open>read_until\<close>: up to and with the next newline, or to the end.\<close>

fun until_newline :: "string \<Rightarrow> string \<times> string" where
  "until_newline [] = ([], [])"
| "until_newline (c # s) =
     (if c = CHR 0x0A then ([c], s) else let (a, b) = until_newline s in (c # a, b))"

lemma until_newline_append: "until_newline s = (a, b) \<Longrightarrow> s = a @ b"
  by (induction s arbitrary: a) (auto split: if_splits prod.splits)

lemma until_newline_length: "(a, b) = until_newline s \<Longrightarrow> a \<noteq> [] \<Longrightarrow> length b < length s"
  by (auto dest: until_newline_append [OF sym])

text \<open>\<open>trim_end_matches(['\n', '\r'])\<close>.\<close>

definition trim_newline :: "string \<Rightarrow> string" where
  "trim_newline s = rev (dropWhile (\<lambda>c. c = CHR 0x0A \<or> c = CHR 0x0D) (rev s))"

section \<open>The tailer\<close>

record TailedLine =
  line_source :: string
  line_no :: nat
  line_text :: string

record Tailer =
  reset :: bool
  modified :: "nat option"
  tail_path :: path
  source :: "file_id option"
  source_identity :: "file_id option"
  offset :: nat
  lineno :: nat
  pending :: string
  replay_window :: "nat option"

definition file_name :: "path \<Rightarrow> string" where
  "file_name p = (if p = [] then [] else case last p of Normal n \<Rightarrow> n | _ \<Rightarrow> [])"

text \<open>The record's place: the digest of the file's name and the byte where the record begins.\<close>

definition record_source :: "(string \<Rightarrow> string) \<Rightarrow> path \<Rightarrow> nat \<Rightarrow> string" where
  "record_source hex p off = ''native:'' @ hex (file_name p) @ '':'' @ show_nat off"

definition count_to_end :: "string \<Rightarrow> nat \<times> nat" where
  "count_to_end bs =
     (length bs, count_list bs CHR 0x0A + (if bs \<noteq> [] \<and> last bs \<noteq> CHR 0x0A then 1 else 0))"

definition new_tailer :: "disk \<Rightarrow> path \<Rightarrow> bool \<Rightarrow> Tailer" where
  "new_tailer d p from_start =
     (let src = opened_id d;
          (off, line) = (if from_start then (0, 0)
                         else case src of Some i \<Rightarrow> count_to_end (bytes (inode d i)) | None \<Rightarrow> (0, 0))
      in \<lparr>reset = False, modified = Option.bind src (\<lambda>i. mtime (inode d i)), tail_path = p, source = src,
          source_identity = src, offset = off, lineno = line, pending = [], replay_window = None\<rparr>)"

definition tailer_at :: "disk \<Rightarrow> path \<Rightarrow> nat \<Rightarrow> nat \<Rightarrow> file_id option \<Rightarrow> nat \<Rightarrow> Tailer" where
  "tailer_at d p off line src replay_lines =
     (let (off, line) = (if src \<noteq> None then (off, line) else (0, 0))
      in \<lparr>reset = False, modified = Option.bind src (\<lambda>i. mtime (inode d i)), tail_path = p, source = src,
          source_identity = src, offset = off, lineno = line, pending = [], replay_window = Some replay_lines\<rparr>)"

definition retarget :: "disk \<Rightarrow> path \<Rightarrow> bool \<Rightarrow> Tailer \<Rightarrow> Tailer" where
  "retarget d p from_start t = new_tailer d p from_start"

definition take_reset :: "Tailer \<Rightarrow> bool \<times> Tailer" where
  "take_reset t = (reset t, t\<lparr>reset := False\<rparr>)"

subsection \<open>The replay window\<close>

function pieces :: "string \<Rightarrow> string list" where
  "pieces s = (let (a, b) = until_newline s in if a = [] then [] else a # pieces b)"
  by pat_completeness auto
termination
  by (relation "measure length") (auto dest: until_newline_length)

declare pieces.simps [simp del]

definition SCAN_CAP :: nat where
  "SCAN_CAP = 32 * 1024 * 1024"

text \<open>The places where lines start, keeping the last \<open>want\<close> of them.\<close>

definition window_step :: "nat \<Rightarrow> string \<Rightarrow> (nat \<times> nat) list \<times> nat \<times> nat \<Rightarrow> (nat \<times> nat) list \<times> nat \<times> nat" where
  "window_step want piece s =
     (case s of (starts, off, line) \<Rightarrow>
        ((if length starts = want then tl starts else starts) @ [(off, line)], off + length piece, line + 1))"

definition window_start_bounded :: "string \<Rightarrow> nat \<Rightarrow> nat \<Rightarrow> nat \<times> nat \<times> nat \<times> bool" where
  "window_start_bounded bs want0 len =
     (let want = max want0 1;
          base = (if len > SCAN_CAP
                  then (len - SCAN_CAP) + length (fst (until_newline (take SCAN_CAP (drop (len - SCAN_CAP) bs))))
                  else 0);
          (starts, off, line) = fold (window_step want) (pieces (take (len - base) (drop base bs))) ([], base, 0);
          (start_off, start_line) = (case starts of p # _ \<Rightarrow> p | [] \<Rightarrow> (base, 0))
      in (start_off, start_line, line, base = 0))"

definition window_start :: "string \<Rightarrow> nat \<Rightarrow> nat \<times> nat \<times> nat \<times> bool" where
  "window_start bs want = window_start_bounded bs want (length bs)"

subsection \<open>Polling\<close>

definition WINDOW :: nat where
  "WINDOW = 64 * 1024"

definition read_range :: "string \<Rightarrow> nat \<Rightarrow> nat \<Rightarrow> string option" where
  "read_range bs start end0 = (if end0 \<le> length bs then Some (take (end0 - start) (drop start bs)) else None)"

definition same_prefix :: "string \<Rightarrow> string \<Rightarrow> nat \<Rightarrow> bool" where
  "same_prefix previous next0 end0 =
     (let start = end0 - WINDOW
      in case (read_range previous start end0, read_range next0 start end0) of
           (Some l, Some r) \<Rightarrow> l = r
         | _ \<Rightarrow> False)"

text \<open>The loop over what was appended. An error keeps what the tailer has already consumed.\<close>

function read_loop ::
  "(string \<Rightarrow> string) \<Rightarrow> Tailer \<Rightarrow> string \<Rightarrow> TailedLine list \<Rightarrow> Tailer \<times> (IoError + TailedLine list)" where
  "read_loop hex t rest out =
     (let (buf, rest') = until_newline rest
      in if buf = [] then (t, Inr out)
         else if \<not> valid_utf8 buf then (t, Inl InvalidData)
         else
           (let start = offset t - length (pending t);
                t = t\<lparr>offset := offset t + length buf\<rparr>
            in if last buf = CHR 0x0A
               then read_loop hex (t\<lparr>pending := [], lineno := lineno t + 1\<rparr>) rest'
                      (out @ [\<lparr>line_source = record_source hex (tail_path t) start, line_no = lineno t,
                               line_text = pending t @ trim_newline buf\<rparr>])
               else (t\<lparr>pending := pending t @ buf\<rparr>, Inr out)))"
  by pat_completeness auto
termination
  by (relation "measure (\<lambda>(hex, t, rest, out). length rest)") (auto dest: until_newline_length)

declare read_loop.simps [simp del]

text \<open>
  Before reading: a file that took the place of another, was cut or written over is read again, from
  its start or from the replay window, unless it holds the same bytes up to where the tailer is.
\<close>

definition rebase :: "disk \<Rightarrow> file_id \<Rightarrow> Tailer \<Rightarrow> Tailer" where
  "rebase d i t =
     (let bs = bytes (inode d i);
          len = length bs;
          replaced = (case source t of Some j \<Rightarrow> j \<noteq> i | None \<Rightarrow> False);
          restored = (replaced \<and> len \<ge> offset t
            \<and> (case source t of Some j \<Rightarrow> same_prefix (bytes (inode d j)) bs (offset t) | None \<Rightarrow> False));
          rewritten = (\<not> restored \<and> len = offset t \<and> mtime (inode d i) \<noteq> modified t);
          expired = ((replaced \<and> \<not> restored) \<or> rewritten \<or> len < offset t \<or> source t = None);
          t = t\<lparr>source_identity := Some i, modified := mtime (inode d i), source := Some i\<rparr>
      in if expired
         then (let (off, line) = (case replay_window t of
                                    None \<Rightarrow> (0, 0)
                                  | Some want \<Rightarrow> (let (o0, l0, _, _) = window_start_bounded bs want len in (o0, l0)))
               in t\<lparr>reset := True, offset := off, lineno := line, pending := []\<rparr>)
         else t)"

definition poll_source :: "(string \<Rightarrow> string) \<Rightarrow> disk \<Rightarrow> file_id \<Rightarrow> Tailer \<Rightarrow> Tailer \<times> (IoError + TailedLine list)" where
  "poll_source hex d i t =
     (let bs = bytes (inode d i); t = rebase d i t
      in if length bs = offset t then (t, Inr [])
         else read_loop hex t (take (length bs - offset t) (drop (offset t) bs)) [])"

text \<open>An unchanged path is not opened again.\<close>

definition unchanged :: "disk \<Rightarrow> Tailer \<Rightarrow> bool" where
  "unchanged d t =
     (case (source_identity t, stat_path d) of
        (Some i, Some j) \<Rightarrow> length (bytes (inode d j)) = offset t \<and> j = i \<and> mtime (inode d j) = modified t
      | _ \<Rightarrow> False)"

definition poll :: "(string \<Rightarrow> string) \<Rightarrow> disk \<Rightarrow> Tailer \<Rightarrow> Tailer \<times> (IoError + TailedLine list)" where
  "poll hex d t =
     (if unchanged d t then (t, Inr [])
      else case open_answer d of
             OpenNotFound \<Rightarrow> (t, Inr [])
           | OpenFailed \<Rightarrow> (t, Inl OpenError)
           | Opened i \<Rightarrow> poll_source hex d i t)"

section \<open>What a file's lines are\<close>

abbreviation newline :: char where
  "newline \<equiv> CHR 0x0A"

text \<open>The complete lines of \<open>s\<close> when it begins at byte \<open>off\<close> as line \<open>line\<close>, and its unfinished end.\<close>

fun emit :: "(string \<Rightarrow> string) \<Rightarrow> path \<Rightarrow> nat \<Rightarrow> nat \<Rightarrow> string list \<Rightarrow> TailedLine list" where
  "emit hex p off line [] = []"
| "emit hex p off line (x # xs) =
     (if last x = newline
      then \<lparr>line_source = record_source hex p off, line_no = line, line_text = trim_newline x\<rparr>
             # emit hex p (off + length x) (line + 1) xs
      else [])"

definition lines_from :: "(string \<Rightarrow> string) \<Rightarrow> path \<Rightarrow> nat \<Rightarrow> nat \<Rightarrow> string \<Rightarrow> TailedLine list" where
  "lines_from hex p off line s = emit hex p off line (pieces s)"

definition unfinished :: "string \<Rightarrow> string" where
  "unfinished s = rev (takeWhile (\<lambda>c. c \<noteq> newline) (rev s))"

lemma until_newline_split: "newline \<notin> set a \<Longrightarrow> until_newline (a @ newline # b) = (a @ [newline], b)"
  by (induction a) auto

lemma until_newline_none: "newline \<notin> set a \<Longrightarrow> until_newline a = (a, [])"
  by (induction a) auto

lemma line_cases:
  obtains (whole) a b where "s = a @ newline # b" and "newline \<notin> set a" | (part) "newline \<notin> set s"
  using split_list_first [of newline s] by blast

lemma pieces_whole: "newline \<notin> set a \<Longrightarrow> pieces (a @ newline # b) = (a @ [newline]) # pieces b"
  by (subst pieces.simps) (simp add: until_newline_split)

lemma pieces_part: "newline \<notin> set a \<Longrightarrow> pieces a = (if a = [] then [] else [a])"
  by (subst pieces.simps) (auto simp: until_newline_none pieces.simps [of "[]"])

lemma concat_pieces: "concat (pieces s) = s"
proof (induction s rule: length_induct)
  case (1 s)
  then show ?case by (cases s rule: line_cases) (auto simp: pieces_whole pieces_part)
qed

lemma lines_whole:
  "newline \<notin> set a \<Longrightarrow> lines_from hex p off line (a @ newline # b) =
     \<lparr>line_source = record_source hex p off, line_no = line, line_text = trim_newline (a @ [newline])\<rparr>
       # lines_from hex p (off + length a + 1) (line + 1) b"
  by (simp add: lines_from_def pieces_whole)

lemma lines_part: "newline \<notin> set a \<Longrightarrow> lines_from hex p off line a = []"
  by (cases a rule: rev_cases) (auto simp: lines_from_def pieces_part)

lemma unfinished_whole: "unfinished (a @ newline # b) = unfinished b"
proof -
  have "takeWhile (\<lambda>c. c \<noteq> newline) (rev b @ newline # rev a) = takeWhile (\<lambda>c. c \<noteq> newline) (rev b)"
    by (induction "rev b") (auto simp: takeWhile_tail)
  then show ?thesis by (simp add: unfinished_def)
qed

lemma unfinished_part: "newline \<notin> set a \<Longrightarrow> unfinished a = a"
proof -
  assume "newline \<notin> set a"
  then have "takeWhile (\<lambda>c. c \<noteq> newline) (rev a) = rev a" by (auto simp: takeWhile_eq_all_conv)
  then show ?thesis unfolding unfinished_def by (metis rev_rev_ident)
qed

lemma unfinished_append: "unfinished (unfinished s @ r) = unfinished (s @ r)"
proof (induction s rule: length_induct)
  case (1 s)
  then show ?case by (cases s rule: line_cases) (auto simp: unfinished_whole unfinished_part)
qed

lemma lines_append:
  "lines_from hex p off line (s @ r) = lines_from hex p off line s
     @ lines_from hex p (off + length s - length (unfinished s)) (line + count_list s newline) (unfinished s @ r)"
proof (induction s arbitrary: off line rule: length_induct)
  case (1 s)
  show ?case
  proof (cases s rule: line_cases)
    case (whole a b)
    have "length (unfinished b) \<le> length b" by (simp add: unfinished_def length_takeWhile_le [of _ "rev b", simplified])
    with 1 whole show ?thesis
      by (simp add: lines_whole unfinished_whole add.assoc)
  qed (simp add: lines_part unfinished_part)
qed

lemma trim_unfinished: "CHR 0x0D \<notin> set a \<Longrightarrow> newline \<notin> set a \<Longrightarrow> trim_newline (a @ [newline]) = a"
  by (cases a rule: rev_cases) (auto simp: trim_newline_def)

section \<open>One poll\<close>

lemma read_loop_lines:
  assumes "valid_utf8 r" and "CHR 0x0D \<notin> set (pending t @ r)" and "newline \<notin> set (pending t)"
    and "length (pending t) \<le> offset t"
  shows "read_loop hex t r out =
    (t\<lparr>offset := offset t + length r, lineno := lineno t + count_list r newline, pending := unfinished (pending t @ r)\<rparr>,
     Inr (out @ lines_from hex (tail_path t) (offset t - length (pending t)) (lineno t) (pending t @ r)))"
  using assms
proof (induction r arbitrary: t out rule: length_induct)
  case (1 r)
  show ?case
  proof (cases r rule: line_cases)
    case (whole a b)
    with "1.prems" have "valid_utf8 (a @ [newline])" "valid_utf8 b"
      using valid_utf8_newline [of a "[]"] by (auto simp: valid_utf8_newline valid_utf8_def [of "[]"])
    with whole 1 show ?thesis
      by (subst read_loop.simps)
        (simp add: until_newline_split Let_def trim_unfinished trim_unfinished [of "pending t @ a", simplified]
          unfinished_part lines_whole [of "pending t @ a", simplified]
          unfinished_whole [of "pending t @ a", simplified] add.assoc)
  next
    case part
    then have "r = [] \<or> last r \<noteq> newline" by (metis last_in_set)
    with part "1.prems" show ?thesis
      by (subst read_loop.simps) (auto simp: until_newline_none Let_def lines_part unfinished_part)
  qed
qed

text \<open>A tailer that has read exactly \<open>s\<close> of the file \<open>i\<close>, and one that has read nothing yet.\<close>

definition has_read :: "file_id \<Rightarrow> string \<Rightarrow> Tailer \<Rightarrow> bool" where
  "has_read i s t \<longleftrightarrow> source t = Some i \<and> source_identity t = Some i \<and> offset t = length s
     \<and> lineno t = count_list s newline \<and> pending t = unfinished s"

definition fresh :: "Tailer \<Rightarrow> bool" where
  "fresh t \<longleftrightarrow> offset t = 0 \<and> lineno t = 0 \<and> pending t = [] \<and> replay_window t = None \<and> source_identity t = source t"

text \<open>A file that can be opened, holding whole characters and no carriage return.\<close>

definition readable :: "file_id \<Rightarrow> disk \<Rightarrow> bool" where
  "readable i d \<longleftrightarrow> open_answer d = Opened i \<and> stat_path d = Some i
     \<and> valid_utf8 (bytes (inode d i)) \<and> CHR 0x0D \<notin> set (bytes (inode d i))"

lemma unfinished_props: "newline \<notin> set (unfinished s)" "length (unfinished s) \<le> length s" "set (unfinished s) \<subseteq> set s"
  by (auto simp: unfinished_def length_takeWhile_le [of _ "rev s", simplified] dest: set_takeWhileD)

lemma poll_grown:
  assumes "readable i d" and "has_read i s t" and "bytes (inode d i) = s @ r" and "valid_utf8 s"
    and "r = [] \<longrightarrow> mtime (inode d i) = modified t"
  shows "\<exists>t' out. poll hex d t = (t', Inr out) \<and> has_read i (s @ r) t' \<and> tail_path t' = tail_path t
    \<and> modified t' = mtime (inode d i)
    \<and> lines_from hex (tail_path t) 0 0 (s @ r) = lines_from hex (tail_path t) 0 0 s @ out"
proof (cases "r = []")
  case True
  with assms show ?thesis by (auto simp: poll_def unchanged_def readable_def has_read_def)
next
  case False
  let ?t = "t\<lparr>source_identity := Some i, modified := mtime (inode d i), source := Some i\<rparr>"
  have poll: "poll hex d t = read_loop hex ?t r []"
    using False assms(1-3) by (auto simp: poll_def unchanged_def readable_def has_read_def poll_source_def rebase_def Let_def)
  have "valid_utf8 r" using assms(1,3,4) by (simp add: readable_def valid_utf8_append)
  moreover have "CHR 0x0D \<notin> set (unfinished s)"
    using assms(1,3) unfinished_props(3) [of s] by (auto simp: readable_def)
  ultimately show ?thesis
    using read_loop_lines [of r ?t hex "[]"] assms(1-3) unfinished_props [of s] unfolding poll
    by (auto simp: readable_def has_read_def unfinished_append lines_append [of _ _ 0 0 s r])
qed

lemma poll_first:
  assumes "readable i d" and "fresh t"
  shows "\<exists>t' out. poll hex d t = (t', Inr out) \<and> has_read i (bytes (inode d i)) t' \<and> tail_path t' = tail_path t
    \<and> modified t' = mtime (inode d i) \<and> out = lines_from hex (tail_path t) 0 0 (bytes (inode d i))"
proof (cases "unchanged d t")
  case True
  then have "source t = Some i" and "bytes (inode d i) = []" and "mtime (inode d i) = modified t"
    using assms by (auto simp: unchanged_def readable_def fresh_def split: option.splits)
  with True assms(2) show ?thesis by (auto simp: poll_def has_read_def fresh_def unfinished_part lines_part)
next
  case False
  let ?s = "bytes (inode d i)"
  let ?t = "rebase d i t"
  have t: "offset ?t = 0" "lineno ?t = 0" "pending ?t = []" "source ?t = Some i" "source_identity ?t = Some i"
    "tail_path ?t = tail_path t" "modified ?t = mtime (inode d i)"
    using assms(2) by (auto simp: rebase_def fresh_def Let_def)
  have "poll hex d t = (if ?s = [] then (?t, Inr []) else read_loop hex ?t ?s [])"
    using False assms(1) t(1) by (simp add: poll_def readable_def poll_source_def)
  with assms(1) t read_loop_lines [of ?s ?t hex "[]"] show ?thesis
    by (auto simp: readable_def has_read_def unfinished_part lines_part)
qed

section \<open>All polls\<close>

fun polls :: "(string \<Rightarrow> string) \<Rightarrow> disk list \<Rightarrow> Tailer \<Rightarrow> Tailer \<times> (IoError + TailedLine list) list" where
  "polls hex [] t = (t, [])"
| "polls hex (d # ds) t =
     (let (t, r) = poll hex d t; (t, rs) = polls hex ds t in (t, r # rs))"

text \<open>Between two polls the writer only appends; a file that did not grow keeps its time.\<close>

definition appended :: "file_id \<Rightarrow> disk \<Rightarrow> disk \<Rightarrow> bool" where
  "appended i d e \<longleftrightarrow> prefix (bytes (inode d i)) (bytes (inode e i))
     \<and> (bytes (inode d i) = bytes (inode e i) \<longrightarrow> mtime (inode d i) = mtime (inode e i))"

lemma polls_grown:
  assumes "has_read i (bytes (inode d i)) t" and "modified t = mtime (inode d i)"
    and "list_all (readable i) (d # ds)" and "successively (appended i) (d # ds)"
  shows "\<exists>outs. snd (polls hex ds t) = map Inr outs
    \<and> lines_from hex (tail_path t) 0 0 (bytes (inode (last (d # ds)) i))
        = lines_from hex (tail_path t) 0 0 (bytes (inode d i)) @ concat outs"
  using assms
proof (induction ds arbitrary: d t)
  case (Cons e ds)
  from Cons.prems(4) obtain r where r: "bytes (inode e i) = bytes (inode d i) @ r"
    and m: "r = [] \<longrightarrow> mtime (inode e i) = modified t"
    using Cons.prems(2) by (auto simp: appended_def prefix_def)
  from Cons.prems(3) have e: "readable i e" and v: "valid_utf8 (bytes (inode d i))" by (auto simp: readable_def)
  from poll_grown [OF e Cons.prems(1) r v m, of hex] obtain t' out where t': "poll hex e t = (t', Inr out)"
    "has_read i (bytes (inode e i)) t'" "tail_path t' = tail_path t" "modified t' = mtime (inode e i)"
    and out: "lines_from hex (tail_path t) 0 0 (bytes (inode e i)) = lines_from hex (tail_path t) 0 0 (bytes (inode d i)) @ out"
    using r by auto
  from Cons.IH [OF t'(2,4)] Cons.prems(3,4) obtain outs where
    "snd (polls hex ds t') = map Inr outs" and "lines_from hex (tail_path t) 0 0 (bytes (inode (last (e # ds)) i))
        = lines_from hex (tail_path t) 0 0 (bytes (inode e i)) @ concat outs"
    by (auto simp: t'(3))
  with t'(1) out show ?case by (intro exI [of _ "out # outs"]) (auto simp: Let_def split: prod.splits)
qed simp


text \<open>A transcript written in three pieces, the second ending inside a record.\<close>

definition sample_disk :: "string \<Rightarrow> nat \<Rightarrow> disk" where
  "sample_disk s m =
     \<lparr>open_answer = Opened (1, 7), stat_path = Some (1, 7), inode = (\<lambda>_. \<lparr>bytes = s, mtime = Some m\<rparr>)\<rparr>"


section \<open>Where a replay window starts\<close>

fun starts_of :: "nat \<Rightarrow> nat \<Rightarrow> string list \<Rightarrow> (nat \<times> nat) list" where
  "starts_of off line [] = []"
| "starts_of off line (x # xs) = (off, line) # starts_of (off + length x) (line + 1) xs"

definition lastn :: "nat \<Rightarrow> 'a list \<Rightarrow> 'a list" where
  "lastn n xs = drop (length xs - n) xs"

lemma lastn_snoc: "0 < n \<Longrightarrow> (if length (lastn n xs) = n then tl (lastn n xs) else lastn n xs) @ [x] = lastn n (xs @ [x])"
  by (auto simp: lastn_def tl_drop drop_Suc Suc_diff_le)

lemma window_fold:
  "0 < w \<Longrightarrow> fold (window_step w) xs (lastn w ss, off, line)
     = (lastn w (ss @ starts_of off line xs), off + length (concat xs), line + length xs)"
proof (induction xs arbitrary: ss off line)
  case (Cons x xs)
  have "window_step w x (lastn w ss, off, line) = (lastn w (ss @ [(off, line)]), off + length x, line + 1)"
    using lastn_snoc [OF Cons.prems, of ss] by (simp add: window_step_def)
  with Cons.IH [OF Cons.prems, of "ss @ [(off, line)]" "off + length x" "line + 1"] show ?case by simp
qed simp

lemma length_starts [simp]: "length (starts_of off line xs) = length xs"
  by (induction xs arbitrary: off line) auto

lemma starts_nth:
  "n < length xs \<Longrightarrow> starts_of off line xs ! n = (off + length (concat (take n xs)), line + n)"
proof (induction xs arbitrary: off line n)
  case (Cons x xs)
  then show ?case by (cases n) auto
qed simp

lemma window_exact:
  assumes "length bs \<le> SCAN_CAP" and n_def: "n = length (pieces bs) - max want 1"
  shows "window_start bs want = (length (concat (take n (pieces bs))), n, length (pieces bs), True)"
proof -
  let ?xs = "pieces bs" and ?w = "max want 1"
  have f: "fold (window_step ?w) ?xs ([], 0, 0) = (lastn ?w (starts_of 0 0 ?xs), length (concat ?xs), length ?xs)"
    using window_fold [of ?w ?xs "[]" 0 0] by (simp add: lastn_def)
  have "(case lastn ?w (starts_of 0 0 ?xs) of p # _ \<Rightarrow> p | [] \<Rightarrow> (0, 0)) = (length (concat (take n ?xs)), n)"
  proof (cases "?xs = []")
    case False
    then have "n < length ?xs" by (simp add: n_def)
    then have "lastn ?w (starts_of 0 0 ?xs) = starts_of 0 0 ?xs ! n # drop (Suc n) (starts_of 0 0 ?xs)"
      by (simp add: lastn_def n_def Cons_nth_drop_Suc)
    with \<open>n < length ?xs\<close> show ?thesis by (simp add: starts_nth)
  qed (simp add: lastn_def n_def)
  with f assms(1) show ?thesis by (simp add: window_start_def window_start_bounded_def Let_def)
qed

text \<open>
  The replay window of a file that is scanned whole begins where a line begins and holds exactly its
  last \<open>want\<close> lines (all of them when there are fewer, one when none is asked for); the line number
  and the total are those of the file.
\<close>

theorem window_is_last_lines:
  assumes "length bs \<le> SCAN_CAP"
  shows "\<exists>off n. window_start bs want = (off, n, length (pieces bs), True)
    \<and> drop off bs = concat (drop n (pieces bs)) \<and> length (drop n (pieces bs)) = min (max want 1) (length (pieces bs))"
proof -
  let ?n = "length (pieces bs) - max want 1"
  have "bs = concat (take ?n (pieces bs)) @ concat (drop ?n (pieces bs))"
    by (metis append_take_drop_id concat_append concat_pieces)
  then have "drop (length (concat (take ?n (pieces bs)))) bs = concat (drop ?n (pieces bs))"
    by (metis append_eq_conv_conj)
  with window_exact [OF assms refl, of want] show ?thesis by auto
qed

section \<open>Two cases the tailer does not handle\<close>

text \<open>
  A poll that fails loses the lines before the failure. When a poll ends inside a character (or
  meets bytes that are no text), it fails as a whole, although the lines before are already counted
  as read: the next poll, which finds the character whole, begins behind them, and no poll ever
  hands them out.
\<close>

theorem failed_poll_loses_lines:
  assumes "newline \<notin> set a" and "valid_utf8 a" and "newline \<notin> set b" and "\<not> valid_utf8 b"
    and "valid_utf8 (b @ c)" and "CHR 0x0D \<notin> set (b @ c)" and "c \<noteq> []"
    and "d = sample_disk (a @ newline # b) m" and "e = sample_disk (a @ newline # b @ c) k"
    and "poll hex d (new_tailer d p True) = (t, r)"
  shows "r = Inl InvalidData \<and> offset t = length a + 1
    \<and> snd (poll hex e t) = Inr (lines_from hex p (length a + 1) 1 (b @ c))"
proof -
  let ?t = "(new_tailer d p True)\<lparr>offset := length a + 1, lineno := 1\<rparr>"
  have b: "b \<noteq> []" using assms(4) by (auto simp: valid_utf8_def)
  have va: "valid_utf8 (a @ [newline])" using assms(2) valid_utf8_newline [of a "[]"] by (simp add: valid_utf8_def [of "[]"])
  have "poll hex d (new_tailer d p True) = (?t, Inl InvalidData)"
    using assms(1,3,4,8) b va
    by (simp add: poll_def unchanged_def sample_disk_def new_tailer_def opened_id_def poll_source_def rebase_def Let_def
        read_loop.simps until_newline_split until_newline_none)
  with assms(10) have t: "t = ?t" and r: "r = Inl InvalidData" by auto
  have "poll hex e t = read_loop hex (rebase e (1, 7) t) (b @ c) []"
    and "rebase e (1, 7) t = t\<lparr>modified := Some k\<rparr>"
    using assms(7-9) b unfolding t
    by (simp_all add: poll_def unchanged_def sample_disk_def new_tailer_def opened_id_def poll_source_def rebase_def Let_def)
  with read_loop_lines [OF assms(5), of "t\<lparr>modified := Some k\<rparr>" hex "[]"] assms(6)
  show ?thesis unfolding r by (simp add: t new_tailer_def Let_def)
qed

theorem failed_poll_loses_lines_witness:
  "snd (poll (\<lambda>s. s) (sample_disk (''q'' @ newline # [CHR 0xC3, CHR 0xA9, newline]) 2)
      (fst (poll (\<lambda>s. s) (sample_disk (''q'' @ newline # [CHR 0xC3]) 1)
              (new_tailer (sample_disk (''q'' @ newline # [CHR 0xC3]) 1) [Normal ''t''] True))))
   = Inr [\<lparr>line_source = ''native:t:2'', line_no = 1, line_text = [CHR 0xC3, CHR 0xA9]\<rparr>]"
proof -
  have v: "valid_utf8 ''q''" "\<not> valid_utf8 [CHR 0xC3]" "valid_utf8 ([CHR 0xC3] @ [CHR 0xA9, newline])" by code_simp+
  have l: "lines_from (\<lambda>s. s) [Normal ''t''] (length ''q'' + 1) 1 ([CHR 0xC3] @ [CHR 0xA9, newline])
      = [\<lparr>line_source = ''native:t:2'', line_no = 1, line_text = [CHR 0xC3, CHR 0xA9]\<rparr>]" by code_simp
  from failed_poll_loses_lines [OF _ v(1) _ v(2,3) _ _ refl refl surjective_pairing, of "\<lambda>s. s" 1 "[Normal ''t'']" 2] l
  show ?thesis by simp
qed

text \<open>
  Following a file from its end: an unfinished last line is counted as a line, so the rest of it,
  and every line after, is handed out with a number one higher than its own.
\<close>

lemma from_end_numbers_one_high:
  assumes "newline \<notin> set a" and "a \<noteq> []" and "newline \<notin> set b" and "valid_utf8 b" and "CHR 0x0D \<notin> set b"
    and "d = sample_disk a m" and "e = sample_disk (a @ b @ [newline]) k"
  shows "snd (poll hex e (new_tailer d p False)) =
    Inr [\<lparr>line_source = record_source hex p (length a), line_no = 1, line_text = b\<rparr>]"
proof -
  let ?t = "(new_tailer d p False)\<lparr>modified := Some k\<rparr>"
  have vb: "valid_utf8 (b @ [newline])" using assms(4) valid_utf8_newline [of b "[]"] by (simp add: valid_utf8_def [of "[]"])
  have last: "last a \<noteq> newline" using assms(1,2) by (metis last_in_set)
  have c: "count_list a newline = 0" using assms(1) by (simp add: count_list_0_iff)
  have "poll hex e (new_tailer d p False) = read_loop hex ?t (b @ [newline]) []"
    using assms(2,6,7) last c
    by (simp add: poll_def unchanged_def sample_disk_def new_tailer_def opened_id_def poll_source_def rebase_def Let_def
        count_to_end_def)
  with read_loop_lines [OF vb, of ?t hex "[]"] assms(5) lines_whole [OF assms(3), of hex p "length a" 1 "[]"]
  show ?thesis using last c assms(2,3,5,6)
    by (simp add: new_tailer_def opened_id_def sample_disk_def count_to_end_def Let_def trim_unfinished lines_part)
qed

end
