(* ===== verification/Lineage.thy ===== *)
theory Lineage
  imports PathPolicy
begin

text \<open>
  Where a session settles on this machine (\<open>src/rc/lineage.rs\<close>): a repository slug, a branch and the
  repository's immutable id, valid by construction. The id parser of the uuid crate is a parameter
  that answers the canonical text of an id. \<open>RepositoryKind\<close> (\<open>src/rc/capture.rs\<close>) is carried along.

  The lemmas show that the string form is exact and that the directory of a lineage is always two
  plain names below the directory of repositories.
\<close>

text \<open>The native store a transcript belongs to (\<open>src/protocol/types.rs\<close>); the generation fences a connection.\<close>

record NativeSourceRef =
  source_id :: string
  generation :: nat

definition same_store :: "NativeSourceRef option \<Rightarrow> NativeSourceRef option \<Rightarrow> bool" where
  "same_store l r \<longleftrightarrow> map_option source_id l = map_option source_id r"

datatype LineageError =
    NotALineage string
  | NotASlug string
  | EmptySegment
  | SegmentWhitespace string
  | SegmentClimbs string
  | SegmentCharacters string
  | UnusableBranch string
  | UnusableAgentId string

datatype 'i RepositoryKind = DeviceLocal string | HubLinked 'i

record 'i AgitSession =
  owner :: string
  name :: string
  agent_id :: string
  branch :: string
  capture :: "'i RepositoryKind option"

definition safe_segment :: "string \<Rightarrow> LineageError + unit" where
  "safe_segment part =
     (if part = [] then Inl EmptySegment
      else if part \<noteq> trim part then Inl (SegmentWhitespace part)
      else if part = ''.'' \<or> part = ''..'' then Inl (SegmentClimbs part)
      else if \<not> list_all (\<lambda>c. is_ascii_alphanumeric c \<or> c = CHR ''-'' \<or> c = CHR ''_'') part
      then Inl (SegmentCharacters part)
      else Inr ())"

definition plausible_ref_name :: "string \<Rightarrow> bool" where
  "plausible_ref_name b \<longleftrightarrow>
     b \<noteq> [] \<and> b = trim b
     \<and> \<not> prefix ''-'' b \<and> b \<noteq> ''HEAD'' \<and> b \<noteq> ''@''
     \<and> \<not> prefix ''/'' b \<and> \<not> suffix ''/'' b \<and> \<not> suffix ''.'' b
     \<and> \<not> sublist ''..'' b \<and> \<not> sublist ''//'' b \<and> \<not> sublist [CHR ''@'', CHR 0x7B] b
     \<and> \<not> contains_any (''~^:?*['' @ [CHR 0x5C, CHR 0x00]) b
     \<and> \<not> has_control b \<and> CHR '' '' \<notin> set b
     \<and> list_all (\<lambda>part. part \<noteq> [] \<and> \<not> prefix ''.'' part \<and> \<not> suffix ''.lock'' part) (split_on CHR ''/'' b)"

definition valid_branch_name :: "string \<Rightarrow> bool" where
  "valid_branch_name b = plausible_ref_name b"

definition new_session :: "(string \<Rightarrow> string option) \<Rightarrow> string \<Rightarrow> string \<Rightarrow> string \<Rightarrow> LineageError + 'i AgitSession" where
  "new_session uuid slug expected b =
     r_bind (ok_or (split_once CHR ''/'' slug) (NotASlug slug)) (\<lambda>(o0, n0).
     r_bind (safe_segment o0) (\<lambda>_.
     r_bind (safe_segment n0) (\<lambda>_.
     r_bind (ensure (valid_branch_name b) (UnusableBranch b)) (\<lambda>_.
     r_bind (ok_or (uuid (trim expected)) (UnusableAgentId expected)) (\<lambda>aid.
       Inr \<lparr>owner = o0, name = n0, agent_id = aid, branch = b, capture = None\<rparr>)))))"

definition parse_session :: "(string \<Rightarrow> string option) \<Rightarrow> string \<Rightarrow> string \<Rightarrow> LineageError + 'i AgitSession" where
  "parse_session uuid s expected =
     r_bind (ok_or (split_once CHR ''@'' s) (NotALineage s)) (\<lambda>(slug, b). new_session uuid slug expected b)"

definition slug :: "'i AgitSession \<Rightarrow> string" where
  "slug l = owner l @ ''/'' @ name l"

definition show_session :: "'i AgitSession \<Rightarrow> string" where
  "show_session l = owner l @ ''/'' @ name l @ ''@'' @ branch l"

text \<open>\<open>infra::config::repo_dir\<close>: two names joined to the directory of repositories.\<close>

definition repo_dir :: "path \<Rightarrow> 'i AgitSession \<Rightarrow> path" where
  "repo_dir repos l = join (join repos (parse_path (owner l))) (parse_path (name l))"

section \<open>Exact and confined\<close>

lemma safe_segment_plain:
  assumes "safe_segment p = Inr u"
  shows "CHR ''/'' \<notin> set p \<and> CHR ''@'' \<notin> set p \<and> CHR ''.'' \<notin> set p \<and> p \<noteq> []"
proof -
  have "\<not> is_ascii_alphanumeric CHR ''/''" "\<not> is_ascii_alphanumeric CHR ''@''" "\<not> is_ascii_alphanumeric CHR ''.''"
    by code_simp+
  with assms show ?thesis by (auto simp: safe_segment_def list_all_iff split: if_splits)
qed

lemma split_on_none: "c \<notin> set s \<Longrightarrow> split_on c s = [s]"
  by (induction s) auto

lemma parse_plain: "CHR ''/'' \<notin> set p \<Longrightarrow> CHR ''.'' \<notin> set p \<Longrightarrow> p \<noteq> [] \<Longrightarrow> parse_path p = [Normal p]"
  by (cases p) (auto simp: parse_path_def body_component_def split_on_none map_filter_simps)

text \<open>
  The string form of a lineage is exact and names a directory of its own. A string that parses
  is what the lineage prints, and what a lineage prints parses to the same lineage; the owner and
  the name become exactly one path segment each, so the directory lies two levels below the
  directory of repositories whatever the strings were.
\<close>

theorem lineage_exact:
  assumes "parse_session uuid s expected = Inr l"
  shows "show_session l = s \<and> parse_session uuid (show_session l) expected = Inr l
    \<and> (repos \<noteq> [] \<longrightarrow> repo_dir repos l = repos @ [Normal (owner l), Normal (name l)])"
proof -
  from assms obtain sl where s: "split_once CHR ''@'' s = Some (sl, branch l)"
    and sl: "split_once CHR ''/'' sl = Some (owner l, name l)"
    and segs: "safe_segment (owner l) = Inr ()" "safe_segment (name l) = Inr ()"
    by (auto simp: parse_session_def new_session_def result_simps split: if_splits)
  from s sl have "show_session l = s" by (simp add: split_once_Some show_session_def)
  moreover from safe_segment_plain [OF segs(1)] safe_segment_plain [OF segs(2)]
  have "repos \<noteq> [] \<longrightarrow> repo_dir repos l = repos @ [Normal (owner l), Normal (name l)]"
    by (auto simp: repo_dir_def parse_plain join_def is_absolute_def)
  ultimately show ?thesis using assms by simp
qed

theorem lineage_exact_witness:
  "\<exists>l :: unit AgitSession. parse_session Some ''acme/api@topic@alice'' ''1'' = Inr l
     \<and> show_session l = ''acme/api@topic@alice''
     \<and> repo_dir [RootDir] l = [RootDir, Normal ''acme'', Normal ''api'']"
proof -
  let ?l = "\<lparr>owner = ''acme'', name = ''api'', agent_id = ''1'', branch = ''topic@alice'', capture = None\<rparr> :: unit AgitSession"
  have "parse_session Some ''acme/api@topic@alice'' ''1'' = Inr ?l" by code_simp
  with lineage_exact [OF this, of "[RootDir]"] show ?thesis by (intro exI [of _ ?l]) simp
qed

end
