(* ===== verification/ArchiveJobs.thy ===== *)
theory ArchiveJobs
  imports Lineage Turns "HOL-Library.List_Lexorder" "HOL-Library.Char_ord" "HOL-Library.Code_Target_Nat"
begin

text \<open>
  The queue of completed turns that wait to be published (\<open>src/rc/archive_jobs.rs\<close>). A job names a
  conversation and a prefix of its transcript by length and hash; it leaves the queue only when a
  confirmed publication covers it, or when a newer job of the same transcript contains it.

  The directory of jobs is a list of named files, each a stored job with the size of its text or
  something that does not parse. Writing a job is a sequence of durable directory states, so that a
  crash can be placed between any two. Transcripts, SHA-256, the names derived from a job's
  coordinates, the size of its text, the canonical form of a path, the uuid parser and what
  settlement and the link store answer are parameters (records \<open>store\<close> and \<open>settlement\<close>).

  The lemmas show that no crash and no sequence of operations drops a queued turn that was not
  published, what a publication removes, that the queue stays within its limit, and that a crash at
  the limit leaves the queue unreadable.
\<close>

section \<open>Jobs\<close>

definition MAX_JOBS :: nat where
  "MAX_JOBS = 4096"

definition MAX_JOB_BYTES :: nat where
  "MAX_JOB_BYTES = 32 * 1024"

definition MAX_PREFIX_BYTES :: nat where
  "MAX_PREFIX_BYTES = 512 * 1024 * 1024"

datatype ArchiveError =
    UnsupportedVersion | InvalidIdentity | NoncanonicalRuntime | RelativePath | InvalidBoundary
  | InvalidHash | BadLineage LineageError | InvalidExtent | Unreadable | Incomplete | NotCanonical
  | PrefixUnreadable | PrefixChanged | CarrierChanged | CarrierOutside | TranscriptMissing
  | ReplayChanged | CapacityExceeded | RecordTooLong | OtherIdentity | NotAJob | ChangedBeforeReceipt
  | RestoreFailed | ClaimMissing | RepositoryChanged | MetaUnreadable | NoIntent | NoConfirmation

record ('i, 'h) Job =
  version :: nat
  logical :: string
  native :: string
  runtime :: string
  native_source :: "NativeSourceRef option"
  cwd :: path
  lineage :: string
  repository_id :: string
  job_capture :: "'i RepositoryKind option"
  turn_id :: string
  transcript :: path
  prefix_bytes :: nat
  prefix_hash :: string
  required_bytes :: nat
  archive_handoff :: "'h option"

type_synonym coordinates = "string \<times> string \<times> NativeSourceRef option \<times> string \<times> string \<times> string \<times> string"

record ('i, 'h) store =
  carrier :: "path \<Rightarrow> string option"
  sha :: "string \<Rightarrow> string"
  digest_name :: "coordinates \<Rightarrow> string"
  text_size :: "('i, 'h) Job \<Rightarrow> nat"
  canon :: "path \<Rightarrow> path option"
  parse_uuid :: "string \<Rightarrow> string option"
  restorable :: "path \<Rightarrow> bool"

definition same_capture :: "('i, 'h) Job \<Rightarrow> ('i, 'h) Job \<Rightarrow> bool" where
  "same_capture a b \<longleftrightarrow> logical a = logical b \<and> native a = native b \<and> runtime a = runtime b
     \<and> same_store (native_source a) (native_source b) \<and> cwd a = cwd b \<and> lineage a = lineage b
     \<and> repository_id a = repository_id b \<and> job_capture a = job_capture b \<and> archive_handoff a = archive_handoff b"

definition session :: "('i, 'h) store \<Rightarrow> ('i, 'h) Job \<Rightarrow> ArchiveError + 'i AgitSession" where
  "session st j =
     (case parse_session (parse_uuid st) (lineage j) (repository_id j) of
        Inl e \<Rightarrow> Inl (BadLineage e)
      | Inr l \<Rightarrow> Inr (l\<lparr>capture := job_capture j\<rparr>))"

definition validate_job :: "('i, 'h) store \<Rightarrow> ('i, 'h) Job \<Rightarrow> ArchiveError + unit" where
  "validate_job st j =
     r_bind (ensure (version j = 1) UnsupportedVersion) (\<lambda>_.
     r_bind (ensure (list_all (\<lambda>v. v \<noteq> [] \<and> length v \<le> 1024 \<and> \<not> has_control v)
                       [logical j, native j, runtime j, turn_id j]) InvalidIdentity) (\<lambda>_.
     r_bind (ensure (normalize_runtime (runtime j) = Some (runtime j)) NoncanonicalRuntime) (\<lambda>_.
     r_bind (ensure (is_absolute (cwd j) \<and> is_absolute (transcript j)) RelativePath) (\<lambda>_.
     r_bind (ensure (required_bytes j > 0 \<and> required_bytes j \<le> prefix_bytes j
                     \<and> prefix_bytes j \<le> MAX_PREFIX_BYTES) InvalidBoundary) (\<lambda>_.
     r_bind (ensure (length (prefix_hash j) = 64 \<and> list_all is_ascii_hexdigit (prefix_hash j)) InvalidHash) (\<lambda>_.
     r_bind (session st j) (\<lambda>_. Inr ())))))))"

definition prefix_digest :: "('i, 'h) store \<Rightarrow> path \<Rightarrow> nat \<Rightarrow> ArchiveError + string" where
  "prefix_digest st p n =
     r_bind (ensure (n > 0 \<and> n \<le> MAX_PREFIX_BYTES) InvalidExtent) (\<lambda>_.
     r_bind (ok_or (carrier st p) Unreadable) (\<lambda>bs.
     r_bind (ensure (length bs \<ge> n) Incomplete) (\<lambda>_.
     r_bind (ensure (bs ! (n - 1) = CHR 0x0A) Incomplete) (\<lambda>_.
       Inr (sha st (take n bs))))))"

definition capture_job ::
  "('i, 'h) store \<Rightarrow> string \<Rightarrow> string \<Rightarrow> string \<Rightarrow> NativeSourceRef option \<Rightarrow> path \<Rightarrow> 'i AgitSession \<Rightarrow> string \<Rightarrow>
   path \<Rightarrow> nat \<Rightarrow> 'h option \<Rightarrow> ArchiveError + ('i, 'h) Job" where
  "capture_job st lg nt rt src dir0 lin tid tr n handoff =
     r_bind (prefix_digest st tr n) (\<lambda>h.
     r_bind (ok_or (canon st dir0) NotCanonical) (\<lambda>dir.
     r_bind (ok_or (canon st tr) NotCanonical) (\<lambda>tr'.
     let j = \<lparr>version = 1, logical = lg, native = nt, runtime = rt, native_source = src, cwd = dir,
              lineage = show_session lin, repository_id = agent_id lin, job_capture = capture lin, turn_id = tid,
              transcript = tr', prefix_bytes = n, prefix_hash = h, required_bytes = n, archive_handoff = handoff\<rparr>
     in r_bind (validate_job st j) (\<lambda>_. Inr j))))"

text \<open>\<open>verify_prefix\<close>: Codex may have compressed the carrier, which is restored first.\<close>

definition verify_prefix :: "('i, 'h) store \<Rightarrow> ('i, 'h) Job \<Rightarrow> ArchiveError + unit" where
  "verify_prefix st j =
     r_bind (validate_job st j) (\<lambda>_.
     r_bind (ensure (runtime j = ''codex'' \<longrightarrow> restorable st (transcript j)) RestoreFailed) (\<lambda>_.
     case prefix_digest st (transcript j) (prefix_bytes j) of
       Inl _ \<Rightarrow> Inl PrefixUnreadable
     | Inr h \<Rightarrow> if h = prefix_hash j then Inr () else Inl PrefixChanged))"

definition filename :: "('i, 'h) store \<Rightarrow> ('i, 'h) Job \<Rightarrow> string" where
  "filename st j =
     digest_name st (logical j, runtime j, native_source j, native j, lineage j, repository_id j, turn_id j) @ ''.json''"

section \<open>The directory\<close>

datatype ('i, 'h) stored = Saved "('i, 'h) Job" nat | Broken nat

type_synonym ('i, 'h) dir = "(string \<times> ('i, 'h) stored) list"

definition is_json :: "string \<Rightarrow> bool" where
  "is_json n = (case rsplit_once CHR ''.'' n of Some (stem, ext) \<Rightarrow> stem \<noteq> [] \<and> ext = ''json'' | None \<Rightarrow> False)"

definition read_job :: "('i, 'h) store \<Rightarrow> ('i, 'h) stored option \<Rightarrow> ArchiveError + ('i, 'h) Job option" where
  "read_job st f =
     (case f of
        None \<Rightarrow> Inr None
      | Some (Broken n) \<Rightarrow> if n > MAX_JOB_BYTES then Inl RecordTooLong else Inl NotAJob
      | Some (Saved j n) \<Rightarrow>
          if n > MAX_JOB_BYTES then Inl RecordTooLong
          else r_bind (validate_job st j) (\<lambda>_. Inr (Some j)))"

definition scan_file :: "('i, 'h) store \<Rightarrow> string \<times> ('i, 'h) stored \<Rightarrow> ('i, 'h) Job list \<Rightarrow> ArchiveError + ('i, 'h) Job list" where
  "scan_file st f jobs =
     (if \<not> is_json (fst f) then Inr jobs
      else r_bind (ensure (length jobs < MAX_JOBS) CapacityExceeded) (\<lambda>_.
           r_bind (read_job st (Some (snd f))) (\<lambda>r.
           case r of
             None \<Rightarrow> Inr jobs
           | Some j \<Rightarrow> if fst f = filename st j then Inr (jobs @ [j]) else Inl OtherIdentity)))"

definition scan :: "('i, 'h) store \<Rightarrow> ('i, 'h) dir \<Rightarrow> ArchiveError + ('i, 'h) Job list" where
  "scan st d = r_bind (r_fold (scan_file st) d []) (\<lambda>jobs. Inr (sort_key (filename st) jobs))"

definition persist :: "string \<Rightarrow> ('i, 'h) stored \<Rightarrow> ('i, 'h) dir \<Rightarrow> ('i, 'h) dir" where
  "persist n f d = (n, f) # filter (\<lambda>(k, _). k \<noteq> n) d"

definition remove_file :: "string \<Rightarrow> ('i, 'h) dir \<Rightarrow> ('i, 'h) dir" where
  "remove_file n d = filter (\<lambda>(k, _). k \<noteq> n) d"

subsection \<open>Recording\<close>

definition subsumable :: "('i, 'h) Job \<Rightarrow> ('i, 'h) Job \<Rightarrow> bool" where
  "subsumable self older \<longleftrightarrow>
     same_capture older self \<and> transcript older = transcript self \<and> prefix_bytes older \<le> prefix_bytes self"

definition contained :: "('i, 'h) store \<Rightarrow> ('i, 'h) Job \<Rightarrow> ('i, 'h) Job \<Rightarrow> bool" where
  "contained st self older =
     (if prefix_bytes older = prefix_bytes self then prefix_hash older = prefix_hash self
      else prefix_digest st (transcript self) (prefix_bytes older) = Inr (prefix_hash older))"

text \<open>The queued jobs the new one makes redundant; \<open>None\<close> when one of them is as long already.\<close>

fun subsumed_loop :: "('i, 'h) store \<Rightarrow> ('i, 'h) Job \<Rightarrow> ('i, 'h) Job list \<Rightarrow> ('i, 'h) Job list \<Rightarrow> ('i, 'h) Job list option" where
  "subsumed_loop st self [] acc = Some acc"
| "subsumed_loop st self (older # rest) acc =
     (if \<not> subsumable self older \<or> \<not> contained st self older then subsumed_loop st self rest acc
      else if prefix_bytes older = prefix_bytes self then None
      else subsumed_loop st self rest (acc @ [older]))"

text \<open>The directory after each removal, in order.\<close>

fun removals :: "('i, 'h) store \<Rightarrow> ('i, 'h) Job list \<Rightarrow> ('i, 'h) dir \<Rightarrow> ('i, 'h) dir list" where
  "removals st [] d = []"
| "removals st (j # js) d = (let d = remove_file (filename st j) d in d # removals st js d)"

text \<open>The answer, and the durable states of the directory from the first to the last.\<close>

definition record_job :: "('i, 'h) store \<Rightarrow> ('i, 'h) Job \<Rightarrow> ('i, 'h) dir \<Rightarrow> (ArchiveError + unit) \<times> ('i, 'h) dir list" where
  "record_job st self d =
     (case r_bind (validate_job st self) (\<lambda>_. read_job st (map_of d (filename st self))) of
        Inl e \<Rightarrow> (Inl e, [d])
      | Inr (Some saved) \<Rightarrow>
          (if cwd saved = cwd self \<and> job_capture saved = job_capture self \<and> transcript saved = transcript self
              \<and> archive_handoff saved = archive_handoff self
           then verify_prefix st saved else Inl ReplayChanged, [d])
      | Inr None \<Rightarrow>
          (case scan st d of
             Inl e \<Rightarrow> (Inl e, [d])
           | Inr queued \<Rightarrow>
               (case subsumed_loop st self queued [] of
                  None \<Rightarrow> (Inr (), [d])
                | Some subsumed \<Rightarrow>
                    if \<not> length queued - length subsumed < MAX_JOBS then (Inl CapacityExceeded, [d])
                    else if text_size st self > MAX_JOB_BYTES then (Inl RecordTooLong, [d])
                    else (let d' = persist (filename st self) (Saved self (text_size st self)) d
                          in (Inr (), d # d' # removals st subsumed d')))))"

definition remove_job :: "('i, 'h) store \<Rightarrow> ('i, 'h) Job \<Rightarrow> ('i, 'h) dir \<Rightarrow> (ArchiveError + unit) \<times> ('i, 'h) dir" where
  "remove_job st self d =
     (case read_job st (map_of d (filename st self)) of
        Inl e \<Rightarrow> (Inl e, d)
      | Inr None \<Rightarrow> (Inr (), d)
      | Inr (Some saved) \<Rightarrow>
          if saved = self then (Inr (), remove_file (filename st self) d) else (Inl ChangedBeforeReceipt, d))"

definition pending_jobs :: "('i, 'h) store \<Rightarrow> ('i, 'h) dir \<Rightarrow> ArchiveError + ('i, 'h) Job list" where
  "pending_jobs st d = scan st d"

subsection \<open>A confirmed publication\<close>

record CaptureSpan =
  span_path :: path
  span_start :: nat
  span_end :: nat
  stream_start :: nat

record Claim =
  native_binding :: bool
  resolved :: "path option"
  capture_spans :: "CaptureSpan list"

definition capture_offset :: "CaptureSpan list \<Rightarrow> path \<Rightarrow> nat \<Rightarrow> nat option" where
  "capture_offset spans p end0 =
     map_option (\<lambda>s. stream_start s + (end0 - span_start s))
       (find (\<lambda>s. span_path s = p \<and> span_start s < end0 \<and> end0 \<le> span_end s) spans)"

definition stream_end :: "('i, 'h) store \<Rightarrow> Claim \<Rightarrow> ('i, 'h) Job \<Rightarrow> ArchiveError + nat" where
  "stream_end st claim j =
     (if \<not> native_binding claim
      then r_bind (ok_or (resolved claim) TranscriptMissing) (\<lambda>p.
           r_bind (ok_or (canon st p) NotCanonical) (\<lambda>current.
           if current \<noteq> transcript j then Inl CarrierChanged else Inr (prefix_bytes j)))
      else ok_or (capture_offset (capture_spans claim) (transcript j) (prefix_bytes j)) CarrierOutside)"

text \<open>Of the repository: its directory, the metadata of the published commit, and where settlement ends a prefix.\<close>

record published_meta =
  meta_runtime :: string
  meta_is_session :: bool
  baseline_bytes :: "nat option"

record ('i, 'h) settlement =
  repository :: path
  repos :: path
  owned :: "'i AgitSession \<Rightarrow> bool"
  published :: "ArchiveError + published_meta option"
  covered_end :: "string \<Rightarrow> string \<Rightarrow> path \<Rightarrow> string \<Rightarrow> ArchiveError + nat option"
  claim_of :: "('i, 'h) Job \<Rightarrow> ArchiveError + Claim"
  intent :: "((string \<times> string \<times> string) \<times> bool) option"

definition settled_end :: "('i, 'h) store \<Rightarrow> ('i, 'h) settlement \<Rightarrow> ('i, 'h) Job \<Rightarrow> ArchiveError + nat option" where
  "settled_end st se j =
     (case carrier st (transcript j) of
        None \<Rightarrow> Inr None
      | Some bs0 \<Rightarrow>
          let bs = take (prefix_bytes j) bs0
          in if length bs \<noteq> prefix_bytes j \<or> sha st bs \<noteq> prefix_hash j then Inr None
             else covered_end se (runtime j) (native j) (transcript j) bs)"

definition covered_by :: "('i, 'h) store \<Rightarrow> ('i, 'h) settlement \<Rightarrow> nat \<Rightarrow> ('i, 'h) Job \<Rightarrow> ArchiveError + bool" where
  "covered_by st se end0 j =
     r_bind (session st j) (\<lambda>l.
     r_bind (ensure (owned se l) RepositoryChanged) (\<lambda>_.
     r_bind (ensure (canon st (repository se) = canon st (repo_dir (repos se) l) \<and> canon st (repository se) \<noteq> None)
               RepositoryChanged) (\<lambda>_.
     r_bind (published se) (\<lambda>m.
     case m of
       None \<Rightarrow> Inr False
     | Some m \<Rightarrow>
         if meta_runtime m \<noteq> runtime j \<or> \<not> meta_is_session m then Inr False
         else case baseline_bytes m of
                None \<Rightarrow> Inr False
              | Some baseline \<Rightarrow>
                  if baseline \<ge> end0 then Inr True
                  else if end0 \<noteq> prefix_bytes j then Inr False
                  else r_bind (settled_end st se j) (\<lambda>s.
                       Inr (case s of Some settled \<Rightarrow> baseline \<ge> settled | None \<Rightarrow> False))))))"

definition concerns ::
  "('i, 'h) store \<Rightarrow> ('i, 'h) settlement \<Rightarrow> string \<times> string \<times> string \<Rightarrow> ('i, 'h) Job \<Rightarrow> ArchiveError + bool" where
  "concerns st se cap j =
     (if (logical j, native j, runtime j) \<noteq> cap then Inr False
      else r_bind (session st j) (\<lambda>l. Inr (repo_dir (repos se) l = repository se)))"

text \<open>A job is covered and its prefix verified; equal prefixes are verified once.\<close>

definition job_covered ::
  "('i, 'h) store \<Rightarrow> ('i, 'h) settlement \<Rightarrow> (path \<times> nat \<times> string) set \<Rightarrow> ('i, 'h) Job \<Rightarrow>
   bool \<times> (path \<times> nat \<times> string) set" where
  "job_covered st se verified j =
     (case r_bind (claim_of se j) (\<lambda>c. r_bind (stream_end st c j) (\<lambda>e. covered_by st se e j)) of
        Inl _ \<Rightarrow> (False, verified)
      | Inr False \<Rightarrow> (False, verified)
      | Inr True \<Rightarrow>
          (let proof0 = (transcript j, prefix_bytes j, prefix_hash j)
           in if proof0 \<in> verified then (True, verified)
              else if is_ok (verify_prefix st j) then (True, insert proof0 verified) else (False, verified)))"

fun confirm_loop ::
  "('i, 'h) store \<Rightarrow> ('i, 'h) settlement \<Rightarrow> string \<times> string \<times> string \<Rightarrow> ('i, 'h) Job list \<Rightarrow>
   (path \<times> nat \<times> string) set \<Rightarrow> ('i, 'h) dir \<Rightarrow> (ArchiveError + unit) \<times> ('i, 'h) dir list" where
  "confirm_loop st se cap [] verified d = (Inr (), [d])"
| "confirm_loop st se cap (j # js) verified d =
     (case concerns st se cap j of
        Inl e \<Rightarrow> (Inl e, [d])
      | Inr False \<Rightarrow> confirm_loop st se cap js verified d
      | Inr True \<Rightarrow>
          (let (ok, verified) = job_covered st se verified j
           in if ok
              then (case remove_job st j d of
                      (Inl e, d) \<Rightarrow> (Inl e, [d])
                    | (Inr _, d') \<Rightarrow> apsnd (Cons d) (confirm_loop st se cap js verified d'))
              else confirm_loop st se cap js verified d))"

definition publication_confirmed ::
  "('i, 'h) store \<Rightarrow> ('i, 'h) settlement \<Rightarrow> ('i, 'h) dir \<Rightarrow> (ArchiveError + unit) \<times> ('i, 'h) dir list" where
  "publication_confirmed st se d =
     (case intent se of
        None \<Rightarrow> (Inl NoIntent, [d])
      | Some (cap, confirmed) \<Rightarrow>
          if \<not> confirmed then (Inl NoConfirmation, [d])
          else case pending_jobs st d of
                 Inl e \<Rightarrow> (Inl e, [d])
               | Inr jobs \<Rightarrow> confirm_loop st se cap jobs {} d)"

section \<open>What the queue holds\<close>

definition queue :: "('i, 'h) dir \<Rightarrow> ('i, 'h) Job list" where
  "queue d = List.map_filter (\<lambda>(n, f). if is_json n then (case f of Saved j _ \<Rightarrow> Some j | _ \<Rightarrow> None) else None) d"

lemma queue_Nil [simp]: "queue [] = []"
  by (simp add: queue_def map_filter_simps)

lemma queue_Cons:
  "queue ((n, f) # d) = (case f of Saved j _ \<Rightarrow> if is_json n then j # queue d else queue d | _ \<Rightarrow> queue d)"
  by (auto simp: queue_def map_filter_simps split: stored.splits)

text \<open>Every file that counts as a job is one, under its own name.\<close>

definition wf_file :: "('i, 'h) store \<Rightarrow> string \<times> ('i, 'h) stored \<Rightarrow> bool" where
  "wf_file st f \<longleftrightarrow> (is_json (fst f) \<longrightarrow>
     (\<exists>j k. snd f = Saved j k \<and> k \<le> MAX_JOB_BYTES \<and> fst f = filename st j \<and> validate_job st j = Inr ()))"

lemma scan_file_Inr:
  assumes "scan_file st f jobs = Inr jobs'"
  shows "wf_file st f \<and> jobs' = jobs @ queue [f]"
proof (cases f)
  case (Pair n c)
  with assms show ?thesis
    by (cases c) (auto simp: scan_file_def read_job_def wf_file_def queue_Cons result_simps split: if_splits option.splits)
qed

lemma scan_fold_Inr:
  "r_fold (scan_file st) d acc = Inr q \<Longrightarrow> list_all (wf_file st) d \<and> q = acc @ queue d"
proof (induction d arbitrary: acc)
  case (Cons f d)
  then obtain mid where f: "scan_file st f acc = Inr mid" and r: "r_fold (scan_file st) d mid = Inr q"
    by (auto simp: result_simps)
  have "queue (f # d) = queue [f] @ queue d" by (cases f) (auto simp: queue_Cons split: stored.splits)
  with Cons.IH [OF r] scan_file_Inr [OF f] show ?case by simp
qed simp

lemma scan_Inr:
  "scan st d = Inr q \<Longrightarrow> list_all (wf_file st) d \<and> q = sort_key (filename st) (queue d)"
  by (auto simp: scan_def result_simps dest!: scan_fold_Inr)

text \<open>A directory in order is read as a whole, or not at all when it holds too many jobs.\<close>

lemma scan_fold_wf:
  "list_all (wf_file st) d \<Longrightarrow> length acc \<le> MAX_JOBS \<Longrightarrow>
   r_fold (scan_file st) d acc = (if length acc + length (queue d) \<le> MAX_JOBS then Inr (acc @ queue d) else Inl CapacityExceeded)"
proof (induction d arbitrary: acc)
  case (Cons f d)
  obtain n c where f: "f = (n, c)" by (cases f)
  show ?case
  proof (cases "is_json n")
    case True
    with Cons.prems f obtain j k where "c = Saved j k" "k \<le> MAX_JOB_BYTES" "n = filename st j" "validate_job st j = Inr ()"
      by (auto simp: wf_file_def)
    with True f Cons.IH [of "acc @ [j]"] Cons.prems show ?thesis
      by (auto simp: scan_file_def read_job_def queue_Cons)
  next
    case False
    with f Cons show ?thesis by (auto simp: scan_file_def queue_Cons split: stored.splits)
  qed
qed simp

lemma mem_queue: "j \<in> set (queue d) \<longleftrightarrow> (\<exists>n k. (n, Saved j k) \<in> set d \<and> is_json n)"
proof (induction d)
  case (Cons f d)
  obtain n c where "f = (n, c)" by (cases f)
  with Cons show ?case by (cases c) (auto simp: queue_Cons)
qed simp

text \<open>With names used once, removing a name removes exactly the job of that name.\<close>

lemma queue_names:
  assumes "list_all (wf_file st) d" and "distinct (map fst d)"
  shows "j \<in> set (queue d) \<Longrightarrow> \<exists>k. (filename st j, Saved j k) \<in> set d"
    and "j \<in> set (queue d) \<Longrightarrow> l \<in> set (queue d) \<Longrightarrow> filename st j = filename st l \<Longrightarrow> j = l"
proof -
  show f: "\<exists>k. (filename st j, Saved j k) \<in> set d" if "j \<in> set (queue d)" for j
    using that assms(1) by (fastforce simp: mem_queue list_all_iff wf_file_def)
  show "j = l" if "j \<in> set (queue d)" "l \<in> set (queue d)" "filename st j = filename st l"
    using f [OF that(1)] f [OF that(2)] that(3) assms(2) by (metis eq_key_imp_eq_value stored.inject(1))
qed

section \<open>Nothing queued is lost\<close>

text \<open>
  The job \<open>l\<close> carries the job \<open>k\<close>: same capture and transcript, and the bytes \<open>l\<close> names begin with the bytes
  \<open>k\<close> names. Only the hash says which bytes are meant, so this is said of a set \<open>S\<close> of texts (the transcripts
  and their prefixes) on which hashes do not collide.
\<close>

definition prefix_closed :: "string set \<Rightarrow> bool" where
  "prefix_closed S \<longleftrightarrow> (\<forall>s \<in> S. \<forall>n. take n s \<in> S)"

definition texts_in :: "string set \<Rightarrow> ('i, 'h) store \<Rightarrow> bool" where
  "texts_in S st \<longleftrightarrow> (\<forall>p bs. carrier st p = Some bs \<longrightarrow> bs \<in> S)"

definition carries :: "(string \<Rightarrow> string) \<Rightarrow> string set \<Rightarrow> ('i, 'h) Job \<Rightarrow> ('i, 'h) Job \<Rightarrow> bool" where
  "carries H S l k \<longleftrightarrow> same_capture k l \<and> transcript k = transcript l \<and> prefix_bytes k \<le> prefix_bytes l
     \<and> (\<exists>s \<in> S. H s = prefix_hash l \<and> length s = prefix_bytes l \<and> H (take (prefix_bytes k) s) = prefix_hash k)"

lemma carries_trans:
  assumes "inj_on H S" and "prefix_closed S" and "carries H S l k" and "carries H S k j"
  shows "carries H S l j"
proof -
  from assms(3) obtain s where s: "s \<in> S" "H s = prefix_hash l" "length s = prefix_bytes l"
    "H (take (prefix_bytes k) s) = prefix_hash k" by (auto simp: carries_def)
  from assms(4) obtain u where u: "u \<in> S" "H u = prefix_hash k" "H (take (prefix_bytes j) u) = prefix_hash j"
    and le: "prefix_bytes j \<le> prefix_bytes k" by (auto simp: carries_def)
  from s(1) assms(2) have "take (prefix_bytes k) s \<in> S" by (simp add: prefix_closed_def)
  with s(4) u(1,2) assms(1) have "u = take (prefix_bytes k) s" by (metis inj_onD)
  with u(3) le have "H (take (prefix_bytes j) s) = prefix_hash j" by (simp add: min_def)
  with s assms(3,4) show ?thesis by (auto simp: carries_def same_capture_def same_store_def)
qed

text \<open>The job is about the transcript as it is now.\<close>

definition current :: "('i, 'h) store \<Rightarrow> ('i, 'h) Job \<Rightarrow> bool" where
  "current st j \<longleftrightarrow> prefix_digest st (transcript j) (prefix_bytes j) = Inr (prefix_hash j)"

lemma prefix_digest_Inr:
  "prefix_digest st p n = Inr h \<Longrightarrow> \<exists>bs. carrier st p = Some bs \<and> n \<le> length bs \<and> h = sha st (take n bs)"
  by (auto simp: prefix_digest_def result_simps split: if_splits)

lemma contained_carries:
  assumes "current st self" and "subsumable self older" and "contained st self older" and "texts_in S st"
    and "prefix_closed S"
  shows "carries (sha st) S self older"
proof -
  from prefix_digest_Inr [OF assms(1) [unfolded current_def]] obtain bs where
    bs: "carrier st (transcript self) = Some bs" "prefix_bytes self \<le> length bs"
    "prefix_hash self = sha st (take (prefix_bytes self) bs)" by blast
  have "prefix_hash older = sha st (take (prefix_bytes older) bs)"
    using assms(3) bs prefix_digest_Inr [of st "transcript self" "prefix_bytes older" "prefix_hash older"]
    by (auto simp: contained_def split: if_splits)
  moreover have "take (prefix_bytes self) bs \<in> S" using bs(1) assms(4,5) by (auto simp: texts_in_def prefix_closed_def)
  ultimately show ?thesis using bs assms(2)
    by (auto simp: carries_def subsumable_def min_def intro!: bexI [of _ "take (prefix_bytes self) bs"])
qed

lemma subsumed_Some:
  "subsumed_loop st self q acc = Some js \<Longrightarrow>
   \<exists>ks. js = acc @ ks \<and> subseq ks q \<and> (\<forall>k \<in> set ks. subsumable self k \<and> contained st self k)"
proof (induction q arbitrary: acc)
  case (Cons k q)
  show ?case
  proof (cases "\<not> subsumable self k \<or> \<not> contained st self k")
    case True
    with Cons show ?thesis by fastforce
  next
    case False
    with Cons obtain ks where "js = (acc @ [k]) @ ks" "subseq ks q" "\<forall>k \<in> set ks. subsumable self k \<and> contained st self k"
      by (fastforce split: if_splits)
    with False show ?thesis by (intro exI [of _ "k # ks"]) auto
  qed
qed simp

lemma subseq_set: "subseq xs ys \<Longrightarrow> x \<in> set xs \<Longrightarrow> x \<in> set ys"
  by (induction rule: list_emb.induct) auto

lemma subsumed_None:
  "subsumed_loop st self q acc = None \<Longrightarrow>
   \<exists>k \<in> set q. subsumable self k \<and> contained st self k"
  by (induction q arbitrary: acc) (auto split: if_splits)

lemma removals_filter:
  "d' \<in> set (removals st js d) \<Longrightarrow> \<exists>N \<subseteq> filename st ` set js. d' = filter (\<lambda>(k, _). k \<notin> N) d"
proof (induction js arbitrary: d)
  case (Cons j js)
  let ?d = "remove_file (filename st j) d"
  show ?case
  proof (cases "d' = ?d")
    case True
    then show ?thesis by (intro exI [of _ "{filename st j}"]) (auto simp: remove_file_def)
  next
    case False
    with Cons obtain N where "N \<subseteq> filename st ` set js" "d' = filter (\<lambda>(k, _). k \<notin> N) ?d" by (auto simp: Let_def)
    then show ?thesis
      by (intro exI [of _ "insert (filename st j) N"]) (auto simp: remove_file_def intro!: filter_cong)
  qed
qed simp

text \<open>Either the directory is left alone, or the job is written and what it contains is removed after.\<close>

lemma record_cases:
  assumes "record_job st self d = (r, tr)"
  obtains (kept) "tr = [d]"
  | (written) q js d1 where "scan st d = Inr q" "subsumed_loop st self q [] = Some js" "map_of d (filename st self) = None"
      "length q - length js < MAX_JOBS" "text_size st self \<le> MAX_JOB_BYTES" "validate_job st self = Inr ()"
      "d1 = (filename st self, Saved self (text_size st self)) # d" "tr = d # d1 # removals st js d1" "r = Inr ()"
proof (cases "tr = [d]")
  case False
  with assms obtain q js where w: "validate_job st self = Inr ()" "read_job st (map_of d (filename st self)) = Inr None"
    "scan st d = Inr q" "subsumed_loop st self q [] = Some js" "length q - length js < MAX_JOBS" "text_size st self \<le> MAX_JOB_BYTES"
    and tr: "(r, tr) = (Inr (), let d' = persist (filename st self) (Saved self (text_size st self)) d
                               in d # d' # removals st js d')"
    by (auto simp: record_job_def result_simps Let_def split: sum.splits option.splits if_splits)
  from w(2) have n: "map_of d (filename st self) = None"
    by (cases "map_of d (filename st self)") (auto simp: read_job_def result_simps split: stored.splits if_splits)
  then have "filter (\<lambda>(k, _). k \<noteq> filename st self) d = d"
    by (force simp: map_of_eq_None_iff intro: filter_True)
  with w n tr show ?thesis by (auto simp: persist_def Let_def intro!: written)
qed (rule kept)

lemma record_keeps:
  assumes "record_job st self d = (r, tr)" and "d' \<in> set tr" and "distinct (map fst d)" and "current st self"
    and "is_json (filename st self)" and "k \<in> set (queue d)" and "texts_in S st" and "prefix_closed S"
  shows "\<exists>l \<in> set (queue d'). l = k \<or> carries (sha st) S l k"
  using assms(1)
proof (cases rule: record_cases)
  case kept
  with assms(2,6) show ?thesis by auto
next
  case (written q js d1)
  from scan_Inr [OF written(1)] have wf: "list_all (wf_file st) d" and q: "set q = set (queue d)" by auto
  from subsumed_Some [OF written(2)] have sub: "set js \<subseteq> set (queue d)"
    and c: "\<forall>l \<in> set js. subsumable self l \<and> contained st self l"
    using q by (auto dest: subseq_set)
  note names = queue_names [OF wf assms(3)]
  from written(8) assms(2) consider "d' = d" | "d' = d1" | "d' \<in> set (removals st js d1)" by auto
  then show ?thesis
  proof cases
    case 3
    then obtain N where N: "N \<subseteq> filename st ` set js" and d': "d' = filter (\<lambda>(k, _). k \<notin> N) d1"
      using removals_filter by blast
    have self: "filename st self \<notin> N"
      using N sub names(1) written(3) by (force simp: map_of_eq_None_iff)
    show ?thesis
    proof (cases "filename st k \<in> N")
      case True
      with N obtain j where "j \<in> set js" "filename st j = filename st k" by auto
      with names(2) sub assms(6) have "k \<in> set js" by blast
      with c contained_carries [OF assms(4) _ _ assms(7,8)] have "carries (sha st) S self k" by blast
      moreover have "self \<in> set (queue d')" using self assms(5) written(7) d' by (auto simp: mem_queue)
      ultimately show ?thesis by blast
    next
      case False
      from assms(6) obtain n m where "(n, Saved k m) \<in> set d" "is_json n" by (auto simp: mem_queue)
      moreover from this wf have "n = filename st k" by (auto simp: list_all_iff wf_file_def)
      ultimately have "k \<in> set (queue d')" using False d' written(7) by (auto simp: mem_queue)
      then show ?thesis by blast
    qed
  qed (use assms(6) written(7) in \<open>auto simp: queue_Cons\<close>)
qed

text \<open>What recording leaves: the names stay used once, and only the job itself is new.\<close>

lemma record_distinct:
  assumes "record_job st self d = (r, tr)" and "d' \<in> set tr" and "distinct (map fst d)"
  shows "distinct (map fst d') \<and> set (queue d') \<subseteq> insert self (set (queue d))"
  using assms(1)
proof (cases rule: record_cases)
  case kept
  with assms(2,3) show ?thesis by auto
next
  case (written q js d1)
  have d1: "distinct (map fst d1)" "set (queue d1) \<subseteq> insert self (set (queue d))"
    using written(3,7) assms(3) by (auto simp: map_of_eq_None_iff queue_Cons)
  from written(8) assms(2) consider "d' = d" | "d' = d1" | "d' \<in> set (removals st js d1)" by auto
  then show ?thesis
  proof cases
    case 3
    then obtain N where d': "d' = filter (\<lambda>(k, _). k \<notin> N) d1" using removals_filter by blast
    have "distinct (map fst d')" using d1(1) unfolding d' by (rule distinct_map_filter)
    moreover have "set (queue d') \<subseteq> set (queue d1)" unfolding d' by (fastforce simp: mem_queue)
    ultimately show ?thesis using d1(2) by blast
  qed (use assms(3) d1 in auto)
qed

section \<open>What a publication removes\<close>

text \<open>The job was covered by the published commit, and the transcript still held its bytes.\<close>

definition published_whole :: "('i, 'h) store \<Rightarrow> ('i, 'h) settlement \<Rightarrow> ('i, 'h) Job \<Rightarrow> bool" where
  "published_whole st se j \<longleftrightarrow> current st j
     \<and> (\<exists>cap. intent se = Some (cap, True) \<and> (logical j, native j, runtime j) = cap)
     \<and> (\<exists>c e. claim_of se j = Inr c \<and> stream_end st c j = Inr e \<and> covered_by st se e j = Inr True)"

definition verified_ok :: "('i, 'h) store \<Rightarrow> (path \<times> nat \<times> string) set \<Rightarrow> bool" where
  "verified_ok st v \<longleftrightarrow> (\<forall>(p, n, h) \<in> v. prefix_digest st p n = Inr h)"

lemma verify_current: "verify_prefix st j = Inr u \<Longrightarrow> current st j"
  by (auto simp: verify_prefix_def current_def result_simps split: sum.splits if_splits)

lemma job_covered_sound:
  assumes "job_covered st se v j = (ok, v')" and "verified_ok st v"
  shows "verified_ok st v' \<and> (ok \<longrightarrow> current st j
    \<and> (\<exists>c e. claim_of se j = Inr c \<and> stream_end st c j = Inr e \<and> covered_by st se e j = Inr True))"
proof (cases "r_bind (claim_of se j) (\<lambda>c. r_bind (stream_end st c j) (\<lambda>e. covered_by st se e j)) = Inr True")
  case True
  then have c: "\<exists>c e. claim_of se j = Inr c \<and> stream_end st c j = Inr e \<and> covered_by st se e j = Inr True"
    by (auto simp: r_bind_eq_Inr)
  show ?thesis
  proof (cases "(transcript j, prefix_bytes j, prefix_hash j) \<in> v")
    case True
    with assms c show ?thesis
      using \<open>r_bind _ _ = Inr True\<close> by (auto simp: job_covered_def verified_ok_def current_def)
  next
    case False
    with assms c show ?thesis
      using \<open>r_bind _ _ = Inr True\<close> verify_current [of st j]
      by (auto simp: job_covered_def Let_def is_ok_iff verified_ok_def current_def split: if_splits)
  qed
next
  case False
  with assms show ?thesis
    by (cases "r_bind (claim_of se j) (\<lambda>c. r_bind (stream_end st c j) (\<lambda>e. covered_by st se e j))")
      (auto simp: job_covered_def)
qed

lemma read_job_Some: "read_job st f = Inr (Some j) \<Longrightarrow> \<exists>n. f = Some (Saved j n)"
  by (cases f) (auto simp: read_job_def result_simps split: stored.splits if_splits)

lemma remove_job_queue:
  assumes "remove_job st j d = (r, d')" and "distinct (map fst d)"
  shows "distinct (map fst d') \<and> set (queue d') \<subseteq> set (queue d) \<and> set (queue d) \<subseteq> insert j (set (queue d'))"
proof (cases "d' = d")
  case False
  with assms(1) have d': "d' = remove_file (filename st j) d" and "read_job st (map_of d (filename st j)) = Inr (Some j)"
    by (auto simp: remove_job_def split: sum.splits option.splits if_splits)
  from read_job_Some [OF this(2)] obtain m where m: "map_of d (filename st j) = Some (Saved j m)" by blast
  have "set (queue d) \<subseteq> insert j (set (queue d'))"
  proof
    fix k assume "k \<in> set (queue d)"
    then obtain n i where n: "(n, Saved k i) \<in> set d" "is_json n" by (auto simp: mem_queue)
    show "k \<in> insert j (set (queue d'))"
    proof (cases "n = filename st j")
      case True
      with n m assms(2) have "k = j" by (metis map_of_eq_Some_iff option.inject stored.inject(1))
      then show ?thesis by simp
    next
      case False
      with n d' have "k \<in> set (queue d')" by (auto simp: remove_file_def mem_queue)
      then show ?thesis by simp
    qed
  qed
  moreover have "set (queue d') \<subseteq> set (queue d)" unfolding d' remove_file_def by (fastforce simp: mem_queue)
  moreover have "distinct (map fst d')" using assms(2) unfolding d' remove_file_def by (rule distinct_map_filter)
  ultimately show ?thesis by blast
qed (use assms(2) in auto)

lemma confirm_loop_removes:
  assumes "confirm_loop st se cap js v d = (r, tr)" and "d' \<in> set tr" and "distinct (map fst d)"
    and "verified_ok st v" and "intent se = Some (cap, True)"
  shows "distinct (map fst d') \<and> set (queue d') \<subseteq> set (queue d)
    \<and> (\<forall>k \<in> set (queue d) - set (queue d'). published_whole st se k)"
  using assms(1-4)
proof (induction js arbitrary: v d r tr)
  case (Cons j js)
  show ?case
  proof (cases "concerns st se cap j")
    case (Inr b)
    show ?thesis
    proof (cases b)
      case True
      obtain ok v' where jc: "job_covered st se v j = (ok, v')" by (metis surj_pair)
      from job_covered_sound [OF jc Cons.prems(4)] have v': "verified_ok st v'"
        and c: "ok \<Longrightarrow> published_whole st se j"
        using Inr True assms(5) by (auto simp: published_whole_def concerns_def split: if_splits)
      show ?thesis
      proof (cases ok)
        case ok: True
        obtain r1 d1 where rm: "remove_job st j d = (r1, d1)" by (metis surj_pair)
        note q = remove_job_queue [OF rm Cons.prems(3)]
        show ?thesis
        proof (cases r1)
          case (Inl e)
          with Cons.prems \<open>concerns st se cap j = Inr b\<close> True jc ok rm have "d' = d1" by auto
          with q c ok show ?thesis by blast
        next
          case (Inr u)
          obtain r2 tr2 where rec: "confirm_loop st se cap js v' d1 = (r2, tr2)" by (metis surj_pair)
          with Inr Cons.prems \<open>concerns st se cap j = Inr b\<close> True jc ok rm have "d' = d \<or> d' \<in> set tr2" by auto
          then show ?thesis
          proof
            assume "d' \<in> set tr2"
            from Cons.IH [OF rec this _ v'] q c ok show ?thesis by blast
          qed (use Cons.prems(3) in auto)
        qed
      next
        case False
        with Cons.IH [OF _ Cons.prems(2,3) v'] Cons.prems(1) Inr True jc show ?thesis by auto
      qed
    next
      case False
      with Cons Inr show ?thesis by auto
    qed
  qed (use Cons.prems in auto)
qed simp

lemma publication_removes:
  assumes "publication_confirmed st se d = (r, tr)" and "d' \<in> set tr" and "distinct (map fst d)"
  shows "distinct (map fst d') \<and> set (queue d') \<subseteq> set (queue d)
    \<and> (\<forall>k \<in> set (queue d) - set (queue d'). published_whole st se k)"
proof (cases "d' = d")
  case False
  with assms(1,2) obtain cap jobs where "intent se = Some (cap, True)" and "confirm_loop st se cap jobs {} d = (r, tr)"
    by (auto simp: publication_confirmed_def split: option.splits if_splits sum.splits)
  with confirm_loop_removes [OF this(2) assms(2,3)] show ?thesis by (simp add: verified_ok_def)
qed (use assms(3) in auto)

section \<open>Histories\<close>

text \<open>
  A directory, every job that was ever in it, and every job a publication removed. Recording and
  publishing may stop after any durable step; between two operations the transcripts and what the
  repository answers change freely, the hash and the names do not.
\<close>

inductive history ::
  "(string \<Rightarrow> string) \<Rightarrow> string set \<Rightarrow> (coordinates \<Rightarrow> string) \<Rightarrow> ('i, 'h) dir \<Rightarrow> ('i, 'h) Job set \<Rightarrow> ('i, 'h) Job set \<Rightarrow> bool"
  for H S N where
  start: "distinct (map fst d) \<Longrightarrow> queue d = [] \<Longrightarrow> history H S N d {} {}"
| recorded: "history H S N d W P \<Longrightarrow> sha st = H \<Longrightarrow> digest_name st = N \<Longrightarrow> texts_in S st \<Longrightarrow> current st j \<Longrightarrow>
    record_job st j d = (r, tr) \<Longrightarrow> d' \<in> set tr \<Longrightarrow> history H S N d' (W \<union> set (queue d')) P"
| confirmed: "history H S N d W P \<Longrightarrow> sha st = H \<Longrightarrow> digest_name st = N \<Longrightarrow>
    publication_confirmed st se d = (r, tr) \<Longrightarrow> d' \<in> set tr \<Longrightarrow>
    history H S N d' W (P \<union> {k \<in> set (queue d) - set (queue d'). published_whole st se k})"

lemma is_json_filename: "digest_name st c \<noteq> [] \<Longrightarrow> is_json (digest_name st c @ ''.json'')"
proof -
  assume "digest_name st c \<noteq> []"
  moreover have "rsplit_once CHR ''.'' (digest_name st c @ CHR ''.'' # ''json'') = Some (digest_name st c, ''json'')"
    by (rule rsplit_once_append) simp
  ultimately show ?thesis by (simp add: is_json_def)
qed

lemma history_distinct: "history H S N d W P \<Longrightarrow> distinct (map fst d)"
proof (induction rule: history.induct)
  case (recorded d W P st j r tr d')
  then show ?case using record_distinct by blast
next
  case (confirmed d W P st se r tr d')
  then show ?case using publication_removes by blast
qed

text \<open>
  C5. A queued turn is never dropped. Whatever is recorded and published, and wherever a crash cuts
  an operation, every job that was ever queued is still there, or contained byte for byte in a job
  that is there, or in one a confirmed publication removed; and that publication had covered the
  removed job while the transcript still held its bytes. (The hashes of transcripts and their prefixes do not collide.)
\<close>

theorem queued_turn_never_dropped:
  assumes "history H S N d W P" and "inj_on H S" and "prefix_closed S" and "\<forall>c. N c \<noteq> []" and "j \<in> W"
  shows "\<exists>l \<in> set (queue d) \<union> P. l = j \<or> carries H S l j"
  using assms(1,5)
proof (induction arbitrary: j rule: history.induct)
  case (recorded d W P st self r tr d')
  have json: "is_json (filename st self)" unfolding filename_def
    by (rule is_json_filename) (use recorded(3) assms(4) in simp)
  note keeps = record_keeps [OF recorded(6,7) history_distinct [OF recorded(1)] recorded(5) json _ recorded(4) assms(3)]
  show ?case
  proof (cases "j \<in> set (queue d')")
    case False
    with recorded obtain l where l: "l \<in> set (queue d) \<union> P" "l = j \<or> carries H S l j" by auto
    with keeps [of l] recorded(2) carries_trans [OF assms(2,3), of _ l j] show ?thesis by blast
  qed auto
next
  case (confirmed d W P st se r tr d')
  from confirmed obtain l where l: "l \<in> set (queue d) \<union> P" "l = j \<or> carries H S l j" by blast
  from publication_removes [OF confirmed(4,5) history_distinct [OF confirmed(1)]] l show ?case by blast
qed simp

section \<open>The limit\<close>

lemma removals_last:
  "removals st js d \<noteq> [] \<Longrightarrow> last (removals st js d) = filter (\<lambda>(k, _). k \<notin> filename st ` set js) d"
proof (induction js arbitrary: d)
  case (Cons j js)
  show ?case
  proof (cases "js = []")
    case False
    then have "removals st js (remove_file (filename st j) d) \<noteq> []" by (cases js) (auto simp: Let_def)
    with Cons.IH [OF this] show ?thesis
      by (auto simp: Let_def remove_file_def intro!: filter_cong)
  qed (auto simp: Let_def remove_file_def)
qed simp

lemma queue_files:
  "list_all (wf_file st) d \<Longrightarrow> map (filename st) (queue d) = map fst (filter (\<lambda>f. is_json (fst f)) d)"
proof (induction d)
  case (Cons f d)
  then show ?case by (cases f; cases "snd f") (auto simp: wf_file_def queue_Cons)
qed simp

lemma length_queue:
  assumes "list_all (wf_file st) d" and "distinct (map fst d)"
  shows "length (queue d) = card {n \<in> fst ` set d. is_json n}"
proof -
  have "length (queue d) = length (map fst (filter (\<lambda>f. is_json (fst f)) d))"
    using queue_files [OF assms(1)] by (metis length_map)
  also have "\<dots> = card (set (map fst (filter (\<lambda>f. is_json (fst f)) d)))"
    using distinct_card [OF distinct_map_filter [OF assms(2)]] by metis
  finally show ?thesis by (auto intro: arg_cong [of _ _ card])
qed

lemma scan_distinct: "scan st d = Inr q \<Longrightarrow> distinct (map fst d) \<Longrightarrow> inj_on (filename st) (set q) \<and> distinct q"
proof -
  assume s: "scan st d = Inr q" and d: "distinct (map fst d)"
  from scan_Inr [OF s] have wf: "list_all (wf_file st) d" and q: "q = sort_key (filename st) (queue d)" by auto
  have "distinct (map (filename st) (queue d))"
    unfolding queue_files [OF wf] using d by (rule distinct_map_filter)
  then show ?thesis unfolding q by (auto simp: distinct_map)
qed

lemma image_names: "f ` {x \<in> A. f x \<notin> B} = f ` A - B"
  by blast

lemma written_length:
  assumes "scan st d = Inr q" and "subsumed_loop st self q [] = Some js" and "map_of d (filename st self) = None"
    and "text_size st self \<le> MAX_JOB_BYTES" and "validate_job st self = Inr ()" and "is_json (filename st self)"
    and "distinct (map fst d)" and "d1 = (filename st self, Saved self (text_size st self)) # d"
    and "d' = filter (\<lambda>(k, _). k \<notin> filename st ` set js) d1"
  shows "length (queue d') + length js = Suc (length q)"
proof -
  let ?S = "filename st ` set js"
  from scan_Inr [OF assms(1)] have wf: "list_all (wf_file st) d" and q: "q = sort_key (filename st) (queue d)" by auto
  have wf': "list_all (wf_file st) d'" "distinct (map fst d')"
    using wf assms(3-9) by (auto simp: list_all_iff wf_file_def map_of_eq_None_iff distinct_map_filter)
  from subsumed_Some [OF assms(2)] have emb: "subseq js q" by auto
  have "distinct js" using emb scan_distinct [OF assms(1,7)] subseqs_distinctD by (metis in_set_subseqs)
  moreover have "inj_on (filename st) (set js)"
    using emb scan_distinct [OF assms(1,7)] by (auto simp: inj_on_def dest: subseq_set)
  ultimately have js: "card ?S = length js" by (simp add: card_image distinct_card)
  have "set js \<subseteq> set (queue d)" using emb q by (auto dest: subseq_set)
  then have "?S \<subseteq> set (map (filename st) (queue d))" by auto
  then have S: "?S \<subseteq> {n \<in> fst ` set d. is_json n}" unfolding queue_files [OF wf] by auto
  have self: "filename st self \<notin> fst ` set d" using assms(3) by (simp add: map_of_eq_None_iff)
  with S have "filename st self \<notin> ?S" by blast
  moreover have "set d' = {x \<in> set d1. fst x \<notin> ?S}" unfolding assms(9) by auto
  moreover have "fst ` {x \<in> set d1. fst x \<notin> ?S} = fst ` set d1 - ?S" by (rule image_names)
  ultimately have "fst ` set d' = insert (filename st self) (fst ` set d - ?S)" using assms(8) by auto
  with assms(6) have "{n \<in> fst ` set d'. is_json n} = insert (filename st self) ({n \<in> fst ` set d. is_json n} - ?S)"
    by auto
  then have "length (queue d') = Suc (card ({n \<in> fst ` set d. is_json n} - ?S))"
    using length_queue [OF wf'] self by simp
  moreover have "length q = card {n \<in> fst ` set d. is_json n}" using length_queue [OF wf assms(7)] q by simp
  ultimately show ?thesis using js S card_mono [OF _ S] by (simp add: card_Diff_subset)
qed

text \<open>
  The queue keeps to its limit, but only between operations. A successful recording leaves at
  most 4096 jobs. While it runs there can be one more: the new job is written before the ones it
  contains are removed. A crash at that point, with the queue full before, leaves a directory that
  no operation reads any more: recording, publishing and listing all answer that the capacity is
  exceeded.
\<close>

theorem queue_limit:
  assumes "record_job st self d = (r, tr)" and "distinct (map fst d)" and "is_json (filename st self)"
    and "tr \<noteq> [d]"
  shows "length (queue (last tr)) \<le> MAX_JOBS
    \<and> (length (queue d) = MAX_JOBS \<longrightarrow>
         (\<forall>other se. scan st (tr ! 1) = Inl CapacityExceeded
            \<and> (map_of (tr ! 1) (filename st other) = None \<longrightarrow> \<not> is_ok (fst (record_job st other (tr ! 1))))
            \<and> \<not> is_ok (fst (publication_confirmed st se (tr ! 1)))))"
  using assms(1)
proof (cases rule: record_cases)
  case (written q js d1)
  have "last tr = filter (\<lambda>(k, _). k \<notin> filename st ` set js) d1"
  proof (cases "js = []")
    case False
    then have "removals st js d1 \<noteq> []" by (cases js) (auto simp: Let_def)
    with removals_last [OF this] written(8) show ?thesis by simp
  qed (use written(8) in auto)
  from written_length [OF written(1-3,5,6) assms(3,2) written(7) this]
  have limit: "length (queue (last tr)) \<le> MAX_JOBS" using written(4) by simp
  from scan_Inr [OF written(1)] have "list_all (wf_file st) d1"
    using written(5-7) by (auto simp: list_all_iff wf_file_def)
  from scan_fold_wf [OF this, of "[]"] have full: "length (queue d) = MAX_JOBS \<longrightarrow> scan st d1 = Inl CapacityExceeded"
    using written(7) assms(3) by (simp add: scan_def queue_Cons)
  show ?thesis
  proof (intro conjI impI allI)
    fix other se
    assume "length (queue d) = MAX_JOBS"
    with full written(8) have s: "scan st (tr ! 1) = Inl CapacityExceeded" by simp
    then show "scan st (tr ! 1) = Inl CapacityExceeded" .
    show "\<not> is_ok (fst (publication_confirmed st se (tr ! 1)))"
      using s by (auto simp: publication_confirmed_def pending_jobs_def is_ok_def split: option.splits)
    assume "map_of (tr ! 1) (filename st other) = None"
    with s show "\<not> is_ok (fst (record_job st other (tr ! 1)))"
      by (cases "validate_job st other") (auto simp: record_job_def read_job_def is_ok_def)
  qed (rule limit)
qed (use assms(4) in auto)

text \<open>A store with one transcript of two records, a hash by length, and the jobs of its two turns.\<close>

definition two_records :: string where
  "two_records = [CHR ''a'', CHR 0x0A, CHR ''b'', CHR 0x0A]"

definition its_prefixes :: "string set" where
  "its_prefixes = set (map (\<lambda>n. take n two_records) [0, 1, 2, 3, 4])"

definition length_hash :: "string \<Rightarrow> string" where
  "length_hash s = replicate 64 (digit_char (length s))"

definition sample_store :: "(unit, unit) store" where
  "sample_store =
     \<lparr>carrier = (\<lambda>p. Some two_records), sha = length_hash, digest_name = (\<lambda>(_, _, _, _, _, _, t). CHR ''x'' # t),
      text_size = (\<lambda>_. 100), canon = Some, parse_uuid = Some, restorable = (\<lambda>_. True)\<rparr>"

definition sample_job :: "string \<Rightarrow> nat \<Rightarrow> (unit, unit) Job" where
  "sample_job t n =
     \<lparr>version = 1, logical = ''s'', native = ''n'', runtime = ''codex'', native_source = None, cwd = [RootDir],
      lineage = ''o/n@main'', repository_id = ''1'', job_capture = None, turn_id = t, transcript = [RootDir, Normal ''t''],
      prefix_bytes = n, prefix_hash = length_hash (take n two_records), required_bytes = n, archive_handoff = None\<rparr>"

abbreviation saved_file :: "string \<Rightarrow> nat \<Rightarrow> string \<times> (unit, unit) stored" where
  "saved_file t n \<equiv> (CHR ''x'' # t @ ''.json'', Saved (sample_job t n) 100)"

lemma sample_records:
  "record_job sample_store (sample_job ''1'' 2) [] = (Inr (), [[], [saved_file ''1'' 2]])"
  "record_job sample_store (sample_job ''2'' 4) [saved_file ''1'' 2] =
     (Inr (), [[saved_file ''1'' 2], [saved_file ''2'' 4, saved_file ''1'' 2], [saved_file ''2'' 4]])"
  "current sample_store (sample_job ''1'' 2)" "current sample_store (sample_job ''2'' 4)"
  by code_simp+

lemma sample_texts: "prefix_closed its_prefixes" "texts_in its_prefixes sample_store" "inj_on length_hash its_prefixes"
proof -
  show "prefix_closed its_prefixes"
    by (auto simp: prefix_closed_def its_prefixes_def two_records_def take_Cons split: nat.splits)
  show "texts_in its_prefixes sample_store" by (simp add: texts_in_def sample_store_def its_prefixes_def two_records_def)
  show "inj_on length_hash its_prefixes" by code_simp
qed

theorem queued_turn_never_dropped_witness:
  "\<exists>l \<in> {sample_job ''2'' 4}. l = sample_job ''1'' 2 \<or> carries length_hash its_prefixes l (sample_job ''1'' 2)"
proof -
  let ?H = "history length_hash its_prefixes (\<lambda>(_, _, _, _, _, _, t). CHR ''x'' # t)"
  have st: "sha sample_store = length_hash" "digest_name sample_store = (\<lambda>(_, _, _, _, _, _, t). CHR ''x'' # t)"
    by (simp_all add: sample_store_def)
  have q: "queue [saved_file ''1'' 2] = [sample_job ''1'' 2]" "queue [saved_file ''2'' 4] = [sample_job ''2'' 4]"
    by code_simp+
  have "?H [] {} {}" by (rule history.start) simp_all
  from history.recorded [OF this st sample_texts(2) sample_records(3,1), of "[saved_file ''1'' 2]"] q(1)
  have "?H [saved_file ''1'' 2] {sample_job ''1'' 2} {}" by simp
  from history.recorded [OF this st sample_texts(2) sample_records(4,2), of "[saved_file ''2'' 4]"] q(2)
  have "?H [saved_file ''2'' 4] {sample_job ''1'' 2, sample_job ''2'' 4} {}" by (simp add: insert_commute)
  from queued_turn_never_dropped [OF this sample_texts(3,1), of "sample_job ''1'' 2"] q(2) show ?thesis by simp
qed

theorem queue_limit_witness:
  "length (queue [saved_file ''2'' 4]) \<le> MAX_JOBS"
proof -
  have "distinct (map fst [saved_file ''1'' 2])" and "is_json (filename sample_store (sample_job ''2'' 4))" by code_simp+
  from queue_limit [OF sample_records(2) this] show ?thesis by simp
qed

end
