(* ===== verification/Btree.thy ===== *)
theory Btree
  imports Prelude "HOL-Library.List_Lexorder" "HOL-Library.Char_ord"
begin

text \<open>
  A \<open>BTreeMap\<close> with string keys: the list of its pairs in the order of the keys, with the insertion,
  removal and extension of the Rust standard library. The lemmas give the lookups and that the
  order and the distinctness of the keys are kept.
\<close>

section \<open>Maps in key order\<close>

type_synonym 'v btree = "(string \<times> 'v) list"

fun bt_insert :: "string \<Rightarrow> 'v \<Rightarrow> 'v btree \<Rightarrow> 'v btree" where
  "bt_insert k v [] = [(k, v)]"
| "bt_insert k v ((l, w) # m) =
     (if k = l then (k, v) # m else if k < l then (k, v) # (l, w) # m else (l, w) # bt_insert k v m)"

definition bt_remove :: "string \<Rightarrow> 'v btree \<Rightarrow> 'v btree" where
  "bt_remove k m = filter (\<lambda>(l, _). l \<noteq> k) m"

text \<open>\<open>BTreeMap::extend\<close>: later values replace earlier ones.\<close>

definition bt_extend :: "'v btree \<Rightarrow> 'v btree \<Rightarrow> 'v btree" where
  "bt_extend m n = fold (\<lambda>(k, v). bt_insert k v) n m"

section \<open>Lookups\<close>

lemma map_of_bt_insert [simp]: "map_of (bt_insert k v m) = (map_of m)(k \<mapsto> v)"
  by (induction k v m rule: bt_insert.induct) auto

lemma map_of_filter_key: "l \<noteq> k \<Longrightarrow> map_of (filter (\<lambda>(m, _). m \<noteq> l) xs) k = map_of xs k"
  by (induction xs) auto

lemma set_bt_insert:
  "distinct (map fst m) \<Longrightarrow> sorted (map fst m) \<Longrightarrow> set (bt_insert k v m) = insert (k, v) {x \<in> set m. fst x \<noteq> k}"
  by (induction k v m rule: bt_insert.induct) (force simp: image_iff)+

lemma fst_bt_insert: "fst ` set (bt_insert k v m) = insert k (fst ` set m)"
  by (induction k v m rule: bt_insert.induct) auto

lemma distinct_bt_insert: "distinct (map fst m) \<Longrightarrow> sorted (map fst m) \<Longrightarrow>
  distinct (map fst (bt_insert k v m)) \<and> sorted (map fst (bt_insert k v m))"
  by (induction k v m rule: bt_insert.induct) (force simp: fst_bt_insert)+

definition bt_wf :: "'v btree \<Rightarrow> bool" where
  "bt_wf m \<longleftrightarrow> distinct (map fst m) \<and> sorted (map fst m)"

lemma bt_wf_simps [simp]: "bt_wf []" "bt_wf m \<Longrightarrow> bt_wf (bt_insert k v m)"
  by (simp_all add: bt_wf_def distinct_bt_insert)

lemma bt_wf_remove [simp]: "bt_wf m \<Longrightarrow> bt_wf (bt_remove k m)"
  by (auto simp: bt_wf_def bt_remove_def distinct_map_filter sorted_filter)

lemma map_of_bt_remove [simp]: "map_of (bt_remove k m) s = (if s = k then None else map_of m s)"
  unfolding bt_remove_def by (induction m) auto

lemma bt_wf_find: "bt_wf m \<Longrightarrow> find P m = Some (k, v) \<Longrightarrow> map_of m k = Some v \<and> P (k, v)"
  by (auto simp: bt_wf_def dest!: find_SomeD)

end
