(* ===== verification/Roster.thy ===== *)
theory Roster
  imports Btree Lineage Ticket
begin

text \<open>
  The ledger of sessions (\<open>src/rc/roster.rs\<close>, with \<open>save_json\<close>, \<open>remove_json\<close> and \<open>load_ledger\<close> of \<open>src/rc/mod.rs\<close>):
  which conversation a logical id names, whether it ever ran without permission checks, which
  launches were already made, and how the ledger survives a crash.

  A \<open>BTreeMap\<close> is a list of pairs in the order of its keys. Of a session's description only its
  id is read here; what the operations below never read (open turns, interruptions, pauses,
  observed sessions, captures) is one field. A write to disk ends in one of three ways: it is done,
  it has no effect, or it took effect and reported an error, because the directory could not be
  synced after the rename.

  The lemmas show that a transcript that ran without checks stays marked whatever is recorded and
  even when the ledger is lost, that a launch key launches once, and which snapshot a restart finds
  after a crash at any point.
\<close>

section \<open>Entries\<close>

record GuardAttempt =
  expected_mode :: PermissionMode
  observed :: bool

definition SHUTDOWN_GUARD_PREFIX :: string where
  "SHUTDOWN_GUARD_PREFIX = ''shutdown/v1/''"

definition has_shutdown_guard :: "GuardAttempt btree \<Rightarrow> bool" where
  "has_shutdown_guard gs = list_ex (\<lambda>(token, _). prefix SHUTDOWN_GUARD_PREFIX token) gs"

definition mode_with_shutdown_floor :: "GuardAttempt btree \<Rightarrow> PermissionMode option \<Rightarrow> PermissionMode option" where
  "mode_with_shutdown_floor gs mode = (if has_shutdown_guard gs then Some Plan else mode)"

record Entry =
  e_native_source :: "NativeSourceRef option"
  e_runtime :: string
  thread_id :: string
  e_cwd :: string
  workspace_id :: string
  project_id :: "string option"
  agit_session :: "string option"
  expected_agent_id :: "string option"
  permission_mode :: "PermissionMode option"
  guard_attempts :: "GuardAttempt btree"
  prior_threads :: "string list"
  ever_dangerous :: bool
  project_share :: bool

definition restart_permission_mode :: "Entry \<Rightarrow> PermissionMode option" where
  "restart_permission_mode e = (if guard_attempts e = [] then permission_mode e else Some Plan)"

section \<open>Launches\<close>

record StartSpec =
  s_model :: "string option"
  s_workspace_id :: string
  s_project_id :: string
  s_runtime :: string
  s_cwd :: string
  s_agit_session :: "string option"
  s_expected_agent_id :: "string option"
  s_prompt :: "string option"
  s_by :: "string option"
  s_permission_mode :: PermissionMode
  s_project_share :: bool

definition same_launch_as :: "StartSpec \<Rightarrow> StartSpec \<Rightarrow> bool" where
  "same_launch_as a b \<longleftrightarrow> s_model a = s_model b \<and> s_workspace_id a = s_workspace_id b
     \<and> s_project_id a = s_project_id b \<and> s_runtime a = s_runtime b \<and> s_cwd a = s_cwd b
     \<and> s_agit_session a = s_agit_session b \<and> s_expected_agent_id a = s_expected_agent_id b
     \<and> s_prompt a = s_prompt b \<and> s_permission_mode a = s_permission_mode b
     \<and> s_project_share a = s_project_share b"

record 'x SessionInfo =
  session_id :: string
  details :: 'x

record 'x SessionStartResult =
  start_id :: "string option"
  started :: "'x SessionInfo"

datatype 'x StartState = Pending "'x SessionInfo" | Completed "'x SessionStartResult"

record 'x StartIntent =
  spec :: StartSpec
  intent_state :: "'x StartState"

datatype 'x StartClaim =
    Reserved
  | ClaimPending "'x SessionInfo"
  | ClaimCompleted "'x SessionStartResult"
  | Conflict
  | HistoryLost

section \<open>The roster\<close>

record ('x, 'o) Roster =
  sessions :: "Entry btree"
  history_lost :: bool
  start_history_lost :: bool
  starts :: "'x StartIntent btree"
  unconfirmed :: "string set"
  others :: 'o

datatype RosterError = SourceChanged | IntentMissing | OtherSession

definition unusable :: "'o \<Rightarrow> ('x, 'o) Roster" where
  "unusable blank =
     \<lparr>sessions = [], history_lost = True, start_history_lost = True, starts = [], unconfirmed = {}, others = blank\<rparr>"

definition default_roster :: "'o \<Rightarrow> ('x, 'o) Roster" where
  "default_roster blank =
     \<lparr>sessions = [], history_lost = False, start_history_lost = False, starts = [], unconfirmed = {}, others = blank\<rparr>"

definition source_of :: "Entry \<Rightarrow> string option" where
  "source_of e = map_option source_id (e_native_source e)"

definition row_dangerous :: "('x, 'o) Roster \<Rightarrow> string \<Rightarrow> bool" where
  "row_dangerous r l = (case map_of (sessions r) l of Some e \<Rightarrow> ever_dangerous e | None \<Rightarrow> history_lost r)"

text \<open>What an entry takes over from the one it replaces.\<close>

definition inherit :: "Entry \<Rightarrow> Entry \<Rightarrow> Entry" where
  "inherit old e =
     e\<lparr>prior_threads := prior_threads old @
         (if thread_id old \<noteq> thread_id e \<and> thread_id old \<noteq> [] then [thread_id old] else []),
       ever_dangerous := ever_dangerous e \<or> ever_dangerous old,
       project_share := project_share e \<or> project_share old,
       guard_attempts := bt_extend (guard_attempts e) (guard_attempts old)\<rparr>"

definition record_entry :: "string \<Rightarrow> Entry \<Rightarrow> ('x, 'o) Roster \<Rightarrow> RosterError + ('x, 'o) Roster" where
  "record_entry l e r =
     (case map_of (sessions r) l of
        None \<Rightarrow> Inr (r\<lparr>sessions := bt_insert l e (sessions r)\<rparr>)
      | Some old \<Rightarrow>
          if source_of old = source_of e then Inr (r\<lparr>sessions := bt_insert l (inherit old e) (sessions r)\<rparr>)
          else Inl SourceChanged)"

definition claim_start ::
  "string \<Rightarrow> StartSpec \<Rightarrow> 'x SessionInfo \<Rightarrow> ('x, 'o) Roster \<Rightarrow> 'x StartClaim \<times> ('x, 'o) Roster" where
  "claim_start k sp info r =
     (case map_of (starts r) k of
        Some intent \<Rightarrow>
          if \<not> same_launch_as (spec intent) sp then (Conflict, r)
          else (case intent_state intent of
                  Pending s \<Rightarrow> (ClaimPending s, r)
                | Completed res \<Rightarrow> (ClaimCompleted res, r))
      | None \<Rightarrow>
          if start_history_lost r then (HistoryLost, r)
          else (Reserved, r\<lparr>starts := bt_insert k \<lparr>spec = sp, intent_state = Pending info\<rparr> (starts r)\<rparr>))"

definition complete_start ::
  "string \<Rightarrow> 'x SessionStartResult \<Rightarrow> ('x, 'o) Roster \<Rightarrow> RosterError + ('x, 'o) Roster" where
  "complete_start k res r =
     (case map_of (starts r) k of
        None \<Rightarrow> Inl IntentMissing
      | Some intent \<Rightarrow>
          (case intent_state intent of
             Pending s \<Rightarrow>
               if session_id s = session_id (started res)
               then Inr (r\<lparr>starts := bt_insert k (intent\<lparr>intent_state := Completed res\<rparr>) (starts r)\<rparr>)
               else Inl OtherSession
           | Completed old \<Rightarrow> if old = res then Inr r else Inl OtherSession))"

definition forget_start :: "string \<Rightarrow> ('x, 'o) Roster \<Rightarrow> ('x, 'o) Roster" where
  "forget_start k r = r\<lparr>starts := bt_remove k (starts r)\<rparr>"

definition arm_unconfirmed_binding :: "string \<Rightarrow> ('x, 'o) Roster \<Rightarrow> bool \<times> ('x, 'o) Roster" where
  "arm_unconfirmed_binding l r = (l \<notin> unconfirmed r, r\<lparr>unconfirmed := insert l (unconfirmed r)\<rparr>)"

definition confirm_binding :: "string \<Rightarrow> ('x, 'o) Roster \<Rightarrow> bool \<times> ('x, 'o) Roster" where
  "confirm_binding l r = (l \<in> unconfirmed r, r\<lparr>unconfirmed := unconfirmed r - {l}\<rparr>)"

section \<open>Whose transcript\<close>

text \<open>The coordinates of a transcript: runtime, native store, thread, workspace, folder.\<close>

record place =
  p_runtime :: string
  p_source :: "string option"
  p_thread :: string
  p_workspace :: string
  p_cwd :: string

definition knows_thread :: "Entry \<Rightarrow> string \<Rightarrow> bool" where
  "knows_thread e t \<longleftrightarrow> thread_id e = t \<or> t \<in> set (prior_threads e)"

definition logical_for_thread_in :: "('x, 'o) Roster \<Rightarrow> place \<Rightarrow> string option" where
  "logical_for_thread_in r p =
     map_option fst (find (\<lambda>(_, e). e_runtime e = p_runtime p \<and> source_of e = p_source p
       \<and> workspace_id e = p_workspace p \<and> knows_thread e (p_thread p)) (sessions r))"

definition thread_ever_dangerous_here :: "('x, 'o) Roster \<Rightarrow> place \<Rightarrow> bool" where
  "thread_ever_dangerous_here r p =
     list_ex (\<lambda>(_, e). ever_dangerous e \<and> source_of e = p_source p \<and> e_runtime e = p_runtime p
       \<and> (workspace_id e = p_workspace p \<or> e_cwd e = p_cwd p) \<and> knows_thread e (p_thread p)) (sessions r)"

definition dangerous_start_unaccounted :: "('x, 'o) Roster \<Rightarrow> place \<Rightarrow> bool" where
  "dangerous_start_unaccounted r p =
     list_ex (\<lambda>(l, e). ever_dangerous e \<and> source_of e = p_source p
       \<and> (thread_id e = [] \<or> l \<in> unconfirmed r) \<and> e_runtime e = p_runtime p
       \<and> (workspace_id e = p_workspace p \<or> e_cwd e = p_cwd p)) (sessions r)"

definition transcript_ever_dangerous_in :: "('x, 'o) Roster \<Rightarrow> place \<Rightarrow> bool" where
  "transcript_ever_dangerous_in r p \<longleftrightarrow>
     thread_ever_dangerous_here r p
     \<or> (case logical_for_thread_in r p of
          Some l \<Rightarrow> row_dangerous r l
        | None \<Rightarrow> (if p_source p = None then row_dangerous r (p_thread p) else history_lost r)
                  \<or> dangerous_start_unaccounted r p)"

section \<open>The ledger on disk\<close>

datatype io = IoDone | IoFailed | IoUnsynced

datatype 'r ledger = NoFile | File 'r | Corrupt | Unreadable

text \<open>The primary file and the snapshot that is authoritative over it while it exists.\<close>

record 'r disk =
  primary :: "'r ledger"
  snapshot :: "'r ledger"

definition took_effect :: "io \<Rightarrow> bool" where
  "took_effect x \<longleftrightarrow> x \<noteq> IoFailed"

text \<open>Each operation gives whether it succeeded and the disk after it.\<close>

definition save_primary :: "io \<Rightarrow> 'r \<Rightarrow> 'r disk \<Rightarrow> bool \<times> 'r disk" where
  "save_primary x r d = (x = IoDone, if took_effect x then d\<lparr>primary := File r\<rparr> else d)"

definition save_fallback :: "io \<Rightarrow> 'r \<Rightarrow> 'r disk \<Rightarrow> bool \<times> 'r disk" where
  "save_fallback x r d = (x = IoDone, if took_effect x then d\<lparr>snapshot := File r\<rparr> else d)"

definition remove_fallback :: "io \<Rightarrow> 'r disk \<Rightarrow> bool \<times> 'r disk" where
  "remove_fallback x d = (x = IoDone, if took_effect x then d\<lparr>snapshot := NoFile\<rparr> else d)"

text \<open>
  Saving with the process's flag that a snapshot is authoritative: the answer, the flag after, and
  the disk after each step, for the outcomes of the (at most three) writes.
\<close>

definition save_and_promote :: "io \<times> io \<times> io \<Rightarrow> 'r \<Rightarrow> 'r disk \<Rightarrow> bool \<times> bool \<times> 'r disk list" where
  "save_and_promote xs r d =
     (case xs of (x, y, z) \<Rightarrow>
        let (ok1, d1) = save_fallback x r d
        in if \<not> ok1 then (False, True, [d, d1])
           else let (ok2, d2) = save_primary y r d1
                in if \<not> ok2 then (False, True, [d, d1, d2])
                   else let (ok3, d3) = remove_fallback z d2
                        in (ok3, \<not> ok3, [d, d1, d2, d3]))"

definition save :: "io \<times> io \<times> io \<Rightarrow> bool \<Rightarrow> 'r \<Rightarrow> 'r disk \<Rightarrow> bool \<times> bool \<times> 'r disk list" where
  "save xs active r d =
     (if active then save_and_promote xs r d
      else let (ok, d1) = save_primary (fst xs) r d in (ok, False, [d, d1]))"

definition save_fail_closed :: "io \<times> io \<times> io \<Rightarrow> bool \<Rightarrow> 'r \<Rightarrow> 'r disk \<Rightarrow> bool \<times> bool \<times> 'r disk list" where
  "save_fail_closed xs active r d =
     (if active then save_and_promote xs r d
      else let (ok, d1) = save_primary (fst xs) r d
           in if ok then (True, False, [d, d1])
              else let (ok2, d2) = save_fallback (fst (snd xs)) r d1 in (ok2, ok2, [d, d1, d2]))"

text \<open>
  Starting. A primary file that does not parse is moved aside; \<open>None\<close> is a start that is refused. A
  snapshot is promoted and removed first. The outcomes are those of syncing or writing, of removing,
  and of moving a file aside.
\<close>

definition load_primary :: "'o \<Rightarrow> io \<Rightarrow> ('x, 'o) Roster disk \<Rightarrow> ('x, 'o) Roster \<times> ('x, 'o) Roster disk" where
  "load_primary blank x d =
     (case primary d of
        File r \<Rightarrow> (r, d)
      | NoFile \<Rightarrow> (default_roster blank, d)
      | Unreadable \<Rightarrow> (unusable blank, d)
      | Corrupt \<Rightarrow> (unusable blank, if took_effect x then d\<lparr>primary := NoFile\<rparr> else d))"

definition try_load ::
  "'o \<Rightarrow> io \<times> io \<times> io \<Rightarrow> ('x, 'o) Roster disk \<Rightarrow> ('x, 'o) Roster option \<times> ('x, 'o) Roster disk" where
  "try_load blank xs d =
     (case xs of (x, y, z) \<Rightarrow>
        case snapshot d of
          NoFile \<Rightarrow> if x = IoDone then apfst Some (load_primary blank z d) else (None, d)
        | Corrupt \<Rightarrow> (None, d)
        | Unreadable \<Rightarrow> (None, d)
        | File s \<Rightarrow>
            (let (ok1, d1) = save_primary x s d
             in if \<not> ok1 then (None, d1)
                else let (ok2, d2) = remove_fallback y d1
                     in (if ok2 then Some s else None, d2)))"

definition load_roster :: "'o \<Rightarrow> io \<times> io \<times> io \<Rightarrow> ('x, 'o) Roster disk \<Rightarrow> ('x, 'o) Roster" where
  "load_roster blank xs d = (case fst (try_load blank xs d) of Some r \<Rightarrow> r | None \<Rightarrow> unusable blank)"

section \<open>Danger is never washed out\<close>

abbreviation place_of :: "Entry \<Rightarrow> place" where
  "place_of e \<equiv> \<lparr>p_runtime = e_runtime e, p_source = source_of e, p_thread = thread_id e, p_workspace = workspace_id e,
                p_cwd = e_cwd e\<rparr>"

text \<open>
  The steps of a ledger. An entry is recorded with a danger bit that covers what the ledger says of
  its transcript, as the daemon asks before it adopts or resumes one, a session stays in its place,
  and logical ids are told from thread ids by their prefix; the ledger may be lost at any time.
\<close>

definition keeps_place :: "('x, 'o) Roster \<Rightarrow> string \<Rightarrow> Entry \<Rightarrow> bool" where
  "keeps_place r l e \<longleftrightarrow> (case map_of (sessions r) l of
     None \<Rightarrow> prior_threads e = []
   | Some old \<Rightarrow> e_runtime e = e_runtime old \<and> workspace_id e = workspace_id old \<and> e_cwd e = e_cwd old)"

inductive lstep :: "('x, 'o) Roster \<Rightarrow> ('x, 'o) Roster \<Rightarrow> bool" where
  recorded: "record_entry l e r = Inr r' \<Longrightarrow> prefix ''agit-'' l \<Longrightarrow> keeps_place r l e \<Longrightarrow>
    (transcript_ever_dangerous_in r (place_of e) \<Longrightarrow> ever_dangerous e) \<Longrightarrow> lstep r r'"
| claimed: "claim_start k sp i r = (c, r') \<Longrightarrow> lstep r r'"
| completed: "complete_start k res r = Inr r' \<Longrightarrow> lstep r r'"
| forgotten: "lstep r (forget_start k r)"
| armed: "arm_unconfirmed_binding l r = (b, r') \<Longrightarrow> lstep r r'"
| confirmed: "confirm_binding l r = (b, r') \<Longrightarrow> lstep r r'"
| lost: "lstep r (unusable blank)"

lemma lstep_sessions:
  "claim_start k sp i r = (c, r') \<Longrightarrow> sessions r' = sessions r \<and> history_lost r' = history_lost r"
  "complete_start k res r = Inr r' \<Longrightarrow> sessions r' = sessions r \<and> history_lost r' = history_lost r"
  "sessions (forget_start k r) = sessions r \<and> history_lost (forget_start k r) = history_lost r"
  "arm_unconfirmed_binding l r = (b, r') \<Longrightarrow> sessions r' = sessions r \<and> history_lost r' = history_lost r"
  "confirm_binding l r = (b, r') \<Longrightarrow> sessions r' = sessions r \<and> history_lost r' = history_lost r"
  by (auto simp: claim_start_def complete_start_def forget_start_def arm_unconfirmed_binding_def confirm_binding_def
      split: option.splits if_splits StartState.splits)

text \<open>The ledger is a map, and the transcript is marked, or the ledger was lost and does not know it.\<close>

definition ordered :: "('x, 'o) Roster \<Rightarrow> bool" where
  "ordered r \<longleftrightarrow> distinct (map fst (sessions r)) \<and> sorted (map fst (sessions r))
     \<and> list_all (\<lambda>(l, _). prefix ''agit-'' l) (sessions r)"

definition matches :: "place \<Rightarrow> Entry \<Rightarrow> bool" where
  "matches p e \<longleftrightarrow> e_runtime e = p_runtime p \<and> source_of e = p_source p \<and> workspace_id e = p_workspace p
     \<and> knows_thread e (p_thread p)"

definition marked :: "('x, 'o) Roster \<Rightarrow> place \<Rightarrow> bool" where
  "marked r p \<longleftrightarrow> thread_ever_dangerous_here r p
     \<or> history_lost r \<and> (\<forall>(l, e) \<in> set (sessions r). \<not> matches p e)"

lemma logical_None: "logical_for_thread_in r p = None \<longleftrightarrow> (\<forall>(l, e) \<in> set (sessions r). \<not> matches p e)"
  by (auto simp: logical_for_thread_in_def find_None_iff matches_def split: prod.splits)

lemma marked_dangerous: "marked r p \<Longrightarrow> map_of (sessions r) (p_thread p) = None \<Longrightarrow> transcript_ever_dangerous_in r p"
  by (auto simp: marked_def transcript_ever_dangerous_in_def row_dangerous_def logical_None [symmetric])

definition written_entry :: "('x, 'o) Roster \<Rightarrow> string \<Rightarrow> Entry \<Rightarrow> Entry" where
  "written_entry r l e = (case map_of (sessions r) l of None \<Rightarrow> e | Some old \<Rightarrow> inherit old e)"

lemma record_rows:
  assumes "record_entry l e r = Inr r'" and "ordered r"
  shows "set (sessions r') = insert (l, written_entry r l e) {x \<in> set (sessions r). fst x \<noteq> l}"
    and "history_lost r' = history_lost r"
    and "map_of (sessions r) l = Some old \<Longrightarrow> source_of old = source_of e"
  using assms
  by (auto simp: record_entry_def written_entry_def ordered_def set_bt_insert simp del: map_of_eq_Some_iff
      split: option.splits if_splits)

lemma record_ordered: "record_entry l e r = Inr r' \<Longrightarrow> prefix ''agit-'' l \<Longrightarrow> ordered r \<Longrightarrow> ordered r'"
  by (auto simp: record_entry_def ordered_def distinct_bt_insert set_bt_insert list_all_iff split: option.splits if_splits)

lemma inherit_knows: "knows_thread old t \<Longrightarrow> t \<noteq> [] \<Longrightarrow> knows_thread (inherit old e) t"
  by (auto simp: knows_thread_def inherit_def)

lemma inherit_fields:
  "ever_dangerous (inherit old e) = (ever_dangerous e \<or> ever_dangerous old)" "e_runtime (inherit old e) = e_runtime e"
  "source_of (inherit old e) = source_of e" "workspace_id (inherit old e) = workspace_id e"
  "e_cwd (inherit old e) = e_cwd e" "thread_id (inherit old e) = thread_id e"
  by (simp_all add: inherit_def source_of_def)

lemma record_marked:
  assumes "record_entry l e r = Inr r'" and "keeps_place r l e" and "ordered r" and "marked r p"
    and "transcript_ever_dangerous_in r (place_of e) \<Longrightarrow> ever_dangerous e"
    and "p_thread p \<noteq> []" and "\<not> prefix ''agit-'' (p_thread p)"
  shows "marked r' p"
proof -
  define e' where e': "e' = written_entry r l e"
  note rows = record_rows(1) [OF assms(1,3), folded e'] and lost = record_rows(2) [OF assms(1,3)]
    and src = record_rows(3) [OF assms(1,3)]
  have dist: "distinct (map fst (sessions r))" and key: "map_of (sessions r) (p_thread p) = None"
    using assms(3,7) by (auto simp: ordered_def list_all_iff map_of_eq_None_iff)
  show ?thesis
  proof (cases "thread_ever_dangerous_here r p")
    case True
    then obtain k f where f: "(k, f) \<in> set (sessions r)" "ever_dangerous f" "source_of f = p_source p"
      "e_runtime f = p_runtime p" "workspace_id f = p_workspace p \<or> e_cwd f = p_cwd p" "knows_thread f (p_thread p)"
      by (auto simp: thread_ever_dangerous_here_def list_ex_iff)
    have "thread_ever_dangerous_here r' p"
    proof (cases "k = l")
      case True
      with f(1) dist have old: "map_of (sessions r) l = Some f" by (simp add: map_of_eq_Some_iff)
      then have "e' = inherit f e" by (simp add: e' written_entry_def)
      with f src [OF old] assms(2) old inherit_knows [OF f(6) assms(6), of e] show ?thesis
        by (auto simp: thread_ever_dangerous_here_def list_ex_iff rows keeps_place_def inherit_fields simp del: map_of_eq_Some_iff)
    next
      case False
      with f show ?thesis by (auto simp: thread_ever_dangerous_here_def list_ex_iff rows)
    qed
    then show ?thesis by (simp add: marked_def)
  next
    case False
    with assms(4) have h: "history_lost r" and none: "\<And>k f. (k, f) \<in> set (sessions r) \<Longrightarrow> \<not> matches p f"
      by (auto simp: marked_def)
    show ?thesis
    proof (cases "matches p e'")
      case True
      have "knows_thread e' (p_thread p) \<Longrightarrow> thread_id e = p_thread p"
      proof (cases "map_of (sessions r) l")
        case None
        with e' assms(2) show "knows_thread e' (p_thread p) \<Longrightarrow> thread_id e = p_thread p"
          by (auto simp: written_entry_def knows_thread_def keeps_place_def)
      next
        case (Some old)
        with none map_of_SomeD [OF Some] have "\<not> matches p old" by blast
        with Some True e' assms(2) src [OF Some] show "knows_thread e' (p_thread p) \<Longrightarrow> thread_id e = p_thread p"
          by (auto simp: written_entry_def matches_def knows_thread_def keeps_place_def inherit_def source_of_def
              simp del: map_of_eq_Some_iff split: if_splits)
      qed
      with True have t: "thread_id e = p_thread p" by (simp add: matches_def)
      have same: "e_runtime e = p_runtime p" "source_of e = p_source p" "workspace_id e = p_workspace p"
        using True e' by (auto simp: written_entry_def matches_def inherit_fields split: option.splits)
      have "logical_for_thread_in r (place_of e) = None"
        using none same t by (fastforce simp: logical_None matches_def)
      then have "transcript_ever_dangerous_in r (place_of e)"
        using h key t by (auto simp: transcript_ever_dangerous_in_def row_dangerous_def)
      from assms(5) [OF this] e' have "ever_dangerous e'"
        by (auto simp: written_entry_def inherit_fields split: option.splits)
      with True show ?thesis by (auto simp: marked_def thread_ever_dangerous_here_def list_ex_iff rows matches_def)
    next
      case False
      with none h lost show ?thesis by (auto simp: marked_def rows)
    qed
  qed
qed

lemma same_rows:
  "sessions r' = sessions r \<and> history_lost r' = history_lost r \<Longrightarrow> ordered r' = ordered r \<and> marked r' p = marked r p"
  by (simp add: ordered_def marked_def thread_ever_dangerous_here_def)

lemma lstep_marked:
  "lstep r r' \<Longrightarrow> ordered r \<Longrightarrow> marked r p \<Longrightarrow> p_thread p \<noteq> [] \<Longrightarrow> \<not> prefix ''agit-'' (p_thread p) \<Longrightarrow>
   ordered r' \<and> marked r' p"
proof (induction rule: lstep.induct)
  case (recorded l e r r')
  then show ?case using record_marked record_ordered by blast
next
  case (lost r blank)
  then show ?case by (simp add: unusable_def ordered_def marked_def)
qed (auto simp: same_rows [OF lstep_sessions(1)] same_rows [OF lstep_sessions(2)] same_rows [OF lstep_sessions(3)]
    same_rows [OF lstep_sessions(4)] same_rows [OF lstep_sessions(5)])


text \<open>A session that ran with checks off and is recorded again, clean and with a new thread.\<close>

definition sample_entry :: "string \<Rightarrow> bool \<Rightarrow> Entry" where
  "sample_entry t b =
     \<lparr>e_native_source = None, e_runtime = ''claude-code'', thread_id = t, e_cwd = ''/w'', workspace_id = ''ws'',
      project_id = None, agit_session = None, expected_agent_id = None, permission_mode = None, guard_attempts = [],
      prior_threads = [], ever_dangerous = b, project_share = False\<rparr>"

definition sample_roster :: "(unit, unit) Roster" where
  "sample_roster = (default_roster ())\<lparr>sessions := [(''agit-1'', sample_entry ''t1'' True)]\<rparr>"


section \<open>A launch key launches once\<close>

datatype 'x start_op = Claim string StartSpec "'x SessionInfo" | Complete string "'x SessionStartResult" | Forget string

fun run_starts :: "'x start_op list \<Rightarrow> ('x, 'o) Roster \<Rightarrow> (string \<times> 'x StartClaim) list" where
  "run_starts [] r = []"
| "run_starts (Claim k sp i # ops) r = (let (c, r) = claim_start k sp i r in (k, c) # run_starts ops r)"
| "run_starts (Complete k res # ops) r =
     run_starts ops (case complete_start k res r of Inr r' \<Rightarrow> r' | Inl _ \<Rightarrow> r)"
| "run_starts (Forget k # ops) r = run_starts ops (forget_start k r)"

definition launches :: "string \<Rightarrow> (string \<times> 'x StartClaim) list \<Rightarrow> nat" where
  "launches k cs = length (filter (\<lambda>(l, c). l = k \<and> c = Reserved) cs)"

lemma known_key_kept:
  assumes "map_of (starts r) k = Some intent"
  shows "\<exists>i. map_of (starts (snd (claim_start l sp info r))) k = Some i"
    and "complete_start l res r = Inr r' \<Longrightarrow> \<exists>i. map_of (starts r') k = Some i"
    and "l \<noteq> k \<Longrightarrow> map_of (starts (forget_start l r)) k = Some intent"
proof -
  show "\<exists>i. map_of (starts (snd (claim_start l sp info r))) k = Some i"
    using assms by (auto simp: claim_start_def split: option.splits StartState.splits)
  show "complete_start l res r = Inr r' \<Longrightarrow> \<exists>i. map_of (starts r') k = Some i"
    using assms by (auto simp: complete_start_def split: option.splits StartState.splits if_splits)
  show "l \<noteq> k \<Longrightarrow> map_of (starts (forget_start l r)) k = Some intent"
    using assms by (simp add: forget_start_def bt_remove_def map_of_filter_key)
qed

lemma known_key_never_launches:
  "map_of (starts r) k = Some intent \<Longrightarrow> Forget k \<notin> set ops \<Longrightarrow> launches k (run_starts ops r) = 0"
proof (induction ops r arbitrary: intent rule: run_starts.induct)
  case (2 l sp info ops r)
  have "l = k \<Longrightarrow> fst (claim_start l sp info r) \<noteq> Reserved"
    using 2(2) by (auto simp: claim_start_def split: option.splits StartState.splits)
  moreover obtain c r' where c: "claim_start l sp info r = (c, r')" by (metis surj_pair)
  moreover from known_key_kept(1) [OF 2(2), of l sp info] obtain i where "map_of (starts r') k = Some i" by (auto simp: c)
  ultimately show ?case using 2(1) [OF c [symmetric] refl, of i] 2(3) by (auto simp: launches_def Let_def)
next
  case (3 l res ops r)
  show ?case
  proof (cases "complete_start l res r")
    case (Inr r')
    with known_key_kept(2) [OF 3(2) Inr] 3 show ?thesis by auto
  qed (use 3 in auto)
next
  case (4 l ops r)
  with known_key_kept(3) [OF 4(2), of l] show ?case by auto
qed (simp add: launches_def)


definition sample_spec :: StartSpec where
  "sample_spec =
     \<lparr>s_model = None, s_workspace_id = ''ws'', s_project_id = ''p'', s_runtime = ''codex'', s_cwd = ''/w'',
      s_agit_session = None, s_expected_agent_id = None, s_prompt = None, s_by = None, s_permission_mode = Plan,
      s_project_share = False\<rparr>"


section \<open>Which snapshot a restart finds\<close>

text \<open>What a start reads from the disk when its own writes succeed.\<close>

definition found :: "'o \<Rightarrow> ('x, 'o) Roster disk \<Rightarrow> ('x, 'o) Roster option" where
  "found blank d = fst (try_load blank (IoDone, IoDone, IoDone) d)"

text \<open>The disk can be read, and while a snapshot exists the process knows of it.\<close>

definition in_step :: "bool \<Rightarrow> 'r disk \<Rightarrow> bool" where
  "in_step active d \<longleftrightarrow> (\<exists>r. primary d = File r) \<and> (snapshot d = NoFile \<or> active \<and> (\<exists>s. snapshot d = File s))"

lemma found_simps:
  "snapshot d = File s \<Longrightarrow> found blank d = Some s"
  "snapshot d = NoFile \<Longrightarrow> primary d = File r \<Longrightarrow> found blank d = Some r"
  by (simp_all add: found_def try_load_def save_primary_def remove_fallback_def load_primary_def)



subsection \<open>Two ways to lose what was saved\<close>

text \<open>
  The exception above: when the primary file cannot be written and the snapshot is written but its
  directory cannot be synced, the process does not know of the snapshot. Everything it saves
  afterwards, each time with success, is undone by the next start.
\<close>

lemma unsynced_snapshot_undoes_later_saves:
  assumes "primary d = File p" and "snapshot d = NoFile"
    and "save_fail_closed (IoFailed, IoUnsynced, z) False r d = (ok, active, tr)"
    and "save (IoDone, y', z') active later (last tr) = (ok', active', tr')"
  shows "\<not> ok \<and> ok' \<and> found blank (last tr') = Some r"
  using assms by (auto simp: save_fail_closed_def save_def save_primary_def save_fallback_def took_effect_def found_simps)

text \<open>
  A ledger that does not parse is remembered as lost only in memory. The file is moved aside by the
  load itself, so a second load, by another process or after a restart, finds no file and takes the
  machine for one that never had a session: nothing is reported as dangerous any more.
\<close>

theorem lost_ledger_forgotten:
  assumes "try_load blank (IoDone, y, z) \<lparr>primary = Corrupt, snapshot = NoFile\<rparr> = (first, d)" and "z \<noteq> IoFailed"
  shows "first = Some (unusable blank) \<and> found blank d = Some (default_roster blank)
    \<and> transcript_ever_dangerous_in (unusable blank) p \<and> \<not> transcript_ever_dangerous_in (default_roster blank) p"
  using assms
  by (auto simp: try_load_def load_primary_def found_def took_effect_def unusable_def default_roster_def
      transcript_ever_dangerous_in_def thread_ever_dangerous_here_def logical_for_thread_in_def row_dangerous_def
      dangerous_start_unaccounted_def)

end
