(* ===== verification/Outbound.thy ===== *)
theory Outbound
  imports Journal
begin

text \<open>
  From a numbered event to the wire: the two outbound queues (\<open>src/rc/outbound.rs\<close>), the tail of frames
  that may be neither dropped nor reordered (\<open>OrderedTail\<close> of \<open>src/rc/daemon/mod.rs\<close>) and the branch of
  the main pump that feeds them (\<open>src/rc/daemon/pump.rs\<close>).

  Three tasks share the state: the pump, the task that moves the tail into the event queue
  (\<open>drain_ordered\<close>), and the writer that takes frames out. A channel is a list; a task that waits for
  capacity simply has not made its step yet, so that any interleaving the runtime may choose is a
  sequence of steps. The replay slot of a subscription is not kept, and of a frame's parameters only
  the terminal's id and text.

  The theorems: on every stream the numbers of what leaves are strictly increasing whatever was
  dropped, a terminal's exit and a settlement notice are never dropped and keep their order, and
  once nothing new arrives all of it is delivered.
\<close>

section \<open>Frames\<close>

record wire =
  w_id :: "string option"
  w_method :: "string option"
  w_stream :: "string option"
  w_terminal :: "string option"
  w_data :: string
  w_reliable :: bool
  w_delivery :: bool

type_synonym frame = "wire Frame"

definition TERMINAL_OUTPUT :: string where
  "TERMINAL_OUTPUT = ''terminal.output''"

definition TERMINAL_EXITED :: string where
  "TERMINAL_EXITED = ''terminal.exited''"

abbreviation stream_name :: "frame \<Rightarrow> string option" where
  "stream_name f \<equiv> w_stream (f_payload f)"

definition is_notification :: "frame \<Rightarrow> bool" where
  "is_notification f \<longleftrightarrow> w_id (f_payload f) = None \<and> w_method (f_payload f) \<noteq> None"

definition is_event :: "frame \<Rightarrow> bool" where
  "is_event f \<longleftrightarrow> is_notification f \<and> f_seq f \<noteq> None \<and> stream_name f \<noteq> None"

definition method_of :: "frame \<Rightarrow> string" where
  "method_of f = (case w_method (f_payload f) of None \<Rightarrow> [] | Some m \<Rightarrow> m)"

definition replayable :: "frame \<Rightarrow> bool" where
  "replayable f \<longleftrightarrow> is_notification f \<and> stream_name f \<noteq> None"

section \<open>The two queues\<close>

definition EVENT_CAP :: nat where
  "EVENT_CAP = 2000"

record Output =
  o_frame :: frame
  o_replay :: "frame list option"

definition output_of :: "frame \<Rightarrow> Output" where
  "output_of f = \<lparr>o_frame = f, o_replay = None\<rparr>"

record outbound =
  replies :: "Output list"
  events :: "frame list"
  pending_write :: "Output option"
  rx_open :: bool

definition channel :: outbound where
  "channel = \<lparr>replies = [], events = [], pending_write = None, rx_open = True\<rparr>"

datatype Sent = Queued | DroppedReplayable frame | Closed

definition send_reply :: "Output \<Rightarrow> outbound \<Rightarrow> Sent \<times> outbound" where
  "send_reply out ob = (if rx_open ob then (Queued, ob\<lparr>replies := replies ob @ [out]\<rparr>) else (Closed, ob))"

definition send_replay_response :: "frame \<Rightarrow> frame list \<Rightarrow> outbound \<Rightarrow> Sent \<times> outbound" where
  "send_replay_response f fs ob = send_reply \<lparr>o_frame = f, o_replay = Some fs\<rparr> ob"

definition events_drained :: "outbound \<Rightarrow> bool" where
  "events_drained ob \<longleftrightarrow> events ob = []"

definition send :: "frame \<Rightarrow> outbound \<Rightarrow> Sent \<times> outbound" where
  "send f ob =
     (if stream_name f \<noteq> None \<and> f_seq f = None then (DroppedReplayable f, ob)
      else if w_reliable (f_payload f) then send_reply (output_of f) ob
      else if replayable f
      then (if \<not> rx_open ob then (Closed, ob)
            else if EVENT_CAP \<le> length (events ob) then (DroppedReplayable f, ob)
            else (Queued, ob\<lparr>events := events ob @ [f]\<rparr>))
      else send_reply (output_of f) ob)"

text \<open>\<open>send_ordered\<close> waits while the queue is full: \<open>None\<close> is not yet.\<close>

definition send_ordered :: "frame \<Rightarrow> outbound \<Rightarrow> (Sent \<times> outbound) option" where
  "send_ordered f ob =
     (if \<not> rx_open ob then Some (Closed, ob)
      else if EVENT_CAP \<le> length (events ob) then None
      else Some (Queued, ob\<lparr>events := events ob @ [f]\<rparr>))"

text \<open>Lease the next frame, replies first; it stays leased until it is committed.\<close>

definition next_write :: "outbound \<Rightarrow> outbound" where
  "next_write ob =
     (if pending_write ob \<noteq> None then ob
      else case replies ob of
             out # rest \<Rightarrow> ob\<lparr>pending_write := Some out, replies := rest\<rparr>
           | [] \<Rightarrow>
               (case events ob of
                  f # rest \<Rightarrow> ob\<lparr>pending_write := Some (output_of f), events := rest\<rparr>
                | [] \<Rightarrow> ob))"

definition take_replay :: "outbound \<Rightarrow> frame list option \<times> outbound" where
  "take_replay ob =
     (case pending_write ob of
        None \<Rightarrow> (None, ob)
      | Some out \<Rightarrow> (o_replay out, ob\<lparr>pending_write := Some (out\<lparr>o_replay := None\<rparr>)\<rparr>))"

definition commit :: "outbound \<Rightarrow> outbound" where
  "commit ob = ob\<lparr>pending_write := None\<rparr>"

section \<open>The ordered tail\<close>

record ordered_tail =
  t_queue :: "frame list"
  t_open :: bool
  t_pending :: "(string \<times> nat) list"
  t_blockers :: nat

definition stream_or_empty :: "frame \<Rightarrow> string" where
  "stream_or_empty f = (case stream_name f of None \<Rightarrow> [] | Some s \<Rightarrow> s)"

definition seals :: "ordered_tail \<Rightarrow> frame \<Rightarrow> bool" where
  "seals t f \<longleftrightarrow> (case stream_name f of None \<Rightarrow> False | Some s \<Rightarrow> map_of (t_pending t) s \<noteq> None)"

definition acknowledge :: "string \<Rightarrow> ordered_tail \<Rightarrow> ordered_tail" where
  "acknowledge s t =
     (case map_of (t_pending t) s of
        None \<Rightarrow> t
      | Some n \<Rightarrow>
          t\<lparr>t_pending := (if n - 1 = 0 then AList.delete s (t_pending t) else AList.update s (n - 1) (t_pending t)),
            t_blockers := (if is_terminal s then t_blockers t - 1 else t_blockers t)\<rparr>)"

definition enqueue :: "frame \<Rightarrow> bool \<Rightarrow> ordered_tail \<Rightarrow> bool \<times> ordered_tail" where
  "enqueue f reserved t =
     (let s = stream_or_empty f;
          n = (case map_of (t_pending t) s of None \<Rightarrow> 0 | Some n \<Rightarrow> n);
          t = t\<lparr>t_blockers := (if is_terminal s \<and> \<not> reserved then t_blockers t + 1 else t_blockers t),
                t_pending := AList.update s (n + 1) (t_pending t)\<rparr>
      in if t_open t then (True, t\<lparr>t_queue := t_queue t @ [f]\<rparr>) else (False, acknowledge s t))"

definition reserve_terminal_exit :: "ordered_tail \<Rightarrow> ordered_tail" where
  "reserve_terminal_exit t = t\<lparr>t_blockers := t_blockers t + 1\<rparr>"

definition terminal_exit :: "frame \<Rightarrow> bool" where
  "terminal_exit f \<longleftrightarrow>
     method_of f = TERMINAL_EXITED \<and> (case stream_name f of None \<Rightarrow> False | Some s \<Rightarrow> is_terminal s)"

definition must_order :: "frame \<Rightarrow> bool" where
  "must_order f \<longleftrightarrow> terminal_exit f \<or> w_delivery (f_payload f)"

definition should_defer :: "ordered_tail \<Rightarrow> frame \<Rightarrow> bool" where
  "should_defer t f \<longleftrightarrow> terminal_exit f \<or> seals t f"

definition terminal_delivery_blocked :: "ordered_tail \<Rightarrow> bool" where
  "terminal_delivery_blocked t \<longleftrightarrow> t_blockers t > 0"

definition send_live_frame :: "frame \<Rightarrow> ordered_tail \<Rightarrow> outbound \<Rightarrow> Sent \<times> outbound" where
  "send_live_frame f t ob = (if should_defer t f then (DroppedReplayable f, ob) else send f ob)"

definition gap_text :: string where
  "gap_text = [CHR 0x0D, CHR 0x0A] @
     ''[agit] the link to the hub stalled; a stretch of terminal output could not be delivered.''
     @ [CHR 0x0D, CHR 0x0A]"

definition gap_notice :: "frame \<Rightarrow> string \<Rightarrow> frame" where
  "gap_notice dropped term =
     dropped\<lparr>f_payload := (f_payload dropped)\<lparr>w_method := Some TERMINAL_OUTPUT, w_terminal := Some term, w_data := gap_text\<rparr>\<rparr>"

section \<open>The pump\<close>

text \<open>
  The pump's state with the two other tasks: \<open>draining\<close> is the frame the tail task holds while it waits
  for capacity, \<open>acks\<close> what it has reported and the pump has not read.
\<close>

record pump =
  p_out :: outbound
  p_tail :: ordered_tail
  draining :: "frame option"
  acks :: "string list"
  outbound_full :: bool
  gap_noted :: "string set"
  stopping :: bool

definition pump_start :: pump where
  "pump_start =
     \<lparr>p_out = channel, p_tail = \<lparr>t_queue = [], t_open = True, t_pending = [], t_blockers = 0\<rparr>, draining = None,
      acks = [], outbound_full = False, gap_noted = {}, stopping = False\<rparr>"

definition terminal_id :: "frame \<Rightarrow> string option" where
  "terminal_id f = (case w_terminal (f_payload f) of Some (c # cs) \<Rightarrow> Some (c # cs) | _ \<Rightarrow> None)"

text \<open>What a dropped frame leaves behind: itself, a notice in its place, or nothing.\<close>

definition owed_frame :: "frame \<Rightarrow> string set \<Rightarrow> frame option \<times> string set" where
  "owed_frame dropped noted =
     (if must_order dropped then (Some dropped, noted)
      else case terminal_id dropped of
             None \<Rightarrow> (None, noted)
           | Some term \<Rightarrow>
               if is_terminal (stream_or_empty dropped) \<and> term \<notin> noted
               then (Some (gap_notice dropped term), insert term noted)
               else (None, noted))"

definition on_dropped :: "frame \<Rightarrow> pump \<Rightarrow> pump" where
  "on_dropped dropped p =
     (let full = (if terminal_exit dropped then outbound_full p else True);
          (ordered, noted) = owed_frame dropped (gap_noted p);
          noted = (case terminal_id dropped of
                     Some term \<Rightarrow> if method_of dropped = TERMINAL_EXITED then noted - {term} else noted
                   | None \<Rightarrow> noted);
          p = p\<lparr>outbound_full := full, gap_noted := noted\<rparr>
      in case ordered of
           None \<Rightarrow> p
         | Some f \<Rightarrow>
             (let (ok, t) = enqueue f (terminal_exit f) (p_tail p)
              in p\<lparr>p_tail := t, stopping := stopping p \<or> \<not> ok\<rparr>))"

definition live_frame :: "frame \<Rightarrow> pump \<Rightarrow> pump" where
  "live_frame f p =
     (case send_live_frame f (p_tail p) (p_out p) of
        (Queued, ob) \<Rightarrow> p\<lparr>p_out := ob\<rparr>
      | (DroppedReplayable dropped, ob) \<Rightarrow> on_dropped dropped (p\<lparr>p_out := ob\<rparr>)
      | (Closed, ob) \<Rightarrow> p\<lparr>p_out := ob, stopping := True\<rparr>)"

definition on_ack :: "pump \<Rightarrow> pump" where
  "on_ack p =
     (case acks p of
        [] \<Rightarrow> p
      | s # rest \<Rightarrow> p\<lparr>acks := rest, p_tail := acknowledge s (p_tail p)\<rparr>)"

definition on_tick :: "pump \<Rightarrow> pump" where
  "on_tick p =
     (if outbound_full p \<and> events_drained (p_out p) \<and> t_pending (p_tail p) = []
      then p\<lparr>outbound_full := False, gap_noted := {}\<rparr> else p)"

text \<open>The loop of \<open>drain_ordered\<close>: receive a frame, then wait until it is queued and report its stream.\<close>

definition tail_take :: "pump \<Rightarrow> pump" where
  "tail_take p =
     (if t_open (p_tail p) \<and> draining p = None
      then case t_queue (p_tail p) of
             [] \<Rightarrow> p
           | f # rest \<Rightarrow> p\<lparr>draining := Some f, p_tail := (p_tail p)\<lparr>t_queue := rest\<rparr>\<rparr>
      else p)"

definition tail_push :: "pump \<Rightarrow> pump" where
  "tail_push p =
     (case draining p of
        None \<Rightarrow> p
      | Some f \<Rightarrow>
          (case send_ordered f (p_out p) of
             None \<Rightarrow> p
           | Some (Closed, ob) \<Rightarrow> p\<lparr>draining := None, p_tail := (p_tail p)\<lparr>t_queue := [], t_open := False\<rparr>\<rparr>
           | Some (_, ob) \<Rightarrow> p\<lparr>p_out := ob, draining := None, acks := acks p @ [stream_or_empty f]\<rparr>))"

section \<open>Runs\<close>

text \<open>
  \<open>s_delivered\<close> is what was written to the wire, \<open>s_owed\<close> the frames that may not be dropped in the order the
  pump received them, \<open>s_reserved\<close> the terminal readers that reserved an exit and have not handed it to
  the pump. Session and terminal events enter unnumbered and are numbered by the journal.
\<close>

record sys =
  s_journal :: "wire Journal"
  s_pump :: pump
  s_delivered :: "Output list"
  s_owed :: "frame list"
  s_reserved :: nat

definition sys_start :: "wire Journal \<Rightarrow> sys" where
  "sys_start j = \<lparr>s_journal = j, s_pump = pump_start, s_delivered = [], s_owed = [], s_reserved = 0\<rparr>"

inductive step :: "sys \<Rightarrow> sys \<Rightarrow> bool" where
  event: "\<lbrakk>stream_name f = Some s; is_notification f; \<not> w_reliable (f_payload f);
           last_seq (s_journal c) s \<noteq> - 1; record_frame s f (s_journal c) = (f', j');
           terminal_exit f' \<Longrightarrow> s_reserved c > 0\<rbrakk>
     \<Longrightarrow> step c (c\<lparr>s_journal := j', s_pump := live_frame f' (s_pump c),
                   s_owed := s_owed c @ (if must_order f' then [f'] else []),
                   s_reserved := s_reserved c - (if terminal_exit f' then 1 else 0)\<rparr>)"
| plain: "stream_name f = None \<Longrightarrow> step c (c\<lparr>s_pump := live_frame f (s_pump c)\<rparr>)"
| reply: "\<lbrakk>stream_name f = None \<or> w_reliable (f_payload f); send f (p_out (s_pump c)) = (r, ob)\<rbrakk>
     \<Longrightarrow> step c (c\<lparr>s_pump := (s_pump c)\<lparr>p_out := ob\<rparr>\<rparr>)"
| replay_reply: "\<lbrakk>stream_name f = None; send_replay_response f fs (p_out (s_pump c)) = (r, ob)\<rbrakk>
     \<Longrightarrow> step c (c\<lparr>s_pump := (s_pump c)\<lparr>p_out := ob\<rparr>\<rparr>)"
| reserve: "step c (c\<lparr>s_pump := (s_pump c)\<lparr>p_tail := reserve_terminal_exit (p_tail (s_pump c))\<rparr>,
                      s_reserved := s_reserved c + 1\<rparr>)"
| ack: "step c (c\<lparr>s_pump := on_ack (s_pump c)\<rparr>)"
| tick: "step c (c\<lparr>s_pump := on_tick (s_pump c)\<rparr>)"
| take: "step c (c\<lparr>s_pump := tail_take (s_pump c)\<rparr>)"
| push: "step c (c\<lparr>s_pump := tail_push (s_pump c)\<rparr>)"
| lease: "rx_open (p_out (s_pump c)) \<Longrightarrow>
     step c (c\<lparr>s_pump := (s_pump c)\<lparr>p_out := next_write (p_out (s_pump c))\<rparr>\<rparr>)"
| sent: "\<lbrakk>rx_open (p_out (s_pump c)); pending_write (p_out (s_pump c)) = Some out\<rbrakk> \<Longrightarrow>
     step c (c\<lparr>s_pump := (s_pump c)\<lparr>p_out := commit (snd (take_replay (p_out (s_pump c))))\<rparr>,
               s_delivered := s_delivered c @ [out]\<rparr>)"
| gone: "step c (c\<lparr>s_pump := (s_pump c)\<lparr>p_out := (p_out (s_pump c))\<lparr>rx_open := False\<rparr>\<rparr>\<rparr>)"

inductive reach :: "wire Journal \<Rightarrow> sys \<Rightarrow> bool" for j where
  start: "reach j (sys_start j)"
| more: "reach j c \<Longrightarrow> step c c' \<Longrightarrow> reach j c'"

inductive_cases stepE: "step c c'"

text \<open>The event lane of a stream: what was delivered of it and what is on its way, in order.\<close>

definition in_flight :: "pump \<Rightarrow> frame list" where
  "in_flight p =
     (case pending_write (p_out p) of None \<Rightarrow> [] | Some out \<Rightarrow> [o_frame out]) @ events (p_out p)
     @ (case draining p of None \<Rightarrow> [] | Some f \<Rightarrow> [f]) @ t_queue (p_tail p)"

definition on_lane :: "string \<Rightarrow> frame \<Rightarrow> bool" where
  "on_lane s f \<longleftrightarrow> stream_name f = Some s \<and> \<not> w_reliable (f_payload f)"

definition lane :: "string \<Rightarrow> sys \<Rightarrow> frame list" where
  "lane s c = filter (on_lane s) (map o_frame (s_delivered c) @ in_flight (s_pump c))"

section \<open>The tail's account\<close>

definition owing :: "ordered_tail \<Rightarrow> string \<Rightarrow> nat" where
  "owing t s = (case map_of (t_pending t) s of None \<Rightarrow> 0 | Some n \<Rightarrow> n)"

definition tail_wf :: "ordered_tail \<Rightarrow> bool" where
  "tail_wf t \<longleftrightarrow> distinct (map fst (t_pending t)) \<and> (\<forall>s. map_of (t_pending t) s \<noteq> Some 0)"

definition terminal_owing :: "ordered_tail \<Rightarrow> nat" where
  "terminal_owing t = sum_list (map snd (filter (\<lambda>(s, n). is_terminal s) (t_pending t)))"

lemma sum_update:
  "distinct (map fst al) \<Longrightarrow>
   sum_list (map snd (filter (\<lambda>(s, n). P s) (AList.update k v al)))
     + (if P k then case map_of al k of None \<Rightarrow> 0 | Some n \<Rightarrow> n else 0)
   = sum_list (map snd (filter (\<lambda>(s, n). P s) al)) + (if P k then v else (0::nat))"
  by (induction al) (auto simp: image_iff)

lemma sum_delete:
  "distinct (map fst al) \<Longrightarrow>
   sum_list (map snd (filter (\<lambda>(s, n). P s) (AList.delete k al)))
     + (if P k then case map_of al k of None \<Rightarrow> 0 | Some n \<Rightarrow> n else 0)
   = sum_list (map snd (filter (\<lambda>(s, n). P s) al) :: nat list)"
proof (induction al)
  case (Cons a al)
  have "fst a = k \<Longrightarrow> AList.delete k al = al" using Cons.prems by (auto intro!: AList.delete_id)
  with Cons show ?case by (auto simp: image_iff)
qed simp

lemma owing_pos: "tail_wf t \<Longrightarrow> owing t s > 0 \<longleftrightarrow> map_of (t_pending t) s \<noteq> None"
  unfolding owing_def tail_wf_def by (cases "map_of (t_pending t) s") (auto intro: gr0I)

lemma acknowledge_wf:
  assumes "tail_wf t"
  shows "tail_wf (acknowledge s t)" and "owing (acknowledge s t) = (owing t)(s := owing t s - 1)"
    and "t_queue (acknowledge s t) = t_queue t" and "t_open (acknowledge s t) = t_open t"
  using assms
  by (auto simp: tail_wf_def owing_def acknowledge_def distinct_update distinct_delete update_conv' delete_conv'
      fun_eq_iff simp del: map_of_eq_Some_iff split: option.splits)

lemma acknowledge_blockers:
  assumes "tail_wf t" and "owing t s > 0"
  shows "terminal_owing t = terminal_owing (acknowledge s t) + (if is_terminal s then 1 else 0)"
    and "t_blockers (acknowledge s t) = t_blockers t - (if is_terminal s then 1 else 0)"
proof -
  obtain n where n: "map_of (t_pending t) s = Some n" "n > 0" using assms by (auto simp: owing_def split: option.splits)
  then show "t_blockers (acknowledge s t) = t_blockers t - (if is_terminal s then 1 else 0)"
    by (simp add: acknowledge_def)
  show "terminal_owing t = terminal_owing (acknowledge s t) + (if is_terminal s then 1 else 0)"
    using n sum_update [of "t_pending t" is_terminal s "n - 1"] sum_delete [of "t_pending t" is_terminal s] assms(1)
    by (auto simp: acknowledge_def terminal_owing_def tail_wf_def)
qed

lemma enqueue_wf:
  assumes "tail_wf t" and "enqueue f r t = (ok, t')"
  defines "s \<equiv> stream_or_empty f"
  shows "tail_wf t'" and "ok = t_open t" and "t_open t' = t_open t"
    and "owing t' = (if ok then (owing t)(s := owing t s + 1) else owing t)"
    and "t_queue t' = (if ok then t_queue t @ [f] else t_queue t)"
    and "ok \<Longrightarrow> terminal_owing t' = terminal_owing t + (if is_terminal s then 1 else 0)"
    and "ok \<Longrightarrow> t_blockers t' = t_blockers t + (if is_terminal s \<and> \<not> r then 1 else 0)"
    and "\<not> ok \<Longrightarrow> terminal_owing t' = terminal_owing t"
    and "\<not> ok \<Longrightarrow> t_blockers t' = t_blockers t - (if is_terminal s \<and> r then 1 else 0)"
proof -
  define u where "u = t\<lparr>t_blockers := (if is_terminal s \<and> \<not> r then t_blockers t + 1 else t_blockers t),
                        t_pending := AList.update s (owing t s + 1) (t_pending t)\<rparr>"
  have e: "(ok, t') = (if t_open t then (True, u\<lparr>t_queue := t_queue t @ [f]\<rparr>) else (False, acknowledge s u))"
    using assms(2) [symmetric] by (simp add: enqueue_def Let_def u_def owing_def s_def)
  have u: "tail_wf u" "owing u = (owing t)(s := owing t s + 1)" "t_queue u = t_queue t" "t_open u = t_open t"
    using assms(1) by (auto simp: u_def tail_wf_def owing_def distinct_update update_conv' fun_eq_iff)
  have "terminal_owing u = terminal_owing t + (if is_terminal s then 1 else 0)"
    using sum_update [of "t_pending t" is_terminal s "owing t s + 1"] assms(1)
    by (auto simp: u_def terminal_owing_def tail_wf_def owing_def simp del: map_of_eq_Some_iff split: option.splits)
  note b = this acknowledge_blockers [OF u(1), of s] acknowledge_wf [OF u(1), of s]
  show "tail_wf t'" "ok = t_open t" "t_open t' = t_open t"
    "owing t' = (if ok then (owing t)(s := owing t s + 1) else owing t)"
    "t_queue t' = (if ok then t_queue t @ [f] else t_queue t)"
    using e u b by (auto simp: tail_wf_def owing_def fun_eq_iff split: if_splits)
  show "ok \<Longrightarrow> terminal_owing t' = terminal_owing t + (if is_terminal s then 1 else 0)"
    "ok \<Longrightarrow> t_blockers t' = t_blockers t + (if is_terminal s \<and> \<not> r then 1 else 0)"
    "\<not> ok \<Longrightarrow> terminal_owing t' = terminal_owing t"
    "\<not> ok \<Longrightarrow> t_blockers t' = t_blockers t - (if is_terminal s \<and> r then 1 else 0)"
    using e u b by (auto simp: terminal_owing_def u_def split: if_splits)
qed

section \<open>What a live frame adds\<close>

definition tail_frames :: "pump \<Rightarrow> frame list" where
  "tail_frames p = (case draining p of None \<Rightarrow> [] | Some f \<Rightarrow> [f]) @ t_queue (p_tail p)"

definition head_frames :: "outbound \<Rightarrow> frame list" where
  "head_frames ob = (case pending_write ob of None \<Rightarrow> [] | Some out \<Rightarrow> [o_frame out]) @ events ob"

lemma in_flight_parts: "in_flight p = head_frames (p_out p) @ tail_frames p"
  by (simp add: in_flight_def head_frames_def tail_frames_def)

lemma tail_frames_simps [simp]:
  "tail_frames (p\<lparr>p_out := ob\<rparr>) = tail_frames p" "tail_frames (p\<lparr>stopping := b\<rparr>) = tail_frames p"
  by (simp_all add: tail_frames_def)

text \<open>The pump's books: every stream with a frame in the tail or an unread report is sealed.\<close>

definition account :: "pump \<Rightarrow> string \<Rightarrow> nat" where
  "account p s = count_list (map stream_or_empty (tail_frames p)) s + count_list (acks p) s"

lemma account_simps [simp]:
  "account (p\<lparr>p_out := ob\<rparr>) = account p" "account (p\<lparr>stopping := b\<rparr>) = account p"
  by (simp_all add: account_def fun_eq_iff)

definition books :: "nat \<Rightarrow> pump \<Rightarrow> bool" where
  "books reserved p \<longleftrightarrow>
     tail_wf (p_tail p)
     \<and> (\<forall>f \<in> set (tail_frames p). stream_name f \<noteq> None)
     \<and> (\<forall>s. account p s \<le> owing (p_tail p) s)
     \<and> (t_open (p_tail p) \<longrightarrow> (\<forall>s. owing (p_tail p) s = account p s))
     \<and> (rx_open (p_out p) \<longrightarrow> t_open (p_tail p))
     \<and> t_blockers (p_tail p) = terminal_owing (p_tail p) + reserved
     \<and> length (events (p_out p)) \<le> EVENT_CAP
     \<and> (\<forall>out \<in> set (replies (p_out p)). stream_name (o_frame out) = None \<or> w_reliable (f_payload (o_frame out)))"

definition left_behind :: "frame \<Rightarrow> pump \<Rightarrow> frame list" where
  "left_behind f p =
     (if t_open (p_tail p) then (case fst (owed_frame f (gap_noted p)) of None \<Rightarrow> [] | Some g \<Rightarrow> [g]) else [])"

lemma unsealed_not_in_tail:
  assumes "books r p" and "\<not> seals (p_tail p) f" and "stream_name f = Some s"
  shows "filter (on_lane s) (tail_frames p) = []"
proof -
  have "owing (p_tail p) s = 0"
    using assms by (auto simp: books_def seals_def owing_def)
  then have "count_list (map stream_or_empty (tail_frames p)) s = 0"
    using assms(1) by (metis account_def add_is_0 books_def le_zero_eq)
  then have "s \<notin> set (map stream_or_empty (tail_frames p))"
    by (simp add: count_list_0_iff)
  then show ?thesis
    by (auto simp: filter_empty_conv on_lane_def stream_or_empty_def image_iff split: option.splits)
qed

lemma on_dropped_frames:
  assumes "books r p"
  shows "tail_frames (on_dropped f p) = tail_frames p @ left_behind f p"
    and "p_out (on_dropped f p) = p_out p" and "acks (on_dropped f p) = acks p"
proof -
  obtain ok t' where e: "enqueue (case fst (owed_frame f (gap_noted p)) of Some g \<Rightarrow> g | None \<Rightarrow> f)
      (terminal_exit (case fst (owed_frame f (gap_noted p)) of Some g \<Rightarrow> g | None \<Rightarrow> f)) (p_tail p) = (ok, t')"
    by fastforce
  have wf: "tail_wf (p_tail p)" using assms by (simp add: books_def)
  show "tail_frames (on_dropped f p) = tail_frames p @ left_behind f p"
    "p_out (on_dropped f p) = p_out p" "acks (on_dropped f p) = acks p"
    using e enqueue_wf(2,5) [OF wf e]
    by (auto simp: on_dropped_def tail_frames_def left_behind_def Let_def split: option.splits prod.splits)
qed

definition added :: "frame \<Rightarrow> pump \<Rightarrow> frame list" where
  "added f p =
     (if should_defer (p_tail p) f then left_behind f p
      else if \<not> rx_open (p_out p) then []
      else if EVENT_CAP \<le> length (events (p_out p)) then left_behind f p
      else [f])"

text \<open>A frame takes the place of another on its stream: the frame itself or a notice with its number.\<close>

definition stands_for :: "frame \<Rightarrow> frame \<Rightarrow> bool" where
  "stands_for f g \<longleftrightarrow>
     stream_name g = stream_name f \<and> f_seq g = f_seq f \<and> w_reliable (f_payload g) = w_reliable (f_payload f)
     \<and> (must_order g \<longleftrightarrow> must_order f) \<and> (must_order f \<longrightarrow> g = f)"

lemma owed_frame_stream: "fst (owed_frame f noted) = Some g \<Longrightarrow> stands_for f g"
  by (auto simp: stands_for_def owed_frame_def gap_notice_def must_order_def terminal_exit_def method_of_def
      TERMINAL_OUTPUT_def TERMINAL_EXITED_def split: if_splits option.splits)

lemma stands_for_refl [simp]: "stands_for f f"
  by (simp add: stands_for_def)

lemma left_behind_cases: "left_behind f p = [] \<or> (\<exists>g. left_behind f p = [g] \<and> stands_for f g)"
proof (cases "fst (owed_frame f (gap_noted p))")
  case None
  then show ?thesis by (simp add: left_behind_def)
next
  case (Some g)
  from owed_frame_stream [OF this] have "stands_for f g" .
  with Some show ?thesis by (simp add: left_behind_def)
qed

lemma added_cases: "added f p = [] \<or> (\<exists>g. added f p = [g] \<and> stands_for f g)"
  using left_behind_cases [of f p] unfolding added_def by (simp split: if_split)

lemma added_stream: "g \<in> set (added f p) \<Longrightarrow> stands_for f g"
  by (metis added_cases empty_iff empty_set set_ConsD)
lemma must_order_added:
  "must_order f \<Longrightarrow> books r p \<Longrightarrow> rx_open (p_out p) \<Longrightarrow> added f p = [f]"
  by (auto simp: added_def left_behind_def owed_frame_def books_def)

lemma live_frame_lane:
  assumes "books r p" and "stream_name f = Some s" and "is_notification f" and "\<not> w_reliable (f_payload f)"
    and "f_seq f \<noteq> None"
  shows "filter (on_lane k) (in_flight (live_frame f p))
       = filter (on_lane k) (in_flight p) @ filter (on_lane k) (added f p)"
proof (cases "should_defer (p_tail p) f \<or> \<not> rx_open (p_out p) \<or> EVENT_CAP \<le> length (events (p_out p))")
  case True
  with assms show ?thesis
    using on_dropped_frames [OF assms(1), of f]
    by (auto simp: live_frame_def send_live_frame_def send_def replayable_def added_def in_flight_parts)
next
  case False
  then have n: "\<not> seals (p_tail p) f" by (simp add: should_defer_def)
  have "filter (on_lane k) (tail_frames p) = [] \<or> \<not> on_lane k f"
    using unsealed_not_in_tail [OF assms(1) n assms(2)] assms(2) by (auto simp: on_lane_def)
  with False assms show ?thesis
    by (auto simp: live_frame_def send_live_frame_def send_def replayable_def added_def in_flight_parts
        head_frames_def)
qed

section \<open>The books stay right\<close>

lemma count_append [simp]: "count_list (xs @ ys) x = count_list xs x + count_list ys x"
  by (induction xs) auto

lemma books_simps [simp]:
  "books r (p\<lparr>outbound_full := b\<rparr>) = books r p" "books r (p\<lparr>gap_noted := n\<rparr>) = books r p"
  "books r (p\<lparr>stopping := b\<rparr>) = books r p"
  by (simp_all add: books_def account_def tail_frames_def)

lemma tail_fields [simp]:
  "owing (t\<lparr>t_queue := q\<rparr>) = owing t" "owing (t\<lparr>t_open := b\<rparr>) = owing t" "owing (t\<lparr>t_blockers := n\<rparr>) = owing t"
  "tail_wf (t\<lparr>t_queue := q\<rparr>) = tail_wf t" "tail_wf (t\<lparr>t_open := b\<rparr>) = tail_wf t" "tail_wf (t\<lparr>t_blockers := n\<rparr>) = tail_wf t"
  "terminal_owing (t\<lparr>t_queue := q\<rparr>) = terminal_owing t" "terminal_owing (t\<lparr>t_open := b\<rparr>) = terminal_owing t"
  "terminal_owing (t\<lparr>t_blockers := n\<rparr>) = terminal_owing t"
  by (simp_all add: owing_def fun_eq_iff tail_wf_def terminal_owing_def)

lemma on_dropped_cases:
  obtains b n where "fst (owed_frame f (gap_noted p)) = None" and "on_dropped f p = p\<lparr>outbound_full := b, gap_noted := n\<rparr>"
  | b n g ok t where "fst (owed_frame f (gap_noted p)) = Some g" and "enqueue g (terminal_exit g) (p_tail p) = (ok, t)"
    and "on_dropped f p = p\<lparr>p_tail := t, outbound_full := b, gap_noted := n, stopping := stopping p \<or> \<not> ok\<rparr>"
proof (cases "fst (owed_frame f (gap_noted p))")
  case None
  with that(1) show thesis by (simp add: on_dropped_def Let_def split_beta)
next
  case (Some g)
  obtain ok t where e: "enqueue g (terminal_exit g) (p_tail p) = (ok, t)" by fastforce
  from Some e have "on_dropped f p = p\<lparr>p_tail := t, outbound_full := outbound_full (on_dropped f p),
      gap_noted := gap_noted (on_dropped f p), stopping := stopping p \<or> \<not> ok\<rparr>"
    by (simp add: on_dropped_def Let_def split_beta)
  from that(2) [OF Some e this] show thesis .
qed

lemma terminal_exit_owed: "terminal_exit f \<Longrightarrow> fst (owed_frame f n) = Some f"
  by (simp add: owed_frame_def must_order_def)

lemma owed_frame_exit: "fst (owed_frame f n) = Some g \<Longrightarrow> terminal_exit g \<longleftrightarrow> terminal_exit f"
  using owed_frame_stream [of f n g] by (metis must_order_def stands_for_def)

lemma books_enqueue:
  assumes b: "books r p" and e: "enqueue g x (p_tail p) = (ok, t)" and s: "stream_name g \<noteq> None"
    and x: "x \<Longrightarrow> is_terminal (stream_or_empty g)" and r: "x \<Longrightarrow> r > 0"
  shows "books (r - (if x then 1 else 0)) (p\<lparr>p_tail := t\<rparr>)"
proof -
  have wf: "tail_wf (p_tail p)" using b by (simp add: books_def)
  note w = enqueue_wf [OF wf e]
  have tf: "tail_frames (p\<lparr>p_tail := t\<rparr>) = tail_frames p @ (if ok then [g] else [])"
    using w(5) by (simp add: tail_frames_def)
  have bl: "t_blockers t = terminal_owing t + (r - (if x then 1 else 0))"
    using b w(6-9) x r by (cases ok; cases x) (auto simp: books_def)
  show ?thesis
    unfolding books_def using b w(1-4) s bl by (auto simp: books_def account_def tf)
qed

lemma books_on_dropped:
  assumes b: "books r p" and s: "stream_name f \<noteq> None" and r: "terminal_exit f \<Longrightarrow> r > 0"
  shows "books (r - (if terminal_exit f then 1 else 0)) (on_dropped f p)"
proof (cases rule: on_dropped_cases [of f p])
  case (1 b n)
  then show ?thesis using assms terminal_exit_owed [of f "gap_noted p"] by auto
next
  case (2 b n g ok t)
  have g: "stands_for f g" "terminal_exit g \<longleftrightarrow> terminal_exit f"
    using 2(1) by (auto intro: owed_frame_stream dest: owed_frame_exit)
  have "books (r - (if terminal_exit g then 1 else 0)) (p\<lparr>p_tail := t\<rparr>)"
    using g s r by (intro books_enqueue [OF assms(1) 2(2)])
      (auto simp: stands_for_def terminal_exit_def stream_or_empty_def split: option.splits)
  then show ?thesis using 2(3) g(2) by simp
qed

lemma books_live:
  assumes b: "books r p" and f: "stream_name f \<noteq> None" "is_notification f" "\<not> w_reliable (f_payload f)" "f_seq f \<noteq> None"
    and r: "terminal_exit f \<Longrightarrow> r > 0"
  shows "books (r - (if terminal_exit f then 1 else 0)) (live_frame f p)"
proof (cases "should_defer (p_tail p) f \<or> rx_open (p_out p) \<and> EVENT_CAP \<le> length (events (p_out p))")
  case True
  then have "live_frame f p = on_dropped f p"
    using f by (auto simp: live_frame_def send_live_frame_def send_def replayable_def)
  with books_on_dropped [OF b f(1) r] show ?thesis by simp
next
  case False
  then have "\<not> terminal_exit f" by (simp add: should_defer_def)
  with False b f show ?thesis
    by (auto simp: live_frame_def send_live_frame_def send_def replayable_def books_def)
qed

lemma books_reply:
  assumes "books r p" and "stream_name f = None \<or> w_reliable (f_payload f)" and "send f (p_out p) = (x, ob)"
  shows "books r (p\<lparr>p_out := ob\<rparr>)"
  using assms by (auto simp: books_def send_def send_reply_def replayable_def output_of_def split: if_splits)

lemma books_replay_reply:
  assumes "books r p" and "stream_name f = None" and "send_replay_response f fs (p_out p) = (x, ob)"
  shows "books r (p\<lparr>p_out := ob\<rparr>)"
  using assms by (auto simp: books_def send_replay_response_def send_reply_def split: if_splits)

lemma books_plain: "books r p \<Longrightarrow> stream_name f = None \<Longrightarrow> books r (live_frame f p)"
  by (auto simp: live_frame_def send_live_frame_def should_defer_def terminal_exit_def seals_def send_def
      replayable_def send_reply_def output_of_def books_def)

lemma books_tail_take:
  assumes "books r p"
  shows "books r (tail_take p)"
proof -
  have "tail_frames (tail_take p) = tail_frames p"
    by (auto simp: tail_take_def tail_frames_def split: list.splits)
  moreover have "acks (tail_take p) = acks p" "p_out (tail_take p) = p_out p" "\<exists>q. p_tail (tail_take p) = (p_tail p)\<lparr>t_queue := q\<rparr>"
    by (auto simp: tail_take_def split: list.splits intro: exI [of _ "t_queue (p_tail p)"])
  ultimately show ?thesis using assms by (auto simp: books_def account_def)
qed

lemma tail_push_cases:
  assumes "draining p = Some f"
  obtains "\<not> rx_open (p_out p)" and "tail_push p = p\<lparr>draining := None, p_tail := (p_tail p)\<lparr>t_queue := [], t_open := False\<rparr>\<rparr>"
  | "rx_open (p_out p)" and "EVENT_CAP \<le> length (events (p_out p))" and "tail_push p = p"
  | "rx_open (p_out p)" and "length (events (p_out p)) < EVENT_CAP"
    and "tail_push p = p\<lparr>p_out := (p_out p)\<lparr>events := events (p_out p) @ [f]\<rparr>, draining := None,
                        acks := acks p @ [stream_or_empty f]\<rparr>"
  using that assms
  by (cases "rx_open (p_out p)"; cases "EVENT_CAP \<le> length (events (p_out p))")
    (simp_all add: tail_push_def send_ordered_def)

lemma books_tail_push:
  assumes "books r p"
  shows "books r (tail_push p)"
proof (cases "draining p")
  case None
  then show ?thesis using assms by (simp add: tail_push_def)
next
  case (Some f)
  then have tf: "tail_frames p = f # t_queue (p_tail p)" by (simp add: tail_frames_def)
  from Some show ?thesis
  proof (cases rule: tail_push_cases)
    case 1
    have "account (tail_push p) s \<le> account p s" for s
      unfolding 1(2) by (simp add: account_def tail_frames_def)
    with assms 1 show ?thesis by (auto simp: books_def tail_frames_def intro: le_trans)
  next
    case 3
    have "account (tail_push p) = account p"
      unfolding 3(3) by (simp add: account_def tf fun_eq_iff) (simp add: tail_frames_def)
    with assms 3 tf show ?thesis by (auto simp: books_def tail_frames_def)
  qed (use assms in simp)
qed

lemma books_ack:
  assumes "books r p"
  shows "books r (on_ack p)"
proof (cases "acks p")
  case Nil
  then show ?thesis using assms by (simp add: on_ack_def)
next
  case (Cons s rest)
  have wf: "tail_wf (p_tail p)" and le: "account p s \<le> owing (p_tail p) s" using assms by (simp_all add: books_def)
  then have o: "owing (p_tail p) s > 0" using Cons by (simp add: account_def)
  have "tail_frames (on_ack p) = tail_frames p"
    using Cons acknowledge_wf(3) [OF wf] by (simp add: on_ack_def tail_frames_def)
  moreover from this have "account (on_ack p) = (account p)(s := account p s - 1)"
    using Cons by (auto simp: account_def on_ack_def fun_eq_iff)
  ultimately show ?thesis
    using assms Cons acknowledge_wf [OF wf, of s] acknowledge_blockers [OF wf o] o
    unfolding books_def by (auto simp: on_ack_def intro: diff_le_mono)
qed

lemma books_lease: "books r p \<Longrightarrow> books r (p\<lparr>p_out := next_write (p_out p)\<rparr>)"
  by (auto simp: next_write_def books_def split: list.splits)

section \<open>Every run\<close>

lemma record_frame_payload: "record_frame k f j = (f', j') \<Longrightarrow> f_payload f' = f_payload f"
  by (auto simp: record_frame_def push_def Let_def)

lemma record_frame_facts:
  assumes "record_frame k f j = (f', j')"
  shows "f_payload f' = f_payload f" and "f_seq f' = Some (last_seq j k + 1)" and "last_seq j' k = last_seq j k + 1"
    and "k' \<noteq> k \<Longrightarrow> last_seq j' k' = last_seq j k'"
  using record_frame_payload [OF assms] record_frame_seq [where k = k and f = f and j = j] assms
  by (auto simp: last_seq_def)

lemma step_books: "step c c' \<Longrightarrow> books (s_reserved c) (s_pump c) \<Longrightarrow> books (s_reserved c') (s_pump c')"
proof (induction rule: step.cases)
  case (event f s c f' j')
  have p: "f_payload f' = f_payload f" "f_seq f' \<noteq> None"
    using record_frame_facts [OF event(7)] by simp_all
  then have "books (s_reserved c - (if terminal_exit f' then 1 else 0)) (live_frame f' (s_pump c))"
    using event by (intro books_live) (auto simp: is_notification_def)
  then show ?case using event by simp
next
  case (ack c) then show ?case by (simp add: books_ack)
next
  case (reply f c r ob) then show ?case by (auto intro: books_reply)
next
  case (replay_reply f fs c r ob) then show ?case by (auto intro: books_replay_reply)
next
  case (tick c) then show ?case by (simp add: on_tick_def)
next
  case (sent c out)
  then show ?case by (auto simp: commit_def take_replay_def books_def)
next
  case (reserve c)
  then show ?case by (auto simp: reserve_terminal_exit_def books_def account_def tail_frames_def)
next
  case (gone c)
  then show ?case by (auto simp: books_def)
qed (simp_all add: books_plain books_tail_take books_tail_push books_lease)

lemma lane_event:
  assumes "books (s_reserved c) (s_pump c)" and "stream_name f' = Some s" and "is_notification f'"
    and "\<not> w_reliable (f_payload f')" and "f_seq f' \<noteq> None"
  shows "lane k (c\<lparr>s_journal := j', s_pump := live_frame f' (s_pump c), s_owed := w, s_reserved := r\<rparr>)
       = lane k c @ (if k = s then added f' (s_pump c) else [])"
proof -
  have "filter (on_lane k) (added f' (s_pump c)) = (if k = s then added f' (s_pump c) else [])"
    using assms by (auto simp: filter_empty_conv filter_id_conv on_lane_def stands_for_def dest!: added_stream)
  then show ?thesis using live_frame_lane [OF assms(1-5), of k] by (simp add: lane_def)
qed

lemma lane_quiet:
  assumes b: "books (s_reserved c) (s_pump c)"
  shows "stream_name f = None \<Longrightarrow> lane k (c\<lparr>s_pump := live_frame f (s_pump c)\<rparr>) = lane k c"
    and "stream_name f = None \<or> w_reliable (f_payload f) \<Longrightarrow> send f (p_out (s_pump c)) = (r, ob) \<Longrightarrow>
      lane k (c\<lparr>s_pump := (s_pump c)\<lparr>p_out := ob\<rparr>\<rparr>) = lane k c"
    and "send_replay_response f fs (p_out (s_pump c)) = (r, ob) \<Longrightarrow>
      lane k (c\<lparr>s_pump := (s_pump c)\<lparr>p_out := ob\<rparr>\<rparr>) = lane k c"
    and "lane k (c\<lparr>s_pump := on_ack (s_pump c)\<rparr>) = lane k c"
    and "lane k (c\<lparr>s_pump := on_tick (s_pump c)\<rparr>) = lane k c"
    and "lane k (c\<lparr>s_pump := tail_take (s_pump c)\<rparr>) = lane k c"
    and "lane k (c\<lparr>s_pump := (s_pump c)\<lparr>p_out := next_write (p_out (s_pump c))\<rparr>\<rparr>) = lane k c"
    and "pending_write (p_out (s_pump c)) = Some out \<Longrightarrow>
      lane k (c\<lparr>s_pump := (s_pump c)\<lparr>p_out := commit (snd (take_replay (p_out (s_pump c))))\<rparr>,
               s_delivered := s_delivered c @ [out]\<rparr>) = lane k c"
proof -
  show "stream_name f = None \<Longrightarrow> lane k (c\<lparr>s_pump := live_frame f (s_pump c)\<rparr>) = lane k c"
    by (auto simp: lane_def in_flight_def live_frame_def send_live_frame_def should_defer_def terminal_exit_def
        seals_def send_def replayable_def send_reply_def)
  show "stream_name f = None \<or> w_reliable (f_payload f) \<Longrightarrow> send f (p_out (s_pump c)) = (r, ob) \<Longrightarrow>
      lane k (c\<lparr>s_pump := (s_pump c)\<lparr>p_out := ob\<rparr>\<rparr>) = lane k c"
    by (auto simp: lane_def in_flight_def send_def send_reply_def replayable_def split: if_splits)
  show "send_replay_response f fs (p_out (s_pump c)) = (r, ob) \<Longrightarrow>
      lane k (c\<lparr>s_pump := (s_pump c)\<lparr>p_out := ob\<rparr>\<rparr>) = lane k c"
    by (auto simp: lane_def in_flight_def send_replay_response_def send_reply_def split: if_splits)
  have "tail_wf (p_tail (s_pump c))" using b by (simp add: books_def)
  from acknowledge_wf(3) [OF this] show "lane k (c\<lparr>s_pump := on_ack (s_pump c)\<rparr>) = lane k c"
    by (simp add: lane_def in_flight_def on_ack_def split: list.split)
  show "lane k (c\<lparr>s_pump := on_tick (s_pump c)\<rparr>) = lane k c"
    by (simp add: lane_def in_flight_def on_tick_def)
  show "lane k (c\<lparr>s_pump := tail_take (s_pump c)\<rparr>) = lane k c"
    by (simp add: lane_def in_flight_def tail_take_def split: list.split)
  show "lane k (c\<lparr>s_pump := (s_pump c)\<lparr>p_out := next_write (p_out (s_pump c))\<rparr>\<rparr>) = lane k c"
    using b by (auto simp: lane_def in_flight_def next_write_def on_lane_def books_def output_of_def split: list.split)
  show "pending_write (p_out (s_pump c)) = Some out \<Longrightarrow>
      lane k (c\<lparr>s_pump := (s_pump c)\<lparr>p_out := commit (snd (take_replay (p_out (s_pump c))))\<rparr>,
               s_delivered := s_delivered c @ [out]\<rparr>) = lane k c"
    by (simp add: lane_def in_flight_def commit_def take_replay_def)
qed

lemma lane_push:
  "if rx_open (p_out (s_pump c)) then lane k (c\<lparr>s_pump := tail_push (s_pump c)\<rparr>) = lane k c
   else prefix (lane k (c\<lparr>s_pump := tail_push (s_pump c)\<rparr>)) (lane k c)"
proof (cases "draining (s_pump c)")
  case None
  then show ?thesis by (simp add: tail_push_def lane_def)
next
  case (Some f)
  then show ?thesis
  proof (cases rule: tail_push_cases)
    case 3
    with Some show ?thesis by (simp add: lane_def in_flight_def)
  qed (auto simp: lane_def in_flight_def)
qed

definition numbered_lane :: "string \<Rightarrow> sys \<Rightarrow> bool" where
  "numbered_lane s c \<longleftrightarrow>
     ascending (lane s c) \<and> (\<forall>f \<in> set (lane s c). \<exists>n. f_seq f = Some n \<and> n \<le> last_seq (s_journal c) s)"

lemma numbered_lane_prefix:
  assumes "numbered_lane s c" and "prefix (lane s c') (lane s c)" and "s_journal c' = s_journal c"
  shows "numbered_lane s c'"
  using assms by (auto simp: numbered_lane_def ascending_def prefix_def sorted_wrt_append)

lemma numbered_lane_snoc:
  assumes n: "numbered_lane s c" and r: "record_frame s f (s_journal c) = (f', j')" and m: "last_seq (s_journal c) s \<noteq> - 1"
    and l: "lane s c' = lane s c @ added f' p" and j: "s_journal c' = j'"
  shows "numbered_lane s c'"
proof -
  note facts = record_frame_facts [OF r]
  have le: "last_seq (s_journal c) s \<le> last_seq (s_journal c) s + 1"
    using word_less_inc [OF m] by simp
  have "added f' p = [] \<or> (\<exists>g. added f' p = [g] \<and> f_seq g = Some (last_seq (s_journal c) s + 1))"
    using added_cases [of f' p] facts(2) by (auto simp: stands_for_def)
  then show ?thesis
  proof
    assume "added f' p = []"
    with n l j facts(3) le show ?thesis by (force simp: numbered_lane_def)
  next
    assume "\<exists>g. added f' p = [g] \<and> f_seq g = Some (last_seq (s_journal c) s + 1)"
    then obtain g where g: "added f' p = [g]" "f_seq g = Some (last_seq (s_journal c) s + 1)" by blast
    have "ascending (lane s c @ [g])"
      using n g m by (intro ascending_snoc [where m = "last_seq (s_journal c) s"]) (auto simp: numbered_lane_def)
    with n l j g facts(3) le show ?thesis by (force simp: numbered_lane_def)
  qed
qed

text \<open>Only a new event and a tail without a reader change what a lane holds.\<close>

lemma step_kinds:
  assumes "step c c'" and b: "books (s_reserved c) (s_pump c)"
  obtains f k f' j' where "stream_name f' = Some k" and "last_seq (s_journal c) k \<noteq> - 1"
      and "record_frame k f (s_journal c) = (f', j')" and "s_journal c' = j'"
      and "s_owed c' = s_owed c @ (if must_order f' then [f'] else [])"
      and "\<And>s. lane s c' = lane s c @ (if s = k then added f' (s_pump c) else [])"
  | "\<not> rx_open (p_out (s_pump c))" and "s_journal c' = s_journal c" and "\<And>s. prefix (lane s c') (lane s c)"
  | "s_journal c' = s_journal c" and "s_owed c' = s_owed c" and "\<And>s. lane s c' = lane s c"
  using assms(1)
proof cases
  case (event f k f' j')
  note facts = record_frame_facts [OF event(6)]
  have "lane s c' = lane s c @ (if s = k then added f' (s_pump c) else [])" for s
    unfolding event(1) using event facts by (intro lane_event [OF b]) (auto simp: is_notification_def)
  with event facts(1) show thesis by (intro that(1)) auto
next
  case push
  with lane_push [of c] that(2,3) show thesis by (cases "rx_open (p_out (s_pump c))") auto
next
  case (plain f)
  then show thesis using lane_quiet(1) [OF b, of f] by (intro that(3)) simp_all
next
  case (reply f r ob)
  then show thesis using lane_quiet(2) [OF b, of f r ob] by (intro that(3)) simp_all
next
  case (replay_reply f fs r ob)
  then show thesis using lane_quiet(3) [OF b, of f fs r ob] by (intro that(3)) simp_all
next
  case reserve
  then show thesis by (intro that(3)) (simp_all add: lane_def in_flight_def reserve_terminal_exit_def)
next
  case ack
  then show thesis using lane_quiet(4) [OF b] by (intro that(3)) simp_all
next
  case tick
  then show thesis using lane_quiet(5) [OF b] by (intro that(3)) simp_all
next
  case take
  then show thesis using lane_quiet(6) [OF b] by (intro that(3)) simp_all
next
  case lease
  then show thesis using lane_quiet(7) [OF b] by (intro that(3)) simp_all
next
  case (sent out)
  then show thesis using lane_quiet(8) [OF b, of out] by (intro that(3)) simp_all
next
  case gone
  then show thesis by (intro that(3)) (simp_all add: lane_def in_flight_def)
qed

lemma step_lane:
  assumes "step c c'" and b: "books (s_reserved c) (s_pump c)" and n: "\<And>s. numbered_lane s c"
  shows "numbered_lane s c'"
  using step_kinds [OF assms(1) b]
proof cases
  case (1 f k f' j')
  show ?thesis
    using numbered_lane_snoc [OF n 1(3,2), of c' "s_pump c"] record_frame_facts(4) [OF 1(3), of s] n [of s] 1
    by (cases "s = k") (auto simp: numbered_lane_def)
qed (use numbered_lane_prefix [OF n, of s c'] in auto)

lemma start_books: "books 0 pump_start"
  by (simp add: books_def pump_start_def channel_def tail_wf_def tail_frames_def account_def owing_def terminal_owing_def
      EVENT_CAP_def)

lemma reach_books: "reach j c \<Longrightarrow> books (s_reserved c) (s_pump c)"
  by (induction rule: reach.induct) (auto simp: sys_start_def start_books intro: step_books)

lemma reach_numbered: "reach j c \<Longrightarrow> numbered_lane s c"
proof (induction arbitrary: s rule: reach.induct)
  case start
  show ?case by (simp add: numbered_lane_def lane_def in_flight_def sys_start_def pump_start_def channel_def ascending_def)
next
  case (more c c')
  then show ?case using step_lane reach_books by blast
qed

definition owed_kept :: "sys \<Rightarrow> bool" where
  "owed_kept c \<longleftrightarrow>
     (rx_open (p_out (s_pump c)) \<longrightarrow>
       (\<forall>s. filter must_order (lane s c) = filter (\<lambda>f. stream_name f = Some s) (s_owed c)))"

lemma live_frame_rx: "rx_open (p_out (live_frame f p)) = rx_open (p_out p)"
proof -
  have "p_out (on_dropped g q) = p_out q" for g q
    by (cases rule: on_dropped_cases [of g q]) auto
  then show ?thesis
    by (auto simp: live_frame_def send_live_frame_def send_def send_reply_def split: Sent.split)
qed

lemma step_rx_open: "step c c' \<Longrightarrow> rx_open (p_out (s_pump c')) \<Longrightarrow> rx_open (p_out (s_pump c))"
proof (induction rule: step.cases)
  case (ack c)
  then show ?case by (simp add: on_ack_def split: list.splits)
next
  case (take c)
  then show ?case by (simp add: tail_take_def split: list.splits if_splits)
next
  case (push c)
  then show ?case
    by (cases "draining (s_pump c)") (auto simp: tail_push_def send_ordered_def split: if_splits)
qed (auto simp: live_frame_rx send_def send_reply_def send_replay_response_def reserve_terminal_exit_def on_tick_def
      split: if_splits)

lemma step_owed:
  assumes "step c c'" and b: "books (s_reserved c) (s_pump c)" and o: "owed_kept c"
  shows "owed_kept c'"
proof (cases "rx_open (p_out (s_pump c'))")
  case True
  then have rx: "rx_open (p_out (s_pump c))" using step_rx_open [OF assms(1)] by simp
  from step_kinds [OF assms(1) b] show ?thesis
  proof cases
    case (1 f k f' j')
    have "filter must_order (added f' (s_pump c)) = (if must_order f' then [f'] else [])"
      using must_order_added [OF _ b rx, of f'] added_cases [of f' "s_pump c"] by (auto simp: stands_for_def)
    with 1 o rx show ?thesis by (auto simp: owed_kept_def)
  qed (use o rx in \<open>simp_all add: owed_kept_def\<close>)
qed (simp add: owed_kept_def)

lemma reach_owed: "reach j c \<Longrightarrow> owed_kept c"
proof (induction rule: reach.induct)
  case start
  show ?case by (simp add: owed_kept_def lane_def in_flight_def sys_start_def pump_start_def channel_def)
next
  case (more c c')
  then show ?case using step_owed reach_books by blast
qed

text \<open>
  C7. On every stream the event lane, what was delivered of it followed by what is on its way,
  carries strictly increasing numbers of the journal, however producer, tail task and writer
  interleave and whatever was dropped for congestion. While the writer lives, the frames that may not
  be dropped (a terminal's exit, a settlement notice bound to a connection) are on the lane, all of them,
  once, in the order they occurred.
\<close>

theorem lane_in_order_and_complete:
  assumes "reach j c"
  shows "ascending (lane s c) \<and> (\<forall>f \<in> set (lane s c). f_seq f \<noteq> None)
    \<and> (rx_open (p_out (s_pump c)) \<longrightarrow>
        filter must_order (lane s c) = filter (\<lambda>f. stream_name f = Some s) (s_owed c))"
proof -
  have "ascending (lane s c) \<and> (\<forall>f \<in> set (lane s c). f_seq f \<noteq> None)"
    using reach_numbered [OF assms, of s] by (auto simp: numbered_lane_def)
  with reach_owed [OF assms] show ?thesis by (simp add: owed_kept_def)
qed

definition exit_frame :: frame where
  "exit_frame = \<lparr>f_seq = None, f_payload = \<lparr>w_id = None, w_method = Some TERMINAL_EXITED, w_stream = Some ''term:w'',
     w_terminal = Some ''t1'', w_data = [], w_reliable = False, w_delivery = False\<rparr>\<rparr>"

definition exit_run :: sys where
  "exit_run =
     (let c = sys_start new_journal;
          c = c\<lparr>s_pump := (s_pump c)\<lparr>p_tail := reserve_terminal_exit (p_tail (s_pump c))\<rparr>, s_reserved := 1\<rparr>;
          (f', j') = record_frame ''term:w'' exit_frame (s_journal c)
      in c\<lparr>s_journal := j', s_pump := live_frame f' (s_pump c), s_owed := [f'], s_reserved := 0\<rparr>)"

lemma exit_run_reach: "reach new_journal exit_run"
proof -
  define c where "c = sys_start new_journal"
  define d where "d = c\<lparr>s_pump := (s_pump c)\<lparr>p_tail := reserve_terminal_exit (p_tail (s_pump c))\<rparr>, s_reserved := s_reserved c + 1\<rparr>"
  obtain f' j' where r: "record_frame ''term:w'' exit_frame (s_journal d) = (f', j')" by fastforce
  have "reach new_journal d"
    unfolding d_def c_def by (intro reach.more [OF reach.start] step.reserve)
  have x: "terminal_exit f'" "must_order f'"
    using record_frame_payload [OF r] by (simp_all add: terminal_exit_def must_order_def method_of_def exit_frame_def is_terminal_def)
  from \<open>reach new_journal d\<close> have "reach new_journal (d\<lparr>s_journal := j', s_pump := live_frame f' (s_pump d),
                   s_owed := s_owed d @ (if must_order f' then [f'] else []),
                   s_reserved := s_reserved d - (if terminal_exit f' then 1 else 0)\<rparr>)"
    by (rule reach.more, intro step.event [OF _ _ _ _ r])
      (simp_all add: exit_frame_def is_notification_def d_def c_def sys_start_def new_journal_def last_seq_def stream_of_def)
  then show ?thesis
    using r x by (simp add: exit_run_def d_def c_def Let_def sys_start_def)
qed

text \<open>A terminal exits on a fresh daemon: its exit is on the lane with the stream's first number.\<close>

theorem lane_in_order_and_complete_witness:
  "reach new_journal exit_run
   \<and> filter must_order (lane ''term:w'' exit_run) = [exit_frame\<lparr>f_seq := Some 1\<rparr>]
   \<and> ascending (lane ''term:w'' exit_run)"
proof -
  have "rx_open (p_out (s_pump exit_run))" "filter (\<lambda>f. stream_name f = Some ''term:w'') (s_owed exit_run) = [exit_frame\<lparr>f_seq := Some 1\<rparr>]"
    by code_simp+
  with lane_in_order_and_complete [OF exit_run_reach, of "''term:w''"] exit_run_reach show ?thesis
    by simp
qed

section \<open>Everything arrives\<close>

text \<open>The steps that need no new input: the tail task, the pump reading reports, and the writer.\<close>

inductive moves :: "sys \<Rightarrow> sys \<Rightarrow> bool" where
  take: "\<lbrakk>t_open (p_tail (s_pump c)); draining (s_pump c) = None; t_queue (p_tail (s_pump c)) \<noteq> []\<rbrakk>
     \<Longrightarrow> moves c (c\<lparr>s_pump := tail_take (s_pump c)\<rparr>)"
| push: "\<lbrakk>draining (s_pump c) \<noteq> None; length (events (p_out (s_pump c))) < EVENT_CAP; rx_open (p_out (s_pump c))\<rbrakk>
     \<Longrightarrow> moves c (c\<lparr>s_pump := tail_push (s_pump c)\<rparr>)"
| ack: "acks (s_pump c) \<noteq> [] \<Longrightarrow> moves c (c\<lparr>s_pump := on_ack (s_pump c)\<rparr>)"
| lease: "\<lbrakk>rx_open (p_out (s_pump c)); pending_write (p_out (s_pump c)) = None;
           replies (p_out (s_pump c)) \<noteq> [] \<or> events (p_out (s_pump c)) \<noteq> []\<rbrakk>
     \<Longrightarrow> moves c (c\<lparr>s_pump := (s_pump c)\<lparr>p_out := next_write (p_out (s_pump c))\<rparr>\<rparr>)"
| sent: "\<lbrakk>rx_open (p_out (s_pump c)); pending_write (p_out (s_pump c)) = Some out\<rbrakk> \<Longrightarrow>
     moves c (c\<lparr>s_pump := (s_pump c)\<lparr>p_out := commit (snd (take_replay (p_out (s_pump c))))\<rparr>,
               s_delivered := s_delivered c @ [out]\<rparr>)"

definition weight :: "sys \<Rightarrow> nat" where
  "weight c =
     (let p = s_pump c; ob = p_out p
      in 5 * length (t_queue (p_tail p)) + (if draining p = None then 0 else 4) + 2 * length (events ob)
         + 2 * length (replies ob) + (if pending_write ob = None then 0 else 1) + length (acks p))"

lemma moves_step: "moves c c' \<Longrightarrow> step c c'"
  by (induction rule: moves.induct) (auto intro: step.intros)

lemma moves_rx: "moves c c' \<Longrightarrow> rx_open (p_out (s_pump c)) \<Longrightarrow> rx_open (p_out (s_pump c'))"
  by (induction rule: moves.induct)
    (auto simp: tail_take_def tail_push_def send_ordered_def on_ack_def next_write_def commit_def take_replay_def
      split: list.splits)

lemma moves_owed: "moves c c' \<Longrightarrow> s_owed c' = s_owed c"
  by (induction rule: moves.induct) auto

lemma acknowledge_queue: "t_queue (acknowledge s t) = t_queue t"
  by (simp add: acknowledge_def split: option.split)

lemma moves_weight: "moves c c' \<Longrightarrow> weight c' < weight c"
  by (induction rule: moves.induct)
    (auto simp: weight_def Let_def tail_take_def tail_push_def send_ordered_def on_ack_def next_write_def commit_def
      take_replay_def acknowledge_queue neq_Nil_conv split: list.splits)

definition all_delivered :: "sys \<Rightarrow> bool" where
  "all_delivered c \<longleftrightarrow>
     in_flight (s_pump c) = [] \<and> replies (p_out (s_pump c)) = [] \<and> t_pending (p_tail (s_pump c)) = []
     \<and> t_blockers (p_tail (s_pump c)) = s_reserved c
     \<and> (\<forall>s. filter must_order (filter (on_lane s) (map o_frame (s_delivered c)))
             = filter (\<lambda>f. stream_name f = Some s) (s_owed c))"

lemma stuck_delivered:
  assumes r: "reach j c" and o: "rx_open (p_out (s_pump c))" and stuck: "\<And>c'. \<not> moves c c'"
  shows "all_delivered c"
proof -
  note b = reach_books [OF r]
  have t: "t_open (p_tail (s_pump c))" using b o by (simp add: books_def)
  have pw: "pending_write (p_out (s_pump c)) = None" using stuck moves.sent [OF o] by (metis option.exhaust)
  have re: "replies (p_out (s_pump c)) = []" "events (p_out (s_pump c)) = []" using stuck moves.lease [OF o pw] by blast+
  have d: "draining (s_pump c) = None"
    using stuck moves.push [of c] o re by (cases "draining (s_pump c)") (auto simp: EVENT_CAP_def)
  have q: "t_queue (p_tail (s_pump c)) = []" using stuck moves.take [OF t d] by blast
  have a: "acks (s_pump c) = []" using stuck moves.ack by blast
  have "owing (p_tail (s_pump c)) s = 0" for s
    using b t a d q by (simp add: books_def account_def tail_frames_def)
  moreover have "tail_wf (p_tail (s_pump c))" using b by (simp add: books_def)
  ultimately have "map_of (t_pending (p_tail (s_pump c))) = Map.empty"
    using owing_pos by (metis less_numeral_extra(3))
  then have p: "t_pending (p_tail (s_pump c)) = []" by simp
  have "in_flight (s_pump c) = []" using pw re d q by (simp add: in_flight_def)
  moreover have "t_blockers (p_tail (s_pump c)) = s_reserved c"
    using b p by (simp add: books_def terminal_owing_def)
  ultimately show ?thesis
    using reach_owed [OF r] o re p by (simp add: all_delivered_def owed_kept_def lane_def)
qed

lemma moves_reach: "moves\<^sup>*\<^sup>* c c' \<Longrightarrow> reach j c \<Longrightarrow> rx_open (p_out (s_pump c)) \<Longrightarrow>
    reach j c' \<and> rx_open (p_out (s_pump c')) \<and> s_owed c' = s_owed c"
  by (induction rule: rtranclp_induct) (auto intro: reach.more moves_step moves_rx simp: moves_owed)

text \<open>
  C8. Nothing owed waits forever. While the writer lives, the steps that need no new input cannot go
  on without end, and where they stop everything is delivered: no stream is sealed, the blockers of
  new terminals are exactly the reserved exits, and every frame that may not be dropped is on the wire, in order.
\<close>

theorem everything_arrives:
  assumes "reach j c" and "rx_open (p_out (s_pump c))"
  shows "wfp (\<lambda>d' d. moves d d')
    \<and> (\<exists>c'. moves\<^sup>*\<^sup>* c c' \<and> all_delivered c')
    \<and> (\<forall>c'. moves\<^sup>*\<^sup>* c c' \<and> (\<nexists>d. moves c' d) \<longrightarrow> all_delivered c' \<and> s_owed c' = s_owed c)"
proof -
  have wf: "wfp (\<lambda>d' d. moves d d')"
    by (rule wfp_if_convertible_to_nat [where f = weight]) (rule moves_weight)
  have final: "all_delivered c' \<and> s_owed c' = s_owed c" if "moves\<^sup>*\<^sup>* c c'" "\<nexists>d. moves c' d" for c'
    using moves_reach [OF that(1) assms] stuck_delivered that(2) by blast
  moreover have "\<exists>c'. moves\<^sup>*\<^sup>* c c' \<and> (\<nexists>d. moves c' d)"
    using wf
  proof (induction c rule: wfp_induct_rule)
    case (less c)
    then show ?case
      by (cases "\<exists>d. moves c d") (meson converse_rtranclp_into_rtranclp, blast)
  qed
  ultimately show ?thesis using wf by blast
qed


theorem everything_arrives_witness:
  "reach new_journal exit_run \<and> rx_open (p_out (s_pump exit_run))
   \<and> (\<exists>c'. moves\<^sup>*\<^sup>* exit_run c' \<and> all_delivered c')"
proof -
  have "rx_open (p_out (s_pump exit_run))" by code_simp
  with everything_arrives [OF exit_run_reach] exit_run_reach show ?thesis by blast
qed

end
