(* ===== verification/Recovery.thy ===== *)
theory Recovery
  imports Outbound Btree
begin

text \<open>
  One client of the executor's endpoint (\<open>src/rc/endpoint/output.rs\<close> and \<open>output/recovery.rs\<close>): a bounded
  queue of events, and what happens when the client is too slow for it. A session stream that no
  longer fits is followed by a cursor only, and caught up from the journal by a \<open>session.subscribe\<close>
  (\<open>src/rc/daemon/dispatch.rs\<close>) the endpoint makes on the client's behalf; a terminal loses a stretch
  and is told so.

  Times are natural numbers and request ids are numbered. Whether a byte budget admits a record is an
  argument. A message carries the receipt of a finished catch-up, which takes effect when its last
  frame is written, as dropping the last lease does in the code.

  The runs at the end put the journal, the notifications on their way and the requests beside the
  client; ClientStream proves what the client may rely on.
\<close>

section \<open>Catching up\<close>

definition MAX_LAGGED_STREAMS :: nat where "MAX_LAGGED_STREAMS = 1024"
definition MAX_RECOVERY_REQUESTS :: nat where "MAX_RECOVERY_REQUESTS = 8"
definition MAX_TERMINAL_GAPS :: nat where "MAX_TERMINAL_GAPS = 256"

definition TERMINAL_GAP_NOTICE :: string where
  "TERMINAL_GAP_NOTICE = [CHR 0x0D, CHR 0x0A] @
     ''[agit] this viewer fell behind; a stretch of terminal output could not be delivered.''
     @ [CHR 0x0D, CHR 0x0A]"

record Cursor =
  c_after :: u64
  c_latest :: u64
  c_request :: "nat option"
  c_retry :: nat

record TerminalGap =
  gap_of :: frame
  gap_exited :: "frame option"

record Recovery =
  lagging :: "Cursor btree"
  terminals :: "TerminalGap btree"

definition no_recovery :: Recovery where
  "no_recovery = \<lparr>lagging = [], terminals = []\<rparr>"

definition saturating_sub :: "'a::len word \<Rightarrow> 'a word \<Rightarrow> 'a word" where
  "saturating_sub a b = (if b \<le> a then a - b else 0)"

definition follows :: "string \<Rightarrow> u64 \<Rightarrow> Recovery \<Rightarrow> bool \<times> Recovery" where
  "follows s n r =
     (case map_of (lagging r) s of
        None \<Rightarrow> (False, r)
      | Some c \<Rightarrow> (True, r\<lparr>lagging := bt_insert s (c\<lparr>c_latest := max (c_latest c) n\<rparr>) (lagging r)\<rparr>))"

definition lagged :: "nat \<Rightarrow> string \<Rightarrow> u64 \<Rightarrow> Recovery \<Rightarrow> Recovery option" where
  "lagged now s n r =
     (if MAX_LAGGED_STREAMS \<le> length (lagging r) then None
      else Some (r\<lparr>lagging := bt_insert s
                    \<lparr>c_after = saturating_sub n 1, c_latest = n, c_request = None, c_retry = now\<rparr> (lagging r)\<rparr>))"

definition outstanding :: "Cursor btree \<Rightarrow> nat" where
  "outstanding m = length (filter (\<lambda>(_, c). c_request c \<noteq> None) m)"

text \<open>The next catch-up request: its id, its stream and the position it asks from.\<close>

definition next_request :: "nat \<Rightarrow> nat \<Rightarrow> Recovery \<Rightarrow> (nat \<times> string \<times> u64) option \<times> Recovery" where
  "next_request now rid r =
     (if MAX_RECOVERY_REQUESTS \<le> outstanding (lagging r) then (None, r)
      else case find (\<lambda>(_, c). c_request c = None \<and> c_retry c \<le> now) (lagging r) of
             None \<Rightarrow> (None, r)
           | Some (s, c) \<Rightarrow>
               (Some (rid, s, c_after c), r\<lparr>lagging := bt_insert s (c\<lparr>c_request := Some rid\<rparr>) (lagging r)\<rparr>))"

definition deadline :: "Recovery \<Rightarrow> nat option" where
  "deadline r =
     (if MAX_RECOVERY_REQUESTS \<le> outstanding (lagging r) then None
      else case map (c_retry \<circ> snd) (filter (\<lambda>(_, c). c_request c = None) (lagging r)) of
             [] \<Rightarrow> None
           | t # ts \<Rightarrow> Some (fold min ts t))"

definition second :: nat where "second = 1000"

definition postpone :: "nat \<Rightarrow> nat \<Rightarrow> Recovery \<Rightarrow> Recovery" where
  "postpone now rid r =
     (case find (\<lambda>(_, c). c_request c = Some rid) (lagging r) of
        None \<Rightarrow> r
      | Some (s, c) \<Rightarrow>
          r\<lparr>lagging := bt_insert s (c\<lparr>c_request := None, c_retry := now + second\<rparr>) (lagging r)\<rparr>)"

definition recovery_contains :: "nat \<Rightarrow> Recovery \<Rightarrow> bool" where
  "recovery_contains rid r = list_ex (\<lambda>(_, c). c_request c = Some rid) (lagging r)"

definition gap :: "string \<Rightarrow> u64 \<Rightarrow> frame" where
  "gap s through =
     \<lparr>f_seq = Some through,
      f_payload = \<lparr>w_id = None, w_method = Some ''session.gap'', w_stream = Some s, w_terminal = None, w_data = [],
        w_reliable = False, w_delivery = False\<rparr>\<rparr>"

text \<open>
  The answer to a subscription: the two numbers of its result, each absent when the field is missing,
  an error that asks to come again, or another error.
\<close>

datatype answer = Subscribed "u64 option" "u64 option" | Busy | Refused

definition response ::
  "nat \<Rightarrow> nat \<Rightarrow> answer \<Rightarrow> frame list \<Rightarrow> Recovery \<Rightarrow> (string \<times> u64) option \<times> frame list \<times> Recovery" where
  "response now rid ans frames r =
     (case find (\<lambda>(_, c). c_request c = Some rid) (lagging r) of
        None \<Rightarrow> (None, frames, r)
      | Some (s, c) \<Rightarrow>
          (case ans of
             Busy \<Rightarrow>
               (None, frames, r\<lparr>lagging := bt_insert s (c\<lparr>c_request := None, c_retry := now + second\<rparr>) (lagging r)\<rparr>)
           | Refused \<Rightarrow> (Some (s, c_latest c), frames @ [gap s (c_latest c)], r)
           | Subscribed from_no last_no \<Rightarrow>
               (let seqs = List.map_filter f_seq frames;
                    high = (case seqs of [] \<Rightarrow> c_after c | n # ns \<Rightarrow> fold max ns n);
                    through = max high (case last_no of Some n \<Rightarrow> n | None \<Rightarrow> c_after c);
                    start = (case from_no of Some n \<Rightarrow> n | None \<Rightarrow> 0)
                in (Some (s, through),
                    (if start > saturating_add (c_after c) 1 then gap s (start - 1) # frames else frames), r))))"

text \<open>The end of a catch-up (dropping \<open>Completed\<close>).\<close>

definition completed :: "string \<times> u64 \<Rightarrow> Recovery \<Rightarrow> Recovery" where
  "completed = (\<lambda>(s, through) r.
     case map_of (lagging r) s of
       None \<Rightarrow> r
     | Some c \<Rightarrow>
         (let c = c\<lparr>c_after := max (c_after c) through, c_request := None\<rparr>
          in r\<lparr>lagging := (if c_after c \<ge> c_latest c then bt_remove s (lagging r) else bt_insert s c (lagging r))\<rparr>))"

section \<open>Terminals\<close>

definition terminal_gapped :: "string \<Rightarrow> frame \<Rightarrow> Recovery \<Rightarrow> bool \<times> Recovery" where
  "terminal_gapped t f r =
     (case map_of (terminals r) t of
        None \<Rightarrow> (False, r)
      | Some g \<Rightarrow>
          (True, if method_of f = TERMINAL_EXITED
                 then r\<lparr>terminals := bt_insert t (g\<lparr>gap_exited := Some f\<rparr>) (terminals r)\<rparr> else r))"

definition terminal_lagged :: "string \<Rightarrow> frame \<Rightarrow> Recovery \<Rightarrow> Recovery option" where
  "terminal_lagged t f r =
     (if MAX_TERMINAL_GAPS \<le> length (terminals r) then None
      else
        (let n = \<lparr>f_seq = f_seq f,
                  f_payload = \<lparr>w_id = None, w_method = Some TERMINAL_OUTPUT, w_stream = stream_name f,
                    w_terminal = Some t, w_data = TERMINAL_GAP_NOTICE, w_reliable = False, w_delivery = False\<rparr>\<rparr>;
             e = (if method_of f = TERMINAL_EXITED then Some f else None)
         in Some (r\<lparr>terminals := bt_insert t \<lparr>gap_of = n, gap_exited = e\<rparr> (terminals r)\<rparr>)))"

definition next_terminal :: "Recovery \<Rightarrow> frame list option \<times> Recovery" where
  "next_terminal r =
     (case terminals r of
        [] \<Rightarrow> (None, r)
      | (t, g) # _ \<Rightarrow>
          (Some (gap_of g # (case gap_exited g of None \<Rightarrow> [] | Some f \<Rightarrow> [f])),
           r\<lparr>terminals := bt_remove t (terminals r)\<rparr>))"

section \<open>A client\<close>

definition CLIENT_QUEUE :: nat where "CLIENT_QUEUE = 256"
definition MAX_PENDING :: nat where "MAX_PENDING = 64"

record ClientMessage =
  m_frames :: "frame list"
  m_receipt :: "(string \<times> u64) option"

record client =
  k_replies :: "frame list"
  k_backfills :: "ClientMessage list"
  k_events :: "ClientMessage list"
  k_active :: "ClientMessage option"
  k_writing :: "ClientMessage option"
  k_written :: "frame list"
  k_recovery :: Recovery
  k_open :: bool

definition new_client :: client where
  "new_client =
     \<lparr>k_replies = [], k_backfills = [], k_events = [], k_active = None, k_writing = None, k_written = [],
      k_recovery = no_recovery, k_open = True\<rparr>"

definition single :: "frame \<Rightarrow> ClientMessage" where
  "single f = \<lparr>m_frames = [f], m_receipt = None\<rparr>"

definition enqueue_event :: "bool \<Rightarrow> frame \<Rightarrow> client \<Rightarrow> client option" where
  "enqueue_event room f k =
     (if room \<and> length (k_events k) < CLIENT_QUEUE then Some (k\<lparr>k_events := k_events k @ [single f]\<rparr>) else None)"

definition stopping_with :: "client option \<Rightarrow> client \<Rightarrow> client" where
  "stopping_with res k = (case res of Some k' \<Rightarrow> k' | None \<Rightarrow> k\<lparr>k_open := False\<rparr>)"

definition terminal_of :: "frame \<Rightarrow> string option" where
  "terminal_of f =
     (case stream_name f of
        None \<Rightarrow> None
      | Some s \<Rightarrow> if is_terminal s then w_terminal (f_payload f) else None)"

definition send_event :: "bool \<Rightarrow> nat \<Rightarrow> frame \<Rightarrow> client \<Rightarrow> client" where
  "send_event room now f k =
     (case terminal_of f of
        Some t \<Rightarrow>
          (let (gapped, r) = terminal_gapped t f (k_recovery k)
           in if gapped then k\<lparr>k_recovery := r\<rparr>
              else case enqueue_event room f k of
                     Some k' \<Rightarrow> k'
                   | None \<Rightarrow>
                       stopping_with (map_option (\<lambda>r. k\<lparr>k_recovery := r\<rparr>) (terminal_lagged t f (k_recovery k))) k)
      | None \<Rightarrow>
          (case (stream_name f, f_seq f) of
             (Some s, Some n) \<Rightarrow>
               (let (following, r) = follows s n (k_recovery k)
                in if following then k\<lparr>k_recovery := r\<rparr>
                   else case enqueue_event room f k of
                          Some k' \<Rightarrow> k'
                        | None \<Rightarrow>
                            stopping_with (map_option (\<lambda>r. k\<lparr>k_recovery := r\<rparr>) (lagged now s n (k_recovery k))) k)
           | _ \<Rightarrow> stopping_with (enqueue_event room f k) k))"

definition recover :: "bool \<Rightarrow> nat \<Rightarrow> nat \<Rightarrow> answer \<Rightarrow> frame list \<Rightarrow> client \<Rightarrow> client" where
  "recover budget now rid ans frames k =
     (if \<not> budget then k\<lparr>k_recovery := postpone now rid (k_recovery k)\<rparr>
      else
        (let (receipt, fs, r) = response now rid ans frames (k_recovery k)
         in case receipt of
              None \<Rightarrow> k\<lparr>k_recovery := r\<rparr>
            | Some d \<Rightarrow>
                if length (k_backfills k) < MAX_PENDING
                then k\<lparr>k_recovery := r, k_backfills := k_backfills k @ [\<lparr>m_frames = fs, m_receipt = Some d\<rparr>]\<rparr>
                else k\<lparr>k_recovery := completed d r, k_open := False\<rparr>))"

definition settle :: "(string \<times> u64) option \<Rightarrow> client \<Rightarrow> client" where
  "settle d k = (case d of None \<Rightarrow> k | Some d \<Rightarrow> k\<lparr>k_recovery := completed d (k_recovery k)\<rparr>)"

text \<open>Take one frame of the active message for writing; with the last one goes the receipt.\<close>

definition pop_active :: "ClientMessage \<Rightarrow> client \<Rightarrow> client" where
  "pop_active b k =
     (case m_frames b of
        [] \<Rightarrow> settle (m_receipt b) (k\<lparr>k_active := None\<rparr>)
      | [f] \<Rightarrow> k\<lparr>k_active := None, k_writing := Some b\<rparr>
      | f # fs \<Rightarrow> k\<lparr>k_active := Some (b\<lparr>m_frames := fs\<rparr>), k_writing := Some (single f)\<rparr>)"

text \<open>One round of \<open>ClientMessages::next\<close>, with the request it makes.\<close>

definition next_round :: "nat \<Rightarrow> nat \<Rightarrow> client \<Rightarrow> (nat \<times> string \<times> u64) option \<times> client" where
  "next_round now rid k =
     (case k_replies k of
        f # rest \<Rightarrow> (None, k\<lparr>k_replies := rest, k_writing := Some (single f)\<rparr>)
      | [] \<Rightarrow>
     (case k_active k of
        Some b \<Rightarrow> (None, pop_active b k)
      | None \<Rightarrow>
     (case k_backfills k of
        b # rest \<Rightarrow> (None, k\<lparr>k_backfills := rest, k_active := Some b\<rparr>)
      | [] \<Rightarrow>
     (case k_events k of
        b # rest \<Rightarrow> (None, k\<lparr>k_events := rest, k_active := Some b\<rparr>)
      | [] \<Rightarrow>
     (case next_terminal (k_recovery k) of
        (Some fs, r) \<Rightarrow> (None, k\<lparr>k_recovery := r, k_active := Some \<lparr>m_frames = fs, m_receipt = None\<rparr>\<rparr>)
      | (None, _) \<Rightarrow>
          (let (q, r) = next_request now rid (k_recovery k) in (q, k\<lparr>k_recovery := r\<rparr>)))))))"

definition wrote :: "client \<Rightarrow> client" where
  "wrote k =
     (case k_writing k of
        None \<Rightarrow> k
      | Some b \<Rightarrow> settle (m_receipt b) (k\<lparr>k_writing := None, k_written := k_written k @ m_frames b\<rparr>))"

section \<open>The subscription at the daemon\<close>

definition REPLAY_CAP :: nat where "REPLAY_CAP = 2000"

definition subscribe :: "wire Journal \<Rightarrow> string \<Rightarrow> u64 \<Rightarrow> frame list \<times> u64 \<times> u64" where
  "subscribe j s after =
     (let frames = fst (replay j s after);
          frames = drop (length frames - REPLAY_CAP) frames
      in (frames, from_seq j s after (case frames of [] \<Rightarrow> None | f # _ \<Rightarrow> f_seq f), last_seq j s))"

section \<open>Runs\<close>

text \<open>
  The journal with its history, the notifications on their way to the client in order, and the
  catch-up requests: id, stream, position, and the answer once the daemon has made it. The queue
  holds what the event lane delivers (see Outbound) when nothing was dropped there.
\<close>

record world =
  w_journal :: "wire Journal"
  w_hist :: "wire hist"
  w_queue :: "frame list"
  w_calls :: "(nat \<times> string \<times> u64 \<times> (answer \<times> frame list) option) list"
  w_next :: nat
  w_client :: client

definition attach :: "wire Journal \<Rightarrow> wire hist \<Rightarrow> world" where
  "attach j h = \<lparr>w_journal = j, w_hist = h, w_queue = [], w_calls = [], w_next = 0, w_client = new_client\<rparr>"

inductive wstep :: "world \<Rightarrow> world \<Rightarrow> bool" where
  journal: "jstep (w_journal w, w_hist w) (j', w_hist w) \<Longrightarrow> wstep w (w\<lparr>w_journal := j'\<rparr>)"
| event: "\<lbrakk>stream_name f = Some s; method_of f \<noteq> ''session.gap''; last_seq (w_journal w) s \<noteq> - 1;
           record_frame s f (w_journal w) = (f', j')\<rbrakk>
     \<Longrightarrow> wstep w (w\<lparr>w_journal := j', w_hist := (w_hist w)(s := w_hist w s @ [f']), w_queue := w_queue w @ [f']\<rparr>)"
| notify: "\<lbrakk>k_open (w_client w); w_queue w = f # q\<rbrakk>
     \<Longrightarrow> wstep w (w\<lparr>w_queue := q, w_client := send_event room now f (w_client w)\<rparr>)"
| reply: "stream_name f = None \<Longrightarrow>
     wstep w (w\<lparr>w_client := (w_client w)\<lparr>k_replies := k_replies (w_client w) @ [f]\<rparr>\<rparr>)"
| round: "\<lbrakk>k_open (w_client w); k_writing (w_client w) = None; next_round now (w_next w) (w_client w) = (None, k')\<rbrakk>
     \<Longrightarrow> wstep w (w\<lparr>w_client := k'\<rparr>)"
| request: "\<lbrakk>k_open (w_client w); k_writing (w_client w) = None;
             next_round now (w_next w) (w_client w) = (Some (rid, s, a), k')\<rbrakk>
     \<Longrightarrow> wstep w (w\<lparr>w_client := k', w_calls := w_calls w @ [(rid, s, a, None)], w_next := w_next w + 1\<rparr>)"
| wrote: "k_open (w_client w) \<Longrightarrow> wstep w (w\<lparr>w_client := wrote (w_client w)\<rparr>)"
| answer: "\<lbrakk>w_calls w = xs @ (rid, s, a, None) # ys; last_seq (w_journal w) s \<noteq> - 1;
            subscribe (w_journal w) s a = (fs, start, lst)\<rbrakk>
     \<Longrightarrow> wstep w (w\<lparr>w_calls := xs @ (rid, s, a, Some (Subscribed (Some start) (Some lst), fs)) # ys\<rparr>)"
| refuse: "\<lbrakk>w_calls w = xs @ (rid, s, a, None) # ys; ans = Busy \<or> ans = Refused\<rbrakk>
     \<Longrightarrow> wstep w (w\<lparr>w_calls := xs @ (rid, s, a, Some (ans, [])) # ys\<rparr>)"
| deliver: "\<lbrakk>k_open (w_client w); w_calls w = xs @ (rid, s, a, Some (ans, fs)) # ys\<rbrakk>
     \<Longrightarrow> wstep w (w\<lparr>w_calls := xs @ ys, w_client := recover budget now rid ans fs (w_client w)\<rparr>)"
| hang_up: "wstep w (w\<lparr>w_client := (w_client w)\<lparr>k_open := False\<rparr>\<rparr>)"

inductive wreach :: "wire Journal \<Rightarrow> wire hist \<Rightarrow> world \<Rightarrow> bool" for j h where
  start: "jreach (j, h) \<Longrightarrow> (\<And>s f. f \<in> set (h s) \<Longrightarrow> stream_name f = Some s \<and> method_of f \<noteq> ''session.gap'')
    \<Longrightarrow> wreach j h (attach j h)"
| more: "wreach j h w \<Longrightarrow> wstep w w' \<Longrightarrow> wreach j h w'"

end
