(* ===== verification/ClientStream.thy ===== *)
theory ClientStream
  imports Recovery
begin

text \<open>
  What a client of the endpoint may believe of the session streams it reads. The specification is
  \<open>honest\<close> and \<open>covered\<close>; the invariant \<open>world_ok\<close> ties the cursor of a lagging stream, the requests made
  for it, their answers and the receipts in the queues to the journal's history, and every step of
  Recovery keeps it. The theorems: whatever the queues, the requests and the journal do, what a client
  reads of a session never jumps over an event without saying so, and a client with nothing left to
  be told has missed nothing silently.
\<close>

section \<open>What a client may believe\<close>

definition is_gap :: "frame \<Rightarrow> bool" where
  "is_gap f \<longleftrightarrow> method_of f = ''session.gap''"

abbreviation seq_of :: "frame \<Rightarrow> u64" where
  "seq_of f \<equiv> the (f_seq f)"

text \<open>A number is accounted for by the frames read so far: before the start, read, or inside an announced gap.\<close>

definition covered :: "u64 \<Rightarrow> frame list \<Rightarrow> u64 \<Rightarrow> bool" where
  "covered b l n \<longleftrightarrow> n \<le> b \<or> (\<exists>f \<in> set l. seq_of f = n \<or> is_gap f \<and> n \<le> seq_of f)"

text \<open>No event is read before every earlier one of the history is accounted for.\<close>

definition honest :: "frame list \<Rightarrow> u64 \<Rightarrow> frame list \<Rightarrow> bool" where
  "honest hist b l \<longleftrightarrow>
     (\<forall>i < length l. \<not> is_gap (l ! i) \<longrightarrow>
        (\<forall>g \<in> set hist. seq_of g < seq_of (l ! i) \<longrightarrow> covered b (take i l) (seq_of g)))"

lemma covered_append: "covered b (l @ m) n \<longleftrightarrow> covered b l n \<or> covered b m n"
  by (auto simp: covered_def)

lemma honest_Nil [simp]: "honest h b []"
  by (simp add: honest_def)

lemma honest_snoc:
  "honest h b (l @ [f]) \<longleftrightarrow>
     honest h b l \<and> (\<not> is_gap f \<longrightarrow> (\<forall>g \<in> set h. seq_of g < seq_of f \<longrightarrow> covered b l (seq_of g)))"
  by (auto simp: honest_def less_Suc_eq nth_append)

lemma honest_prefix: "honest h b (l @ m) \<Longrightarrow> honest h b l"
  by (induction m rule: rev_induct) (simp_all add: honest_snoc flip: append_assoc)

lemma honest_more_history:
  assumes "honest h b l" and "\<And>f. f \<in> set l \<Longrightarrow> seq_of f \<le> seq_of g"
  shows "honest (h @ [g]) b l"
  using assms by (auto simp: honest_def) (meson leD nth_mem)

text \<open>A batch that continues from position \<open>a\<close>.\<close>

definition continues :: "frame list \<Rightarrow> u64 \<Rightarrow> frame list \<Rightarrow> u64 \<Rightarrow> u64 \<Rightarrow> bool" where
  "continues h a fs start lst \<longleftrightarrow>
     ascending fs \<and> (\<forall>f \<in> set fs. f_seq f \<noteq> None \<and> seq_of f \<le> lst \<and> \<not> is_gap f)
     \<and> (start > saturating_add a 1 \<longrightarrow> start - 1 \<le> lst)
     \<and> (\<forall>g \<in> set h. a < seq_of g \<and> seq_of g \<le> lst \<longrightarrow> seq_of g \<in> seq_of ` set fs \<or> seq_of g < start)"

definition lead :: "string \<Rightarrow> u64 \<Rightarrow> u64 \<Rightarrow> frame list" where
  "lead s a start = (if start > saturating_add a 1 then [gap s (start - 1)] else [])"

lemma is_gap_gap [simp]: "is_gap (gap s n)" "f_seq (gap s n) = Some n" "stream_name (gap s n) = Some s"
  by (simp_all add: is_gap_def gap_def method_of_def)

lemma lead_covers:
  assumes "a < n" and "n < start"
  shows "covered b (lead s a start) n"
proof -
  have "a + 1 \<le> n" using assms(1) by (metis inc_le)
  moreover have "a \<le> a + 1" using assms(1) by (metis less_imp_le not_less word_less_inc word_order.extremum)
  ultimately have "saturating_add a 1 < start"
    using assms by (auto simp: saturating_add_def intro: le_less_trans)
  moreover have "n \<le> start - 1" using assms(2) by unat_arith
  ultimately show ?thesis by (simp add: lead_def covered_def)
qed

lemma continues_honest:
  assumes l: "honest h b l" and a: "\<And>g. g \<in> set h \<Longrightarrow> seq_of g \<le> a \<Longrightarrow> covered b l (seq_of g)"
    and c: "continues h a fs start lst"
  shows "honest h b (l @ lead s a start @ fs)"
proof -
  have "honest h b (l @ lead s a start @ p)" if "prefix p fs" for p
    using that
  proof (induction p rule: rev_induct)
    case Nil
    then show ?case using l by (simp add: lead_def honest_snoc)
  next
    case (snoc f p)
    then obtain rest where fs: "fs = p @ f # rest" by (auto simp: prefix_def)
    have "covered b (l @ lead s a start @ p) (seq_of g)" if g: "g \<in> set h" "seq_of g < seq_of f" for g
    proof (cases "seq_of g \<le> a")
      case True
      with a g show ?thesis by (simp add: covered_append)
    next
      case False
      then consider "seq_of g \<in> seq_of ` set fs" | "seq_of g < start"
        using c g fs by (fastforce simp: continues_def)
      then show ?thesis
      proof cases
        case 1
        then have "seq_of g \<in> seq_of ` set p"
          using c g unfolding fs by (fastforce simp: continues_def ascending_def sorted_wrt_append)
        then show ?thesis by (auto simp: covered_def)
      next
        case 2
        with False lead_covers [of a "seq_of g" start b s] show ?thesis by (simp add: covered_append not_le)
      qed
    qed
    moreover have "honest h b (l @ lead s a start @ p)"
      using snoc by (meson append_prefixD)
    ultimately show ?case
      using honest_snoc [of h b "l @ lead s a start @ p" f] by simp
  qed
  from this [of fs] show ?thesis by simp
qed

lemma continues_covers:
  assumes "\<And>g. g \<in> set h \<Longrightarrow> seq_of g \<le> a \<Longrightarrow> covered b l (seq_of g)"
    and "continues h a fs start lst" and "g \<in> set h" and "seq_of g \<le> lst"
  shows "covered b (l @ lead s a start @ fs) (seq_of g)"
proof (cases "seq_of g \<le> a")
  case True
  with assms show ?thesis by (simp add: covered_append)
next
  case False
  then consider "seq_of g \<in> seq_of ` set fs" | "seq_of g < start"
    using assms by (auto simp: continues_def not_le)
  then show ?thesis
    using False lead_covers [of a "seq_of g" start b s]
    by cases (auto simp: covered_append not_le, auto simp: covered_def)
qed

text \<open>What a subscription answers continues from the position it was asked for.\<close>

lemma subscribe_continues:
  assumes "jreach (j, h)" and "last_seq j s \<noteq> - 1" and "subscribe j s a = (fs, start, lst)"
    and "\<And>f. f \<in> set (h s) \<Longrightarrow> \<not> is_gap f" and "a \<le> last_seq j s"
  shows "continues (h s) a fs start lst" and "lst = last_seq j s" and "set fs \<subseteq> set (h s)"
proof -
  obtain out lowest where r: "replay j s a = (out, lowest)" by fastforce
  note out = jreach_replay [OF assms(1,2) r]
  have some: "f_seq f \<noteq> None \<and> seq_of f \<le> last_seq j s" if "f \<in> set (h s)" for f
    using that jreach_stream [OF assms(1), of s] by (cases "stream_of j s"; fastforce simp: stream_ok_def last_seq_def)
  have "ascending (h s)"
    using jreach_stream [OF assms(1), of s] by (cases "stream_of j s") (auto simp: stream_ok_def ascending_def)
  then have asc: "ascending out" unfolding out by (simp add: ascending_def sorted_wrt_filter)
  define d where "d = length out - REPLAY_CAP"
  have fs: "fs = drop d out" and st: "start = from_seq j s a (case fs of [] \<Rightarrow> None | f # _ \<Rightarrow> f_seq f)"
    and lst: "lst = last_seq j s"
    using assms(3) r by (auto simp: subscribe_def Let_def d_def)
  show "lst = last_seq j s" by (rule lst)
  have sub: "set fs \<subseteq> set out" unfolding fs by (rule set_drop_subset)
  then show "set fs \<subseteq> set (h s)" unfolding out by auto
  have afs: "ascending fs" unfolding fs using asc by (simp add: ascending_def sorted_wrt_drop)
  have "seq_of g \<in> seq_of ` set fs \<or> seq_of g < start" if g: "g \<in> set (h s)" "a < seq_of g" for g
  proof (cases fs)
    case Nil
    have "a < last_seq j s" using g some [OF g(1)] by (meson less_le_trans)
    then have "start = last_seq j s + 1"
      using word_less_inc [OF assms(2)] st Nil
      by (auto simp: from_seq_def saturating_add_def Let_def less_imp_le dest: leD)
    then show ?thesis using some [OF g(1)] word_less_inc [OF assms(2)] by (auto intro: le_less_trans)
  next
    case (Cons f r')
    then have f: "f \<in> set out" "f_seq f = Some start"
      using sub some [of f] st by (auto simp: out from_seq_def)
    show ?thesis
    proof (cases "seq_of g < start")
      case False
      then have "g \<in> set out" using f g by (auto simp: out not_less)
      moreover have "g \<notin> set (take d out)"
      proof
        assume "g \<in> set (take d out)"
        moreover have "ascending (take d out @ f # r')" using asc fs Cons by (metis append_take_drop_id)
        ultimately have "seq_of g < seq_of f" by (auto simp: ascending_def sorted_wrt_append)
        with False f(2) show False by simp
      qed
      ultimately have "g \<in> set fs" unfolding fs by (metis Un_iff append_take_drop_id set_append)
      then show ?thesis by blast
    qed simp
  qed
  moreover have "start - 1 \<le> lst" if "start > saturating_add a 1"
  proof (cases fs)
    case Nil
    then have "start = last_seq j s + 1"
      using that st word_less_inc [OF assms(2)]
      by (auto simp: from_seq_def saturating_add_def Let_def less_imp_le split: if_splits)
    then show ?thesis by (simp add: lst)
  next
    case (Cons f r')
    then have "f \<in> set (h s)" using sub by (auto simp: out)
    then have "start \<le> lst" using some st Cons by (fastforce simp: lst from_seq_def)
    moreover have "start - 1 \<le> start" using that by unat_arith
    ultimately show ?thesis by (rule order_trans [rotated])
  qed
  ultimately show "continues (h s) a fs start lst"
    using afs some sub assms(4) unfolding continues_def lst out by auto
qed

section \<open>The invariant of a stream\<close>

definition messages :: "client \<Rightarrow> ClientMessage list" where
  "messages k =
     (case k_writing k of None \<Rightarrow> [] | Some m \<Rightarrow> [m]) @ (case k_active k of None \<Rightarrow> [] | Some m \<Rightarrow> [m])
     @ k_backfills k @ k_events k"

text \<open>What the client reads of a stream, once everything queued is written.\<close>

definition reading :: "string \<Rightarrow> client \<Rightarrow> frame list" where
  "reading s k = filter (\<lambda>f. stream_name f = Some s) (k_written k @ concat (map m_frames (messages k)))"

abbreviation cursor :: "string \<Rightarrow> client \<Rightarrow> Cursor option" where
  "cursor s k \<equiv> map_of (lagging (k_recovery k)) s"

definition queued_events :: "string \<Rightarrow> client \<Rightarrow> frame list" where
  "queued_events s k = filter (\<lambda>f. stream_name f = Some s) (concat (map m_frames (k_events k)))"

definition receipts :: "client \<Rightarrow> (string \<times> u64) list" where
  "receipts k = List.map_filter m_receipt (messages k)"

text \<open>
  The books of the whole client: a call belongs to the cursor that made it, a receipt to a cursor whose
  call was answered, and no cursor has two of them.
\<close>

definition requests_wf :: "client \<Rightarrow> nat \<Rightarrow> bool" where
  "requests_wf k nxt \<longleftrightarrow>
     bt_wf (lagging (k_recovery k))
     \<and> (\<forall>s c r. cursor s k = Some c \<and> c_request c = Some r \<longrightarrow> r < nxt)
     \<and> (\<forall>s s' c c' r. cursor s k = Some c \<and> cursor s' k = Some c' \<and> c_request c = Some r \<and> c_request c' = Some r
          \<longrightarrow> s = s')"

definition call_fits :: "client \<Rightarrow> nat \<times> string \<times> u64 \<times> (answer \<times> frame list) option \<Rightarrow> bool" where
  "call_fits k = (\<lambda>(r, s, a, ans).
     (\<exists>c. cursor s k = Some c \<and> c_request c = Some r \<and> c_after c = a)
     \<and> (\<not> is_terminal s \<longrightarrow> queued_events s k = [])
     \<and> (case ans of None \<Rightarrow> True | Some (_, fs) \<Rightarrow> \<forall>f \<in> set fs. stream_name f = Some s))"

definition receipt_fits :: "nat set \<Rightarrow> client \<Rightarrow> string \<Rightarrow> bool" where
  "receipt_fits ids k s \<longleftrightarrow> (\<exists>c r. cursor s k = Some c \<and> c_request c = Some r \<and> r \<notin> ids)"

definition calls_wf :: "world \<Rightarrow> bool" where
  "calls_wf w \<longleftrightarrow>
     requests_wf (w_client w) (w_next w) \<and> distinct (map fst (w_calls w))
     \<and> (\<forall>q \<in> set (w_calls w). call_fits (w_client w) q)
     \<and> distinct (map fst (receipts (w_client w)))
     \<and> (\<forall>(s, t) \<in> set (receipts (w_client w)). receipt_fits (fst ` set (w_calls w)) (w_client w) s)"

definition seen :: "u64 \<Rightarrow> string \<Rightarrow> world \<Rightarrow> u64 \<Rightarrow> bool" where
  "seen b s w n \<longleftrightarrow> (\<forall>g \<in> set (w_hist w s). seq_of g \<le> n \<longrightarrow> covered b (reading s (w_client w)) (seq_of g))"

definition caught_up :: "u64 \<Rightarrow> string \<Rightarrow> world \<Rightarrow> bool" where
  "caught_up b s w \<longleftrightarrow>
     (\<exists>pre. w_hist w s = pre @ filter (\<lambda>f. stream_name f = Some s) (w_queue w)
        \<and> (case cursor s (w_client w) of
             None \<Rightarrow> (\<forall>g \<in> set pre. covered b (reading s (w_client w)) (seq_of g))
           | Some c \<Rightarrow> (\<forall>g \<in> set pre. seq_of g \<le> c_latest c)
               \<and> c_latest c \<le> last_seq (w_journal w) s \<and> c_after c \<le> last_seq (w_journal w) s \<and> seen b s w (c_after c)))"

definition receipts_ok :: "u64 \<Rightarrow> string \<Rightarrow> world \<Rightarrow> bool" where
  "receipts_ok b s w \<longleftrightarrow>
     (\<forall>t. (s, t) \<in> set (receipts (w_client w)) \<longrightarrow> t \<le> last_seq (w_journal w) s \<and> seen b s w t)"

definition fits :: "frame list \<Rightarrow> u64 \<Rightarrow> u64 \<Rightarrow> answer \<times> frame list \<Rightarrow> bool" where
  "fits h l a ans =
     (case ans of
        (Subscribed (Some start) (Some lst), fs) \<Rightarrow> lst \<le> l \<and> continues h a fs start lst
      | (Subscribed _ _, _) \<Rightarrow> False
      | (_, fs) \<Rightarrow> fs = [])"

lemma fits_mono: "fits h l a ans \<Longrightarrow> l \<le> l' \<Longrightarrow> fits h l' a ans"
  unfolding fits_def by (cases ans; cases "fst ans") (auto split: option.splits)

definition answers_ok :: "string \<Rightarrow> world \<Rightarrow> bool" where
  "answers_ok s w \<longleftrightarrow>
     (\<forall>r a ans. (r, s, a, Some ans) \<in> set (w_calls w) \<longrightarrow> fits (w_hist w s) (last_seq (w_journal w) s) a ans)"

definition readable :: "u64 \<Rightarrow> string \<Rightarrow> world \<Rightarrow> bool" where
  "readable b s w \<longleftrightarrow>
     honest (w_hist w s) b (reading s (w_client w))
     \<and> (\<forall>f \<in> set (reading s (w_client w)). seq_of f \<le> last_seq (w_journal w) s)
     \<and> (\<forall>f \<in> set (w_hist w s). stream_name f = Some s \<and> \<not> is_gap f)"

definition stream_ok_for :: "u64 \<Rightarrow> string \<Rightarrow> world \<Rightarrow> bool" where
  "stream_ok_for b s w \<longleftrightarrow>
     readable b s w \<and> (k_open (w_client w) \<longrightarrow> caught_up b s w \<and> receipts_ok b s w \<and> answers_ok s w)"

definition lanes_apart :: "client \<Rightarrow> bool" where
  "lanes_apart k \<longleftrightarrow>
     (\<forall>f \<in> set (k_replies k). stream_name f = None)
     \<and> (\<forall>g \<in> snd ` set (terminals (k_recovery k)).
          \<forall>f \<in> set (gap_of g # (case gap_exited g of None \<Rightarrow> [] | Some f \<Rightarrow> [f])).
            \<exists>s. stream_name f = Some s \<and> is_terminal s)"

definition world_ok :: "(string \<Rightarrow> u64) \<Rightarrow> world \<Rightarrow> bool" where
  "world_ok b w \<longleftrightarrow>
     jreach (w_journal w, w_hist w) \<and> (\<forall>f \<in> set (w_queue w). f_seq f \<noteq> None)
     \<and> (\<forall>s. \<forall>f \<in> set (w_hist w s). stream_name f = Some s \<and> \<not> is_gap f)
     \<and> lanes_apart (w_client w) \<and> (k_open (w_client w) \<longrightarrow> calls_wf w)
     \<and> (\<forall>s. \<not> is_terminal s \<longrightarrow> stream_ok_for (b s) s w)"

text \<open>A step that does not touch a stream keeps what is known of it.\<close>

lemma stream_ok_for_same:
  assumes ok: "stream_ok_for b s w" and h: "w_hist w' s = w_hist w s"
    and l: "last_seq (w_journal w) s \<le> last_seq (w_journal w') s"
    and q: "filter (\<lambda>f. stream_name f = Some s) (w_queue w') = filter (\<lambda>f. stream_name f = Some s) (w_queue w)"
    and r: "reading s (w_client w') = reading s (w_client w)"
    and c: "map_option (\<lambda>c. (c_after c, c_latest c)) (cursor s (w_client w'))
          = map_option (\<lambda>c. (c_after c, c_latest c)) (cursor s (w_client w))"
    and p: "set (filter (\<lambda>(t, _). t = s) (receipts (w_client w'))) \<subseteq> set (receipts (w_client w))"
    and a: "set (filter (\<lambda>(_, t, _, ans). t = s \<and> ans \<noteq> None) (w_calls w')) \<subseteq> set (w_calls w)"
    and o: "k_open (w_client w') \<Longrightarrow> k_open (w_client w)"
  shows "stream_ok_for b s w'"
proof -
  have seen: "seen b s w' n = seen b s w n" for n by (simp add: seen_def h r)
  have "readable b s w'" using ok l unfolding stream_ok_for_def readable_def h r by (meson order_trans)
  moreover have "caught_up b s w'" if "caught_up b s w"
  proof -
    from that obtain pre where "w_hist w s = pre @ filter (\<lambda>f. stream_name f = Some s) (w_queue w)"
      and "case cursor s (w_client w) of
             None \<Rightarrow> (\<forall>g \<in> set pre. covered b (reading s (w_client w)) (seq_of g))
           | Some c \<Rightarrow> (\<forall>g \<in> set pre. seq_of g \<le> c_latest c)
               \<and> c_latest c \<le> last_seq (w_journal w) s \<and> c_after c \<le> last_seq (w_journal w) s \<and> seen b s w (c_after c)"
      by (auto simp: caught_up_def)
    with l c show ?thesis
      unfolding caught_up_def h q r seen
      by (intro exI [of _ pre]) (cases "cursor s (w_client w)"; cases "cursor s (w_client w')"; auto intro: order_trans)
  qed
  moreover have "receipts_ok b s w'" if "receipts_ok b s w"
    unfolding receipts_ok_def seen
  proof (intro allI impI)
    fix t
    assume "(s, t) \<in> set (receipts (w_client w'))"
    then have "(s, t) \<in> set (receipts (w_client w))" using p by (auto simp: subset_iff)
    then show "t \<le> last_seq (w_journal w') s \<and> seen b s w t"
      using that l order_trans by (auto simp: receipts_ok_def)
  qed
  moreover have "answers_ok s w'" if "answers_ok s w"
    unfolding answers_ok_def h
  proof (intro allI impI)
    fix rid x ans
    assume "(rid, s, x, Some ans) \<in> set (w_calls w')"
    then have "(rid, s, x, Some ans) \<in> set (w_calls w)" using a by (auto simp: subset_iff)
    then show "fits (w_hist w s) (last_seq (w_journal w') s) x ans"
      using that fits_mono [OF _ l] unfolding answers_ok_def by blast
  qed
  ultimately show ?thesis using ok o by (auto simp: stream_ok_for_def)
qed

lemma seen_later:
  assumes "seen b s w n" and "n < seq_of g" and "w_hist w' s = w_hist w s @ [g]" and "reading s (w_client w') = reading s (w_client w)"
  shows "seen b s w' n"
  using assms by (auto simp: seen_def)

lemma continues_later:
  assumes "continues h a fs start lst" and "lst < seq_of g"
  shows "continues (h @ [g]) a fs start lst"
  using assms by (auto simp: continues_def)

lemma fits_later: "fits h l a ans \<Longrightarrow> l < seq_of g \<Longrightarrow> l \<le> l' \<Longrightarrow> fits (h @ [g]) l' a ans"
  unfolding fits_def by (cases ans; cases "fst ans") (auto split: option.splits intro: continues_later le_less_trans)

lemma event_ok:
  assumes ok: "stream_ok_for b s w" and r: "record_frame s f (w_journal w) = (f', j')"
    and f: "stream_name f = Some s" "method_of f \<noteq> ''session.gap''" and m: "last_seq (w_journal w) s \<noteq> - 1"
  shows "stream_ok_for b s (w\<lparr>w_journal := j', w_hist := (w_hist w)(s := w_hist w s @ [f']), w_queue := w_queue w @ [f']\<rparr>)"
    (is "stream_ok_for b s ?w")
proof -
  note facts = record_frame_facts [OF r]
  have lt: "last_seq (w_journal w) s < seq_of f'" and le: "last_seq (w_journal w) s \<le> last_seq j' s"
    using word_less_inc [OF m] facts(2,3) by (simp_all add: less_imp_le)
  have sn: "stream_name f' = Some s" "\<not> is_gap f'" using f facts(1) by (simp_all add: is_gap_def method_of_def)
  have "readable b s ?w"
    using ok lt le sn unfolding stream_ok_for_def readable_def
    by (auto intro!: honest_more_history intro: order_trans less_imp_le)
  moreover have "caught_up b s ?w" if "caught_up b s w"
  proof -
    obtain pre where "w_hist w s = pre @ filter (\<lambda>f. stream_name f = Some s) (w_queue w)"
      and "case cursor s (w_client w) of
             None \<Rightarrow> (\<forall>g \<in> set pre. covered b (reading s (w_client w)) (seq_of g))
           | Some c \<Rightarrow> (\<forall>g \<in> set pre. seq_of g \<le> c_latest c)
               \<and> c_latest c \<le> last_seq (w_journal w) s \<and> c_after c \<le> last_seq (w_journal w) s \<and> seen b s w (c_after c)"
      using \<open>caught_up b s w\<close> by (auto simp: caught_up_def)
    with lt le sn seen_later [of b s w _ f' ?w] show ?thesis
      unfolding caught_up_def
      by (intro exI [of _ pre]) (auto split: option.splits intro: order_trans le_less_trans)
  qed
  moreover have "receipts_ok b s ?w" if "receipts_ok b s w"
    using that lt le seen_later [of b s w _ f' ?w] unfolding receipts_ok_def by (auto intro: order_trans le_less_trans)
  moreover have "answers_ok s ?w" if "answers_ok s w"
    using that fits_later [OF _ lt le] unfolding answers_ok_def by fastforce
  ultimately show ?thesis using ok by (simp add: stream_ok_for_def)
qed

lemma reading_events [simp]:
  "reading s (k\<lparr>k_events := k_events k @ [single f]\<rparr>) = reading s k @ (if stream_name f = Some s then [f] else [])"
  by (simp add: reading_def messages_def single_def)

lemma receipts_events [simp]: "receipts (k\<lparr>k_events := k_events k @ [single f]\<rparr>) = receipts k"
  by (simp add: receipts_def messages_def single_def List.map_filter_def)

lemma reading_fields [simp]:
  "reading s (k\<lparr>k_recovery := r\<rparr>) = reading s k" "reading s (k\<lparr>k_open := o'\<rparr>) = reading s k"
  "reading s (k\<lparr>k_replies := rs\<rparr>) = reading s k"
  by (simp_all add: reading_def messages_def)

lemma receipts_fields [simp]:
  "receipts (k\<lparr>k_recovery := r\<rparr>) = receipts k" "receipts (k\<lparr>k_open := o'\<rparr>) = receipts k"
  "receipts (k\<lparr>k_replies := rs\<rparr>) = receipts k"
  by (simp_all add: receipts_def messages_def)

lemma recovery_lookups:
  "terminal_gapped t f r = (g, r') \<Longrightarrow> lagging r' = lagging r"
  "terminal_lagged t f r = Some r' \<Longrightarrow> lagging r' = lagging r"
  "follows k n r = (b, r') \<Longrightarrow> s \<noteq> k \<Longrightarrow> map_of (lagging r') s = map_of (lagging r) s"
  "lagged now k n r = Some r' \<Longrightarrow> s \<noteq> k \<Longrightarrow> map_of (lagging r') s = map_of (lagging r) s"
  by (auto simp: terminal_gapped_def terminal_lagged_def follows_def lagged_def Let_def split: option.splits if_splits)

definition outcome :: "frame \<Rightarrow> client \<Rightarrow> client \<Rightarrow> bool" where
  "outcome f k k' \<longleftrightarrow>
     (\<exists>r. k' = k\<lparr>k_recovery := r\<rparr> \<and> (\<forall>s. stream_name f \<noteq> Some s \<longrightarrow> map_of (lagging r) s = cursor s k))
     \<or> k' = k\<lparr>k_events := k_events k @ [single f]\<rparr> \<or> k' = k\<lparr>k_open := False\<rparr>"

lemma outcome_recovery: "(\<And>s. stream_name f \<noteq> Some s \<Longrightarrow> map_of (lagging r) s = cursor s k) \<Longrightarrow> outcome f k (k\<lparr>k_recovery := r\<rparr>)"
  unfolding outcome_def by blast

lemma outcome_enqueue: "enqueue_event room f k = Some k' \<Longrightarrow> outcome f k k'"
  by (auto simp: outcome_def enqueue_event_def split: if_splits)

lemma outcome_stopping:
  "(\<And>r s. res = Some r \<Longrightarrow> stream_name f \<noteq> Some s \<Longrightarrow> map_of (lagging r) s = cursor s k) \<Longrightarrow>
   outcome f k (stopping_with (map_option (\<lambda>r. k\<lparr>k_recovery := r\<rparr>) res) k)"
  by (cases res) (auto simp: stopping_with_def intro: outcome_recovery, simp add: outcome_def)

lemma send_event_outcome: "outcome f k (send_event room now f k)"
proof (cases "terminal_of f")
  case (Some t)
  obtain g r where gr: "terminal_gapped t f (k_recovery k) = (g, r)" by fastforce
  show ?thesis
    unfolding send_event_def Some option.case gr Let_def prod.case
    using recovery_lookups(1) [OF gr]
    by (auto split: option.split intro!: outcome_recovery outcome_stopping intro: outcome_enqueue
        simp: recovery_lookups(2))
next
  case None
  show ?thesis
  proof (cases "stream_name f = None \<or> f_seq f = None")
    case True
    have "outcome f k (stopping_with (enqueue_event room f k) k)"
      by (cases "enqueue_event room f k") (auto simp: stopping_with_def intro: outcome_enqueue, simp add: outcome_def)
    then show ?thesis using True None by (auto simp: send_event_def split: option.split)
  next
    case False
    then obtain t n where tn: "stream_name f = Some t" "f_seq f = Some n" by auto
    obtain b r where br: "follows t n (k_recovery k) = (b, r)" by fastforce
    have "outcome f k (k\<lparr>k_recovery := r\<rparr>)"
      using recovery_lookups(3) [OF br] tn by (intro outcome_recovery) simp
    moreover have "outcome f k (stopping_with (map_option (\<lambda>r. k\<lparr>k_recovery := r\<rparr>) (lagged now t n (k_recovery k))) k)"
      using recovery_lookups(4) tn by (intro outcome_stopping) simp
    ultimately show ?thesis
      unfolding send_event_def None tn option.case prod.case br Let_def
      by (auto split: option.split intro: outcome_enqueue)
  qed
qed

lemma send_event_other:
  assumes "stream_name f \<noteq> Some s"
  shows "reading s (send_event room now f k) = reading s k" and "cursor s (send_event room now f k) = cursor s k"
  using send_event_outcome [of f k room now] assms unfolding outcome_def by fastforce+

lemma send_event_receipts: "receipts (send_event room now f k) = receipts k"
  using send_event_outcome [of f k room now] unfolding outcome_def by fastforce

lemma send_event_same:
  assumes t: "terminal_of f = None" and "stream_name f = Some s" and "f_seq f = Some n"
  obtains c where "cursor s k = Some c"
      and "send_event room now f k = k\<lparr>k_recovery := (k_recovery k)\<lparr>lagging :=
             bt_insert s (c\<lparr>c_latest := max (c_latest c) n\<rparr>) (lagging (k_recovery k))\<rparr>\<rparr>"
  | "cursor s k = None" and "send_event room now f k = k\<lparr>k_events := k_events k @ [single f]\<rparr>"
  | "cursor s k = None"
      and "send_event room now f k = k\<lparr>k_recovery := (k_recovery k)\<lparr>lagging :=
             bt_insert s \<lparr>c_after = saturating_sub n 1, c_latest = n, c_request = None, c_retry = now\<rparr>
               (lagging (k_recovery k))\<rparr>\<rparr>"
  | "send_event room now f k = k\<lparr>k_open := False\<rparr>"
proof (cases "cursor s k")
  case (Some c)
  have "send_event room now f k = k\<lparr>k_recovery := (k_recovery k)\<lparr>lagging :=
           bt_insert s (c\<lparr>c_latest := max (c_latest c) n\<rparr>) (lagging (k_recovery k))\<rparr>\<rparr>"
    unfolding send_event_def t assms(2,3) by (simp add: follows_def Some)
  from that(1) [OF Some this] show thesis .
next
  case None
  have e: "send_event room now f k =
      (case enqueue_event room f k of
         Some k' \<Rightarrow> k'
       | None \<Rightarrow> stopping_with (map_option (\<lambda>r. k\<lparr>k_recovery := r\<rparr>) (lagged now s n (k_recovery k))) k)"
    unfolding send_event_def t assms(2,3) by (simp add: follows_def None)
  show thesis
  proof (cases "enqueue_event room f k")
    case (Some k')
    then have "send_event room now f k = k\<lparr>k_events := k_events k @ [single f]\<rparr>"
      unfolding e by (simp add: enqueue_event_def split: if_splits)
    from that(2) [OF None this] show thesis .
  next
    case n: None
    show thesis
    proof (cases "lagged now s n (k_recovery k)")
      case l: None
      have "send_event room now f k = k\<lparr>k_open := False\<rparr>" unfolding e n l by (simp add: stopping_with_def)
      from that(4) [OF this] show thesis .
    next
      case (Some r)
      have "send_event room now f k = k\<lparr>k_recovery := r\<rparr>" unfolding e n Some by (simp add: stopping_with_def)
      moreover have "r = (k_recovery k)\<lparr>lagging :=
           bt_insert s \<lparr>c_after = saturating_sub n 1, c_latest = n, c_request = None, c_retry = now\<rparr>
             (lagging (k_recovery k))\<rparr>"
        using Some by (simp add: lagged_def split: if_splits)
      ultimately show thesis using that(3) [OF None] by blast
    qed
  qed
qed

lemma notify_ok:
  assumes ok: "stream_ok_for b s w" and t: "\<not> is_terminal s" and j: "jreach (w_journal w, w_hist w)"
    and op: "k_open (w_client w)" and q: "w_queue w = f # q"
  shows "stream_ok_for b s (w\<lparr>w_queue := q, w_client := send_event room now f (w_client w)\<rparr>)"
proof (cases "stream_name f = Some s")
  case False
  with q op send_event_receipts [of room now f "w_client w"] send_event_other [OF False, of room now "w_client w"]
  show ?thesis by (intro stream_ok_for_same [OF ok]) auto
next
  case True
  let ?w = "\<lambda>k'. w\<lparr>w_queue := q, w_client := k'\<rparr>"
  let ?k = "w_client w"
  have re: "readable b s w" "caught_up b s w" "receipts_ok b s w" "answers_ok s w"
    using ok op by (simp_all add: stream_ok_for_def)
  then obtain pre where h: "w_hist w s = pre @ f # filter (\<lambda>f. stream_name f = Some s) q"
    and cur: "case cursor s ?k of
             None \<Rightarrow> (\<forall>g \<in> set pre. covered b (reading s ?k) (seq_of g))
           | Some c \<Rightarrow> (\<forall>g \<in> set pre. seq_of g \<le> c_latest c)
               \<and> c_latest c \<le> last_seq (w_journal w) s \<and> c_after c \<le> last_seq (w_journal w) s \<and> seen b s w (c_after c)"
    using q True by (auto simp: caught_up_def)
  obtain n where n: "f_seq f = Some n" and nl: "n \<le> last_seq (w_journal w) s" and asc: "ascending (w_hist w s)"
    using jreach_stream [OF j, of s] h by (cases "stream_of (w_journal w) s") (fastforce simp: stream_ok_def last_seq_def)+
  have before: "g \<in> set pre" if "g \<in> set (w_hist w s)" "seq_of g < n" for g
    using that asc n unfolding h by (auto simp: ascending_def sorted_wrt_append)
  have pre: "seq_of g < n" if "g \<in> set pre" for g
    using that asc n unfolding h by (auto simp: ascending_def sorted_wrt_append)
  have split: "w_hist w s = (pre @ [f]) @ filter (\<lambda>f. stream_name f = Some s) q" using h by simp
  have "terminal_of f = None" using t True by (simp add: terminal_of_def)
  from this True n show ?thesis
  proof (cases rule: send_event_same [of f s n ?k room now])
    case (1 c)
    have "caught_up b s (?w (send_event room now f ?k))"
      unfolding caught_up_def using cur nl n 1 split by (intro exI [of _ "pre @ [f]"]) (auto simp: seen_def le_max_iff_disj)
    with re show ?thesis
      unfolding 1(2) by (simp add: stream_ok_for_def readable_def receipts_ok_def answers_ok_def seen_def)
  next
    case 2
    have "honest (w_hist w s) b (reading s ?k @ [f])"
      using re cur 2(1) before n unfolding honest_snoc by (auto simp: readable_def)
    moreover have "caught_up b s (?w (send_event room now f ?k))"
      unfolding caught_up_def using cur n 2 split True
      by (intro exI [of _ "pre @ [f]"]) (auto simp: covered_append, simp add: covered_def)
    ultimately show ?thesis
      using re nl n True unfolding 2(2)
      by (auto simp: stream_ok_for_def readable_def receipts_ok_def answers_ok_def seen_def covered_append)
  next
    case 3
    have le: "saturating_sub n 1 \<le> n" by (simp add: saturating_sub_def) unat_arith
    have "covered b (reading s ?k) (seq_of g)" if "g \<in> set (w_hist w s)" "seq_of g \<le> saturating_sub n 1" for g
    proof (cases "n = 0")
      case True
      with that show ?thesis by (simp add: saturating_sub_def covered_def)
    next
      case False
      then have "seq_of g < n" using that(2) by (auto simp: saturating_sub_def split: if_splits) unat_arith+
      with before that(1) cur 3(1) show ?thesis by simp
    qed
    then have "caught_up b s (?w (send_event room now f ?k))"
      unfolding caught_up_def using n 3 nl le pre split
      by (intro exI [of _ "pre @ [f]"]) (auto simp: seen_def less_imp_le intro: order_trans)
    with re show ?thesis
      unfolding 3(2) by (simp add: stream_ok_for_def readable_def receipts_ok_def answers_ok_def seen_def)
  next
    case 4
    then show ?thesis using re by (simp add: stream_ok_for_def readable_def)
  qed
qed

lemma completed_lookup:
  "map_of (lagging (completed (t, n) r)) s =
     (if s \<noteq> t then map_of (lagging r) s
      else case map_of (lagging r) s of
             None \<Rightarrow> None
           | Some c \<Rightarrow>
               if max (c_after c) n \<ge> c_latest c then None else Some (c\<lparr>c_after := max (c_after c) n, c_request := None\<rparr>))"
  by (auto simp: completed_def Let_def split: option.split)

lemma settle_fields [simp]:
  "reading s (settle d k) = reading s k" "receipts (settle d k) = receipts k" "k_open (settle d k) = k_open k"
  "k_replies (settle d k) = k_replies k" "queued_events s (settle d k) = queued_events s k"
  by (simp_all add: settle_def queued_events_def split: option.split)

lemma seen_max: "seen b s w (max m n) \<longleftrightarrow> seen b s w m \<and> seen b s w n"
  by (auto simp: seen_def le_max_iff_disj)

lemma settle_ok:
  assumes ok: "stream_ok_for b s w" and op: "k_open (w_client w)" and k: "reading s k = reading s (w_client w)"
    and r: "lagging (k_recovery k) = lagging (k_recovery (w_client w))" and o: "k_open k"
    and p: "receipts (w_client w) = (case d of None \<Rightarrow> [] | Some x \<Rightarrow> [x]) @ receipts k"
  shows "stream_ok_for b s (w\<lparr>w_client := settle d k\<rparr>)"
proof (cases "cursor s (settle d k) = cursor s (w_client w)")
  case True
  then show ?thesis using assms by (intro stream_ok_for_same [OF ok]) auto
next
  case False
  let ?w = "w\<lparr>w_client := settle d k\<rparr>"
  from False obtain n where d: "d = Some (s, n)"
    using r by (cases d) (auto simp: settle_def completed_lookup split: if_splits)
  from False obtain c where c: "cursor s (w_client w) = Some c"
    using r by (cases "cursor s (w_client w)") (auto simp: d settle_def completed_lookup)
  have re: "readable b s w" "caught_up b s w" "receipts_ok b s w" "answers_ok s w"
    using ok op by (simp_all add: stream_ok_for_def)
  have n: "n \<le> last_seq (w_journal w) s" "seen b s w n" using re(3) p d by (simp_all add: receipts_ok_def)
  obtain pre where h: "w_hist w s = pre @ filter (\<lambda>f. stream_name f = Some s) (w_queue w)"
    and cur: "\<forall>g \<in> set pre. seq_of g \<le> c_latest c" "c_latest c \<le> last_seq (w_journal w) s"
      "c_after c \<le> last_seq (w_journal w) s" "seen b s w (c_after c)"
    using re(2) c by (auto simp: caught_up_def)
  have m: "max (c_after c) n \<le> last_seq (w_journal w) s" "seen b s w (max (c_after c) n)"
    using n cur by (simp_all add: seen_max)
  have seen: "seen b s ?w x = seen b s w x" for x by (simp add: seen_def k)
  have look: "cursor s (settle d k) = (if max (c_after c) n \<ge> c_latest c then None
      else Some (c\<lparr>c_after := max (c_after c) n, c_request := None\<rparr>))"
    using c r by (simp add: d settle_def completed_lookup)
  have "caught_up b s ?w"
  proof (cases "max (c_after c) n \<ge> c_latest c")
    case True
    then have "covered b (reading s (w_client w)) (seq_of g)" if "g \<in> set pre" for g
    proof -
      have "g \<in> set (w_hist w s)" "seq_of g \<le> max (c_after c) n"
        using that cur(1) True h by (auto intro: order_trans)
      with m(2) show ?thesis by (simp add: seen_def)
    qed
    with True show ?thesis unfolding caught_up_def using look h k by (intro exI [of _ pre]) simp
  next
    case False
    with look h cur m show ?thesis unfolding caught_up_def seen by (intro exI [of _ pre]) simp
  qed
  moreover have "readable b s ?w" "answers_ok s ?w" "receipts_ok b s ?w"
    using re k p by (simp_all add: readable_def answers_ok_def receipts_ok_def seen)
  ultimately show ?thesis by (simp add: stream_ok_for_def)
qed

text \<open>Calls and receipts only look at the cursor of their stream.\<close>

lemma call_fits_same:
  assumes "call_fits k q" and "\<And>r s a ans. q = (r, s, a, ans) \<Longrightarrow> cursor s k' = cursor s k"
    and "\<And>s. queued_events s k = [] \<Longrightarrow> \<not> is_terminal s \<Longrightarrow> cursor s k \<noteq> None \<Longrightarrow> queued_events s k' = []"
  shows "call_fits k' q"
proof -
  obtain r s a ans where "q = (r, s, a, ans)" by (metis prod_cases4)
  with assms show ?thesis unfolding call_fits_def by auto
qed

lemma settle_calls:
  assumes ok: "calls_wf w" and r: "lagging (k_recovery k) = lagging (k_recovery (w_client w))"
    and p: "receipts (w_client w) = (case d of None \<Rightarrow> [] | Some x \<Rightarrow> [x]) @ receipts k"
    and e: "\<And>s. queued_events s (w_client w) = [] \<Longrightarrow> queued_events s k = []"
  shows "calls_wf (w\<lparr>w_client := settle d k\<rparr>)"
proof (cases d)
  case None
  then show ?thesis
    using assms unfolding calls_wf_def
    by (auto simp: settle_def requests_wf_def receipt_fits_def intro!: call_fits_same [of "w_client w" _ k])
next
  case (Some x)
  obtain t n where x: "x = (t, n)" by fastforce
  let ?k = "settle d k"
  have look: "cursor s ?k = cursor s (w_client w)" if "s \<noteq> t" for s
    using that by (simp add: Some settle_def x completed_lookup r)
  have mine: "cursor t ?k = None \<or> (\<exists>c. cursor t ?k = Some c \<and> c_request c = None)"
    by (auto simp: Some settle_def x completed_lookup split: option.split)
  have req: "\<exists>c'. cursor s (w_client w) = Some c' \<and> c_request c' = Some rid"
    if "cursor s ?k = Some c" "c_request c = Some rid" for s c rid
    using that mine look [of s] by (cases "s = t") auto
  have "bt_wf (lagging (k_recovery ?k))"
    using ok r by (auto simp: calls_wf_def requests_wf_def Some settle_def completed_def x Let_def split: option.split)
  then have "requests_wf ?k (w_next w)"
    using ok req unfolding calls_wf_def requests_wf_def by meson
  moreover obtain c0 r0 where c0: "cursor t (w_client w) = Some c0" "c_request c0 = Some r0" "r0 \<notin> fst ` set (w_calls w)"
    using ok p Some x by (auto simp: calls_wf_def receipt_fits_def)
  have "call_fits ?k q" if "q \<in> set (w_calls w)" for q
  proof (rule call_fits_same [of "w_client w"])
    show fit: "call_fits (w_client w) q" using ok that by (simp add: calls_wf_def)
    show "cursor s ?k = cursor s (w_client w)" if "q = (r, s, a, ans)" for r s a ans
      using fit c0 \<open>q \<in> set (w_calls w)\<close> that by (intro look) (force simp: call_fits_def)
  qed (use e in simp)
  moreover have "receipt_fits (fst ` set (w_calls w)) ?k s" if "(s, m) \<in> set (receipts k)" for s m
  proof -
    have "s \<noteq> t" using ok p Some x that by (force simp: calls_wf_def)
    with ok p Some that look [of s] show ?thesis by (force simp: calls_wf_def receipt_fits_def)
  qed
  ultimately show ?thesis using ok p Some unfolding calls_wf_def by auto
qed

section \<open>The writer\<close>

definition opt :: "'a option \<Rightarrow> 'a list" where
  "opt x = (case x of None \<Rightarrow> [] | Some y \<Rightarrow> [y])"

text \<open>A move of the writer: the client afterwards, before the receipt it may have finished is settled.\<close>

definition writer_move :: "client \<Rightarrow> (string \<times> u64) option \<Rightarrow> client \<Rightarrow> bool" where
  "writer_move k d k0 \<longleftrightarrow>
     (\<forall>s. \<not> is_terminal s \<longrightarrow> reading s k0 = reading s k)
     \<and> lagging (k_recovery k0) = lagging (k_recovery k) \<and> k_open k0 = k_open k
     \<and> receipts k = opt d @ receipts k0 \<and> (\<forall>s. queued_events s k = [] \<longrightarrow> queued_events s k0 = [])
     \<and> lanes_apart k0"

lemmas client_views = reading_def messages_def receipts_def queued_events_def lanes_apart_def single_def opt_def List.map_filter_def

lemma pop_active_move:
  assumes "k_active k = Some b" and "k_writing k = None" and "lanes_apart k"
  shows "\<exists>d k0. pop_active b k = settle d k0 \<and> writer_move k d k0"
proof (cases "m_frames b")
  case Nil
  have "writer_move k (m_receipt b) (k\<lparr>k_active := None\<rparr>)"
    using assms Nil by (cases "m_receipt b") (simp_all add: writer_move_def client_views)
  then show ?thesis using Nil by (auto simp: pop_active_def)
next
  case (Cons f fs)
  show ?thesis
  proof (cases fs)
    case Nil
    have "writer_move k None (k\<lparr>k_active := None, k_writing := Some b\<rparr>)"
      using assms by (simp add: writer_move_def client_views)
    then show ?thesis using Nil Cons by (intro exI [of _ None]) (auto simp: pop_active_def settle_def)
  next
    case (Cons g gs)
    have "writer_move k None (k\<lparr>k_active := Some (b\<lparr>m_frames := fs\<rparr>), k_writing := Some (single f)\<rparr>)"
      using assms \<open>m_frames b = f # fs\<close> by (simp add: writer_move_def client_views)
    then show ?thesis using Cons \<open>m_frames b = f # fs\<close> by (intro exI [of _ None]) (auto simp: pop_active_def settle_def)
  qed
qed

lemma next_terminal_move:
  assumes "next_terminal (k_recovery k) = (Some fs, r)" and "k_writing k = None" and "k_active k = None"
    and "lanes_apart k"
  shows "writer_move k None (k\<lparr>k_recovery := r, k_active := Some \<lparr>m_frames = fs, m_receipt = None\<rparr>\<rparr>)"
proof -
  obtain t g rest where g: "terminals (k_recovery k) = (t, g) # rest"
    "fs = gap_of g # (case gap_exited g of None \<Rightarrow> [] | Some f \<Rightarrow> [f])" "r = (k_recovery k)\<lparr>terminals := bt_remove t (terminals (k_recovery k))\<rparr>"
    using assms(1) by (auto simp: next_terminal_def split: list.splits)
  have "\<exists>s. stream_name f = Some s \<and> is_terminal s" if "f \<in> set fs" for f
    using assms(4) that g(1,2) by (auto simp: lanes_apart_def)
  then have "filter (\<lambda>f. stream_name f = Some s) fs = []" if "\<not> is_terminal s" for s
    using that by (fastforce simp: filter_empty_conv)
  moreover have "set (bt_remove t (terminals (k_recovery k))) \<subseteq> set (terminals (k_recovery k))"
    by (auto simp: bt_remove_def)
  then have "lanes_apart (k\<lparr>k_recovery := r, k_active := Some \<lparr>m_frames = fs, m_receipt = None\<rparr>\<rparr>)"
    using assms(4) g(3) unfolding lanes_apart_def by auto
  ultimately show ?thesis
    using assms g(3) by (simp add: writer_move_def reading_def messages_def receipts_def queued_events_def opt_def List.map_filter_def)
qed

lemma next_round_move:
  assumes "next_round now rid k = (None, k')" and w: "k_writing k = None" and l: "lanes_apart k"
  shows "\<exists>d k0. k' = settle d k0 \<and> writer_move k d k0"
proof -
  have none: "?thesis" if "writer_move k None k'"
    using that by (intro exI [of _ None]) (simp add: settle_def)
  show ?thesis
  proof (cases "k_replies k")
    case (Cons f rest)
    then have "stream_name f = None" using l by (simp add: lanes_apart_def)
    with assms Cons show ?thesis by (intro none) (auto simp: next_round_def writer_move_def client_views)
  next
    case Nil
    note n1 = Nil
    show ?thesis
    proof (cases "k_active k")
      case (Some b)
      with assms n1 pop_active_move [OF Some w l] show ?thesis by (simp add: next_round_def)
    next
      case None
      note n2 = None
      show ?thesis
      proof (cases "k_backfills k")
        case (Cons b rest)
        with assms n1 n2 show ?thesis by (intro none) (auto simp: next_round_def writer_move_def client_views)
      next
        case Nil
        note n3 = Nil
        show ?thesis
        proof (cases "k_events k")
          case (Cons b rest)
          with assms n1 n2 n3 show ?thesis by (intro none) (auto simp: next_round_def writer_move_def client_views)
        next
          case Nil
          obtain x r where t: "next_terminal (k_recovery k) = (x, r)" by fastforce
          show ?thesis
          proof (cases x)
            case (Some fs)
            with assms n1 n2 n3 Nil t next_terminal_move [of k fs r] show ?thesis
              by (intro none) (simp add: next_round_def)
          next
            case None
            have "k' = k"
              using assms(1) n1 n2 n3 Nil t None
              by (simp add: next_round_def next_request_def Let_def split: if_splits option.splits prod.splits)
            with l show ?thesis by (intro none) (simp add: writer_move_def opt_def)
          qed
        qed
      qed
    qed
  qed
qed

lemma wrote_move:
  assumes "lanes_apart k"
  shows "\<exists>d k0. wrote k = settle d k0 \<and> writer_move k d k0"
proof (cases "k_writing k")
  case None
  with assms show ?thesis
    by (intro exI [of _ None] exI [of _ k]) (simp add: wrote_def settle_def writer_move_def opt_def)
next
  case (Some b)
  then have "writer_move k (m_receipt b) (k\<lparr>k_writing := None, k_written := k_written k @ m_frames b\<rparr>)"
    using assms by (cases "m_receipt b") (simp_all add: writer_move_def client_views)
  with Some show ?thesis by (auto simp: wrote_def)
qed

lemma move_ok:
  assumes m: "writer_move (w_client w) d k0" and ok: "world_ok b w" and op: "k_open (w_client w)"
  shows "world_ok b (w\<lparr>w_client := settle d k0\<rparr>)"
proof -
  have rec: "receipts (w_client w) = (case d of None \<Rightarrow> [] | Some x \<Rightarrow> [x]) @ receipts k0"
    using m by (simp add: writer_move_def opt_def)
  have "lanes_apart (settle d k0)"
    using m unfolding writer_move_def
    by (auto simp: lanes_apart_def settle_def completed_def Let_def split: option.split)
  moreover have "calls_wf (w\<lparr>w_client := settle d k0\<rparr>)"
    using ok op m rec by (intro settle_calls) (auto simp: world_ok_def writer_move_def)
  moreover have "stream_ok_for (b s) s (w\<lparr>w_client := settle d k0\<rparr>)" if "\<not> is_terminal s" for s
    using ok op m rec that by (intro settle_ok) (auto simp: world_ok_def writer_move_def)
  ultimately show ?thesis using ok by (simp add: world_ok_def)
qed

section \<open>Requests and their answers\<close>

lemma queued_fields [simp]: "queued_events s (k\<lparr>k_recovery := r\<rparr>) = queued_events s k"
  by (simp add: queued_events_def)

lemma request_facts:
  assumes "next_round now rid k = (Some (rid', s, a), k')" and "requests_wf k nxt"
  obtains c where "rid' = rid" and "cursor s k = Some c" and "c_request c = None" and "c_after c = a" and "k_events k = []"
    and "k' = k\<lparr>k_recovery := (k_recovery k)\<lparr>lagging := bt_insert s (c\<lparr>c_request := Some rid\<rparr>) (lagging (k_recovery k))\<rparr>\<rparr>"
proof -
  have r: "next_request now rid (k_recovery k) = (Some (rid', s, a), k_recovery k')" "k' = k\<lparr>k_recovery := k_recovery k'\<rparr>"
    "k_events k = []"
    using assms(1) by (auto simp: next_round_def Let_def split: list.splits option.splits prod.splits)
  then obtain c where f: "find (\<lambda>(_, c). c_request c = None \<and> c_retry c \<le> now) (lagging (k_recovery k)) = Some (s, c)"
    and n: "rid' = rid" "a = c_after c"
      "k_recovery k' = (k_recovery k)\<lparr>lagging := bt_insert s (c\<lparr>c_request := Some rid\<rparr>) (lagging (k_recovery k))\<rparr>"
    by (auto simp: next_request_def split: if_splits option.splits)
  have "cursor s k = Some c" "c_request c = None"
    using bt_wf_find [OF _ f] assms(2) by (simp_all add: requests_wf_def)
  with that n r show thesis by metis
qed

lemma request_ok:
  assumes ok: "world_ok b w" and op: "k_open (w_client w)"
    and n: "next_round now (w_next w) (w_client w) = (Some (rid, s0, a), k')"
  shows "world_ok b (w\<lparr>w_client := k', w_calls := w_calls w @ [(rid, s0, a, None)], w_next := w_next w + 1\<rparr>)"
    (is "world_ok b ?w")
proof -
  have wf: "calls_wf w" using ok op by (simp add: world_ok_def)
  obtain c where rid: "rid = w_next w" and c: "cursor s0 (w_client w) = Some c" "c_request c = None" "c_after c = a"
    and ev: "k_events (w_client w) = []"
    and k': "k' = (w_client w)\<lparr>k_recovery := (k_recovery (w_client w))\<lparr>lagging :=
               bt_insert s0 (c\<lparr>c_request := Some rid\<rparr>) (lagging (k_recovery (w_client w)))\<rparr>\<rparr>"
    using wf by (auto simp: calls_wf_def intro: request_facts [OF n])
  have look: "cursor s k' = (if s = s0 then Some (c\<lparr>c_request := Some rid\<rparr>) else cursor s (w_client w))" for s
    by (simp add: k')
  have old: "r < w_next w" if "cursor s (w_client w) = Some d" "c_request d = Some r" for s d r
    using wf that by (auto simp: calls_wf_def requests_wf_def)
  have "requests_wf k' (w_next w + 1)"
    using wf old unfolding calls_wf_def requests_wf_def
    by (auto simp: look rid k' less_Suc_eq split: if_splits)
  moreover have fresh: "w_next w \<notin> fst ` set (w_calls w)"
    using wf old by (force simp: calls_wf_def call_fits_def)
  moreover have "call_fits k' q" if "q \<in> set (w_calls w)" for q
  proof (rule call_fits_same [of "w_client w"])
    show fit: "call_fits (w_client w) q" using wf that by (simp add: calls_wf_def)
    show "cursor s k' = cursor s (w_client w)" if "q = (r, s, x, ans)" for r s x ans
      using fit c(1,2) that by (auto simp: call_fits_def look)
  qed (simp add: k')
  moreover have "call_fits k' (rid, s0, a, None)"
    using c ev by (simp add: call_fits_def look) (simp add: k' queued_events_def)
  moreover have "receipt_fits (insert rid (fst ` set (w_calls w))) k' s" if "(s, t) \<in> set (receipts (w_client w))" for s t
    using wf that old c by (force simp: calls_wf_def receipt_fits_def look rid)
  ultimately have "calls_wf ?w" using wf rid by (auto simp: calls_wf_def k')
  moreover have "stream_ok_for (b s) s ?w" if "\<not> is_terminal s" for s
  proof (rule stream_ok_for_same)
    show "stream_ok_for (b s) s w" using ok that by (simp add: world_ok_def)
  qed (use op c in \<open>auto simp: k'\<close>)
  moreover have "lanes_apart k'" using ok by (simp add: world_ok_def lanes_apart_def k')
  ultimately show ?thesis using ok by (simp add: world_ok_def)
qed

lemma call_replaced:
  assumes wf: "calls_wf w" and q: "w_calls w = xs @ (rid, s, a, None) # ys"
    and fs: "\<And>f. f \<in> set fs \<Longrightarrow> stream_name f = Some s"
  shows "calls_wf (w\<lparr>w_calls := xs @ (rid, s, a, Some (ans, fs)) # ys\<rparr>)"
proof -
  have "call_fits (w_client w) (rid, s, a, None)" using wf q by (simp add: calls_wf_def)
  then have "call_fits (w_client w) (rid, s, a, Some (ans, fs))" using fs by (auto simp: call_fits_def)
  with wf q show ?thesis by (auto simp: calls_wf_def)
qed

lemma calls_update [simp]:
  "seen b s (w\<lparr>w_calls := cs\<rparr>) n = seen b s w n" "caught_up b s (w\<lparr>w_calls := cs\<rparr>) = caught_up b s w"
  "receipts_ok b s (w\<lparr>w_calls := cs\<rparr>) = receipts_ok b s w" "readable b s (w\<lparr>w_calls := cs\<rparr>) = readable b s w"
  unfolding caught_up_def receipts_ok_def readable_def by (simp_all add: seen_def cong: option.case_cong)

lemma answered_ok:
  assumes ok: "world_ok b w" and q: "w_calls w = xs @ (rid, s0, a, None) # ys"
    and fs: "\<And>f. f \<in> set fs \<Longrightarrow> stream_name f = Some s0"
    and fit: "\<not> is_terminal s0 \<Longrightarrow> k_open (w_client w) \<Longrightarrow> fits (w_hist w s0) (last_seq (w_journal w) s0) a (ans, fs)"
  shows "world_ok b (w\<lparr>w_calls := xs @ (rid, s0, a, Some (ans, fs)) # ys\<rparr>)" (is "world_ok b ?w")
proof -
  have "stream_ok_for (b s) s ?w" if "\<not> is_terminal s" for s
  proof -
    have s: "stream_ok_for (b s) s w" using ok that by (simp add: world_ok_def)
    then have "answers_ok s ?w" if "k_open (w_client w)"
      using that fit \<open>\<not> is_terminal s\<close> q by (auto simp: stream_ok_for_def answers_ok_def)
    with s show ?thesis by (auto simp: stream_ok_for_def)
  qed
  moreover have "calls_wf ?w" if "k_open (w_client w)"
    using ok that fs by (intro call_replaced [OF _ q]) (auto simp: world_ok_def)
  ultimately show ?thesis using ok by (simp add: world_ok_def)
qed

lemma find_cursor:
  assumes wf: "requests_wf k nxt" and c: "cursor s k = Some c" "c_request c = Some rid"
  shows "find (\<lambda>(_, c). c_request c = Some rid) (lagging (k_recovery k)) = Some (s, c)"
proof (cases "find (\<lambda>(_, c). c_request c = Some rid) (lagging (k_recovery k))")
  case None
  with map_of_SomeD [OF c(1)] c(2) show ?thesis by (auto simp: find_None_iff)
next
  case (Some p)
  obtain t d where p: "p = (t, d)" by fastforce
  then have "cursor t k = Some d" "c_request d = Some rid"
    using bt_wf_find [of "lagging (k_recovery k)"] Some wf by (auto simp: requests_wf_def)
  with wf c have "t = s" unfolding requests_wf_def by blast
  with c \<open>cursor t k = Some d\<close> Some p show ?thesis by simp
qed

text \<open>The request of a delivered answer is over, and nothing else refers to its cursor.\<close>

lemma call_removed:
  assumes wf: "calls_wf w" and q: "w_calls w = xs @ (rid, s, a, ans) # ys"
  obtains c where "cursor s (w_client w) = Some c" and "c_request c = Some rid" and "c_after c = a"
    and "\<And>t. (s, t) \<notin> set (receipts (w_client w))" and "rid \<notin> fst ` set (xs @ ys)"
    and "\<And>r a' ans'. (r, s, a', ans') \<notin> set (xs @ ys)"
proof -
  have "distinct (map fst (w_calls w))" using wf by (simp add: calls_wf_def)
  then have d: "rid \<notin> fst ` set (xs @ ys)" unfolding q by auto
  obtain c where c: "cursor s (w_client w) = Some c" "c_request c = Some rid" "c_after c = a"
  proof -
    have "call_fits (w_client w) (rid, s, a, ans)" using wf q by (simp add: calls_wf_def)
    then show thesis using that by (auto simp: call_fits_def)
  qed
  have "(s, t) \<notin> set (receipts (w_client w))" for t
  proof
    assume "(s, t) \<in> set (receipts (w_client w))"
    then have "receipt_fits (fst ` set (w_calls w)) (w_client w) s" using wf unfolding calls_wf_def by blast
    with c have "rid \<notin> fst ` set (w_calls w)" by (simp add: receipt_fits_def)
    with q show False by simp
  qed
  moreover have "(r, s, a', ans') \<notin> set (xs @ ys)" for r a' ans'
  proof
    assume m: "(r, s, a', ans') \<in> set (xs @ ys)"
    then have "call_fits (w_client w) (r, s, a', ans')" using wf q by (auto simp: calls_wf_def)
    then have "r = rid" using c by (auto simp: call_fits_def)
    with m d show False by force
  qed
  ultimately show thesis using that c d by blast
qed

text \<open>An answer that asks to come again, or one for which there is no room.\<close>

lemma again_ok:
  assumes ok: "world_ok b w" and op: "k_open (w_client w)" and q: "w_calls w = xs @ (rid, s0, a, ans) # ys"
    and c: "cursor s0 (w_client w) = Some c"
  shows "world_ok b (w\<lparr>w_calls := xs @ ys, w_client := (w_client w)\<lparr>k_recovery := (k_recovery (w_client w))\<lparr>lagging :=
      bt_insert s0 (c\<lparr>c_request := None, c_retry := t\<rparr>) (lagging (k_recovery (w_client w)))\<rparr>\<rparr>\<rparr>)"
    (is "world_ok b (w\<lparr>w_calls := _, w_client := ?k\<rparr>)")
proof -
  have wf: "calls_wf w" using ok op by (simp add: world_ok_def)
  have look: "cursor s ?k = (if s = s0 then Some (c\<lparr>c_request := None, c_retry := t\<rparr>) else cursor s (w_client w))" for s
    by simp
  from wf q obtain c' where c': "\<And>t. (s0, t) \<notin> set (receipts (w_client w))"
    "\<And>r a' ans'. (r, s0, a', ans') \<notin> set (xs @ ys)" by (rule call_removed) blast
  have "requests_wf ?k (w_next w)" using wf c unfolding calls_wf_def requests_wf_def by (auto split: if_splits)
  moreover have "call_fits ?k p" if p: "p \<in> set (xs @ ys)" for p
  proof (rule call_fits_same [of "w_client w"])
    show "call_fits (w_client w) p" using wf q p by (auto simp: calls_wf_def)
    show "cursor s ?k = cursor s (w_client w)" if "p = (r, s, x, an)" for r s x an
      using c'(2) p that by (auto simp: look)
  qed simp
  moreover have "receipt_fits (fst ` set (xs @ ys)) ?k s" if "(s, n) \<in> set (receipts (w_client w))" for s n
  proof -
    have "s \<noteq> s0" using c'(1) that by auto
    with wf q that show ?thesis by (force simp: calls_wf_def receipt_fits_def)
  qed
  ultimately have "calls_wf (w\<lparr>w_calls := xs @ ys, w_client := ?k\<rparr>)"
    using wf q by (auto simp: calls_wf_def)
  moreover have "stream_ok_for (b s) s (w\<lparr>w_calls := xs @ ys, w_client := ?k\<rparr>)" if "\<not> is_terminal s" for s
  proof (rule stream_ok_for_same)
    show "stream_ok_for (b s) s w" using ok that by (simp add: world_ok_def)
  qed (use op q c in auto)
  moreover have "lanes_apart ?k" using ok by (simp add: world_ok_def lanes_apart_def)
  ultimately show ?thesis using ok by (simp add: world_ok_def)
qed

text \<open>A batch of recovered frames with its receipt.\<close>

lemma reading_backfill:
  assumes "queued_events s k = [] \<or> filter (\<lambda>f. stream_name f = Some s) (m_frames m) = []"
  shows "reading s (k\<lparr>k_backfills := k_backfills k @ [m]\<rparr>) = reading s k @ filter (\<lambda>f. stream_name f = Some s) (m_frames m)"
  using assms by (auto simp: reading_def messages_def queued_events_def)

lemma batch_calls:
  assumes wf: "calls_wf w" and q: "w_calls w = xs @ (rid, s0, a, ans) # ys"
  shows "calls_wf (w\<lparr>w_calls := xs @ ys,
      w_client := (w_client w)\<lparr>k_backfills := k_backfills (w_client w) @ [\<lparr>m_frames = fs, m_receipt = Some (s0, t)\<rparr>]\<rparr>\<rparr>)"
    (is "calls_wf (w\<lparr>w_calls := _, w_client := ?k\<rparr>)")
proof -
  from wf q obtain c where c: "cursor s0 (w_client w) = Some c" "c_request c = Some rid"
    and no: "\<And>t. (s0, t) \<notin> set (receipts (w_client w))" and d: "rid \<notin> fst ` set (xs @ ys)"
    by (rule call_removed) blast
  have re: "receipts ?k = receipts ((w_client w)\<lparr>k_events := []\<rparr>) @ (s0, t) # List.map_filter m_receipt (k_events (w_client w))"
    and old: "receipts (w_client w) = receipts ((w_client w)\<lparr>k_events := []\<rparr>) @ List.map_filter m_receipt (k_events (w_client w))"
    by (simp_all add: receipts_def messages_def List.map_filter_def)
  have "distinct (map fst (receipts ?k))"
    using wf no unfolding calls_wf_def re old by (force simp: image_iff)
  moreover have "receipt_fits (fst ` set (xs @ ys)) ?k s" if "(s, n) \<in> set (receipts ?k)" for s n
  proof (cases "s = s0")
    case True
    with c d show ?thesis by (simp add: receipt_fits_def)
  next
    case False
    with that have "(s, n) \<in> set (receipts (w_client w))" unfolding re old by auto
    then have "receipt_fits (fst ` set (w_calls w)) (w_client w) s" using wf unfolding calls_wf_def by blast
    then show ?thesis using q by (auto simp: receipt_fits_def)
  qed
  moreover have "requests_wf ?k (w_next w)" using wf by (simp add: calls_wf_def requests_wf_def)
  moreover have "call_fits ?k p" if "p \<in> set (xs @ ys)" for p
  proof (rule call_fits_same [of "w_client w"])
    show "call_fits (w_client w) p" using wf q that by (auto simp: calls_wf_def)
  qed (simp_all add: queued_events_def)
  moreover have "distinct (map fst (xs @ ys))" using wf q by (simp add: calls_wf_def)
  ultimately show ?thesis unfolding calls_wf_def by auto
qed

lemma batch_stream:
  assumes ok: "stream_ok_for b s w" and op: "k_open (w_client w)"
    and q: "set cs \<subseteq> set (w_calls w)" and e: "queued_events s (w_client w) = []"
    and fs: "\<And>f. f \<in> set fs \<Longrightarrow> stream_name f = Some s \<and> seq_of f \<le> last_seq (w_journal w) s"
    and h: "honest (w_hist w s) b (reading s (w_client w) @ fs)"
    and t: "t \<le> last_seq (w_journal w) s"
    and cov: "\<And>g. g \<in> set (w_hist w s) \<Longrightarrow> seq_of g \<le> t \<Longrightarrow> covered b (reading s (w_client w) @ fs) (seq_of g)"
  shows "stream_ok_for b s (w\<lparr>w_calls := cs,
      w_client := (w_client w)\<lparr>k_backfills := k_backfills (w_client w) @ [\<lparr>m_frames = fs, m_receipt = Some (s, t)\<rparr>]\<rparr>\<rparr>)"
    (is "stream_ok_for b s ?w")
proof -
  let ?k = "w_client w" and ?m = "\<lparr>m_frames = fs, m_receipt = Some (s, t)\<rparr>"
  have "filter (\<lambda>f. stream_name f = Some s) fs = fs" using fs by (simp add: filter_id_conv)
  then have r: "reading s (?k\<lparr>k_backfills := k_backfills ?k @ [?m]\<rparr>) = reading s ?k @ fs"
    using reading_backfill [of s ?k ?m] e by simp
  have re: "readable b s w" "caught_up b s w" "receipts_ok b s w" "answers_ok s w"
    using ok op by (simp_all add: stream_ok_for_def)
  have seen: "seen b s w n \<Longrightarrow> seen b s ?w n" for n
    by (simp add: seen_def r covered_append)
  have "readable b s ?w" using re(1) h fs by (auto simp: readable_def r)
  moreover have "caught_up b s ?w"
  proof -
    obtain pre where "w_hist w s = pre @ filter (\<lambda>f. stream_name f = Some s) (w_queue w)"
      and "case cursor s ?k of
             None \<Rightarrow> (\<forall>g \<in> set pre. covered b (reading s ?k) (seq_of g))
           | Some c \<Rightarrow> (\<forall>g \<in> set pre. seq_of g \<le> c_latest c)
               \<and> c_latest c \<le> last_seq (w_journal w) s \<and> c_after c \<le> last_seq (w_journal w) s \<and> seen b s w (c_after c)"
      using re(2) by (auto simp: caught_up_def)
    then show ?thesis
      unfolding caught_up_def using seen
      by (intro exI [of _ pre]) (cases "cursor s ?k"; simp add: r covered_append)
  qed
  moreover have "receipts_ok b s ?w"
  proof -
    have "(s, n) \<in> set (receipts ?k) \<or> n = t" if "(s, n) \<in> set (receipts (?k\<lparr>k_backfills := k_backfills ?k @ [?m]\<rparr>))" for n
      using that by (auto simp: receipts_def messages_def List.map_filter_def)
    moreover have "seen b s ?w t" using cov by (simp add: seen_def r)
    ultimately show ?thesis using re(3) t seen by (auto simp: receipts_ok_def)
  qed
  moreover have "answers_ok s ?w" using re(4) q by (auto simp: answers_ok_def)
  ultimately show ?thesis by (simp add: stream_ok_for_def)
qed

text \<open>A client that is no longer served keeps what it was going to read.\<close>

lemma closed_ok:
  assumes ok: "world_ok b w" and r: "\<And>s. reading s k = reading s (w_client w)" and o: "\<not> k_open k"
    and l: "k_replies k = k_replies (w_client w)" "terminals (k_recovery k) = terminals (k_recovery (w_client w))"
  shows "world_ok b (w\<lparr>w_calls := cs, w_client := k\<rparr>)"
proof -
  have "lanes_apart k" using ok l by (simp add: world_ok_def lanes_apart_def)
  moreover have "readable (b s) s w" if "\<not> is_terminal s" for s
    using ok that by (simp add: world_ok_def stream_ok_for_def)
  ultimately show ?thesis using ok r o by (auto simp: world_ok_def stream_ok_for_def readable_def)
qed

lemma completed_terminals [simp]: "terminals (completed d r) = terminals r"
  by (cases d) (simp add: completed_def Let_def split: option.split)

lemma batch_ok:
  assumes ok: "world_ok b w" and op: "k_open (w_client w)" and q: "w_calls w = xs @ (rid, s0, a, ans) # ys"
    and fs: "\<And>f. f \<in> set fs \<Longrightarrow> stream_name f = Some s0"
    and mine: "\<not> is_terminal s0 \<Longrightarrow>
        (\<forall>f \<in> set fs. seq_of f \<le> last_seq (w_journal w) s0) \<and> t \<le> last_seq (w_journal w) s0
        \<and> honest (w_hist w s0) (b s0) (reading s0 (w_client w) @ fs)
        \<and> (\<forall>g \<in> set (w_hist w s0). seq_of g \<le> t \<longrightarrow> covered (b s0) (reading s0 (w_client w) @ fs) (seq_of g))"
  shows "world_ok b (w\<lparr>w_calls := xs @ ys,
      w_client := (w_client w)\<lparr>k_backfills := k_backfills (w_client w) @ [\<lparr>m_frames = fs, m_receipt = Some (s0, t)\<rparr>]\<rparr>\<rparr>)"
    (is "world_ok b (w\<lparr>w_calls := _, w_client := ?k\<rparr>)")
proof -
  have wf: "calls_wf w" using ok op by (simp add: world_ok_def)
  have "stream_ok_for (b s) s (w\<lparr>w_calls := xs @ ys, w_client := ?k\<rparr>)" if "\<not> is_terminal s" for s
  proof (cases "s = s0")
    case True
    have "call_fits (w_client w) (rid, s0, a, ans)" using wf q by (simp add: calls_wf_def)
    then have "queued_events s0 (w_client w) = []" using that True by (simp add: call_fits_def)
    then show ?thesis
      using ok op that mine fs unfolding True
      by (intro batch_stream) (auto simp: world_ok_def q)
  next
    case False
    then have none: "filter (\<lambda>f. stream_name f = Some s) fs = []" using fs by (fastforce simp: filter_empty_conv)
    then have "reading s ?k = reading s (w_client w)" by (subst reading_backfill) simp_all
    moreover have "set (filter (\<lambda>(u, _). u = s) (receipts ?k)) \<subseteq> set (receipts (w_client w))"
      using False by (auto simp: receipts_def messages_def List.map_filter_def)
    moreover have "set (filter (\<lambda>(_, t, _, ans). t = s \<and> ans \<noteq> None) (xs @ ys)) \<subseteq> set (w_calls w)"
      unfolding q by (simp add: subset_iff)
    moreover have same: "stream_ok_for (b s) s w" using ok that by (simp add: world_ok_def)
    ultimately show ?thesis
      using op by (intro stream_ok_for_same [OF same]) simp_all
  qed
  moreover have "lanes_apart ?k" using ok by (simp add: world_ok_def lanes_apart_def)
  moreover note batch_calls [OF wf q, of fs t]
  ultimately show ?thesis using ok by (simp add: world_ok_def)
qed

text \<open>What the recovery makes of an answer that fits the request.\<close>

lemma fold_max_bounds:
  fixes n :: u64
  assumes "\<And>x. x \<in> set (n # ns) \<Longrightarrow> x \<le> l"
  shows "fold max ns n \<le> l"
  using assms by (induction ns arbitrary: n) (auto simp: max_def)

lemma response_subscribed:
  assumes f: "find (\<lambda>(_, c). c_request c = Some rid) (lagging r) = Some (s, c)"
    and c: "continues h (c_after c) fs start lst"
  obtains t where "response now rid (Subscribed (Some start) (Some lst)) fs r = (Some (s, t), lead s (c_after c) start @ fs, r)"
    and "t = lst \<or> t = max (c_after c) lst"
proof -
  define high where "high = (case List.map_filter f_seq fs of [] \<Rightarrow> c_after c | n # ns \<Rightarrow> fold max ns n)"
  have "x \<le> lst" if "x \<in> set (List.map_filter f_seq fs)" for x
    using c that by (fastforce simp: continues_def List.map_filter_def)
  then have "high = c_after c \<or> high \<le> lst"
    unfolding high_def by (cases "List.map_filter f_seq fs") (auto intro: fold_max_bounds)
  then have "max high lst = lst \<or> max high lst = max (c_after c) lst" by (auto simp: max_def)
  moreover have "response now rid (Subscribed (Some start) (Some lst)) fs r
      = (Some (s, max high lst), lead s (c_after c) start @ fs, r)"
    unfolding response_def f high_def lead_def by (simp add: Let_def)
  ultimately show thesis using that by blast
qed

lemma subscribed_batch:
  assumes ok: "stream_ok_for b s w" and op: "k_open (w_client w)" and cur: "cursor s (w_client w) = Some c"
    and fit: "fits (w_hist w s) (last_seq (w_journal w) s) (c_after c) (Subscribed (Some start) (Some lst), fs)"
    and t: "t = lst \<or> t = max (c_after c) lst"
  shows "(\<forall>f \<in> set (lead s (c_after c) start @ fs). seq_of f \<le> last_seq (w_journal w) s) \<and> t \<le> last_seq (w_journal w) s
        \<and> honest (w_hist w s) b (reading s (w_client w) @ lead s (c_after c) start @ fs)
        \<and> (\<forall>g \<in> set (w_hist w s). seq_of g \<le> t \<longrightarrow>
              covered b (reading s (w_client w) @ lead s (c_after c) start @ fs) (seq_of g))"
proof -
  have co: "continues (w_hist w s) (c_after c) fs start lst" and lst: "lst \<le> last_seq (w_journal w) s"
    using fit by (simp_all add: fits_def)
  have cu: "c_after c \<le> last_seq (w_journal w) s" "seen b s w (c_after c)" and re: "readable b s w"
    using ok op cur by (auto simp: stream_ok_for_def caught_up_def)
  have after: "covered b (reading s (w_client w)) (seq_of g)" if "g \<in> set (w_hist w s)" "seq_of g \<le> c_after c" for g
    using cu(2) that by (simp add: seen_def)
  have "honest (w_hist w s) b (reading s (w_client w) @ lead s (c_after c) start @ fs)"
    using re after co by (intro continues_honest) (auto simp: readable_def)
  moreover have "covered b (reading s (w_client w) @ lead s (c_after c) start @ fs) (seq_of g)"
    if g: "g \<in> set (w_hist w s)" "seq_of g \<le> t" for g
  proof (cases "seq_of g \<le> c_after c")
    case True
    with after g show ?thesis by (simp add: covered_append)
  next
    case False
    with g t have "seq_of g \<le> lst" by (auto simp: le_max_iff_disj)
    with after co g show ?thesis by (intro continues_covers)
  qed
  moreover have "seq_of f \<le> lst" if "f \<in> set (lead s (c_after c) start @ fs)" for f
    using that co by (auto simp: continues_def lead_def split: if_splits)
  ultimately show ?thesis using lst cu(1) t by (auto intro: order_trans)
qed

lemma refused_batch:
  assumes ok: "stream_ok_for b s w" and op: "k_open (w_client w)" and cur: "cursor s (w_client w) = Some c"
  shows "seq_of (gap s (c_latest c)) \<le> last_seq (w_journal w) s \<and> c_latest c \<le> last_seq (w_journal w) s
        \<and> honest (w_hist w s) b (reading s (w_client w) @ [gap s (c_latest c)])
        \<and> (\<forall>g \<in> set (w_hist w s). seq_of g \<le> c_latest c \<longrightarrow>
              covered b (reading s (w_client w) @ [gap s (c_latest c)]) (seq_of g))"
proof -
  have "c_latest c \<le> last_seq (w_journal w) s" "readable b s w"
    using ok op cur by (auto simp: stream_ok_for_def caught_up_def)
  then show ?thesis by (simp add: honest_snoc readable_def covered_def)
qed

lemma recover_cases:
  assumes f: "find (\<lambda>(_, c). c_request c = Some rid) (lagging (k_recovery k)) = Some (s, c)"
  obtains "recover budget now rid ans fs k = k\<lparr>k_recovery := (k_recovery k)\<lparr>lagging :=
      bt_insert s (c\<lparr>c_request := None, c_retry := now + second\<rparr>) (lagging (k_recovery k))\<rparr>\<rparr>"
  | t fs' where "response now rid ans fs (k_recovery k) = (Some (s, t), fs', k_recovery k)"
      and "recover budget now rid ans fs k = k\<lparr>k_backfills := k_backfills k @ [\<lparr>m_frames = fs', m_receipt = Some (s, t)\<rparr>]\<rparr>"
  | t where "recover budget now rid ans fs k = k\<lparr>k_recovery := completed (s, t) (k_recovery k), k_open := False\<rparr>"
proof (cases "\<not> budget \<or> ans = Busy")
  case True
  then have "recover budget now rid ans fs k = k\<lparr>k_recovery := (k_recovery k)\<lparr>lagging :=
      bt_insert s (c\<lparr>c_request := None, c_retry := now + second\<rparr>) (lagging (k_recovery k))\<rparr>\<rparr>"
    by (auto simp: recover_def postpone_def response_def f)
  from that(1) [OF this] show thesis .
next
  case False
  then obtain t fs' where r: "response now rid ans fs (k_recovery k) = (Some (s, t), fs', k_recovery k)"
    unfolding response_def f by (cases ans) (auto simp: Let_def)
  show thesis
  proof (cases "length (k_backfills k) < MAX_PENDING")
    case True
    with False r have "recover budget now rid ans fs k
        = k\<lparr>k_backfills := k_backfills k @ [\<lparr>m_frames = fs', m_receipt = Some (s, t)\<rparr>]\<rparr>"
      by (simp add: recover_def)
    from that(2) [OF r this] show thesis .
  next
    case full: False
    with False r have "recover budget now rid ans fs k = k\<lparr>k_recovery := completed (s, t) (k_recovery k), k_open := False\<rparr>"
      by (simp add: recover_def)
    from that(3) [OF this] show thesis .
  qed
qed

lemma response_frames:
  assumes "response now rid ans fs r = (Some (s, t), fs', r')" and "\<And>f. f \<in> set fs \<Longrightarrow> stream_name f = Some s"
    and "f \<in> set fs'"
  shows "stream_name f = Some s"
  using assms by (auto simp: response_def Let_def split: option.splits answer.splits if_splits)

lemma answer_batch:
  assumes ok: "stream_ok_for b s w" and op: "k_open (w_client w)" and cur: "cursor s (w_client w) = Some c"
    and f: "find (\<lambda>(_, c). c_request c = Some rid) (lagging (k_recovery (w_client w))) = Some (s, c)"
    and r: "response now rid ans fs (k_recovery (w_client w)) = (Some (s, t), fs', k_recovery (w_client w))"
    and fit: "fits (w_hist w s) (last_seq (w_journal w) s) (c_after c) (ans, fs)"
  shows "(\<forall>f \<in> set fs'. seq_of f \<le> last_seq (w_journal w) s) \<and> t \<le> last_seq (w_journal w) s
        \<and> honest (w_hist w s) b (reading s (w_client w) @ fs')
        \<and> (\<forall>g \<in> set (w_hist w s). seq_of g \<le> t \<longrightarrow> covered b (reading s (w_client w) @ fs') (seq_of g))"
proof (cases ans)
  case (Subscribed x y)
  with fit obtain start lst where a: "ans = Subscribed (Some start) (Some lst)"
    by (auto simp: fits_def split: option.splits)
  with fit have "continues (w_hist w s) (c_after c) fs start lst" by (simp add: fits_def)
  from response_subscribed [OF f this, of now] r a
  have "fs' = lead s (c_after c) start @ fs" "t = lst \<or> t = max (c_after c) lst" by fastforce+
  with subscribed_batch [OF ok op cur, of start lst fs t] fit a show ?thesis by simp
next
  case Busy
  with r show ?thesis by (simp add: response_def f)
next
  case Refused
  with r fit have "fs' = [gap s (c_latest c)]" "t = c_latest c" by (auto simp: response_def f fits_def)
  with refused_batch [OF ok op cur] show ?thesis by simp
qed

lemma deliver_ok:
  assumes ok: "world_ok b w" and op: "k_open (w_client w)" and q: "w_calls w = xs @ (rid, s, a, Some (ans, fs)) # ys"
  shows "world_ok b (w\<lparr>w_calls := xs @ ys, w_client := recover budget now rid ans fs (w_client w)\<rparr>)"
proof -
  have wf: "calls_wf w" using ok op by (simp add: world_ok_def)
  from wf q obtain c where c: "cursor s (w_client w) = Some c" "c_request c = Some rid" "c_after c = a"
    by (rule call_removed) blast
  have "requests_wf (w_client w) (w_next w)" using wf by (simp add: calls_wf_def)
  from find_cursor [OF this c(1,2)]
  have f: "find (\<lambda>(_, c). c_request c = Some rid) (lagging (k_recovery (w_client w))) = Some (s, c)" .
  have "call_fits (w_client w) (rid, s, a, Some (ans, fs))" using wf q by (simp add: calls_wf_def)
  then have fs: "stream_name f = Some s" if "f \<in> set fs" for f using that by (simp add: call_fits_def)
  from f show ?thesis
  proof (cases rule: recover_cases [of rid "w_client w" s c budget now ans fs])
    case 1
    show ?thesis unfolding 1 by (rule again_ok [OF ok op q c(1)])
  next
    case (2 t fs')
    have fs': "stream_name f = Some s" if "f \<in> set fs'" for f
      using response_frames [OF 2(1)] fs that by blast
    show ?thesis unfolding 2(2)
    proof (rule batch_ok [OF ok op q])
      show "stream_name f = Some s" if "f \<in> set fs'" for f by (rule fs' [OF that])
      assume t: "\<not> is_terminal s"
      then have st: "stream_ok_for (b s) s w" using ok by (simp add: world_ok_def)
      then have "answers_ok s w" using op by (simp add: stream_ok_for_def)
      then have "fits (w_hist w s) (last_seq (w_journal w) s) (c_after c) (ans, fs)"
        unfolding answers_ok_def q c(3) by simp
      from answer_batch [OF st op c(1) f 2(1) this]
      show "(\<forall>f \<in> set fs'. seq_of f \<le> last_seq (w_journal w) s) \<and> t \<le> last_seq (w_journal w) s
        \<and> honest (w_hist w s) (b s) (reading s (w_client w) @ fs')
        \<and> (\<forall>g \<in> set (w_hist w s). seq_of g \<le> t \<longrightarrow> covered (b s) (reading s (w_client w) @ fs') (seq_of g))" .
    qed
  next
    case (3 t)
    show ?thesis unfolding 3 using closed_ok [OF ok] by simp
  qed
qed

section \<open>The other steps\<close>

definition notices_apart :: "TerminalGap btree \<Rightarrow> bool" where
  "notices_apart m \<longleftrightarrow>
     (\<forall>g \<in> snd ` set m. \<forall>f \<in> set (gap_of g # (case gap_exited g of None \<Rightarrow> [] | Some f \<Rightarrow> [f])).
        \<exists>s. stream_name f = Some s \<and> is_terminal s)"

lemma notices_insert:
  assumes "notices_apart m"
    and "\<And>f. f \<in> set (gap_of g # (case gap_exited g of None \<Rightarrow> [] | Some f \<Rightarrow> [f])) \<Longrightarrow> \<exists>s. stream_name f = Some s \<and> is_terminal s"
  shows "notices_apart (bt_insert t g m)"
proof -
  have "snd ` set (bt_insert t g m) \<subseteq> insert g (snd ` set m)"
    by (induction t g m rule: bt_insert.induct) auto
  with assms show ?thesis unfolding notices_apart_def by blast
qed

lemma terminal_stream: "terminal_of f = Some t \<Longrightarrow> \<exists>s. stream_name f = Some s \<and> is_terminal s"
  by (auto simp: terminal_of_def split: option.splits if_splits)

lemma notices_gapped:
  assumes "notices_apart (terminals r)" and "terminal_of f = Some t" and "terminal_gapped t f r = (g, r')"
  shows "notices_apart (terminals r')"
proof (cases "map_of (terminals r) t")
  case None
  with assms show ?thesis by (simp add: terminal_gapped_def)
next
  case (Some n)
  then have "n \<in> snd ` set (terminals r)" by (force dest: map_of_SomeD)
  then have "\<exists>s. stream_name (gap_of n) = Some s \<and> is_terminal s" using assms(1) by (auto simp: notices_apart_def)
  with assms Some terminal_stream [OF assms(2)] show ?thesis
    by (auto simp: terminal_gapped_def intro!: notices_insert split: if_splits)
qed

lemma notices_lagged:
  assumes "notices_apart (terminals r)" and "terminal_of f = Some t" and "terminal_lagged t f r = Some r'"
  shows "notices_apart (terminals r')"
  using assms terminal_stream [OF assms(2)]
  by (auto simp: terminal_lagged_def Let_def intro!: notices_insert split: if_splits)

lemma lanes_apart_notices: "lanes_apart k \<longleftrightarrow> (\<forall>f \<in> set (k_replies k). stream_name f = None) \<and> notices_apart (terminals (k_recovery k))"
  by (simp add: lanes_apart_def notices_apart_def)

text \<open>A terminal's event leaves the cursors alone.\<close>

lemma send_event_terminal:
  assumes t: "terminal_of f = Some t"
  obtains r where "send_event room now f k = k\<lparr>k_recovery := r\<rparr>" and "lagging r = lagging (k_recovery k)"
      and "notices_apart (terminals (k_recovery k)) \<Longrightarrow> notices_apart (terminals r)"
  | "send_event room now f k = k\<lparr>k_events := k_events k @ [single f]\<rparr>"
  | "send_event room now f k = k\<lparr>k_open := False\<rparr>"
proof -
  obtain g r where gr: "terminal_gapped t f (k_recovery k) = (g, r)" by fastforce
  have e: "send_event room now f k =
      (if g then k\<lparr>k_recovery := r\<rparr>
       else case enqueue_event room f k of
              Some k' \<Rightarrow> k'
            | None \<Rightarrow> stopping_with (map_option (\<lambda>r. k\<lparr>k_recovery := r\<rparr>) (terminal_lagged t f (k_recovery k))) k)"
    by (simp add: send_event_def t gr)
  show thesis
  proof (cases g)
    case True
    with that(1) [of r] e show thesis
      using recovery_lookups(1) [OF gr] notices_gapped [OF _ t gr] by simp
  next
    case g: False
    show thesis
    proof (cases "enqueue_event room f k")
      case (Some k')
      with e g that(2) show thesis by (simp add: enqueue_event_def split: if_splits)
    next
      case n: None
      show thesis
      proof (cases "terminal_lagged t f (k_recovery k)")
        case None
        with e g n that(3) show thesis by (simp add: stopping_with_def)
      next
        case (Some r')
        with e g n that(1) [of r'] show thesis
          using recovery_lookups(2) [OF Some] notices_lagged [OF _ t Some] by (simp add: stopping_with_def)
      qed
    qed
  qed
qed

text \<open>A notification keeps every request where it is.\<close>

definition keeps :: "client \<Rightarrow> client \<Rightarrow> bool" where
  "keeps k k' \<longleftrightarrow>
     bt_wf (lagging (k_recovery k'))
     \<and> (\<forall>s c. cursor s k = Some c \<longrightarrow> (\<exists>c'. cursor s k' = Some c' \<and> c_request c' = c_request c \<and> c_after c' = c_after c))
     \<and> (\<forall>s c' r. cursor s k' = Some c' \<and> c_request c' = Some r \<longrightarrow> (\<exists>c. cursor s k = Some c \<and> c_request c = Some r))
     \<and> (\<forall>s. \<not> is_terminal s \<and> cursor s k \<noteq> None \<longrightarrow> queued_events s k' = queued_events s k)"

lemma keeps_calls:
  assumes wf: "calls_wf w" and k: "keeps (w_client w) k" and r: "receipts k = receipts (w_client w)"
  shows "calls_wf (w\<lparr>w_queue := q, w_client := k\<rparr>)"
proof -
  have "requests_wf k (w_next w)"
    using wf k unfolding calls_wf_def requests_wf_def keeps_def by meson
  moreover have "call_fits k p" if "p \<in> set (w_calls w)" for p
  proof -
    obtain rid s a ans where p: "p = (rid, s, a, ans)" by (metis prod_cases4)
    have "call_fits (w_client w) p" using wf that by (simp add: calls_wf_def)
    with k show ?thesis unfolding p call_fits_def keeps_def by force
  qed
  moreover have "receipt_fits (fst ` set (w_calls w)) k s" if "(s, t) \<in> set (receipts (w_client w))" for s t
  proof -
    have "receipt_fits (fst ` set (w_calls w)) (w_client w) s" using wf that unfolding calls_wf_def by blast
    with k show ?thesis unfolding receipt_fits_def keeps_def by metis
  qed
  ultimately show ?thesis using wf r unfolding calls_wf_def by auto
qed

lemma keeps_same:
  assumes "bt_wf (lagging (k_recovery k))" and "lagging (k_recovery k') = lagging (k_recovery k)"
    and "\<And>s. \<not> is_terminal s \<Longrightarrow> cursor s k \<noteq> None \<Longrightarrow> queued_events s k' = queued_events s k"
  shows "keeps k k'"
  using assms by (simp add: keeps_def)

lemma keeps_insert:
  assumes "bt_wf (lagging (k_recovery k))"
    and "case cursor s k of None \<Rightarrow> c_request c = None | Some d \<Rightarrow> c_request c = c_request d \<and> c_after c = c_after d"
  shows "keeps k (k\<lparr>k_recovery := (k_recovery k)\<lparr>lagging := bt_insert s c (lagging (k_recovery k))\<rparr>\<rparr>)"
  using assms by (auto simp: keeps_def split: option.splits)

lemma keeps_event:
  assumes "bt_wf (lagging (k_recovery k))"
    and "\<And>s. stream_name f = Some s \<Longrightarrow> is_terminal s \<or> cursor s k = None"
  shows "keeps k (k\<lparr>k_events := k_events k @ [single f]\<rparr>)"
  using assms by (intro keeps_same) (auto simp: queued_events_def single_def)

lemma send_event_keeps:
  assumes wf: "bt_wf (lagging (k_recovery k))" and n: "f_seq f = Some n"
  shows "keeps k (send_event room now f k)"
    and "notices_apart (terminals (k_recovery k)) \<Longrightarrow> notices_apart (terminals (k_recovery (send_event room now f k)))"
proof -
  let ?k = "send_event room now f k"
  let ?ok = "keeps k ?k \<and> (notices_apart (terminals (k_recovery k)) \<longrightarrow> notices_apart (terminals (k_recovery ?k)))"
  have closed: "keeps k (k\<lparr>k_open := False\<rparr>)"
    using wf by (intro keeps_same) (auto simp: queued_events_def)
  have "?ok"
  proof (cases "terminal_of f")
    case (Some t)
    then show ?thesis
    proof (cases rule: send_event_terminal [of f t room now k])
      case (1 r)
      then show ?thesis using keeps_same [OF wf, of "k\<lparr>k_recovery := r\<rparr>"] by simp
    next
      case 2
      then show ?thesis using keeps_event [OF wf, of f] terminal_stream [OF Some] by auto
    next
      case 3
      then show ?thesis using closed by simp
    qed
  next
    case t: None
    show ?thesis
    proof (cases "stream_name f")
      case None
      with t have "?k = stopping_with (enqueue_event room f k) k" by (simp add: send_event_def)
      then consider "?k = k\<lparr>k_events := k_events k @ [single f]\<rparr>" | "?k = k\<lparr>k_open := False\<rparr>"
        by (auto simp: stopping_with_def enqueue_event_def split: if_splits)
      then show ?thesis using closed keeps_event [OF wf, of f] None by cases simp_all
    next
      case (Some s)
      from t this n show ?thesis
      proof (cases rule: send_event_same [of f s n k room now])
        case (1 c)
        then show ?thesis using keeps_insert [OF wf, where s = s and c = "c\<lparr>c_latest := max (c_latest c) n\<rparr>"] by simp
      next
        case 2
        then show ?thesis using keeps_event [OF wf, of f] Some by simp
      next
        case 3
        then show ?thesis using keeps_insert [OF wf, where s = s] by simp
      next
        case 4
        then show ?thesis using closed by simp
      qed
    qed
  qed
  then show "keeps k ?k" "notices_apart (terminals (k_recovery k)) \<Longrightarrow> notices_apart (terminals (k_recovery ?k))"
    by simp_all
qed

lemma send_event_replies: "k_replies (send_event room now f k) = k_replies k"
  using send_event_outcome [of f k room now] unfolding outcome_def by fastforce

lemma world_notify:
  assumes ok: "world_ok b w" and op: "k_open (w_client w)" and q: "w_queue w = f # q"
  shows "world_ok b (w\<lparr>w_queue := q, w_client := send_event room now f (w_client w)\<rparr>)" (is "world_ok b ?w")
proof -
  have wf: "calls_wf w" using ok op by (simp add: world_ok_def)
  then have bt: "bt_wf (lagging (k_recovery (w_client w)))" by (simp add: calls_wf_def requests_wf_def)
  obtain n where n: "f_seq f = Some n" using ok q by (auto simp: world_ok_def)
  note keeps = send_event_keeps [OF bt n, of room now]
  have "lanes_apart (w_client w)" using ok by (simp add: world_ok_def)
  then have "lanes_apart (send_event room now f (w_client w))"
    using keeps(2) by (simp add: lanes_apart_notices send_event_replies)
  moreover have "calls_wf ?w"
    by (rule keeps_calls [OF wf keeps(1) send_event_receipts])
  moreover have "stream_ok_for (b s) s ?w" if "\<not> is_terminal s" for s
    using ok op q that by (intro notify_ok) (auto simp: world_ok_def)
  ultimately show ?thesis using ok q by (simp add: world_ok_def)
qed

lemma subscribe_subset:
  assumes "jreach (j, h)" and "last_seq j s \<noteq> - 1" and "subscribe j s a = (fs, start, lst)"
  shows "set fs \<subseteq> set (h s)"
proof -
  obtain out lowest where r: "replay j s a = (out, lowest)" by fastforce
  then have "set fs \<subseteq> set out" using assms(3) by (auto simp: subscribe_def Let_def dest: in_set_dropD)
  then show ?thesis using jreach_replay [OF assms(1,2) r] by auto
qed

lemma world_answer:
  assumes ok: "world_ok b w" and q: "w_calls w = xs @ (rid, s, a, None) # ys" and m: "last_seq (w_journal w) s \<noteq> - 1"
    and r: "subscribe (w_journal w) s a = (fs, start, lst)"
  shows "world_ok b (w\<lparr>w_calls := xs @ (rid, s, a, Some (Subscribed (Some start) (Some lst), fs)) # ys\<rparr>)"
proof (rule answered_ok [OF ok q])
  have j: "jreach (w_journal w, w_hist w)" and named: "\<And>f. f \<in> set (w_hist w s) \<Longrightarrow> stream_name f = Some s \<and> \<not> is_gap f"
    using ok by (simp_all add: world_ok_def)
  show "stream_name f = Some s" if "f \<in> set fs" for f
    using subscribe_subset [OF j m r] named that by blast
  assume t: "\<not> is_terminal s" and op: "k_open (w_client w)"
  have "call_fits (w_client w) (rid, s, a, None)" using ok op q by (simp add: world_ok_def calls_wf_def)
  then obtain c where "cursor s (w_client w) = Some c" "c_after c = a" by (auto simp: call_fits_def)
  moreover have "caught_up (b s) s w" using ok t op by (simp add: world_ok_def stream_ok_for_def)
  ultimately have "a \<le> last_seq (w_journal w) s" by (auto simp: caught_up_def)
  from subscribe_continues [OF j m r _ this] named
  show "fits (w_hist w s) (last_seq (w_journal w) s) a (Subscribed (Some start) (Some lst), fs)"
    by (simp add: fits_def)
qed

lemma world_journal:
  assumes ok: "world_ok b w" and st: "jstep (w_journal w, w_hist w) (j', w_hist w)"
  shows "world_ok b (w\<lparr>w_journal := j'\<rparr>)"
proof -
  have "jreach (j', w_hist w)" using ok st by (auto simp: world_ok_def intro: jr_step)
  moreover have "last_seq (w_journal w) s \<le> last_seq j' s" for s using jstep_monotone [OF st] by blast
  then have "stream_ok_for (b s) s (w\<lparr>w_journal := j'\<rparr>)" if "stream_ok_for (b s) s w" for s
    by (intro stream_ok_for_same [OF that]) auto
  moreover have "calls_wf (w\<lparr>w_journal := j'\<rparr>) = calls_wf w" by (simp add: calls_wf_def)
  ultimately show ?thesis using ok by (simp add: world_ok_def)
qed

lemma world_event:
  assumes ok: "world_ok b w" and f: "stream_name f = Some s" "method_of f \<noteq> ''session.gap''"
    and m: "last_seq (w_journal w) s \<noteq> - 1" and r: "record_frame s f (w_journal w) = (f', j')"
  shows "world_ok b (w\<lparr>w_journal := j', w_hist := (w_hist w)(s := w_hist w s @ [f']), w_queue := w_queue w @ [f']\<rparr>)"
    (is "world_ok b ?w")
proof -
  note facts = record_frame_facts [OF r]
  have sn: "stream_name f' = Some s" "\<not> is_gap f'" using f facts(1) by (simp_all add: is_gap_def method_of_def)
  have "jreach (j', (w_hist w)(s := w_hist w s @ [f']))"
    using ok m r by (auto simp: world_ok_def intro: jr_step js_record)
  moreover have "stream_ok_for (b t) t ?w" if "\<not> is_terminal t" for t
  proof (cases "t = s")
    case True
    have "stream_ok_for (b s) s w" using ok that True by (simp add: world_ok_def)
    with r f m show ?thesis unfolding True by (intro event_ok)
  next
    case False
    have same: "stream_ok_for (b t) t w" using ok that by (simp add: world_ok_def)
    show ?thesis using False sn facts(4) [of t] by (intro stream_ok_for_same [OF same]) auto
  qed
  moreover have "calls_wf ?w = calls_wf w" by (simp add: calls_wf_def)
  ultimately show ?thesis using ok sn facts(2) by (auto simp: world_ok_def)
qed

lemma world_reply:
  assumes ok: "world_ok b w" and f: "stream_name f = None"
  shows "world_ok b (w\<lparr>w_client := (w_client w)\<lparr>k_replies := k_replies (w_client w) @ [f]\<rparr>\<rparr>)" (is "world_ok b ?w")
proof -
  have "stream_ok_for (b s) s ?w" if "stream_ok_for (b s) s w" for s
    by (rule stream_ok_for_same [OF that]) auto
  moreover have "calls_wf ?w = calls_wf w"
    by (simp add: calls_wf_def requests_wf_def call_fits_def receipt_fits_def queued_events_def)
  moreover have "lanes_apart (w_client w) \<Longrightarrow> lanes_apart (w_client ?w)" using f by (auto simp: lanes_apart_def)
  ultimately show ?thesis using ok by (simp add: world_ok_def)
qed

lemma world_step: "wstep w w' \<Longrightarrow> world_ok b w \<Longrightarrow> world_ok b w'"
proof (induction rule: wstep.cases)
  case (journal w j') then show ?case by (simp add: world_journal)
next
  case (event f s w f' j') then show ?case by (simp add: world_event)
next
  case (notify w f q room now) then show ?case by (simp add: world_notify)
next
  case (reply f w) then show ?case by (simp add: world_reply)
next
  case (round w now k')
  then have "lanes_apart (w_client w)" by (simp add: world_ok_def)
  with round next_round_move [of now "w_next w" "w_client w" k'] show ?case using move_ok by blast
next
  case (request w now rid s a k') then show ?case using request_ok [of b w now rid s a k'] by simp
next
  case (wrote w)
  then have "lanes_apart (w_client w)" by (simp add: world_ok_def)
  then obtain d k0 where "wrote (w_client w) = settle d k0" "writer_move (w_client w) d k0" using wrote_move by blast
  with wrote move_ok [of w d k0 b] show ?case by simp
next
  case (answer w xs rid s a ys fs start lst) then show ?case by (simp add: world_answer)
next
  case (refuse w xs rid s a ys ans)
  then show ?case by (auto intro!: answered_ok simp: fits_def)
next
  case (deliver w xs rid s a ans fs ys budget now) then show ?case by (simp add: deliver_ok)
next
  case (hang_up w)
  then show ?case using closed_ok [of b w "(w_client w)\<lparr>k_open := False\<rparr>" "w_calls w"] by simp
qed

lemma world_attach:
  assumes j: "jreach (j, h)" and named: "\<And>s f. f \<in> set (h s) \<Longrightarrow> stream_name f = Some s \<and> method_of f \<noteq> ''session.gap''"
  shows "world_ok (last_seq j) (attach j h)"
proof -
  have low: "seq_of g \<le> last_seq j s" if "g \<in> set (h s)" for g s
    using that jreach_stream [OF j, of s] by (cases "stream_of j s"; fastforce simp: stream_ok_def last_seq_def)
  note defs = attach_def new_client_def no_recovery_def
  have empty: "reading s (w_client (attach j h)) = []" "receipts (w_client (attach j h)) = []" for s
    by (simp_all add: reading_def receipts_def messages_def List.map_filter_def defs)
  have "readable (last_seq j s) s (attach j h)" for s
    using named unfolding readable_def empty by (simp add: is_gap_def attach_def)
  moreover have "caught_up (last_seq j s) s (attach j h)" for s
    unfolding caught_up_def empty using low by (simp add: covered_def defs)
  moreover have "receipts_ok (last_seq j s) s (attach j h)" "answers_ok s (attach j h)" for s
    by (simp_all add: receipts_ok_def answers_ok_def empty) (simp add: attach_def)
  moreover have "calls_wf (attach j h)"
    unfolding calls_wf_def empty by (simp add: requests_wf_def defs)
  ultimately show ?thesis
    using j named by (simp add: world_ok_def stream_ok_for_def lanes_apart_def is_gap_def) (simp add: defs)
qed

lemma wreach_ok: "wreach j h w \<Longrightarrow> world_ok (last_seq j) w"
  by (induction rule: wreach.induct) (auto intro: world_attach world_step)




section \<open>A run with a gap\<close>

text \<open>One event, lost for want of room; the catch-up is refused, so the client is told of the gap.\<close>

definition sample_event :: frame where
  "sample_event =
     \<lparr>f_seq = None,
      f_payload = \<lparr>w_id = None, w_method = Some ''session.event'', w_stream = Some ''s'', w_terminal = None, w_data = [],
        w_reliable = False, w_delivery = False\<rparr>\<rparr>"

definition sample_client :: client where
  "sample_client =
     wrote (snd (next_round 0 1 (snd (next_round 0 1
       (recover True 0 0 Refused [] (snd (next_round 0 0
          (send_event False 0 (sample_event\<lparr>f_seq := Some 1\<rparr>) new_client))))))))"

definition sample_world :: world where
  "sample_world =
     (attach new_journal (\<lambda>_. []))\<lparr>w_journal := snd (record_frame ''s'' sample_event new_journal),
        w_hist := (\<lambda>_. [])(''s'' := [sample_event\<lparr>f_seq := Some 1\<rparr>]), w_next := 1, w_client := sample_client\<rparr>"

lemma sample_world_reach: "wreach new_journal (\<lambda>_. []) sample_world"
proof -
  let ?f = "sample_event\<lparr>f_seq := Some 1\<rparr>"
  let ?j = "snd (record_frame ''s'' sample_event new_journal)"
  let ?h = "(\<lambda>_. [])(''s'' := [?f])"
  let ?k1 = "send_event False 0 ?f new_client"
  let ?k2 = "snd (next_round 0 0 ?k1)"
  let ?k3 = "recover True 0 0 Refused [] ?k2"
  let ?k4 = "snd (next_round 0 1 ?k3)"
  let ?k5 = "snd (next_round 0 1 ?k4)"
  let ?w = "\<lambda>q cs n k. \<lparr>w_journal = ?j, w_hist = ?h, w_queue = q, w_calls = cs, w_next = n, w_client = k\<rparr>"
  have "wreach new_journal (\<lambda>_. []) (attach new_journal (\<lambda>_. []))"
    using jr_start [of None] by (intro wreach.start) (simp_all add: restored_def)
  moreover have "wstep (attach new_journal (\<lambda>_. [])) (?w [?f] [] 0 new_client)"
  proof -
    have "record_frame ''s'' sample_event new_journal = (?f, ?j)" by code_simp
    moreover have "last_seq (new_journal :: wire Journal) ''s'' \<noteq> - 1" "method_of sample_event \<noteq> ''session.gap''"
      "stream_name sample_event = Some ''s''" by code_simp+
    ultimately show ?thesis using wstep.event [of sample_event "''s''" "attach new_journal (\<lambda>_. [])" ?f ?j]
      by (simp add: attach_def)
  qed
  moreover have "wstep (?w [?f] [] 0 new_client) (?w [] [] 0 ?k1)"
    using wstep.notify [of "?w [?f] [] 0 new_client" ?f "[]" False 0] by (simp add: new_client_def)
  moreover have "wstep (?w [] [] 0 ?k1) (?w [] [(0, ''s'', 0, None)] 1 ?k2)"
  proof -
    have "k_open ?k1" "k_writing ?k1 = None" "next_round 0 0 ?k1 = (Some (0, ''s'', 0), ?k2)" by code_simp+
    then show ?thesis using wstep.request [of "?w [] [] 0 ?k1" 0 0 "''s''" 0 ?k2] by simp
  qed
  moreover have "wstep (?w [] [(0, ''s'', 0, None)] 1 ?k2) (?w [] [(0, ''s'', 0, Some (Refused, []))] 1 ?k2)"
    using wstep.refuse [of "?w [] [(0, ''s'', 0, None)] 1 ?k2" "[]" 0 "''s''" 0 "[]" Refused] by simp
  moreover have "wstep (?w [] [(0, ''s'', 0, Some (Refused, []))] 1 ?k2) (?w [] [] 1 ?k3)"
  proof -
    have "k_open ?k2" by code_simp
    then show ?thesis
      using wstep.deliver [of "?w [] [(0, ''s'', 0, Some (Refused, []))] 1 ?k2" "[]" 0 "''s''" 0 Refused "[]" "[]" True 0]
      by simp
  qed
  moreover have "wstep (?w [] [] 1 ?k3) (?w [] [] 1 ?k4)"
  proof -
    have "k_open ?k3" "k_writing ?k3 = None" "next_round 0 1 ?k3 = (None, ?k4)" by code_simp+
    then show ?thesis using wstep.round [of "?w [] [] 1 ?k3" 0 ?k4] by simp
  qed
  moreover have "wstep (?w [] [] 1 ?k4) (?w [] [] 1 ?k5)"
  proof -
    have "k_open ?k4" "k_writing ?k4 = None" "next_round 0 1 ?k4 = (None, ?k5)" by code_simp+
    then show ?thesis using wstep.round [of "?w [] [] 1 ?k4" 0 ?k5] by simp
  qed
  moreover have "wstep (?w [] [] 1 ?k5) sample_world"
  proof -
    have "k_open ?k5" by code_simp
    then show ?thesis using wstep.wrote [of "?w [] [] 1 ?k5"] by (simp add: sample_world_def sample_client_def attach_def)
  qed
  ultimately show ?thesis by (meson wreach.more)
qed

lemma sample_client_read: "k_written sample_client = [gap ''s'' 1]" "messages sample_client = []" "k_open sample_client"
  "lagging (k_recovery sample_client) = []"
  by code_simp+



end
