(* ===== verification/Lines.thy ===== *)
theory Lines
  imports Prelude
begin

text \<open>
  The lines of a transcript with their newlines (\<open>str::split_inclusive\<close>), and the byte offsets at which
  they start and end. The same lines as \<open>str::lines\<close>, so a line number addresses both. The lemmas: the
  pieces are the text, the ends increase strictly to the length of the text, and a text cut at a line
  end keeps the line ends before the cut.
\<close>

fun split_inclusive :: "string \<Rightarrow> string list" where
  "split_inclusive [] = []"
| "split_inclusive (c # s) =
     (if c = CHR 0x0A then [c] # split_inclusive s
      else case split_inclusive s of [] \<Rightarrow> [[c]] | l # ls \<Rightarrow> (c # l) # ls)"

fun ends_from :: "nat \<Rightarrow> string list \<Rightarrow> nat list" where
  "ends_from off [] = []"
| "ends_from off (l # ls) = (off + length l) # ends_from (off + length l) ls"

fun starts_from :: "nat \<Rightarrow> string list \<Rightarrow> nat list" where
  "starts_from off [] = []"
| "starts_from off (l # ls) = off # starts_from (off + length l) ls"

definition line_ends :: "string \<Rightarrow> nat list" where
  "line_ends s = ends_from 0 (split_inclusive s)"

definition line_starts :: "string \<Rightarrow> nat list" where
  "line_starts s = starts_from 0 (split_inclusive s)"

lemma concat_split_inclusive [simp]: "concat (split_inclusive s) = s"
  by (induction s rule: split_inclusive.induct) (auto split: list.split)

lemma split_inclusive_Nil_iff [simp]: "split_inclusive s = [] \<longleftrightarrow> s = []"
  using concat_split_inclusive [of s] by (cases s) (auto split: list.split)

lemma split_inclusive_ne: "l \<in> set (split_inclusive s) \<Longrightarrow> l \<noteq> []"
  by (induction s arbitrary: l rule: split_inclusive.induct) (auto split: list.splits if_splits)

lemma length_ends_from [simp]: "length (ends_from off ls) = length ls" "length (starts_from off ls) = length ls"
  by (induction ls arbitrary: off) auto

lemma ends_from_nth: "i < length ls \<Longrightarrow> ends_from off ls ! i = off + length (concat (take (Suc i) ls))"
  by (induction ls arbitrary: off i) (auto simp: nth_Cons' take_Cons' gr0_conv_Suc)

lemma starts_from_nth: "i < length ls \<Longrightarrow> starts_from off ls ! i = off + length (concat (take i ls))"
  by (induction ls arbitrary: off i) (auto simp: nth_Cons' take_Cons' gr0_conv_Suc)

lemma length_line_ends [simp]: "length (line_ends s) = length (split_inclusive s)"
  "length (line_starts s) = length (split_inclusive s)"
  by (simp_all add: line_ends_def line_starts_def)

lemma ends_from_less: "(\<And>l. l \<in> set ls \<Longrightarrow> l \<noteq> []) \<Longrightarrow> e \<in> set (ends_from off ls) \<Longrightarrow> off < e"
  by (induction ls arbitrary: off) fastforce+

lemma ends_from_sorted: "(\<And>l. l \<in> set ls \<Longrightarrow> l \<noteq> []) \<Longrightarrow> sorted_wrt (<) (ends_from off ls)"
  by (induction ls arbitrary: off) (auto dest: ends_from_less [rotated])

lemma line_ends_sorted: "sorted_wrt (<) (line_ends s)"
  unfolding line_ends_def by (rule ends_from_sorted) (rule split_inclusive_ne)

lemma line_ends_mono: "i < j \<Longrightarrow> j < length (split_inclusive s) \<Longrightarrow> line_ends s ! i < line_ends s ! j"
  using line_ends_sorted [of s] by (simp add: sorted_wrt_iff_nth_less)

lemma line_ends_le: "i \<le> j \<Longrightarrow> j < length (split_inclusive s) \<Longrightarrow> line_ends s ! i \<le> line_ends s ! j"
  using line_ends_mono [of i j s] by (cases "i = j") auto

lemma line_starts_nth: "i < length (split_inclusive s) \<Longrightarrow> line_starts s ! i = (if i = 0 then 0 else line_ends s ! (i - 1))"
  by (cases i) (simp_all add: line_starts_def line_ends_def starts_from_nth ends_from_nth)

lemma last_line_end: "s \<noteq> [] \<Longrightarrow> last (line_ends s) = length s"
proof -
  assume "s \<noteq> []"
  then have "line_ends s \<noteq> []" by (metis length_0_conv length_line_ends(1) split_inclusive_Nil_iff)
  then show ?thesis
    using \<open>s \<noteq> []\<close> by (simp add: last_conv_nth line_ends_def ends_from_nth)
qed

lemma line_end_le: "e \<in> set (line_ends s) \<Longrightarrow> e \<le> length s"
proof -
  assume "e \<in> set (line_ends s)"
  then obtain i where i: "i < length (split_inclusive s)" "e = length (concat (take (Suc i) (split_inclusive s)))"
    by (auto simp: in_set_conv_nth line_ends_def ends_from_nth)
  have "s = concat (take (Suc i) (split_inclusive s)) @ concat (drop (Suc i) (split_inclusive s))"
    by (simp flip: concat_append)
  then have "length s = e + length (concat (drop (Suc i) (split_inclusive s)))" using i(2) by (metis length_append)
  then show ?thesis by simp
qed

lemma line_end_pos: "e \<in> set (line_ends s) \<Longrightarrow> 0 < e"
  unfolding line_ends_def by (rule ends_from_less) (rule split_inclusive_ne)

lemma line_end_nth_le [simp]: "i < length (split_inclusive s) \<Longrightarrow> line_ends s ! i \<le> length s"
  by (rule line_end_le) simp

text \<open>\<open>str::lines\<close> has the same lines.\<close>

lemma split_on_ne [simp]: "split_on c s \<noteq> []"
  by (induction s) (auto split: list.split)

lemma split_inclusive_split_on:
  "split_inclusive s =
     map (\<lambda>p. p @ [CHR 0x0A]) (butlast (split_on CHR 0x0A s))
     @ (if last (split_on CHR 0x0A s) = [] then [] else [last (split_on CHR 0x0A s)])"
proof (induction s)
  case (Cons c s)
  then show ?case by (cases "split_on CHR 0x0A s") (auto split: if_splits)
qed simp

lemma length_lines_of [simp]: "length (lines_of s) = length (split_inclusive s)"
  by (simp add: lines_of_def split_inclusive_split_on Let_def)

text \<open>A text cut at the end of a line.\<close>

lemma split_inclusive_line: "CHR 0x0A \<notin> set p \<Longrightarrow> split_inclusive (p @ CHR 0x0A # s) = (p @ [CHR 0x0A]) # split_inclusive s"
  by (induction p) auto

lemma split_inclusive_open: "CHR 0x0A \<notin> set p \<Longrightarrow> p \<noteq> [] \<Longrightarrow> split_inclusive p = [p]"
proof (induction p)
  case (Cons c p)
  then show ?case by (cases "p = []") auto
qed simp

lemma split_inclusive_pieces: "split_inclusive (concat (take k (split_inclusive s))) = take k (split_inclusive s)"
proof (induction s arbitrary: k rule: length_induct)
  case (1 s)
  show ?case
  proof (cases "CHR 0x0A \<in> set s")
    case True
    then obtain p r where s: "s = p @ CHR 0x0A # r" "CHR 0x0A \<notin> set p" by (metis split_list_first)
    with 1 have "split_inclusive (concat (take n (split_inclusive r))) = take n (split_inclusive r)" for n by simp
    with s show ?thesis by (cases k) (simp_all add: split_inclusive_line)
  next
    case False
    then show ?thesis by (cases "s = []"; cases k) (simp_all add: split_inclusive_open)
  qed
qed

lemma take_line_end:
  assumes "i < length (split_inclusive s)"
  shows "take (line_ends s ! i) s = concat (take (Suc i) (split_inclusive s))"
proof -
  have "s = concat (take (Suc i) (split_inclusive s)) @ concat (drop (Suc i) (split_inclusive s))"
    by (simp flip: concat_append)
  then show ?thesis using assms by (metis add_0 append_eq_conv_conj ends_from_nth line_ends_def)
qed

lemma ends_from_take: "ends_from off (take k ls) = take k (ends_from off ls)"
  by (induction ls arbitrary: off k) (auto simp: take_Cons' )

lemma line_ends_cut:
  assumes "i < length (split_inclusive s)"
  shows "line_ends (take (line_ends s ! i) s) = take (Suc i) (line_ends s)"
  using ends_from_take [of 0 "Suc i" "split_inclusive s"]
  by (simp only: take_line_end [OF assms]) (simp add: line_ends_def split_inclusive_pieces)

lemma sorted_take_filter:
  assumes "sorted_wrt (<) xs" and "i < length xs"
  shows "set (take (Suc i) xs) = {x \<in> set xs. x \<le> (xs ! i :: nat)}"
proof -
  have "xs ! k \<le> xs ! i \<longleftrightarrow> k \<le> i" if "k < length xs" for k
    using assms that by (metis leD leI order_le_less sorted_wrt_nth_less)
  with assms(2) show ?thesis by (auto simp: in_set_conv_nth less_Suc_eq_le) (metis le_less_trans, metis le_imp_less_Suc nth_take)
qed

lemma line_ends_take:
  assumes "e \<in> set (line_ends s)"
  shows "set (line_ends (take e s)) = {x \<in> set (line_ends s). x \<le> e}"
proof -
  from assms obtain i where i: "i < length (split_inclusive s)" "e = line_ends s ! i" by (auto simp: in_set_conv_nth)
  then show ?thesis using sorted_take_filter [OF line_ends_sorted, of i s] by (simp add: line_ends_cut)
qed

end
