(* ===== verification/Claude.thy ===== *)
theory Claude
  imports Turns Json Lines
begin

text \<open>
  The Claude Code adapter (\<open>src/adapter/claude_code.rs\<close>): how the records of a transcript become the
  events of a session, which calls of it have no output yet, and where its executions end. A
  transcript is a text of one JSON record per line; the JSON parser is the parameter \<open>J\<close>.

  The theorems: line numbers never decrease along the events, and a prompt is the first event of its
  line, so no line belongs to two turns; the ends of executions are ends of lines in increasing order,
  and none but an interruption lies where a call of the running turn has no output.
\<close>

section \<open>Records\<close>

type_synonym parser = "string \<Rightarrow> json option"

definition trim_start :: "string \<Rightarrow> string" where
  "trim_start s = strip_any ws_bytes s"

fun join_nl :: "string list \<Rightarrow> string" where
  "join_nl [] = []"
| "join_nl [x] = x"
| "join_nl (x # y # ys) = x @ CHR 0x0A # join_nl (y # ys)"

definition type_of :: "json \<Rightarrow> string option" where
  "type_of v = str_field ''type'' v"

definition content_of :: "json \<Rightarrow> json option" where
  "content_of v = Option.bind (get ''message'' v) (get ''content'')"

definition SYNTHETIC_MODEL :: string where "SYNTHETIC_MODEL = ''<synthetic>''"

definition INJECTED :: "string list" where
  "INJECTED =
     [''<task-notification>'', ''<command-name>'', ''<command-message>'', ''<local-command-stdout>'',
      ''<local-command-caveat>'', ''<system-reminder>'', ''<user-prompt-submit-hook>'', ''<session-start-hook>'',
      ''<bash-input>'', ''<bash-stdout>'', ''<bash-notification>'', ''<teammate-message'',
      ''[Your previous response had no visible output'', ''[Request interrupted by user]'',
      ''[Request interrupted by user for tool use]'', ''A session-scoped Stop hook is now active'',
      ''Caveat: The messages below were generated by the user while '',
      ''Your tool call was malformed and could not be parsed'', ''Unknown slash command:'']"

definition is_synthetic_user_text :: "string \<Rightarrow> bool" where
  "is_synthetic_user_text text = list_ex (\<lambda>p. prefix p (trim_start text)) INJECTED"

definition has_system_prompt_source :: "json \<Rightarrow> bool" where
  "has_system_prompt_source v \<longleftrightarrow>
     str_field ''promptSource'' v = Some ''system''
     \<and> \<not> (type_of v = Some ''user''
          \<and> Option.bind (get ''origin'' v) (str_field ''kind'') = Some ''plugin''
          \<and> Option.bind (get ''origin'' v) (bool_field ''asUser'') = Some True)"

definition carries_image_note :: "string \<Rightarrow> bool" where
  "carries_image_note text = prefix ''[Image: '' (trim_start text)"

definition is_system_generated :: "json \<Rightarrow> string \<Rightarrow> bool" where
  "is_system_generated v text \<longleftrightarrow>
     bool_field ''isMeta'' v = Some True \<and> \<not> carries_image_note text \<or> has_system_prompt_source v"

definition absorbed_mid_turn_text :: "json \<Rightarrow> string option" where
  "absorbed_mid_turn_text v =
     (case str_field ''operation'' v of
        None \<Rightarrow> None
      | Some op \<Rightarrow>
          if op \<noteq> ''remove'' \<or> str_field ''reason'' v \<noteq> Some ''absorbed_mid_turn'' then None
          else case str_field ''content'' v of
                 None \<Rightarrow> None
               | Some text \<Rightarrow> if trim text = [] \<or> is_synthetic_user_text text then None else Some text)"

definition is_compact_summary :: "json \<Rightarrow> bool" where
  "is_compact_summary v \<longleftrightarrow> bool_field ''isCompactSummary'' v = Some True"

text \<open>The bodies of the blocks of type \<open>text\<close>.\<close>

definition text_parts :: "json list \<Rightarrow> string list" where
  "text_parts blocks =
     List.map_filter (\<lambda>b. if type_of b = Some ''text'' then str_field ''text'' b else None) blocks"

definition extract_text :: "json option \<Rightarrow> string option" where
  "extract_text content =
     (case content of
        None \<Rightarrow> None
      | Some c \<Rightarrow>
     (case as_str c of
        Some s \<Rightarrow> if trim s = [] then None else Some s
      | None \<Rightarrow>
     (case as_array c of
        None \<Rightarrow> None
      | Some arr \<Rightarrow> if text_parts arr = [] then None else Some (join_nl (text_parts arr)))))"

definition tool_result_body :: "json \<Rightarrow> string list" where
  "tool_result_body b =
     (case get ''content'' b of
        None \<Rightarrow> []
      | Some inner \<Rightarrow>
     (case as_str inner of
        Some s \<Rightarrow> if trim s = [] then [] else [s]
      | None \<Rightarrow>
     (case as_array inner of
        None \<Rightarrow> []
      | Some blocks \<Rightarrow>
          (let parts = filter (\<lambda>t. trim t \<noteq> []) (text_parts blocks) in if parts = [] then [] else [join_nl parts]))))"

definition extract_tool_results :: "json option \<Rightarrow> string list option" where
  "extract_tool_results content =
     (case Option.bind content as_array of
        None \<Rightarrow> None
      | Some arr \<Rightarrow>
          (let results = filter (\<lambda>b. type_of b = Some ''tool_result'') arr
           in if results = [] then None else Some (concat (map tool_result_body results))))"

definition extract_paths :: "json option \<Rightarrow> string list" where
  "extract_paths input =
     (case input of
        None \<Rightarrow> []
      | Some v \<Rightarrow>
          filter (\<lambda>p. p \<noteq> []) (List.map_filter (\<lambda>k. str_field k v) [''file_path'', ''path'', ''notebook_path'']))"

section \<open>Injections ahead of a prompt\<close>

lemma length_strip_any: "length (strip_any ps s) \<le> length s"
  by (induction ps s rule: strip_any.induct) (subst strip_any.simps, fastforce split: option.split)

lemma split_once_str_length: "split_once_str p s = Some (a, b) \<Longrightarrow> length a + length p + length b = length s"
proof (induction p s arbitrary: a b rule: split_once_str.induct)
  case (2 p x xs)
  then show ?case
    by (auto split: option.splits simp: strip_prefix_Some) (metis length_Cons length_append)
qed (simp split: if_splits)

definition REMINDER_OPEN :: string where "REMINDER_OPEN = ''<system-reminder>''"
definition REMINDER_CLOSE :: string where "REMINDER_CLOSE = ''</system-reminder>''"

text \<open>The loop of \<open>split_leading_reminders\<close>: the elements cut off so far, and the rest.\<close>

function cut_reminders :: "string list \<Rightarrow> string \<Rightarrow> (string list \<times> string) option" where
  "cut_reminders injected rest =
     (if prefix REMINDER_OPEN rest
      then case split_once_str REMINDER_CLOSE rest of
             None \<Rightarrow> None
           | Some (body, after) \<Rightarrow> cut_reminders (injected @ [body @ REMINDER_CLOSE]) (trim_start after)
      else Some (injected, rest))"
  by pat_completeness auto
termination
proof (relation "measure (\<lambda>(i, r). length r)", goal_cases)
  case (2 injected rest p body after)
  then have "length after < length rest"
    using split_once_str_length [of REMINDER_CLOSE rest body after] by (simp add: REMINDER_CLOSE_def)
  with length_strip_any [of ws_bytes after] show ?case by (simp add: trim_start_def)
qed simp

declare cut_reminders.simps [simp del]

definition split_leading_reminders :: "string \<Rightarrow> (string \<times> string) option" where
  "split_leading_reminders text =
     (case cut_reminders [] (trim_start text) of
        None \<Rightarrow> None
      | Some (injected, rest) \<Rightarrow>
          if injected = [] \<or> trim rest = [] \<or> is_synthetic_user_text rest then None
          else Some (join_nl injected, rest))"

definition split_leading_injection :: "json option \<Rightarrow> (string \<times> string) option" where
  "split_leading_injection content =
     (case content of
        None \<Rightarrow> None
      | Some c \<Rightarrow>
     (case as_str c of
        Some text \<Rightarrow> split_leading_reminders text
      | None \<Rightarrow>
     (case as_array c of
        None \<Rightarrow> None
      | Some arr \<Rightarrow>
          (let blocks = filter (\<lambda>t. trim t \<noteq> []) (text_parts arr);
               lead = takeWhile is_synthetic_user_text blocks;
               human = dropWhile is_synthetic_user_text blocks
           in if human = [] \<or> lead = [] then None else Some (join_nl lead, join_nl human)))))"

section \<open>The events of a session\<close>

definition text_event :: "EventKind \<Rightarrow> string \<Rightarrow> string option \<Rightarrow> nat \<Rightarrow> Event" where
  "text_event k t ts n =
     \<lparr>ev_kind = k, ev_text = Some t, ev_timestamp = ts, ev_paths = [], ev_tool = None, ev_line = Some n\<rparr>"

definition other_event :: "string option \<Rightarrow> nat \<Rightarrow> Event" where
  "other_event ts n =
     \<lparr>ev_kind = Other, ev_text = None, ev_timestamp = ts, ev_paths = [], ev_tool = None, ev_line = Some n\<rparr>"

text \<open>A record that is kept out of the conversation as a whole.\<close>

definition inactive_events :: "json option \<Rightarrow> string option \<Rightarrow> nat \<Rightarrow> Event list" where
  "inactive_events content ts n =
     (case extract_text content of Some t \<Rightarrow> [text_event Other t ts n] | None \<Rightarrow> [other_event ts n])"

definition user_events :: "json \<Rightarrow> string option \<Rightarrow> nat \<Rightarrow> Event list" where
  "user_events v ts n =
     (let content = content_of v
      in if is_system_generated v (case extract_text content of Some t \<Rightarrow> t | None \<Rightarrow> [])
         then inactive_events content ts n
         else
    (case extract_tool_results content of
       Some outs \<Rightarrow> map (\<lambda>t. text_event ToolResult t ts n) outs
     | None \<Rightarrow>
    (case extract_text content of
       None \<Rightarrow> []
     | Some t \<Rightarrow>
         (case (if \<not> is_system_generated v t \<and> \<not> is_compact_summary v then split_leading_injection content else None) of
            Some (injected, human) \<Rightarrow> [text_event UserPrompt human ts n, text_event Other injected ts n]
          | None \<Rightarrow>
              [text_event
                 (if is_compact_summary v then CompactSummary
                  else if is_system_generated v t \<or> is_synthetic_user_text t then Other
                  else UserPrompt) t ts n]))))"

definition block_events :: "json \<Rightarrow> string option \<Rightarrow> nat \<Rightarrow> json \<Rightarrow> Event list" where
  "block_events v ts n b =
     (if type_of b = Some ''text''
      then case str_field ''text'' b of
             Some t \<Rightarrow>
               if trim t = [] then []
               else [text_event (if is_compact_summary v then CompactSummary else AssistantReply) t ts n]
           | None \<Rightarrow> []
      else if type_of b = Some ''tool_use''
      then (let name = (case str_field ''name'' b of Some s \<Rightarrow> s | None \<Rightarrow> ''tool'');
                paths = extract_paths (get ''input'' b)
            in [\<lparr>ev_kind = (if paths = [] then ToolUse else FileEdit), ev_text = Some name, ev_timestamp = ts,
                 ev_paths = paths, ev_tool = Some name, ev_line = Some n\<rparr>])
      else [other_event ts n])"

definition assistant_events :: "json \<Rightarrow> string option \<Rightarrow> nat \<Rightarrow> Event list" where
  "assistant_events v ts n =
     (let content = content_of v
      in if bool_field ''isMeta'' v = Some True \<or> has_system_prompt_source v then inactive_events content ts n
         else case Option.bind content as_array of
                Some arr \<Rightarrow> concat (map (block_events v ts n) arr)
              | None \<Rightarrow>
                  (case extract_text content of Some t \<Rightarrow> [text_event AssistantReply t ts n] | None \<Rightarrow> []))"

definition record_events :: "json \<Rightarrow> nat \<Rightarrow> Event list" where
  "record_events v n =
     (let ts = str_field ''timestamp'' v; ty = type_of v
      in if ty = Some ''user'' then user_events v ts n
         else if ty = Some ''assistant'' then assistant_events v ts n
         else if ty = Some ''queue-operation''
         then (case absorbed_mid_turn_text v of
                 Some t \<Rightarrow> [text_event UserInterjection t ts n]
               | None \<Rightarrow> [other_event ts n])
         else [other_event ts n])"

text \<open>The record of a line: blank and corrupt lines have none.\<close>

definition record_of :: "parser \<Rightarrow> string \<Rightarrow> json option" where
  "record_of J line = (if trim line = [] then None else J (trim line))"

definition parse_step :: "parser \<Rightarrow> nat \<times> string \<Rightarrow> Session \<Rightarrow> Session" where
  "parse_step J = (\<lambda>(n, line) s.
     case record_of J line of
       None \<Rightarrow> s
     | Some v \<Rightarrow>
         s\<lparr>session_id := (if session_id s = [] then (case str_field ''sessionId'' v of Some i \<Rightarrow> i | None \<Rightarrow> []) else session_id s),
           session_cwd := (case session_cwd s of
                             Some c \<Rightarrow> Some c
                           | None \<Rightarrow> (case str_field ''cwd'' v of Some c \<Rightarrow> (if c = [] then None else Some c) | None \<Rightarrow> None)),
           session_events := session_events s @ record_events v n\<rparr>)"

definition parse_claude :: "parser \<Rightarrow> string \<Rightarrow> Session" where
  "parse_claude J text =
     fold (parse_step J) (enumerate 0 (lines_of text))
       \<lparr>session_id = [], session_runtime = ''claude-code'', session_cwd = None, session_events = []\<rparr>"

section \<open>Open calls\<close>

record OpenCall =
  oc_line :: nat
  oc_id :: string
  oc_record :: string
  oc_name :: string

definition call_step :: "nat \<Rightarrow> json \<Rightarrow> OpenCall list \<Rightarrow> OpenCall list" where
  "call_step n b calls =
     (if type_of b = Some ''tool_use''
      then (case str_field ''id'' b of
              Some i \<Rightarrow>
                calls @ [\<lparr>oc_line = n, oc_id = i, oc_record = ''tool_use'',
                          oc_name = (case str_field ''name'' b of Some s \<Rightarrow> s | None \<Rightarrow> ''tool'')\<rparr>]
            | None \<Rightarrow> calls)
      else if type_of b = Some ''tool_result''
      then (case str_field ''tool_use_id'' b of
              Some i \<Rightarrow> filter (\<lambda>c. oc_id c \<noteq> i) calls
            | None \<Rightarrow> calls)
      else calls)"

definition calls_of_record :: "nat \<times> string \<Rightarrow> parser \<Rightarrow> OpenCall list \<Rightarrow> OpenCall list" where
  "calls_of_record = (\<lambda>(n, line) J calls.
     case record_of J line of
       None \<Rightarrow> calls
     | Some v \<Rightarrow>
         if type_of v \<notin> {Some ''assistant'', Some ''user''} \<or> bool_field ''isMeta'' v = Some True
            \<or> bool_field ''isCompactSummary'' v = Some True \<or> has_system_prompt_source v
         then calls
         else case Option.bind (content_of v) as_array of
                None \<Rightarrow> calls
              | Some blocks \<Rightarrow> fold (call_step n) blocks calls)"

definition open_tool_calls :: "parser \<Rightarrow> string \<Rightarrow> OpenCall list" where
  "open_tool_calls J text = fold (\<lambda>l. calls_of_record l J) (enumerate 0 (lines_of text)) []"

section \<open>Where executions end\<close>

datatype TurnClose = Reply | Interrupt

definition opens_message :: "json option \<Rightarrow> bool" where
  "opens_message content =
     (case Option.bind content as_array of
        None \<Rightarrow> False
      | Some blocks \<Rightarrow>
          blocks \<noteq> []
          \<and> list_all (\<lambda>b. type_of b \<in> {Some ''thinking'', Some ''redacted_thinking'', Some ''tool_use''}) blocks)"

text \<open>The calls of the running turn without output.\<close>

definition track_block :: "json \<Rightarrow> string set \<Rightarrow> string set" where
  "track_block b calls =
     (if type_of b = Some ''tool_use''
      then (case str_field ''id'' b of Some i \<Rightarrow> insert i calls | None \<Rightarrow> calls)
      else if type_of b = Some ''tool_result''
      then (case str_field ''tool_use_id'' b of Some i \<Rightarrow> calls - {i} | None \<Rightarrow> calls)
      else calls)"

definition track_open_calls :: "json \<Rightarrow> string set \<Rightarrow> string set" where
  "track_open_calls v calls =
     (if type_of v \<notin> {Some ''assistant'', Some ''user''} \<or> is_compact_summary v \<or> has_system_prompt_source v
      then calls
      else
        (let content = content_of v
         in if type_of v = Some ''user'' \<and> extract_tool_results content = None
            then (let t = (case extract_text content of Some t \<Rightarrow> t | None \<Rightarrow> [])
                  in if t \<noteq> [] \<and> \<not> is_system_generated v t
                        \<and> (\<not> is_synthetic_user_text t \<or> split_leading_injection content \<noteq> None)
                     then {} else calls)
            else (case Option.bind content as_array of
                    None \<Rightarrow> calls
                  | Some blocks \<Rightarrow> fold track_block blocks calls)))"

record scan =
  sc_offset :: nat
  sc_pending :: "(nat \<times> TurnClose) option"
  sc_interrupted :: bool
  sc_closes :: "(nat \<times> TurnClose) list"
  sc_open :: "string set"
  sc_manual :: bool

definition scan_start :: scan where
  "scan_start =
     \<lparr>sc_offset = 0, sc_pending = None, sc_interrupted = False, sc_closes = [], sc_open = {}, sc_manual = False\<rparr>"

definition user_text :: "json \<Rightarrow> string option" where
  "user_text v =
     (if type_of v = Some ''user'' \<and> extract_tool_results (content_of v) = None
      then Some (case extract_text (content_of v) of Some t \<Rightarrow> t | None \<Rightarrow> []) else None)"

definition is_marker :: "json \<Rightarrow> bool" where
  "is_marker v = (case user_text v of None \<Rightarrow> False | Some t \<Rightarrow> prefix ''[Request interrupted'' (trim_start t))"

definition is_human :: "json \<Rightarrow> bool" where
  "is_human v = (case user_text v of None \<Rightarrow> False | Some t \<Rightarrow> \<not> is_system_generated v t)"

definition message_str :: "string \<Rightarrow> json \<Rightarrow> string option" where
  "message_str k v = Option.bind (get ''message'' v) (str_field k)"

definition is_generated :: "json \<Rightarrow> bool" where
  "is_generated v \<longleftrightarrow>
     type_of v = Some ''assistant''
     \<and> (message_str ''model'' v = Some SYNTHETIC_MODEL \<or> bool_field ''isApiErrorMessage'' v = Some True)"

definition is_terminal_reply :: "json \<Rightarrow> bool" where
  "is_terminal_reply v \<longleftrightarrow>
     type_of v = Some ''assistant'' \<and> \<not> is_generated v
     \<and> (message_str ''stop_reason'' v = Some ''refusal''
        \<or> message_str ''stop_reason'' v \<in> {Some ''end_turn'', Some ''stop_sequence'', Some ''max_tokens''}
          \<and> \<not> opens_message (content_of v))"

definition is_interrupted_tool :: "json \<Rightarrow> bool" where
  "is_interrupted_tool v \<longleftrightarrow>
     type_of v = Some ''user'' \<and> str_field ''toolDenialKind'' v = Some ''interrupted''
     \<and> (case Option.bind (content_of v) as_array of
          None \<Rightarrow> False
        | Some blocks \<Rightarrow> list_ex (\<lambda>b. type_of b = Some ''tool_result'' \<and> bool_field ''is_error'' b = Some True) blocks)"

definition is_system :: "string \<Rightarrow> json \<Rightarrow> bool" where
  "is_system sub v \<longleftrightarrow> type_of v = Some ''system'' \<and> str_field ''subtype'' v = Some sub"

definition skipped :: "json \<Rightarrow> bool" where
  "skipped v \<longleftrightarrow> bool_field ''isSidechain'' v = Some True \<or> bool_field ''isMeta'' v = Some True"

text \<open>One record of the main chain, its line already counted.\<close>

definition close_record :: "bool \<Rightarrow> json \<Rightarrow> scan \<Rightarrow> scan" where
  "close_record include_ended v s =
     (let s = (if is_human v
               then s\<lparr>sc_closes := sc_closes s @ (case sc_pending s of None \<Rightarrow> [] | Some p \<Rightarrow> [p]),
                      sc_pending := None, sc_interrupted := False\<rparr>
               else s);
          s = s\<lparr>sc_open := track_open_calls v (sc_open s)\<rparr>;
          compacted = (sc_manual s \<and> is_compact_summary v);
          s = s\<lparr>sc_manual :=
                 is_system ''compact_boundary'' v
                 \<and> Option.bind (get ''compactMetadata'' v) (str_field ''trigger'') = Some ''manual''\<rparr>;
          stopped = (is_interrupted_tool v \<or> is_marker v);
          s = (if stopped then s\<lparr>sc_open := {}\<rparr> else s);
          close = (if sc_interrupted s then Interrupt else Reply)
      in if sc_open s \<noteq> {} then s
         else if is_system ''turn_duration'' v
         then s\<lparr>sc_closes := sc_closes s @ [(sc_offset s, close)], sc_pending := None\<rparr>
         else if is_terminal_reply v
         then s\<lparr>sc_pending := Some (sc_offset s, Reply), sc_interrupted := False\<rparr>
         else if stopped
         then s\<lparr>sc_pending := Some (sc_offset s, Interrupt), sc_interrupted := True\<rparr>
         else if include_ended \<and> (is_generated v \<or> compacted)
         then s\<lparr>sc_pending := Some (sc_offset s, close)\<rparr>
         else s)"

definition close_line :: "parser \<Rightarrow> bool \<Rightarrow> string \<Rightarrow> scan \<Rightarrow> scan" where
  "close_line J include_ended line s =
     (let s = s\<lparr>sc_offset := sc_offset s + length line\<rparr>
      in case J line of
           None \<Rightarrow> s
         | Some v \<Rightarrow> if skipped v then s else close_record include_ended v s)"

definition execution_closes :: "parser \<Rightarrow> string \<Rightarrow> bool \<Rightarrow> (nat \<times> TurnClose) list" where
  "execution_closes J text include_ended =
     (let s = fold (close_line J include_ended) (split_inclusive text) scan_start
      in sc_closes s @ (case sc_pending s of None \<Rightarrow> [] | Some p \<Rightarrow> [p]))"

definition completed_turn_boundaries :: "parser \<Rightarrow> string \<Rightarrow> nat list" where
  "completed_turn_boundaries J text =
     List.map_filter (\<lambda>(e, c). if c = Reply then Some e else None) (execution_closes J text False)"

definition completed_turn_boundary :: "parser \<Rightarrow> string \<Rightarrow> nat option" where
  "completed_turn_boundary J text =
     (let bs = completed_turn_boundaries J text in if bs = [] then None else Some (last bs))"

definition interrupted_turn_boundaries :: "parser \<Rightarrow> string \<Rightarrow> nat list" where
  "interrupted_turn_boundaries J text =
     List.map_filter (\<lambda>(e, c). if c = Interrupt then Some e else None) (execution_closes J text False)"

definition ended_turn_boundary :: "parser \<Rightarrow> string \<Rightarrow> nat option" where
  "ended_turn_boundary J text =
     (let cs = execution_closes J text False in if cs = [] then None else Some (fst (last cs)))"

definition ended_turn_boundaries :: "parser \<Rightarrow> string \<Rightarrow> nat list" where
  "ended_turn_boundaries J text = map fst (execution_closes J text True)"

section \<open>Asking a transcript\<close>

definition str_contains :: "string \<Rightarrow> string \<Rightarrow> bool" where
  "str_contains p s \<longleftrightarrow> split_once_str p s \<noteq> None"

definition records_stop_reasons :: "parser \<Rightarrow> string \<Rightarrow> bool" where
  "records_stop_reasons J text =
     list_ex (\<lambda>line. str_contains (CHR 0x22 # ''stop_reason'' @ [CHR 0x22]) line
       \<and> (case J line of
            None \<Rightarrow> False
          | Some v \<Rightarrow> type_of v = Some ''assistant'' \<and> message_str ''model'' v \<noteq> Some SYNTHETIC_MODEL
                      \<and> message_str ''stop_reason'' v \<noteq> None)) (lines_of text)"

definition only_thinking :: "json option \<Rightarrow> bool" where
  "only_thinking content =
     (case Option.bind content as_array of
        None \<Rightarrow> False
      | Some blocks \<Rightarrow>
          blocks \<noteq> [] \<and> list_all (\<lambda>b. type_of b \<in> {Some ''thinking'', Some ''redacted_thinking''}) blocks)"

text \<open>The loop of \<open>stop_record_pending\<close> over the lines, last first.\<close>

fun pending_from :: "parser \<Rightarrow> bool \<Rightarrow> string list \<Rightarrow> bool" where
  "pending_from J working [] = False"
| "pending_from J working (line # rest) =
     (case J line of
        None \<Rightarrow> pending_from J working rest
      | Some v \<Rightarrow>
          if skipped v then pending_from J working rest
          else if type_of v = Some ''assistant''
          then (if message_str ''model'' v = Some SYNTHETIC_MODEL
                then (if working then pending_from J working rest else False)
                else if only_thinking (content_of v) then pending_from J True rest
                else working \<and> message_str ''stop_reason'' v \<noteq> None)
          else if type_of v = Some ''user'' \<and> \<not> working
          then (if extract_tool_results (content_of v) \<noteq> None
                then (if str_field ''toolDenialKind'' v = Some ''interrupted'' then False else pending_from J True rest)
                else
                  (let t = (case extract_text (content_of v) of Some t \<Rightarrow> t | None \<Rightarrow> []);
                       injected = (is_system_generated v t \<or> is_synthetic_user_text t)
                   in if \<not> injected \<or> prefix ''[Request interrupted by user'' (trim_start t) then False
                      else pending_from J True rest))
          else pending_from J working rest)"

definition stop_record_pending :: "parser \<Rightarrow> string \<Rightarrow> bool" where
  "stop_record_pending J text = pending_from J False (rev (lines_of text))"

definition awaits_reply :: "parser \<Rightarrow> string \<Rightarrow> bool" where
  "awaits_reply J text =
     (let end = (case ended_turn_boundary J text of Some e \<Rightarrow> e | None \<Rightarrow> 0)
      in list_ex (\<lambda>line.
           case J line of
             None \<Rightarrow> False
           | Some v \<Rightarrow>
               \<not> skipped v
               \<and> (if type_of v = Some ''assistant'' then message_str ''model'' v \<noteq> Some SYNTHETIC_MODEL
                  else if type_of v = Some ''user''
                  then extract_tool_results (content_of v) \<noteq> None
                       \<or> \<not> is_system_generated v (case extract_text (content_of v) of Some t \<Rightarrow> t | None \<Rightarrow> [])
                  else False)) (split_inclusive (drop end text)))"

section \<open>The lines of the events\<close>

text \<open>Later events stand on no earlier line, and a prompt on a later line than everything before it.\<close>

definition lined :: "Event \<Rightarrow> Event \<Rightarrow> bool" where
  "lined a b \<longleftrightarrow>
     the (ev_line a) \<le> the (ev_line b) \<and> (ev_kind b = UserPrompt \<longrightarrow> the (ev_line a) < the (ev_line b))"

definition well_lined :: "nat \<Rightarrow> Event list \<Rightarrow> bool" where
  "well_lined m es \<longleftrightarrow> (\<forall>e \<in> set es. \<exists>n < m. ev_line e = Some n) \<and> sorted_wrt lined es"

definition line_events :: "parser \<Rightarrow> nat \<times> string \<Rightarrow> Event list" where
  "line_events J = (\<lambda>(n, line). case record_of J line of None \<Rightarrow> [] | Some v \<Rightarrow> record_events v n)"

lemma parse_events: "session_events (parse_claude J text) = concat (map (line_events J) (enumerate 0 (lines_of text)))"
proof -
  have "session_events (fold (parse_step J) ls s) = session_events s @ concat (map (line_events J) ls)" for ls s
    by (induction ls arbitrary: s) (auto simp: parse_step_def line_events_def split: option.split)
  then show ?thesis by (simp add: parse_claude_def)
qed

lemma event_fields [simp]:
  "ev_line (text_event k t ts n) = Some n" "ev_kind (text_event k t ts n) = k"
  "ev_line (other_event ts n) = Some n" "ev_kind (other_event ts n) = Other"
  by (simp_all add: text_event_def other_event_def)

definition one_line :: "nat \<Rightarrow> Event list \<Rightarrow> bool" where
  "one_line n es \<longleftrightarrow> (\<forall>e \<in> set es. ev_line e = Some n) \<and> (\<forall>e \<in> set (tl es). ev_kind e \<noteq> UserPrompt)"

lemma one_line_simps [simp]: "one_line n []" "one_line n [text_event k t ts n]" "one_line n [other_event ts n]"
  by (simp_all add: one_line_def)

lemma one_line_inactive [simp]: "one_line n (inactive_events c ts n)"
  by (simp add: inactive_events_def split: option.split)

lemma one_line_no_prompt: "(\<And>e. e \<in> set es \<Longrightarrow> ev_line e = Some n \<and> ev_kind e \<noteq> UserPrompt) \<Longrightarrow> one_line n es"
  by (cases es) (simp_all add: one_line_def)

lemma one_line_user: "one_line n (user_events v ts n)"
proof -
  have "one_line n (map (\<lambda>t. text_event ToolResult t ts n) outs)" for outs
    by (rule one_line_no_prompt) auto
  moreover have "one_line n [text_event UserPrompt h ts n, text_event Other i ts n]" for h i
    by (simp add: one_line_def)
  ultimately show ?thesis
    unfolding user_events_def Let_def by (auto split: option.split prod.split)
qed

lemma one_line_assistant: "one_line n (assistant_events v ts n)"
proof -
  have "ev_line e = Some n \<and> ev_kind e \<noteq> UserPrompt" if "e \<in> set (block_events v ts n b)" for e b
    using that by (auto simp: block_events_def Let_def split: if_splits option.splits)
  then have "one_line n (concat (map (block_events v ts n) arr))" for arr
    by (intro one_line_no_prompt) auto
  then show ?thesis unfolding assistant_events_def Let_def by (auto split: option.split)
qed

lemma one_line_record: "one_line n (record_events v n)"
  by (simp add: record_events_def Let_def one_line_user one_line_assistant split: option.split)

lemma one_line_sorted: "one_line n es \<Longrightarrow> sorted_wrt lined es"
proof (induction es)
  case (Cons e es)
  then have "one_line n es" by (cases es) (auto simp: one_line_def)
  with Cons show ?case by (auto simp: one_line_def lined_def)
qed simp

lemma well_lined_lines:
  "well_lined (k + length ls) (concat (map (line_events J) (enumerate k ls)))
   \<and> (\<forall>e \<in> set (concat (map (line_events J) (enumerate k ls))). k \<le> the (ev_line e))"
proof (induction ls arbitrary: k)
  case (Cons l ls)
  let ?rest = "concat (map (line_events J) (enumerate (Suc k) ls))"
  have one: "one_line k (line_events J (k, l))"
    by (simp add: line_events_def one_line_record split: option.split)
  have IH: "well_lined (Suc k + length ls) ?rest" "\<forall>e \<in> set ?rest. Suc k \<le> the (ev_line e)"
    using Cons.IH [of "Suc k"] by simp_all
  have "lined a b" if "a \<in> set (line_events J (k, l))" "b \<in> set ?rest" for a b
  proof -
    have "ev_line a = Some k" using one that(1) by (simp add: one_line_def)
    moreover have "Suc k \<le> the (ev_line b)" using IH(2) that(2) by blast
    ultimately show ?thesis by (simp add: lined_def)
  qed
  moreover have "sorted_wrt lined (line_events J (k, l))" by (rule one_line_sorted [OF one])
  moreover have "sorted_wrt lined ?rest" using IH(1) by (simp add: well_lined_def)
  ultimately have "sorted_wrt lined (line_events J (k, l) @ ?rest)" by (simp add: sorted_wrt_append)
  moreover have "\<exists>n < k + length (l # ls). ev_line e = Some n" if e: "e \<in> set (line_events J (k, l) @ ?rest)" for e
  proof -
    consider "e \<in> set (line_events J (k, l))" | "e \<in> set ?rest" using e by auto
    then show ?thesis using one IH(1) by cases (simp add: one_line_def, auto simp: well_lined_def)
  qed
  moreover have "k \<le> the (ev_line e)" if e: "e \<in> set (line_events J (k, l) @ ?rest)" for e
  proof -
    consider "e \<in> set (line_events J (k, l))" | "e \<in> set ?rest" using e by auto
    then show ?thesis
    proof cases
      case 1
      then show ?thesis using one by (simp add: one_line_def)
    next
      case 2
      then show ?thesis using IH(2) Suc_leD by blast
    qed
  qed
  ultimately show ?case unfolding well_lined_def enumerate_simps list.map concat.simps by blast
qed (simp add: well_lined_def)

lemma parse_well_lined: "well_lined (length (split_inclusive text)) (session_events (parse_claude J text))"
  using well_lined_lines [of 0 "lines_of text" J] by (simp add: parse_events)

section \<open>The ends of executions\<close>

definition marks :: "scan \<Rightarrow> nat list" where
  "marks s = map fst (sc_closes s) @ (case sc_pending s of None \<Rightarrow> [] | Some p \<Rightarrow> [fst p])"

lemma close_record_offset [simp]: "sc_offset (close_record b v s) = sc_offset s"
  by (simp add: close_record_def Let_def)

lemma close_record_marks:
  assumes "sorted_wrt (<) (marks s)" and "\<And>m. m \<in> set (marks s) \<Longrightarrow> m < sc_offset s"
  shows "sorted_wrt (<) (marks (close_record b v s))"
    and "set (marks (close_record b v s)) \<subseteq> insert (sc_offset s) (set (marks s))"
  using assms
  by (auto simp: close_record_def marks_def Let_def sorted_wrt_append split: option.split)

lemma close_line_cases:
  obtains "close_line J b l s = s\<lparr>sc_offset := sc_offset s + length l\<rparr>"
  | v where "close_line J b l s = close_record b v (s\<lparr>sc_offset := sc_offset s + length l\<rparr>)"
proof (cases "J l")
  case None
  then show thesis using that(1) by (simp add: close_line_def)
next
  case (Some v)
  then show thesis using that by (cases "skipped v") (simp_all add: close_line_def)
qed

lemma marks_offset [simp]: "marks (s\<lparr>sc_offset := n\<rparr>) = marks s"
  by (simp add: marks_def)

lemma fold_closes:
  assumes "sorted_wrt (<) (marks s)" and "\<And>m. m \<in> set (marks s) \<Longrightarrow> m \<le> sc_offset s"
    and "\<And>l. l \<in> set ls \<Longrightarrow> l \<noteq> []"
  shows "sorted_wrt (<) (marks (fold (close_line J b) ls s))
    \<and> set (marks (fold (close_line J b) ls s)) \<subseteq> set (marks s) \<union> set (ends_from (sc_offset s) ls)"
  using assms
proof (induction ls arbitrary: s)
  case (Cons l ls)
  let ?s = "s\<lparr>sc_offset := sc_offset s + length l\<rparr>"
  have "l \<noteq> []" using Cons.prems(3) [of l] by simp
  then have less: "m < sc_offset ?s" if "m \<in> set (marks ?s)" for m
    using Cons.prems(2) [of m] that by (cases l) auto
  have srt: "sorted_wrt (<) (marks ?s)" using Cons.prems(1) by simp
  have step: "sorted_wrt (<) (marks (close_line J b l s))
      \<and> set (marks (close_line J b l s)) \<subseteq> insert (sc_offset ?s) (set (marks s))
      \<and> sc_offset (close_line J b l s) = sc_offset ?s"
  proof (cases rule: close_line_cases [of J b l s])
    case 1
    then show ?thesis using srt by auto
  next
    case (2 v)
    then show ?thesis using close_record_marks [OF srt less, of b v] by simp
  qed
  then have "\<And>m. m \<in> set (marks (close_line J b l s)) \<Longrightarrow> m \<le> sc_offset (close_line J b l s)"
    using Cons.prems(2) by fastforce
  with Cons.IH [of "close_line J b l s"] step Cons.prems(3) show ?case by auto
qed simp

lemma execution_closes_marks: "map fst (execution_closes J text b) = marks (fold (close_line J b) (split_inclusive text) scan_start)"
  by (simp add: execution_closes_def Let_def marks_def split: option.split)

lemma closes_are_line_ends:
  shows "sorted_wrt (<) (map fst (execution_closes J text b))"
    and "set (map fst (execution_closes J text b)) \<subseteq> set (line_ends text)"
  using fold_closes [of scan_start "split_inclusive text" J b] split_inclusive_ne
  unfolding execution_closes_marks by (auto simp: scan_start_def marks_def line_ends_def)

text \<open>The calls without output after some lines.\<close>

definition calls_after :: "parser \<Rightarrow> string list \<Rightarrow> string set" where
  "calls_after J ls =
     fold (\<lambda>line calls.
       case J line of
         None \<Rightarrow> calls
       | Some v \<Rightarrow>
           if skipped v then calls
           else if is_interrupted_tool v \<or> is_marker v then {} else track_open_calls v calls) ls {}"

lemma close_record_open:
  "sc_open (close_record b v s) = (if is_interrupted_tool v \<or> is_marker v then {} else track_open_calls v (sc_open s))"
  by (simp add: close_record_def Let_def)

lemma scan_open: "sc_open (fold (close_line J b) ls scan_start) = calls_after J ls"
  by (induction ls rule: rev_induct)
    (auto simp: calls_after_def scan_start_def close_line_def Let_def close_record_open split: option.split)

lemma close_record_new_mark:
  assumes "m \<in> set (marks (close_record b v s))" and "m \<notin> set (marks s)"
  shows "sc_open (close_record b v s) = {}"
  using assms by (auto simp: close_record_def marks_def Let_def split: if_splits option.splits)

lemma scan_offset: "sc_offset (fold (close_line J b) ls s) = sc_offset s + length (concat ls)"
proof (induction ls arbitrary: s)
  case (Cons l ls)
  have "sc_offset (close_line J b l s) = sc_offset s + length l" by (simp add: close_line_def Let_def split: option.split)
  with Cons show ?case by simp
qed simp

lemma marks_no_open:
  assumes "m \<in> set (marks (fold (close_line J b) ls scan_start))" and "\<And>l. l \<in> set ls \<Longrightarrow> l \<noteq> []"
  shows "\<exists>k \<le> length ls. m = length (concat (take k ls)) \<and> calls_after J (take k ls) = {}"
  using assms
proof (induction ls rule: rev_induct)
  case Nil
  then show ?case by (simp add: marks_def scan_start_def)
next
  case (snoc l ls)
  let ?s = "fold (close_line J b) ls scan_start"
  let ?t = "?s\<lparr>sc_offset := sc_offset ?s + length l\<rparr>"
  have off: "sc_offset ?t = length (concat (ls @ [l]))" by (simp add: scan_offset) (simp add: scan_start_def)
  have "m \<in> set (marks ?s) \<or> m = sc_offset ?t \<and> sc_open (close_line J b l ?s) = {}"
  proof (cases rule: close_line_cases [of J b l ?s])
    case 1
    then show ?thesis using snoc.prems(1) by simp
  next
    case (2 v)
    have srt: "sorted_wrt (<) (marks ?t)"
      using fold_closes [of scan_start ls J b] snoc.prems(2) by (simp add: marks_def scan_start_def)
    have "x < sc_offset ?t" if "x \<in> set (marks ?t)" for x
    proof -
      have "x \<in> set (ends_from 0 ls)"
        using that fold_closes [of scan_start ls J b] snoc.prems(2) by (auto simp: marks_def scan_start_def)
      then obtain i where i: "i < length ls" "x = length (concat (take (Suc i) ls))"
        by (auto simp: in_set_conv_nth ends_from_nth)
      have "length (concat ls) = length (concat (take (Suc i) ls)) + length (concat (drop (Suc i) ls))"
        by (metis append_take_drop_id concat_append length_append)
      moreover have "l \<noteq> []" using snoc.prems(2) [of l] by simp
      ultimately show ?thesis using i off by simp
    qed
    from close_record_marks(2) [OF srt this, of b v] close_record_new_mark [of m b v ?t] snoc.prems(1) 2
    show ?thesis by auto
  qed
  then show ?case
  proof
    assume "m \<in> set (marks ?s)"
    with snoc.IH snoc.prems(2) obtain k where "k \<le> length ls" "m = length (concat (take k ls))" "calls_after J (take k ls) = {}"
      by auto
    then show ?thesis by (intro exI [of _ k]) simp
  next
    assume "m = sc_offset ?t \<and> sc_open (close_line J b l ?s) = {}"
    then show ?thesis
      using off scan_open [of J b "ls @ [l]"] by (intro exI [of _ "length (ls @ [l])"]) simp
  qed
qed

text \<open>
  C17. Where a Claude Code execution ends is the end of a record, the ends increase, and none of them,
  finished, stopped or generated, stands where a call made since the last prompt has no output: cutting
  a transcript there never separates a call from its result.
\<close>

theorem ends_leave_no_open_call:
  assumes "(e, c) \<in> set (execution_closes J text b)"
  shows "sorted_wrt (<) (map fst (execution_closes J text b)) \<and> e \<in> set (line_ends text)
    \<and> calls_after J (split_inclusive (take e text)) = {}"
proof -
  have e: "e \<in> set (map fst (execution_closes J text b))" using assms by force
  then obtain k where k: "e = length (concat (take k (split_inclusive text)))"
    "calls_after J (take k (split_inclusive text)) = {}"
    using marks_no_open [of e J b "split_inclusive text"] split_inclusive_ne unfolding execution_closes_marks by blast
  have "text = concat (take k (split_inclusive text)) @ concat (drop k (split_inclusive text))"
    by (simp flip: concat_append)
  then have "take e text = concat (take k (split_inclusive text))" using k(1) by (metis append_eq_conv_conj)
  then have "split_inclusive (take e text) = take k (split_inclusive text)" by (simp add: split_inclusive_pieces)
  with k(2) e closes_are_line_ends [of J "text" b] show ?thesis by auto
qed

section \<open>A transcript\<close>

text \<open>A prompt, a call, its result and the reply, one record per line.\<close>

definition message :: "string \<Rightarrow> json \<Rightarrow> (string \<times> json) list \<Rightarrow> json" where
  "message ty content rest = JObj [(''type'', JStr ty), (''message'', JObj ((''content'', content) # rest))]"

definition block :: "string \<Rightarrow> (string \<times> json) list \<Rightarrow> json" where
  "block ty kvs = JObj ((''type'', JStr ty) # kvs)"

definition sample_json :: parser where
  "sample_json line =
     (let l = (case line of c # _ \<Rightarrow> c | [] \<Rightarrow> CHR '' '')
      in if l = CHR ''p'' then Some (message ''user'' (JStr ''fix it'') [])
         else if l = CHR ''c''
         then Some (message ''assistant'' (JArr [block ''tool_use'' [(''id'', JStr ''x''), (''name'', JStr ''Bash'')]]) [])
         else if l = CHR ''t''
         then Some (message ''user'' (JArr [block ''tool_result'' [(''tool_use_id'', JStr ''x''), (''content'', JStr ''ok'')]]) [])
         else if l = CHR ''r''
         then Some (message ''assistant'' (JArr [block ''text'' [(''text'', JStr ''done'')]]) [(''stop_reason'', JStr ''end_turn'')])
         else None)"

definition sample_lines :: "string \<Rightarrow> string" where
  "sample_lines ks = concat (map (\<lambda>k. [k, CHR 0x0A]) ks)"

theorem ends_leave_no_open_call_witness:
  "execution_closes sample_json (sample_lines ''pctr'') False = [(8, Reply)]
   \<and> calls_after sample_json (split_inclusive (take 8 (sample_lines ''pctr''))) = {}
   \<and> calls_after sample_json (split_inclusive (take 4 (sample_lines ''pctr''))) = {''x''}"
proof -
  have "execution_closes sample_json (sample_lines ''pctr'') False = [(8, Reply)]" by code_simp
  moreover have "calls_after sample_json (split_inclusive (take 4 (sample_lines ''pctr''))) = {''x''}" by code_simp
  ultimately show ?thesis using ends_leave_no_open_call [of 8 Reply sample_json "sample_lines ''pctr''" False] by simp
qed

end
