(* ===== verification/Settlement.thy ===== *)
theory Settlement
  imports Claude
begin

text \<open>
  Where a transcript is cut into commits (the settlement engine of \<open>src/commands/commit.rs\<close>): the chunk of
  each turn, the completions recorded in the transcript, which of the chunks become commits, and why
  a trailing turn has to wait. The adapters, the JSON parser and the RFC 3339 parser are the fields
  of an \<open>env\<close>; Claude Code's adapter is the one of Claude.

  Commits proves what the chunks of a settlement satisfy.
\<close>

section \<open>What settlement asks of a runtime\<close>

datatype SettleError = UnknownRuntime | ParseFailed | NotAtRecord | ExceedsTranscript

record adapter =
  ad_parse :: "string \<Rightarrow> SettleError + Session"
  ad_open_tool_calls :: "string \<Rightarrow> OpenCall list"
  ad_requires_turn_end :: bool
  ad_tail_is_complete :: "Event list \<Rightarrow> bool"

record env =
  adapters :: "string \<Rightarrow> adapter option"
  json_parser :: parser
  rfc3339 :: "string \<Rightarrow> int option"

definition claude_adapter :: "parser \<Rightarrow> adapter" where
  "claude_adapter J =
     \<lparr>ad_parse = (\<lambda>t. Inr (parse_claude J t)), ad_open_tool_calls = open_tool_calls J,
      ad_requires_turn_end = False, ad_tail_is_complete = (\<lambda>_. True)\<rparr>"

definition get_runtime :: "env \<Rightarrow> string \<Rightarrow> SettleError + adapter" where
  "get_runtime E runtime = ok_or (adapters E runtime) UnknownRuntime"

section \<open>Chunks\<close>

record Chunk =
  end_byte :: nat
  user_turn :: "nat option"
  ch_prompt :: string
  ch_events :: nat
  ch_dropped :: nat
  ended_at :: "int option"

datatype InFlight = Unanswered | CallOpen string | Unfinished

definition events_at :: "Session \<Rightarrow> nat list \<Rightarrow> Event list" where
  "events_at ir g = map (\<lambda>j. session_events ir ! j) g"

definition in_flight_tail :: "env \<Rightarrow> Session \<Rightarrow> OpenCall list \<Rightarrow> InFlight option" where
  "in_flight_tail E ir calls =
     (if groups_of ir = [] then None
      else
        (let es = events_at ir (last (groups_of ir))
         in if list_ex (\<lambda>e. ev_kind e = TurnEnd) es then None
            else if \<not> list_ex (\<lambda>e. ev_kind e \<in> {AssistantReply, ToolUse, FileEdit, CompactSummary}) es then Some Unanswered
            else if (case adapters E (session_runtime ir) of None \<Rightarrow> False | Some a \<Rightarrow> \<not> ad_tail_is_complete a es)
            then Some Unanswered
            else (case List.map_filter ev_line es of
                    [] \<Rightarrow> None
                  | l # ls \<Rightarrow>
                      map_option (\<lambda>c. CallOpen (oc_name c)) (find (\<lambda>c. oc_line c \<ge> fold min ls l) calls))))"

definition parse_i64 :: "string \<Rightarrow> int option" where
  "parse_i64 s =
     (if s \<noteq> [] \<and> hd s = CHR ''-''
      then (if tl s \<noteq> [] \<and> list_all is_ascii_digit (tl s) \<and> digits_val (tl s) \<le> 9223372036854775808
            then Some (- digits_val (tl s)) else None)
      else parse_unsigned 9223372036854775807 s)"

definition native_time :: "env \<Rightarrow> string \<Rightarrow> int option" where
  "native_time E s =
     (case rfc3339 E s of
        Some t \<Rightarrow> Some t
      | None \<Rightarrow> map_option (\<lambda>n. if n \<ge> 1000000000000 then n div 1000 else n) (parse_i64 s))"

definition max_opt :: "int list \<Rightarrow> int option" where
  "max_opt ts = (case ts of [] \<Rightarrow> None | t # us \<Rightarrow> Some (fold max us t))"

definition times_of :: "env \<Rightarrow> Event list \<Rightarrow> int list" where
  "times_of E es = List.map_filter (native_time E) (List.map_filter ev_timestamp es)"

definition region_ends :: "string \<Rightarrow> nat list" where
  "region_ends region =
     (let ends = line_ends region
      in if ends = [] \<or> last ends \<noteq> length region then ends @ [length region] else ends)"

definition group_chunk :: "env \<Rightarrow> string \<Rightarrow> Session \<Rightarrow> nat list \<Rightarrow> Chunk option" where
  "group_chunk E region ir g =
     (let es = events_at ir g
      in case List.map_filter ev_line es of
           [] \<Rightarrow> None
         | l # ls \<Rightarrow>
             (let last_line = fold max ls l; ends = region_ends region
              in Some \<lparr>end_byte = (if last_line < length ends then ends ! last_line else length region),
                       user_turn = None,
                       ch_prompt = (case prompt_of es of Some p \<Rightarrow> p | None \<Rightarrow> []),
                       ch_events = length g,
                       ch_dropped = length (filter (\<lambda>e. ev_kind e = Other) es),
                       ended_at = max_opt (times_of E es)\<rparr>))"

definition first_some :: "'a option list \<Rightarrow> 'a option" where
  "first_some xs = (case List.map_filter id xs of [] \<Rightarrow> None | x # _ \<Rightarrow> Some x)"

fun merge_chunks :: "Chunk option list \<Rightarrow> Chunk list \<Rightarrow> Chunk list" where
  "merge_chunks [] out = out"
| "merge_chunks (c # cs) out =
     (case (case c of Some c \<Rightarrow> Some c | None \<Rightarrow> first_some cs) of
        None \<Rightarrow> merge_chunks cs out
      | Some c \<Rightarrow>
          if out \<noteq> [] \<and> end_byte (last out) = end_byte c then merge_chunks cs out
          else merge_chunks cs (out @ [c\<lparr>user_turn := None\<rparr>]))"

definition turn_chunks :: "env \<Rightarrow> string \<Rightarrow> Session \<Rightarrow> OpenCall list \<Rightarrow> Chunk list" where
  "turn_chunks E region ir calls =
     (let chunks = map (group_chunk E region ir) (groups_of ir);
          out = merge_chunks chunks []
      in if in_flight_tail E ir calls \<noteq> None \<and> chunks \<noteq> [] \<and> last chunks \<noteq> None then butlast out else out)"

section \<open>Conversation\<close>

definition is_conversation :: "EventKind \<Rightarrow> bool" where
  "is_conversation k \<longleftrightarrow> k \<noteq> Other \<and> k \<noteq> TurnEnd"

definition substantive_starts :: "string \<Rightarrow> Session \<Rightarrow> nat list" where
  "substantive_starts region ir =
     List.map_filter
       (\<lambda>e. case ev_line e of
              None \<Rightarrow> None
            | Some l \<Rightarrow> if l < length (line_starts region) then Some (line_starts region ! l) else None)
       (filter (\<lambda>e. is_conversation (ev_kind e)) (session_events ir))"

definition substantive_from :: "string \<Rightarrow> Session \<Rightarrow> nat \<Rightarrow> bool" where
  "substantive_from region ir from = list_ex (\<lambda>s. s \<ge> from) (substantive_starts region ir)"

section \<open>Completions\<close>

fun index_of :: "nat \<Rightarrow> nat list \<Rightarrow> nat option" where
  "index_of x [] = None"
| "index_of x (y # ys) = (if x = y then Some 0 else map_option Suc (index_of x ys))"

definition line_key :: "Event \<Rightarrow> nat" where
  "line_key e = (case ev_line e of None \<Rightarrow> 0 | Some n \<Rightarrow> Suc n)"

definition annotate_completed_boundaries :: "string \<Rightarrow> nat list \<Rightarrow> Session \<Rightarrow> SettleError + Session" where
  "annotate_completed_boundaries region boundaries ir =
     r_bind
       (r_fold (\<lambda>b ir.
          r_bind (ok_or (index_of b (line_ends region)) NotAtRecord) (\<lambda>line.
            Inr (ir\<lparr>session_events := session_events ir @ [text_event TurnEnd [] None line]\<rparr>))) boundaries ir)
       (\<lambda>ir. Inr (ir\<lparr>session_events := sort_key line_key (session_events ir)\<rparr>))"

definition turn_end_bytes :: "string \<Rightarrow> Session \<Rightarrow> nat list" where
  "turn_end_bytes region ir =
     remdups_adj (sort
       (List.map_filter
          (\<lambda>e. case ev_line e of
                 None \<Rightarrow> None
               | Some l \<Rightarrow> if l < length (line_ends region) then Some (line_ends region ! l) else None)
          (filter (\<lambda>e. ev_kind e = TurnEnd) (session_events ir))))"

definition latest_within :: "env \<Rightarrow> string \<Rightarrow> Session \<Rightarrow> nat \<Rightarrow> nat \<Rightarrow> int option" where
  "latest_within E region ir from to =
     max_opt (times_of E
       (filter (\<lambda>e. case ev_line e of
                      None \<Rightarrow> False
                    | Some l \<Rightarrow> l < length (line_ends region)
                        \<and> line_ends region ! l > from \<and> line_ends region ! l \<le> to) (session_events ir)))"

definition ended_within :: "env \<Rightarrow> string \<Rightarrow> Session \<Rightarrow> nat \<Rightarrow> nat \<Rightarrow> int option" where
  "ended_within E region ir from to =
     (case latest_within E region ir from to of Some t \<Rightarrow> Some t | None \<Rightarrow> latest_within E region ir 0 to)"

text \<open>One chunk for each of the ends, each dated from the one before.\<close>

fun stamped_chunks :: "(nat \<Rightarrow> nat \<Rightarrow> int option) \<Rightarrow> Chunk \<Rightarrow> nat \<Rightarrow> nat list \<Rightarrow> Chunk list" where
  "stamped_chunks stamp c covered [] = []"
| "stamped_chunks stamp c covered (e # es) =
     c\<lparr>end_byte := e, ended_at := stamp covered e\<rparr> # stamped_chunks stamp c e es"

definition preamble_end :: "string \<Rightarrow> Session \<Rightarrow> nat" where
  "preamble_end region ir =
     (case Option.bind (find (\<lambda>e. ev_kind e = UserPrompt) (session_events ir)) ev_line of
        None \<Rightarrow> length region
      | Some line \<Rightarrow>
          if line > 0 \<and> line - 1 < length (line_ends region) then line_ends region ! (line - 1) else 0)"

definition turn_ends :: "nat list \<Rightarrow> bool \<Rightarrow> nat \<Rightarrow> nat \<Rightarrow> nat list \<Rightarrow> nat list" where
  "turn_ends substantive closed previous end taken =
     (let ends = filter (\<lambda>e. e > previous) taken;
          lst = (if ends = [] then previous else last ends)
      in if ends = [] \<or> closed \<and> list_ex (\<lambda>s. s \<ge> lst \<and> s < end) substantive then ends @ [end] else ends)"

fun completed_loop ::
  "(nat \<Rightarrow> nat \<Rightarrow> int option) \<Rightarrow> nat list \<Rightarrow> nat \<Rightarrow> nat \<Rightarrow> Chunk list \<Rightarrow> nat list \<Rightarrow> nat \<Rightarrow> nat \<Rightarrow> Chunk list" where
  "completed_loop stamp substantive closed index [] terminal previous covered = []"
| "completed_loop stamp substantive closed index (c # cs) terminal previous covered =
     (let taken = takeWhile (\<lambda>e. e \<le> end_byte c) terminal;
          rest = dropWhile (\<lambda>e. e \<le> end_byte c) terminal;
          ends = turn_ends substantive (index < closed) previous (end_byte c) taken
      in stamped_chunks stamp (c\<lparr>user_turn := Some (index + 1)\<rparr>) covered ends
         @ completed_loop stamp substantive closed (index + 1) cs rest (end_byte c) (last ends))"

definition preamble_chunk :: Chunk where
  "preamble_chunk =
     \<lparr>end_byte = 0, user_turn = Some 0, ch_prompt = [], ch_events = 0, ch_dropped = 0, ended_at = None\<rparr>"

definition completed_turn_chunks :: "env \<Rightarrow> string \<Rightarrow> Session \<Rightarrow> OpenCall list \<Rightarrow> bool \<Rightarrow> Chunk list" where
  "completed_turn_chunks E region ir calls retained_user_turn =
     (let user_chunks = turn_chunks E region ir calls;
          boundaries = turn_end_bytes region ir;
          stamp = ended_within E region ir;
          inherited = (if retained_user_turn then takeWhile (\<lambda>e. e \<le> preamble_end region ir) boundaries else []);
          terminal = (if retained_user_turn then dropWhile (\<lambda>e. e \<le> preamble_end region ir) boundaries else boundaries);
          covered = (if inherited = [] then 0 else last inherited)
      in stamped_chunks stamp preamble_chunk 0 inherited
         @ completed_loop stamp (substantive_starts region ir) (length user_chunks - 1) 0 user_chunks terminal 0 covered)"

section \<open>Which of them become commits\<close>

fun without_bookkeeping_only :: "nat list \<Rightarrow> nat \<Rightarrow> Chunk list \<Rightarrow> Chunk list" where
  "without_bookkeeping_only substantive from [] = []"
| "without_bookkeeping_only substantive from (c # cs) =
     (if user_turn c = None \<or> list_ex (\<lambda>s. s \<ge> from \<and> s < end_byte c) substantive
      then c # without_bookkeeping_only substantive (end_byte c) cs
      else without_bookkeeping_only substantive from cs)"

definition keep_chunk :: "Chunk \<Rightarrow> Chunk list \<Rightarrow> Chunk list" where
  "keep_chunk c kept =
     (if kept \<noteq> [] \<and> user_turn c \<noteq> None \<and> user_turn (last kept) = user_turn c
      then butlast kept @ [c] else kept @ [c])"

definition one_commit_per_turn :: "Chunk list \<Rightarrow> Chunk list" where
  "one_commit_per_turn chunks = fold keep_chunk chunks []"

section \<open>Where completions are recorded\<close>

definition records_execution_starts :: "parser \<Rightarrow> string \<Rightarrow> bool" where
  "records_execution_starts J text =
     list_ex (\<lambda>line. str_contains (CHR 0x22 # ''task_started'' @ [CHR 0x22]) line
       \<and> (case J line of
            None \<Rightarrow> False
          | Some v \<Rightarrow> type_of v = Some ''event_msg''
                      \<and> Option.bind (get ''payload'' v) type_of = Some ''task_started'')) (lines_of text)"

definition has_turn_end :: "Session \<Rightarrow> bool" where
  "has_turn_end ir = list_ex (\<lambda>e. ev_kind e = TurnEnd) (session_events ir)"

definition records_completions :: "env \<Rightarrow> string \<Rightarrow> string \<Rightarrow> Session \<Rightarrow> bool" where
  "records_completions E runtime region ir =
     (if runtime = ''claude-code'' then records_stop_reasons (json_parser E) region
      else if runtime = ''codex'' \<and> records_execution_starts (json_parser E) region then True
      else (case adapters E runtime of None \<Rightarrow> False | Some a \<Rightarrow> ad_requires_turn_end a) \<and> has_turn_end ir)"

definition closes_natively :: "adapter \<Rightarrow> Session \<Rightarrow> bool" where
  "closes_natively a ir \<longleftrightarrow> ad_requires_turn_end a \<or> has_turn_end ir"

definition completed_native_boundary :: "env \<Rightarrow> string \<Rightarrow> string \<Rightarrow> SettleError + nat option" where
  "completed_native_boundary E runtime text =
     (if runtime = ''claude-code'' then Inr (completed_turn_boundary (json_parser E) text)
      else
        r_bind (get_runtime E runtime) (\<lambda>a.
        r_bind (ad_parse a text) (\<lambda>ir.
          if ad_requires_turn_end a
          then Inr (map_option (\<lambda>line. length (concat (take (line + 1) (split_inclusive text))))
                 (Option.bind (find (\<lambda>e. ev_kind e = TurnEnd) (rev (session_events ir))) ev_line))
          else
            (let chunks = turn_chunks E text ir (ad_open_tool_calls a text)
             in Inr (if chunks = [] then None else Some (end_byte (last chunks)))))))"

definition completion_boundaries ::
  "env \<Rightarrow> string \<Rightarrow> string \<Rightarrow> nat list \<Rightarrow> bool \<Rightarrow> SettleError + nat \<times> nat list" where
  "completion_boundaries E runtime region receipts supervised =
     r_bind
       (if runtime = ''claude-code''
        then Inr (0, receipts @ (if supervised then completed_turn_boundaries (json_parser E) region
                                 else ended_turn_boundaries (json_parser E) region))
        else r_bind (completed_native_boundary E runtime region) (\<lambda>b.
               Inr ((case b of Some n \<Rightarrow> n | None \<Rightarrow> 0), receipts)))
       (\<lambda>(native, bs).
          let boundaries = remdups_adj (sort bs);
              end = max native (if boundaries = [] then 0 else last boundaries)
          in r_bind (ensure (end \<le> length region) ExceedsTranscript) (\<lambda>_. Inr (end, boundaries)))"

definition has_in_flight_turn :: "env \<Rightarrow> string \<Rightarrow> string \<Rightarrow> SettleError + bool" where
  "has_in_flight_turn E runtime text =
     r_bind (get_runtime E runtime) (\<lambda>a.
     r_bind (ad_parse a text) (\<lambda>ir.
       if in_flight_tail E ir (ad_open_tool_calls a text) \<noteq> None then Inr True
       else if records_completions E runtime text ir
       then r_bind (completion_boundaries E runtime text [] False) (\<lambda>(end, _). Inr (substantive_from text ir end))
       else Inr False))"

definition ordinal_settled_end :: "env \<Rightarrow> string \<Rightarrow> string \<Rightarrow> nat \<Rightarrow> SettleError + nat option" where
  "ordinal_settled_end E runtime text settled =
     (if settled = 0 then Inr None
      else
        r_bind (get_runtime E runtime) (\<lambda>a.
        r_bind (ad_parse a text) (\<lambda>ir.
          if closes_natively a ir \<or> records_completions E runtime text ir then Inr None
          else
            (let chunks = turn_chunks E text ir (ad_open_tool_calls a text)
             in Inr (if settled - 1 < length chunks then Some (end_byte (chunks ! (settled - 1))) else None)))))"

definition leading_turnless_len :: "env \<Rightarrow> string \<Rightarrow> string \<Rightarrow> SettleError + nat option" where
  "leading_turnless_len E runtime region =
     r_bind (get_runtime E runtime) (\<lambda>a.
     r_bind (ad_parse a region) (\<lambda>ir.
       if closes_natively a ir \<or> records_completions E runtime region ir then Inr None
       else
         (let prompt = Option.bind (find (\<lambda>e. ev_kind e = UserPrompt) (session_events ir)) ev_line;
              lead = takeWhile
                (\<lambda>(i, line). (case prompt of Some p \<Rightarrow> i < p | None \<Rightarrow> True)
                   \<and> (trim line = [] \<or> json_parser E line \<noteq> None)) (enumerate 0 (split_inclusive region))
          in Inr (Some (length (concat (map snd lead)))))))"

section \<open>The chunks of a settlement\<close>

text \<open>The part of \<open>settle_bytes\<close> between parsing the region and landing the commits.\<close>

record settle_opts =
  completed_only :: bool
  native_completions :: "nat list"

record settle_base =
  materialized_mode :: bool
  region_start :: nat
  head_turn_base :: nat
  native_prefix :: nat

definition region_receipts :: "settle_opts \<Rightarrow> settle_base \<Rightarrow> nat list" where
  "region_receipts opts b =
     map (\<lambda>e. e - region_start b) (filter (\<lambda>e. region_start b < e) (native_completions opts))"

definition settle_chunks ::
  "env \<Rightarrow> string \<Rightarrow> string \<Rightarrow> Session \<Rightarrow> OpenCall list \<Rightarrow> settle_opts \<Rightarrow> settle_base
    \<Rightarrow> SettleError + InFlight option \<times> bool \<times> Chunk list" where
  "settle_chunks E runtime region ir calls opts b =
     (let in_flight = in_flight_tail E ir calls;
          receipts = region_receipts opts b;
          completion_cut = (completed_only opts \<or> receipts \<noteq> [] \<or> records_completions E runtime region ir);
          natively = (completion_cut \<or> has_turn_end ir);
          retained = (materialized_mode b \<and> head_turn_base b > 0)
      in if completion_cut
         then
           r_bind (completion_boundaries E runtime region receipts (completed_only opts)) (\<lambda>(end, boundaries).
           r_bind (get_runtime E runtime) (\<lambda>a.
           r_bind (ad_parse a (take end region)) (\<lambda>completed_ir.
           r_bind (annotate_completed_boundaries (take end region) boundaries completed_ir) (\<lambda>completed_ir.
             Inr (if in_flight = None \<and> substantive_from region ir end then Some Unfinished else in_flight, natively,
                  completed_turn_chunks E (take end region) completed_ir (ad_open_tool_calls a (take end region)) retained)))))
         else if natively
         then Inr (in_flight, natively, completed_turn_chunks E region ir calls retained)
         else Inr (in_flight, natively, turn_chunks E region ir calls))"

definition new_chunks :: "string \<Rightarrow> Session \<Rightarrow> settle_opts \<Rightarrow> settle_base \<Rightarrow> bool \<Rightarrow> Chunk list \<Rightarrow> Chunk list" where
  "new_chunks region ir opts b natively chunks =
     (let unsettled =
            (if natively \<and> \<not> materialized_mode b then filter (\<lambda>c. end_byte c > native_prefix b) chunks
             else if \<not> materialized_mode b \<and> region_start b = 0 \<and> head_turn_base b > 0 then drop (head_turn_base b) chunks
             else chunks);
          substantial =
            without_bookkeeping_only (substantive_starts region ir)
              (if materialized_mode b then 0 else native_prefix b) unsettled
      in if completed_only opts then substantial else one_commit_per_turn substantial)"

definition turn_number :: "settle_base \<Rightarrow> nat \<Rightarrow> Chunk \<Rightarrow> nat" where
  "turn_number b i c =
     (case user_turn c of
        None \<Rightarrow> head_turn_base b + 1 + i
      | Some turn \<Rightarrow> if materialized_mode b then head_turn_base b + turn else turn)"

definition milestone_index :: "settle_base \<Rightarrow> nat option \<Rightarrow> nat option \<Rightarrow> Chunk list \<Rightarrow> nat option" where
  "milestone_index b milestone_turn request_from chunks =
     (case (milestone_turn, request_from) of
        (None, Some from) \<Rightarrow>
          map_option fst (find (\<lambda>(i, c). region_start b + end_byte c \<ge> from) (enumerate 0 chunks))
      | (None, None) \<Rightarrow> if chunks = [] then None else Some (length chunks - 1)
      | (Some wanted, _) \<Rightarrow>
          map_option fst (find (\<lambda>(i, c). turn_number b i c = wanted) (rev (enumerate 0 chunks))))"

definition settlement ::
  "env \<Rightarrow> string \<Rightarrow> string \<Rightarrow> settle_opts \<Rightarrow> settle_base \<Rightarrow> SettleError + InFlight option \<times> Chunk list" where
  "settlement E runtime region opts b =
     r_bind (get_runtime E runtime) (\<lambda>a.
     r_bind (ad_parse a region) (\<lambda>ir.
     r_bind (settle_chunks E runtime region ir (ad_open_tool_calls a region) opts b) (\<lambda>(in_flight, natively, chunks).
       Inr (in_flight, new_chunks region ir opts b natively chunks))))"

end
