(* ===== verification/Commits.thy ===== *)
theory Commits
  imports Settlement
begin

text \<open>
  What a settlement commits. First the chunks of a session whose events stand on the lines of its
  region in order, which is what the locale \<open>line_adapter\<close> asks of a parser and Claude Code's parser
  keeps; then the completions put among the events, the two selections against their specifications
  (\<open>each_substantial\<close>, \<open>last_of_turn\<close>), and what is left to settle after a settlement landed. The theorems
  compose them for whole Claude Code transcripts.
\<close>

section \<open>The turns of a region\<close>

abbreviation line_at :: "Session \<Rightarrow> nat \<Rightarrow> nat" where
  "line_at ir j \<equiv> the (ev_line (session_events ir ! j))"

lemma concat_sorted:
  assumes "sorted_wrt (<) (concat gs)" and "i < j" and "j < length gs" and "a \<in> set (gs ! i)" and "b \<in> set (gs ! j)"
  shows "a < (b :: nat)"
  using assms
proof (induction gs arbitrary: i j)
  case (Cons g gs)
  then show ?case
  proof (cases i)
    case 0
    then have "b \<in> set (concat gs)" using Cons.prems by (cases j) (auto intro: nth_mem)
    with 0 Cons.prems show ?thesis by (auto simp: sorted_wrt_append)
  next
    case (Suc n)
    with Cons show ?thesis by (cases j) (auto simp: sorted_wrt_append)
  qed
qed simp

lemma groups_indices:
  assumes "g \<in> set (groups_of s)"
  shows "g \<noteq> []" and "\<And>j. j \<in> set g \<Longrightarrow> j < length (session_events s)" and "sorted_wrt (<) g"
proof -
  have p: "length (filter (\<lambda>j. ev_kind (session_events s ! j) = UserPrompt) g) = 1"
    using groups_partition [of s] assms by blast
  then show "g \<noteq> []" by auto
  have "j \<in> set (concat (groups_of s))" if "j \<in> set g" for j using assms that by auto
  then show "j < length (session_events s)" if "j \<in> set g" for j
    using groups_partition [of s] that by (metis atLeastLessThan_iff empty_iff list.set(1) set_upt)
  have "sorted_wrt (<) (concat (groups_of s))" using groups_partition [of s] by simp
  then show "sorted_wrt (<) g" using assms
    by (metis concat.simps(2) concat_append sorted_wrt_append split_list)
qed

lemma groups_ordered:
  assumes "i < k" and "k < length (groups_of s)" and "a \<in> set (groups_of s ! i)" and "b \<in> set (groups_of s ! k)"
  shows "a < b"
proof -
  have "sorted_wrt (<) (concat (groups_of s))" using groups_partition [of s] by simp
  from concat_sorted [OF this assms] show ?thesis .
qed

lemma group_prompt:
  assumes "0 < k" and "k < length (groups_of s)"
  shows "ev_kind (session_events s ! hd (groups_of s ! k)) = UserPrompt"
proof -
  have "groups_of s ! k \<in> set (tl (groups_of s))"
    using assms by (metis Suc_pred hd_Cons_tl in_set_conv_nth length_0_conv length_tl less_diff_conv less_nat_zero_code nth_Cons_Suc Suc_less_eq plus_1_eq_Suc add.commute)
  then show ?thesis using groups_partition [of s] by blast
qed

text \<open>A session whose events stand on the lines of the region in order.\<close>

definition lined_session :: "string \<Rightarrow> Session \<Rightarrow> bool" where
  "lined_session region ir \<longleftrightarrow> well_lined (length (split_inclusive region)) (session_events ir)"

lemma lined_line:
  assumes "lined_session region ir" and "j < length (session_events ir)"
  shows "ev_line (session_events ir ! j) = Some (line_at ir j)" and "line_at ir j < length (split_inclusive region)"
proof -
  have "\<exists>n < length (split_inclusive region). ev_line (session_events ir ! j) = Some n"
    using assms nth_mem [OF assms(2)] by (simp add: lined_session_def well_lined_def)
  then show "ev_line (session_events ir ! j) = Some (line_at ir j)" "line_at ir j < length (split_inclusive region)"
    by auto
qed

lemma lined_mono:
  assumes "lined_session region ir" and "i < j" and "j < length (session_events ir)"
  shows "line_at ir i \<le> line_at ir j"
    and "ev_kind (session_events ir ! j) = UserPrompt \<Longrightarrow> line_at ir i < line_at ir j"
  using assms sorted_wrt_nth_less [of lined "session_events ir" i j]
  by (auto simp: lined_session_def well_lined_def lined_def)

lemma fold_max_sorted: "sorted (l # ls) \<Longrightarrow> fold max ls l = last (l # ls)" for l :: nat
  by (induction ls arbitrary: l) auto

lemma region_ends_line: "l < length (split_inclusive region) \<Longrightarrow>
    (if l < length (region_ends region) then region_ends region ! l else length region) = line_ends region ! l"
  by (auto simp: region_ends_def Let_def nth_append)

lemma group_lines:
  assumes "lined_session region ir" and "g \<in> set (groups_of ir)"
  shows "List.map_filter ev_line (events_at ir g) = map (line_at ir) g" and "sorted (map (line_at ir) g)"
proof -
  note g = groups_indices [OF assms(2)]
  have "ev_line (session_events ir ! j) = Some (line_at ir j)" if "j \<in> set g" for j
    using lined_line(1) [OF assms(1)] g(2) that by blast
  then show "List.map_filter ev_line (events_at ir g) = map (line_at ir) g"
    by (induction g) (auto simp: events_at_def List.map_filter_def)
  have "line_at ir i \<le> line_at ir j" if "i < j" "j \<in> set g" for i j
    using lined_mono(1) [OF assms(1)] g(2) that by blast
  with g(3) show "sorted (map (line_at ir) g)" unfolding sorted_wrt_map
    by (rule sorted_wrt_mono_rel [rotated]) blast
qed

lemma group_chunk_lined:
  assumes "lined_session region ir" and "g \<in> set (groups_of ir)"
  obtains c where "group_chunk E region ir g = Some c" and "end_byte c = line_ends region ! line_at ir (last g)"
    and "user_turn c = None"
proof -
  note lines = group_lines [OF assms]
  note g = groups_indices [OF assms(2)]
  obtain j js where js: "g = j # js" using g(1) by (cases g) auto
  have m: "fold max (map (line_at ir) js) (line_at ir j) = line_at ir (last g)"
    using fold_max_sorted [of "line_at ir j" "map (line_at ir) js"] lines(2) js by (auto simp: last_map)
  have "line_at ir (last g) < length (split_inclusive region)"
    using lined_line(2) [OF assms(1)] g(1,2) by simp
  note e = region_ends_line [OF this]
  have l: "List.map_filter ev_line (events_at ir g) = line_at ir j # map (line_at ir) js" using lines(1) js by simp
  have "group_chunk E region ir g =
      Some \<lparr>end_byte = line_ends region ! line_at ir (last g), user_turn = None,
            ch_prompt = (case prompt_of (events_at ir g) of Some p \<Rightarrow> p | None \<Rightarrow> []),
            ch_events = length g, ch_dropped = length (filter (\<lambda>e. ev_kind e = Other) (events_at ir g)),
            ended_at = max_opt (times_of E (events_at ir g))\<rparr>"
    unfolding group_chunk_def l Let_def list.case m e ..
  from that [OF this] show thesis by simp
qed

definition turn_chunk :: "env \<Rightarrow> string \<Rightarrow> Session \<Rightarrow> nat list \<Rightarrow> Chunk" where
  "turn_chunk E region ir g = the (group_chunk E region ir g)"

lemma turn_chunk_lined:
  assumes "lined_session region ir" and "g \<in> set (groups_of ir)"
  shows "group_chunk E region ir g = Some (turn_chunk E region ir g)"
    and "end_byte (turn_chunk E region ir g) = line_ends region ! line_at ir (last g)"
    and "user_turn (turn_chunk E region ir g) = None"
  using group_chunk_lined [OF assms, of E] unfolding turn_chunk_def by fastforce+

lemma turns_apart:
  assumes "lined_session region ir" and "i < k" and "k < length (groups_of ir)"
  shows "line_at ir (last (groups_of ir ! i)) < line_at ir (hd (groups_of ir ! k))"
    and "line_at ir (hd (groups_of ir ! k)) \<le> line_at ir (last (groups_of ir ! k))"
proof -
  have i: "groups_of ir ! i \<in> set (groups_of ir)" and k: "groups_of ir ! k \<in> set (groups_of ir)" using assms by simp_all
  note gi = groups_indices [OF i] and gk = groups_indices [OF k]
  have "last (groups_of ir ! i) < hd (groups_of ir ! k)"
    using groups_ordered [OF assms(2,3)] gi(1) gk(1) by simp
  then show "line_at ir (last (groups_of ir ! i)) < line_at ir (hd (groups_of ir ! k))"
    using lined_mono(2) [OF assms(1)] gk(1,2) group_prompt [of k ir] assms by simp
  have "hd (groups_of ir ! k) = last (groups_of ir ! k) \<or> hd (groups_of ir ! k) < last (groups_of ir ! k)"
    using gk(1,3) by (cases "groups_of ir ! k") auto
  then show "line_at ir (hd (groups_of ir ! k)) \<le> line_at ir (last (groups_of ir ! k))"
    using lined_mono(1) [OF assms(1)] gk(1,2) by (metis last_in_set order_refl)
qed

lemma turn_chunks_sorted:
  assumes "lined_session region ir"
  shows "sorted_wrt (<) (map end_byte (map (turn_chunk E region ir) (groups_of ir)))"
  unfolding sorted_wrt_iff_nth_less
proof (intro allI impI)
  fix i k
  assume "i < k" "k < length (map end_byte (map (turn_chunk E region ir) (groups_of ir)))"
  then have ik: "i < k" "k < length (groups_of ir)" by simp_all
  then have "groups_of ir ! k \<in> set (groups_of ir)" by simp
  then have "line_at ir (last (groups_of ir ! k)) < length (split_inclusive region)"
    using lined_line(2) [OF assms] groups_indices(1,2) by (metis last_in_set)
  with turns_apart [OF assms ik]
  have "line_ends region ! line_at ir (last (groups_of ir ! i)) < line_ends region ! line_at ir (last (groups_of ir ! k))"
    by (intro line_ends_mono) simp_all
  with ik show "map end_byte (map (turn_chunk E region ir) (groups_of ir)) ! i
      < map end_byte (map (turn_chunk E region ir) (groups_of ir)) ! k"
    by (simp add: turn_chunk_lined(2) [OF assms])
qed

lemma merge_chunks_distinct:
  assumes "sorted_wrt (<) (map end_byte (out @ cs))" and "\<And>c. c \<in> set cs \<Longrightarrow> user_turn c = None"
  shows "merge_chunks (map Some cs) out = out @ cs"
  using assms
proof (induction cs arbitrary: out)
  case (Cons c cs)
  have "\<not> (out \<noteq> [] \<and> end_byte (last out) = end_byte c)"
    using Cons.prems(1) by (auto simp: sorted_wrt_append) (metis last_in_set less_irrefl)
  moreover have same: "c\<lparr>user_turn := None\<rparr> = c" using Cons.prems(2) [of c] by simp
  ultimately show ?case using Cons.IH [of "out @ [c]"] Cons.prems by (auto simp: same)
qed simp

lemma in_flight_groups: "in_flight_tail E ir calls \<noteq> None \<Longrightarrow> groups_of ir \<noteq> []"
  by (auto simp: in_flight_tail_def)

lemma turn_chunks_lined:
  assumes "lined_session region ir"
  shows "turn_chunks E region ir calls =
    map (turn_chunk E region ir) (if in_flight_tail E ir calls = None then groups_of ir else butlast (groups_of ir))"
proof -
  let ?cs = "map (turn_chunk E region ir) (groups_of ir)"
  have some: "map (group_chunk E region ir) (groups_of ir) = map Some ?cs"
    using turn_chunk_lined(1) [OF assms] by simp
  have "merge_chunks (map Some ?cs) [] = ?cs"
  proof (rule merge_chunks_distinct [of "[]" ?cs, simplified append_Nil])
    show "sorted_wrt (<) (map end_byte ?cs)" by (rule turn_chunks_sorted [OF assms])
    show "user_turn c = None" if "c \<in> set ?cs" for c using that turn_chunk_lined(3) [OF assms] by auto
  qed
  then show ?thesis
    unfolding turn_chunks_def some Let_def using in_flight_groups [of E ir calls]
    by (auto simp: map_butlast last_map)
qed

lemma turn_chunks_ends:
  assumes "lined_session region ir"
  shows "sorted_wrt (<) (map end_byte (turn_chunks E region ir calls))"
    and "set (map end_byte (turn_chunks E region ir calls)) \<subseteq> set (line_ends region)"
    and "\<And>c. c \<in> set (turn_chunks E region ir calls) \<Longrightarrow> user_turn c = None"
proof -
  let ?gs = "if in_flight_tail E ir calls = None then groups_of ir else butlast (groups_of ir)"
  have sub: "g \<in> set (groups_of ir)" if "g \<in> set ?gs" for g using that by (auto split: if_splits dest: in_set_butlastD)
  show "sorted_wrt (<) (map end_byte (turn_chunks E region ir calls))"
    using turn_chunks_sorted [OF assms, of E] unfolding turn_chunks_lined [OF assms]
    by (auto simp: butlast_conv_take sorted_wrt_take simp flip: take_map)
  have "line_ends region ! line_at ir (last g) \<in> set (line_ends region)" if "g \<in> set (groups_of ir)" for g
    using lined_line(2) [OF assms] groups_indices(1,2) [OF that] by (intro nth_mem) simp
  then show "set (map end_byte (turn_chunks E region ir calls)) \<subseteq> set (line_ends region)"
    unfolding turn_chunks_lined [OF assms] using turn_chunk_lined(2) [OF assms] sub by auto
  show "user_turn c = None" if "c \<in> set (turn_chunks E region ir calls)" for c
    using that sub turn_chunk_lined(3) [OF assms] unfolding turn_chunks_lined [OF assms] by auto
qed

lemma running_turn_uncut:
  assumes "lined_session region ir" and "in_flight_tail E ir calls \<noteq> None" and "c \<in> set (turn_chunks E region ir calls)"
  shows "end_byte c \<le> line_starts region ! line_at ir (hd (last (groups_of ir)))"
proof -
  obtain g where g: "g \<in> set (butlast (groups_of ir))" and c: "c = turn_chunk E region ir g"
    using assms unfolding turn_chunks_lined [OF assms(1)] by auto
  obtain i where i: "i < length (groups_of ir) - 1" "g = groups_of ir ! i"
    using g by (auto simp: in_set_conv_nth nth_butlast)
  define k where "k = length (groups_of ir) - 1"
  have k: "i < k" "k < length (groups_of ir)" "last (groups_of ir) = groups_of ir ! k"
    using i by (auto simp: k_def last_conv_nth gr_implies_not0 simp flip: length_greater_0_conv)
  note apart = turns_apart(1) [OF assms(1) k(1,2)]
  have "groups_of ir ! k \<in> set (groups_of ir)" using k by simp
  then have l: "line_at ir (hd (groups_of ir ! k)) < length (split_inclusive region)"
    using lined_line(2) [OF assms(1)] groups_indices(1,2) by (metis hd_in_set)
  have "line_ends region ! line_at ir (last g) \<le> line_ends region ! (line_at ir (hd (groups_of ir ! k)) - 1)"
    using apart l i(2) by (intro line_ends_le) simp_all
  then show ?thesis
    using apart l in_set_butlastD [OF g] i(2) by (simp add: c k(3) turn_chunk_lined(2) [OF assms(1)] line_starts_nth)
qed

section \<open>Completed chunks\<close>

lemma stamped_ends [simp]: "map end_byte (stamped_chunks st c cov es) = es"
  by (induction es arbitrary: cov) auto

lemma stamped_turn: "x \<in> set (stamped_chunks st c cov es) \<Longrightarrow> user_turn x = user_turn c"
  by (induction es arbitrary: cov) auto

lemma stamped_Nil_iff [simp]: "stamped_chunks st c cov es = [] \<longleftrightarrow> es = []"
  by (cases es) simp_all

lemma strict_remdups_adj: "sorted xs \<Longrightarrow> sorted_wrt (<) (remdups_adj xs)" for xs :: "nat list"
proof (induction xs rule: remdups_adj.induct)
  case (3 x y xs)
  show ?case
  proof (cases "x = y")
    case True
    with 3 show ?thesis by simp
  next
    case False
    have "x < z" if "z \<in> set (y # xs)" for z
    proof -
      have "x < y" "y \<le> z" using 3(3) False that by auto
      then show ?thesis by simp
    qed
    moreover have "sorted_wrt (<) (remdups_adj (y # xs))" using 3 False by simp
    moreover have "remdups_adj (x # y # xs) = x # remdups_adj (y # xs)" using False by simp
    ultimately show ?thesis by (simp only: sorted_wrt.simps remdups_adj_set) blast
  qed
qed simp_all

lemma turn_end_bytes_sorted: "sorted_wrt (<) (turn_end_bytes region ir)"
  unfolding turn_end_bytes_def by (rule strict_remdups_adj) simp

lemma in_map_filter: "y \<in> set (List.map_filter f xs) \<longleftrightarrow> (\<exists>x \<in> set xs. f x = Some y)"
  by (induction xs) (auto simp: List.map_filter_def)

lemma turn_end_bytes_lines: "set (turn_end_bytes region ir) \<subseteq> set (line_ends region)"
proof
  fix b
  assume "b \<in> set (turn_end_bytes region ir)"
  then obtain e :: Event where "(case ev_line e of
                 None \<Rightarrow> None
               | Some l \<Rightarrow> if l < length (line_ends region) then Some (line_ends region ! l) else None) = Some b"
    by (auto simp: turn_end_bytes_def in_map_filter simp del: length_line_ends)
  then show "b \<in> set (line_ends region)" by (auto split: option.splits if_splits)
qed

lemma sorted_le_last: "sorted_wrt (<) xs \<Longrightarrow> x \<in> set xs \<Longrightarrow> x \<le> last xs" for x :: nat
  by (cases xs rule: rev_cases) (auto simp: sorted_wrt_append less_imp_le)

lemma turn_ends_bounds:
  assumes "sorted_wrt (<) taken" and "\<And>e. e \<in> set taken \<Longrightarrow> e \<le> end" and "previous < end"
  shows "sorted_wrt (<) (turn_ends sub closed previous end taken)"
    and "set (turn_ends sub closed previous end taken) \<subseteq> {x \<in> insert end (set taken). previous < x}"
    and "turn_ends sub closed previous end taken \<noteq> []"
proof -
  let ?f = "filter (\<lambda>e. e > previous) taken"
  have s: "sorted_wrt (<) ?f" using assms(1) by (simp add: sorted_wrt_filter)
  have last: "x < end" if "x \<in> set ?f" "last ?f < end" for x
    using sorted_le_last [OF s that(1)] that(2) by simp
  show "sorted_wrt (<) (turn_ends sub closed previous end taken)"
  proof (cases "?f = []")
    case True
    then show ?thesis by (simp add: turn_ends_def Let_def)
  next
    case False
    then show ?thesis
      using s last by (auto simp: turn_ends_def Let_def sorted_wrt_append list_ex_iff)
  qed
  show "set (turn_ends sub closed previous end taken) \<subseteq> {x \<in> insert end (set taken). previous < x}"
    using assms(3) by (auto simp: turn_ends_def Let_def split: if_splits)
  show "turn_ends sub closed previous end taken \<noteq> []" by (simp add: turn_ends_def Let_def)
qed

lemma completed_loop_ends:
  assumes "sorted_wrt (<) (map end_byte cs)" and "sorted_wrt (<) terminal" and "\<And>c. c \<in> set cs \<Longrightarrow> previous < end_byte c"
  shows "sorted_wrt (<) (map end_byte (completed_loop st sub closed index cs terminal previous cov))
    \<and> (\<forall>e \<in> set (map end_byte (completed_loop st sub closed index cs terminal previous cov)). previous < e)
    \<and> set (map end_byte (completed_loop st sub closed index cs terminal previous cov)) \<subseteq> set terminal \<union> set (map end_byte cs)"
  using assms
proof (induction cs arbitrary: index terminal previous cov)
  case (Cons c cs)
  let ?taken = "takeWhile (\<lambda>e. e \<le> end_byte c) terminal"
  let ?rest = "dropWhile (\<lambda>e. e \<le> end_byte c) terminal"
  let ?ends = "turn_ends sub (index < closed) previous (end_byte c) ?taken"
  let ?more = "completed_loop st sub closed (index + 1) cs ?rest (end_byte c) (last ?ends)"
  have taken: "sorted_wrt (<) ?taken" "\<And>e. e \<in> set ?taken \<Longrightarrow> e \<le> end_byte c"
    using Cons.prems(2) by (simp_all add: sorted_wrt_takeWhile) (metis set_takeWhileD)
  have prev: "previous < end_byte c" using Cons.prems(3) by simp
  note ends = turn_ends_bounds [OF taken(1) taken(2) prev, of sub "index < closed"]
  have rest: "sorted_wrt (<) ?rest" using Cons.prems(2) by (metis sorted_wrt_append takeWhile_dropWhile_id)
  have le: "x \<le> end_byte c" if "x \<in> set ?ends" for x using ends(2) taken(2) that by auto
  have IH: "sorted_wrt (<) (map end_byte ?more)" "\<forall>e \<in> set (map end_byte ?more). end_byte c < e"
    "set (map end_byte ?more) \<subseteq> set ?rest \<union> set (map end_byte cs)"
    using Cons.IH [OF _ rest, of "end_byte c" "index + 1" "last ?ends"] Cons.prems(1) by auto
  have all: "map end_byte (completed_loop st sub closed index (c # cs) terminal previous cov) = ?ends @ map end_byte ?more"
    by (simp add: Let_def)
  have sub: "set ?taken \<subseteq> set terminal" "set ?rest \<subseteq> set terminal"
    by (auto dest: set_takeWhileD set_dropWhileD)
  show ?case
    unfolding all
  proof (intro conjI)
    show "sorted_wrt (<) (?ends @ map end_byte ?more)"
      using ends(1) IH(1,2) le by (fastforce simp: sorted_wrt_append)
    show "\<forall>e \<in> set (?ends @ map end_byte ?more). previous < e"
      using ends(2) IH(2) prev by fastforce
    show "set (?ends @ map end_byte ?more) \<subseteq> set terminal \<union> set (map end_byte (c # cs))"
      using ends(2) IH(3) sub by auto
  qed
qed simp

lemma preamble_before:
  assumes l: "lined_session region ir" and c: "c \<in> set (turn_chunks E region ir calls)"
  shows "preamble_end region ir < end_byte c"
proof -
  obtain g where g: "g \<in> set (groups_of ir)" and c: "end_byte c = line_ends region ! line_at ir (last g)"
    using c turn_chunk_lined(2) [OF l] unfolding turn_chunks_lined [OF l]
    by (auto split: if_splits dest: in_set_butlastD)
  note gi = groups_indices [OF g]
  obtain q where q: "q \<in> set g" "ev_kind (session_events ir ! q) = UserPrompt"
    using groups_partition [of ir] g by (metis (mono_tags, lifting) filter_False length_0_conv zero_neq_one)
  have qn: "q < length (session_events ir)" using gi(2) q(1) .
  then obtain p where p: "p \<le> q" "find (\<lambda>e. ev_kind e = UserPrompt) (session_events ir) = Some (session_events ir ! p)"
    using q(2) by (cases "find (\<lambda>e. ev_kind e = UserPrompt) (session_events ir)") (auto simp: find_None_iff find_Some_iff not_less [symmetric])
  have "line_at ir p \<le> line_at ir q" using lined_mono(1) [OF l, of p q] p(1) qn by (cases "p = q") auto
  moreover have "q \<le> last g" using gi(3) q(1) gi(1)
    by (simp add: sorted_le_last)
  then have "line_at ir q \<le> line_at ir (last g)"
    using lined_mono(1) [OF l, of q "last g"] gi(1,2) by (cases "q = last g") auto
  ultimately have le: "line_at ir p \<le> line_at ir (last g)" by simp
  have lg: "line_at ir (last g) < length (split_inclusive region)" using lined_line(2) [OF l] gi(1,2) by simp
  have pn: "p < length (session_events ir)" using p(1) qn by simp
  have lp: "ev_line (session_events ir ! p) = Some (line_at ir p)" using lined_line(1) [OF l pn] .
  have pos: "0 < line_ends region ! line_at ir (last g)" using lg by (intro line_end_pos [of _ region]) simp
  show ?thesis
  proof (cases "line_at ir p")
    case 0
    then show ?thesis using pos c p(2) lp by (simp add: preamble_end_def)
  next
    case (Suc n)
    then have "line_ends region ! n < line_ends region ! line_at ir (last g)" using le lg by (intro line_ends_mono) simp_all
    then show ?thesis using pos c p(2) lp Suc by (simp add: preamble_end_def)
  qed
qed

lemma dropWhile_gt:
  assumes "sorted_wrt (<) xs" and "x \<in> set (dropWhile (\<lambda>e. e \<le> n) xs)"
  shows "n < (x :: nat)"
  using assms by (induction xs) (auto split: if_splits)

lemma completed_chunks_ends:
  assumes l: "lined_session region ir"
  shows "sorted_wrt (<) (map end_byte (completed_turn_chunks E region ir calls retained))"
    and "set (map end_byte (completed_turn_chunks E region ir calls retained)) \<subseteq> set (line_ends region)"
proof -
  let ?cs = "turn_chunks E region ir calls" and ?bs = "turn_end_bytes region ir" and ?p = "preamble_end region ir"
  define inh where "inh = (if retained then takeWhile (\<lambda>e. e \<le> ?p) ?bs else [])"
  define rest where "rest = (if retained then dropWhile (\<lambda>e. e \<le> ?p) ?bs else ?bs)"
  define more where "more = completed_loop (ended_within E region ir) (substantive_starts region ir) (length ?cs - 1) 0
    ?cs rest 0 (if inh = [] then 0 else last inh)"
  have all: "map end_byte (completed_turn_chunks E region ir calls retained) = inh @ map end_byte more"
    by (simp add: completed_turn_chunks_def Let_def inh_def rest_def more_def)
  have split: "?bs = inh @ rest" by (simp add: inh_def rest_def)
  have srt: "sorted_wrt (<) inh" "sorted_wrt (<) rest"
    using turn_end_bytes_sorted [of region ir] unfolding split by (simp_all add: sorted_wrt_append)
  have cs: "sorted_wrt (<) (map end_byte ?cs)" "set (map end_byte ?cs) \<subseteq> set (line_ends region)"
    using turn_chunks_ends [OF l] by blast+
  have pos: "0 < end_byte c" if "c \<in> set ?cs" for c using cs(2) that line_end_pos [of _ region] by auto
  note loop = completed_loop_ends [OF cs(1) srt(2) pos, of "ended_within E region ir" "substantive_starts region ir"
      "length ?cs - 1" 0 "if inh = [] then 0 else last inh", folded more_def]
  have "x < y" if "x \<in> set inh" "y \<in> set (map end_byte more)" for x y
  proof -
    from that(1) have r: retained and x: "x \<le> ?p" by (auto simp: inh_def split: if_splits dest: set_takeWhileD)
    from that(2) loop consider "y \<in> set rest" | "y \<in> set (map end_byte ?cs)" by blast
    then have "?p < y"
    proof cases
      case 1
      then show ?thesis using dropWhile_gt [OF turn_end_bytes_sorted] r by (simp add: rest_def)
    next
      case 2
      then show ?thesis using preamble_before [OF l] by auto
    qed
    with x show ?thesis by simp
  qed
  with srt(1) loop show "sorted_wrt (<) (map end_byte (completed_turn_chunks E region ir calls retained))"
    unfolding all sorted_wrt_append by blast
  have "set inh \<union> set rest \<subseteq> set (line_ends region)" using turn_end_bytes_lines [of region ir] unfolding split by simp
  with loop cs(2) show "set (map end_byte (completed_turn_chunks E region ir calls retained)) \<subseteq> set (line_ends region)"
    unfolding all by (simp only: set_append Un_subset_iff) blast
qed

section \<open>Completions as events\<close>

lemma index_of_member: "b \<in> set xs \<Longrightarrow> \<exists>n < length xs. index_of b xs = Some n"
  by (induction xs) auto

lemma r_fold_annotate:
  assumes "set bs \<subseteq> set ends"
  shows "\<exists>new. r_fold (\<lambda>b ir. r_bind (ok_or (index_of b ends) NotAtRecord) (\<lambda>line.
            Inr (ir\<lparr>session_events := session_events ir @ [text_event TurnEnd [] None line]\<rparr>))) bs ir
      = Inr (ir\<lparr>session_events := session_events ir @ new\<rparr>)
    \<and> (\<forall>e \<in> set new. ev_kind e = TurnEnd \<and> (\<exists>n < length ends. ev_line e = Some n))"
  using assms
proof (induction bs arbitrary: ir)
  case Nil
  then show ?case by (intro exI [of _ "[]"]) simp
next
  case (Cons b bs)
  obtain n where n: "n < length ends" "index_of b ends = Some n" using Cons.prems index_of_member [of b ends] by auto
  define ir1 where "ir1 = ir\<lparr>session_events := session_events ir @ [text_event TurnEnd [] None n]\<rparr>"
  from Cons.IH [of ir1] Cons.prems obtain new where
    new: "r_fold (\<lambda>b ir. r_bind (ok_or (index_of b ends) NotAtRecord) (\<lambda>line.
            Inr (ir\<lparr>session_events := session_events ir @ [text_event TurnEnd [] None line]\<rparr>))) bs ir1
      = Inr (ir1\<lparr>session_events := session_events ir1 @ new\<rparr>)"
    "\<forall>e \<in> set new. ev_kind e = TurnEnd \<and> (\<exists>n < length ends. ev_line e = Some n)" by auto
  show ?case
    using n new by (intro exI [of _ "text_event TurnEnd [] None n # new"]) (simp add: ir1_def)
qed

lemma sorted_by_key:
  fixes f :: "'a \<Rightarrow> nat"
  assumes "sorted (map f xs)" and "\<And>k. sorted_wrt R (filter (\<lambda>x. f x = k) xs)" and "\<And>a b. a \<in> set xs \<Longrightarrow> b \<in> set xs \<Longrightarrow> f a < f b \<Longrightarrow> R a b"
  shows "sorted_wrt R xs"
  using assms
proof (induction xs)
  case (Cons x xs)
  have "R x y" if "y \<in> set xs" for y
  proof (cases "f x = f y")
    case True
    then show ?thesis using Cons.prems(2) [of "f x"] that by simp
  next
    case False
    then have "f x < f y" using Cons.prems(1) that by (auto simp: order_less_le)
    then show ?thesis using Cons.prems(3) [of x y] that by simp
  qed
  moreover have "sorted_wrt R xs"
  proof (rule Cons.IH)
    show "sorted_wrt R (filter (\<lambda>x. f x = k) xs)" for k
      using Cons.prems(2) [of k] by (simp split: if_splits)
  qed (use Cons.prems in auto)
  ultimately show ?case by simp
qed simp

lemma sorted_wrt_all: "(\<And>a b. a \<in> set xs \<Longrightarrow> b \<in> set xs \<Longrightarrow> R a b) \<Longrightarrow> sorted_wrt R xs"
  by (induction xs) auto

lemma lined_sort:
  assumes es: "well_lined m es" and new: "\<And>e. e \<in> set new \<Longrightarrow> ev_kind e \<noteq> UserPrompt \<and> (\<exists>n < m. ev_line e = Some n)"
  shows "well_lined m (sort_key line_key (es @ new))"
proof -
  have line: "\<exists>n < m. ev_line e = Some n" if "e \<in> set (es @ new)" for e
    using that es new by (auto simp: well_lined_def)
  have "sorted_wrt lined (sort_key line_key (es @ new))"
  proof (rule sorted_by_key [where f = line_key])
    show "sorted (map line_key (sort_key line_key (es @ new)))" by simp
    show "sorted_wrt lined (filter (\<lambda>x. line_key x = k) (sort_key line_key (es @ new)))" for k
    proof -
      have "sorted_wrt lined (filter (\<lambda>x. line_key x = k) es)" using es by (simp add: well_lined_def sorted_wrt_filter)
      moreover have late: "lined a b" if "a \<in> set (es @ new)" "b \<in> set new" "line_key a = k" "line_key b = k" for a b
        using line [of a] line [of b] new [of b] that by (auto simp: lined_def line_key_def)
      then have "sorted_wrt lined (filter (\<lambda>x. line_key x = k) new)"
        by (intro sorted_wrt_all) auto
      ultimately have "sorted_wrt lined (filter (\<lambda>x. line_key x = k) (es @ new))"
        using late by (auto simp: sorted_wrt_append)
      then show ?thesis by (simp only: sort_key_stable)
    qed
    show "lined a b" if "a \<in> set (sort_key line_key (es @ new))" "b \<in> set (sort_key line_key (es @ new))" "line_key a < line_key b" for a b
      using line [of a] line [of b] that by (auto simp: lined_def line_key_def)
  qed
  with line show ?thesis by (simp add: well_lined_def)
qed

lemma annotate_lined:
  assumes "lined_session region ir" and "set bs \<subseteq> set (line_ends region)"
  obtains ir' where "annotate_completed_boundaries region bs ir = Inr ir'" and "lined_session region ir'"
proof -
  from r_fold_annotate [OF assms(2), of ir] obtain new where
    n: "r_fold (\<lambda>b ir. r_bind (ok_or (index_of b (line_ends region)) NotAtRecord) (\<lambda>line.
            Inr (ir\<lparr>session_events := session_events ir @ [text_event TurnEnd [] None line]\<rparr>))) bs ir
      = Inr (ir\<lparr>session_events := session_events ir @ new\<rparr>)"
    and new: "\<forall>e \<in> set new. ev_kind e = TurnEnd \<and> (\<exists>n < length (line_ends region). ev_line e = Some n)" by blast
  show thesis
  proof (rule that)
    show "annotate_completed_boundaries region bs ir
        = Inr (ir\<lparr>session_events := sort_key line_key (session_events ir @ new)\<rparr>)"
      unfolding annotate_completed_boundaries_def n by simp
    show "lined_session region (ir\<lparr>session_events := sort_key line_key (session_events ir @ new)\<rparr>)"
      using assms(1) new lined_sort [of "length (split_inclusive region)" "session_events ir" new]
      by (simp add: lined_session_def)
  qed
qed

section \<open>Which chunks are kept\<close>

lemma subseq_subset: "subseq xs ys \<Longrightarrow> set xs \<subseteq> set ys"
  by (induction rule: list_emb.induct) auto

lemma sorted_subseq: "subseq xs ys \<Longrightarrow> sorted_wrt R ys \<Longrightarrow> sorted_wrt R xs"
proof (induction rule: list_emb.induct)
  case (list_emb_Cons2 x y xs ys)
  have "set xs \<subseteq> set ys" using list_emb_Cons2(2) by (rule subseq_subset)
  with list_emb_Cons2 show ?case by auto
qed simp_all

lemma sorted_ends_subseq: "subseq cs ds \<Longrightarrow> sorted_wrt (<) (map end_byte ds) \<Longrightarrow> sorted_wrt (<) (map end_byte cs)"
  by (blast intro: sorted_subseq subseq_map)

lemma bookkeeping_subseq: "subseq (without_bookkeeping_only sub lo cs) cs"
  by (induction sub lo cs rule: without_bookkeeping_only.induct) auto

lemma bookkeeping_covers:
  assumes "sorted_wrt (<) (map end_byte cs)" and "s \<in> set sub" and "lo \<le> s" and "c \<in> set cs" and "s < end_byte c"
  shows "\<exists>k \<in> set (without_bookkeeping_only sub lo cs). s < end_byte k \<and> end_byte k \<le> end_byte c"
  using assms
proof (induction sub lo cs rule: without_bookkeeping_only.induct)
  case (2 sub lo d cs)
  have le: "end_byte d \<le> end_byte c" using 2(3) 2(6) by auto
  show ?case
  proof (cases "s < end_byte d")
    case True
    then have "list_ex (\<lambda>s. s \<ge> lo \<and> s < end_byte d) sub" using 2(4,5) by (auto simp: list_ex_iff)
    with True le show ?thesis by auto
  next
    case False
    then have "c \<in> set cs" using 2(6,7) by auto
    with 2 False show ?thesis by auto
  qed
qed simp

text \<open>The specification of the kept chunks: each holds conversation after the one before it.\<close>

fun each_substantial :: "nat list \<Rightarrow> nat \<Rightarrow> Chunk list \<Rightarrow> bool" where
  "each_substantial sub lo [] \<longleftrightarrow> True"
| "each_substantial sub lo (c # cs) \<longleftrightarrow>
     (user_turn c \<noteq> None \<longrightarrow> (\<exists>s \<in> set sub. lo \<le> s \<and> s < end_byte c)) \<and> each_substantial sub (end_byte c) cs"

lemma bookkeeping_substantial: "each_substantial sub lo (without_bookkeeping_only sub lo cs)"
  by (induction sub lo cs rule: without_bookkeeping_only.induct) (auto simp: list_ex_iff)

text \<open>The reference definition of one commit per turn: a chunk followed by another of its turn is passed over.\<close>

fun last_of_turn :: "Chunk list \<Rightarrow> Chunk list" where
  "last_of_turn (c # d # cs) =
     (if user_turn c \<noteq> None \<and> user_turn d = user_turn c then last_of_turn (d # cs) else c # last_of_turn (d # cs))"
| "last_of_turn cs = cs"

lemma fold_keep_chunk: "fold keep_chunk cs (kept @ [c]) = kept @ last_of_turn (c # cs)"
proof (induction cs arbitrary: kept c)
  case (Cons d cs)
  show ?case
  proof (cases "user_turn c \<noteq> None \<and> user_turn d = user_turn c")
    case True
    then have "keep_chunk d (kept @ [c]) = kept @ [d]" by (auto simp: keep_chunk_def)
    with True Cons [of kept d] show ?thesis by simp
  next
    case False
    then have "keep_chunk d (kept @ [c]) = (kept @ [c]) @ [d]" by (auto simp: keep_chunk_def)
    with False Cons [of "kept @ [c]" d] show ?thesis by auto
  qed
qed simp

lemma one_commit_last: "one_commit_per_turn cs = last_of_turn cs"
proof (cases cs)
  case (Cons c cs')
  then show ?thesis using fold_keep_chunk [of cs' "[]" c] by (simp add: one_commit_per_turn_def keep_chunk_def)
qed (simp add: one_commit_per_turn_def)

lemma last_of_turn_facts:
  "subseq (last_of_turn cs) cs" "last_of_turn cs = [] \<longleftrightarrow> cs = []" "cs \<noteq> [] \<Longrightarrow> last (last_of_turn cs) = last cs"
  by (induction cs rule: last_of_turn.induct) auto

section \<open>What an adapter promises\<close>

locale line_adapter =
  fixes parse :: "string \<Rightarrow> Session"
  assumes parse_lined: "lined_session region (parse region)"
begin

lemma turns_cut:
  "sorted_wrt (<) (map end_byte (turn_chunks E region (parse region) calls))
   \<and> set (map end_byte (turn_chunks E region (parse region) calls)) \<subseteq> set (line_ends region)
   \<and> length (turn_chunks E region (parse region) calls)
     = prompts (counts (parse region)) - (if in_flight_tail E (parse region) calls = None then 0 else 1)"
proof (intro conjI)
  show "length (turn_chunks E region (parse region) calls)
     = prompts (counts (parse region)) - (if in_flight_tail E (parse region) calls = None then 0 else 1)"
    unfolding turn_chunks_lined [OF parse_lined] by (simp add: length_groups_of [symmetric])
qed (rule turn_chunks_ends [OF parse_lined])+

lemma running_turn_waits:
  assumes "in_flight_tail E (parse region) calls \<noteq> None" and "c \<in> set (turn_chunks E region (parse region) calls)"
  shows "end_byte c \<le> line_starts region ! line_at (parse region) (hd (last (groups_of (parse region))))"
  using running_turn_uncut [OF parse_lined assms] .

lemma completions_cut:
  assumes "set bs \<subseteq> set (line_ends region)"
  obtains ir where "annotate_completed_boundaries region bs (parse region) = Inr ir"
    and "sorted_wrt (<) (map end_byte (completed_turn_chunks E region ir calls retained))"
    and "set (map end_byte (completed_turn_chunks E region ir calls retained)) \<subseteq> set (line_ends region)"
  using annotate_lined [OF parse_lined assms] completed_chunks_ends by metis

end

interpretation claude: line_adapter "parse_claude J" for J
  by unfold_locales (simp add: lined_session_def parse_well_lined)

section \<open>Settling once\<close>

lemma bookkeeping_rest:
  assumes "sorted_wrt (<) (map end_byte cs)" and "without_bookkeeping_only sub lo cs \<noteq> []"
  shows "without_bookkeeping_only sub (end_byte (last (without_bookkeeping_only sub lo cs)))
    (filter (\<lambda>c. end_byte c > end_byte (last (without_bookkeeping_only sub lo cs))) cs) = []"
  using assms
proof (induction sub lo cs rule: without_bookkeeping_only.induct)
  case (2 sub lo d cs)
  have srt: "sorted_wrt (<) (map end_byte cs)" and lt: "\<And>c. c \<in> set cs \<Longrightarrow> end_byte d < end_byte c" using 2(3) by auto
  show ?case
  proof (cases "user_turn d = None \<or> list_ex (\<lambda>s. s \<ge> lo \<and> s < end_byte d) sub")
    case True
    let ?k = "without_bookkeeping_only sub (end_byte d) cs"
    show ?thesis
    proof (cases "?k = []")
      case k: True
      have "filter (\<lambda>c. end_byte d < end_byte c) (d # cs) = cs" using lt by (simp add: filter_id_conv)
      with True k show ?thesis by simp
    next
      case False
      then have "last ?k \<in> set cs" using subseq_subset [OF bookkeeping_subseq] last_in_set by blast
      from lt [OF this] have "\<not> end_byte (last ?k) < end_byte d" by simp
      with True False 2(1) srt show ?thesis by simp
    qed
  next
    case False
    then have k: "without_bookkeeping_only sub lo (d # cs) = without_bookkeeping_only sub lo cs" by auto
    with 2(4) have ne: "without_bookkeeping_only sub lo cs \<noteq> []" by simp
    then have "last (without_bookkeeping_only sub lo cs) \<in> set cs"
      using subseq_subset [OF bookkeeping_subseq] last_in_set by blast
    from lt [OF this] have "\<not> end_byte (last (without_bookkeeping_only sub lo cs)) < end_byte d" by simp
    with 2(2) [OF False srt ne] show ?thesis unfolding k by simp
  qed
qed simp

lemma keeps_last: "cs \<noteq> [] \<Longrightarrow> last (one_commit_per_turn cs) = last cs" "one_commit_per_turn cs = [] \<longleftrightarrow> cs = []"
  by (simp_all add: one_commit_last last_of_turn_facts)

text \<open>What is recorded after a settlement landed its chunks.\<close>

definition landed :: "Chunk list \<Rightarrow> settle_base \<Rightarrow> settle_base" where
  "landed cs b =
     b\<lparr>head_turn_base := turn_number b (length cs - 1) (last cs), native_prefix := region_start b + end_byte (last cs)\<rparr>"

lemma new_chunks_native:
  assumes "\<not> materialized_mode b"
  shows "new_chunks region ir opts b True chunks =
    (let k = without_bookkeeping_only (substantive_starts region ir) (native_prefix b)
               (filter (\<lambda>c. end_byte c > native_prefix b) chunks)
     in if completed_only opts then k else one_commit_per_turn k)"
  using assms by (simp add: new_chunks_def Let_def)

lemma settles_once_native:
  assumes m: "\<not> materialized_mode b" and r: "region_start b = 0" and s: "sorted_wrt (<) (map end_byte chunks)"
    and ne: "new_chunks region ir opts b True chunks \<noteq> []"
  shows "new_chunks region ir opts (landed (new_chunks region ir opts b True chunks) b) True chunks = []"
proof -
  let ?sub = "substantive_starts region ir"
  define u where "u = filter (\<lambda>c. end_byte c > native_prefix b) chunks"
  define k where "k = without_bookkeeping_only ?sub (native_prefix b) u"
  have n: "new_chunks region ir opts b True chunks = (if completed_only opts then k else one_commit_per_turn k)"
    unfolding new_chunks_native [OF m] Let_def k_def u_def ..
  with ne have kne: "k \<noteq> []" by (auto simp: keeps_last split: if_splits)
  have last: "last (new_chunks region ir opts b True chunks) = last k" using n keeps_last(1) [OF kne] by simp
  have "last k \<in> set u" using kne subseq_subset [OF bookkeeping_subseq] last_in_set unfolding k_def by blast
  then have p: "native_prefix b < end_byte (last k)" by (simp add: u_def)
  have u: "sorted_wrt (<) (map end_byte u)" using sorted_ends_subseq [OF _ s] unfolding u_def by (simp add: subseq_filter_left)
  have "filter (\<lambda>c. end_byte c > end_byte (last k)) chunks = filter (\<lambda>c. end_byte c > end_byte (last k)) u"
    using p by (auto simp: u_def intro!: filter_cong)
  with bookkeeping_rest [OF u kne [unfolded k_def]]
  have "without_bookkeeping_only ?sub (end_byte (last k)) (filter (\<lambda>c. end_byte c > end_byte (last k)) chunks) = []"
    by (simp add: k_def)
  then show ?thesis
    using m r by (subst new_chunks_native) (simp_all add: landed_def last keeps_last)
qed

lemma bookkeeping_legacy: "(\<And>c. c \<in> set cs \<Longrightarrow> user_turn c = None) \<Longrightarrow> without_bookkeeping_only sub lo cs = cs"
  by (induction sub lo cs rule: without_bookkeeping_only.induct) auto

lemma one_commit_legacy: "(\<And>c. c \<in> set cs \<Longrightarrow> user_turn c = None) \<Longrightarrow> one_commit_per_turn cs = cs"
  unfolding one_commit_last by (induction cs rule: last_of_turn.induct) auto

lemma new_chunks_ordinal:
  assumes "\<not> materialized_mode b" and "region_start b = 0" and "\<And>c. c \<in> set chunks \<Longrightarrow> user_turn c = None"
  shows "new_chunks region ir opts b False chunks = drop (head_turn_base b) chunks"
proof -
  have "user_turn c = None" if "c \<in> set (drop (head_turn_base b) chunks)" for c
    using assms(3) that by (meson in_set_dropD)
  then show ?thesis
    using assms by (cases "head_turn_base b") (simp_all add: new_chunks_def Let_def bookkeeping_legacy one_commit_legacy)
qed

lemma settles_once_ordinal:
  assumes m: "\<not> materialized_mode b" and r: "region_start b = 0" and l: "\<And>c. c \<in> set chunks \<Longrightarrow> user_turn c = None"
    and ne: "new_chunks region ir opts b False chunks \<noteq> []"
  shows "new_chunks region ir opts (landed (new_chunks region ir opts b False chunks) b) False chunks = []"
proof -
  have new: "new_chunks region ir opts b False chunks = drop (head_turn_base b) chunks"
    by (rule new_chunks_ordinal [OF m r l])
  then have ne: "head_turn_base b < length chunks" using ne by simp
  moreover from ne have "user_turn (last chunks) = None" using l last_in_set by (metis length_0_conv not_less0)
  ultimately have "turn_number b (length (drop (head_turn_base b) chunks) - 1) (last (drop (head_turn_base b) chunks)) = length chunks"
    by (simp add: turn_number_def)
  then show ?thesis
    unfolding new using m r l by (subst new_chunks_ordinal) (simp_all add: landed_def)
qed

section \<open>Claude Code sessions\<close>

abbreviation claude_code :: string where
  "claude_code \<equiv> ''claude-code''"

lemma boundaries_are_line_ends:
  "set (completed_turn_boundaries J region) \<subseteq> set (line_ends region)"
  "set (ended_turn_boundaries J region) \<subseteq> set (line_ends region)"
proof -
  have "b \<in> set (line_ends region)" if "b \<in> set (completed_turn_boundaries J region)" for b
  proof -
    from that obtain c where "(b, c) \<in> set (execution_closes J region False)"
      by (auto simp: completed_turn_boundaries_def in_map_filter split: if_splits)
    then have "b \<in> set (map fst (execution_closes J region False))" by force
    then show ?thesis using closes_are_line_ends(2) by blast
  qed
  then show "set (completed_turn_boundaries J region) \<subseteq> set (line_ends region)" by blast
  show "set (ended_turn_boundaries J region) \<subseteq> set (line_ends region)"
    using closes_are_line_ends(2) [of J region True] by (simp add: ended_turn_boundaries_def)
qed

lemma claude_completions:
  assumes "set receipts \<subseteq> set (line_ends region)"
  obtains e bs where "completion_boundaries E claude_code region receipts supervised = Inr (e, bs)"
    and "set bs \<subseteq> set (line_ends (take e region))" and "set (line_ends (take e region)) \<subseteq> set (line_ends region)"
    and "bs = [] \<and> e = 0 \<or> bs \<noteq> [] \<and> e = last bs"
proof -
  define all where "all = receipts @ (if supervised then completed_turn_boundaries (json_parser E) region
                                 else ended_turn_boundaries (json_parser E) region)"
  define bs where "bs = remdups_adj (sort all)"
  define e where "e = (if bs = [] then 0 else last bs)"
  have sub: "set bs \<subseteq> set (line_ends region)"
    using assms boundaries_are_line_ends [of "json_parser E" region] by (auto simp: bs_def all_def)
  have srt: "sorted_wrt (<) bs" unfolding bs_def by (rule strict_remdups_adj) simp
  have cut: "set bs \<subseteq> set (line_ends (take e region)) \<and> set (line_ends (take e region)) \<subseteq> set (line_ends region)"
  proof (cases "bs = []")
    case True
    then show ?thesis by (simp add: e_def line_ends_def)
  next
    case False
    then have "e \<in> set (line_ends region)" using sub last_in_set [OF False] by (auto simp: e_def)
    note take = line_ends_take [OF this]
    have "x \<le> e" if "x \<in> set bs" for x using sorted_le_last [OF srt that] False by (simp add: e_def)
    with sub show ?thesis unfolding take by auto
  qed
  have "e \<le> length region"
    using sub line_end_le [of e region] by (auto simp: e_def subset_iff)
  moreover have "sort all = [] \<longleftrightarrow> bs = []" by (simp add: bs_def)
  ultimately have "completion_boundaries E claude_code region receipts supervised = Inr (e, bs)"
    by (simp add: completion_boundaries_def Let_def all_def [symmetric] bs_def [symmetric] e_def split: if_splits)
  moreover have "bs = [] \<and> e = 0 \<or> bs \<noteq> [] \<and> e = last bs" by (simp add: e_def)
  ultimately show thesis using cut that by blast
qed

lemma settle_claude:
  assumes a: "adapters E claude_code = Some (claude_adapter (json_parser E))"
    and r: "set (region_receipts opts b) \<subseteq> set (line_ends region)"
  obtains f natively cs where
    "settle_chunks E claude_code region (parse_claude (json_parser E) region) (open_tool_calls (json_parser E) region) opts b
       = Inr (f, natively, cs)"
    and "sorted_wrt (<) (map end_byte cs)" and "set (map end_byte cs) \<subseteq> set (line_ends region)"
    and "\<And>c. \<not> natively \<Longrightarrow> c \<in> set cs \<Longrightarrow> user_turn c = None"
proof -
  let ?J = "json_parser E"
  let ?ir = "parse_claude ?J region" and ?calls = "open_tool_calls ?J region"
  let ?cut = "completed_only opts \<or> region_receipts opts b \<noteq> [] \<or> records_completions E claude_code region ?ir"
  show thesis
  proof (cases ?cut)
    case True
    obtain e bs where c: "completion_boundaries E claude_code region (region_receipts opts b) (completed_only opts) = Inr (e, bs)"
      and bs: "set bs \<subseteq> set (line_ends (take e region))" and sub: "set (line_ends (take e region)) \<subseteq> set (line_ends region)"
      using claude_completions [OF r, of E "completed_only opts"] by metis
    let ?calls' = "open_tool_calls ?J (take e region)" and ?ret = "materialized_mode b \<and> head_turn_base b > 0"
    obtain ir where ir: "annotate_completed_boundaries (take e region) bs (parse_claude ?J (take e region)) = Inr ir"
      and cs: "sorted_wrt (<) (map end_byte (completed_turn_chunks E (take e region) ir ?calls' ?ret))"
        "set (map end_byte (completed_turn_chunks E (take e region) ir ?calls' ?ret)) \<subseteq> set (line_ends (take e region))"
      using claude.completions_cut [OF bs, where J = ?J and E = E and calls = ?calls' and retained = ?ret] by metis
    have "settle_chunks E claude_code region ?ir ?calls opts b =
        Inr (if in_flight_tail E ?ir ?calls = None \<and> substantive_from region ?ir e then Some Unfinished
             else in_flight_tail E ?ir ?calls, True, completed_turn_chunks E (take e region) ir ?calls' ?ret)"
      using True c ir a by (simp add: settle_chunks_def Let_def get_runtime_def claude_adapter_def)
    then show thesis using cs sub by (intro that) auto
  next
    case False
    let ?cs = "if has_turn_end ?ir then completed_turn_chunks E region ?ir ?calls (materialized_mode b \<and> head_turn_base b > 0)
      else turn_chunks E region ?ir ?calls"
    have "settle_chunks E claude_code region ?ir ?calls opts b = Inr (in_flight_tail E ?ir ?calls, has_turn_end ?ir, ?cs)"
      using False by (simp add: settle_chunks_def Let_def)
    moreover have "sorted_wrt (<) (map end_byte ?cs)" "set (map end_byte ?cs) \<subseteq> set (line_ends region)"
      using completed_chunks_ends [OF claude.parse_lined] turn_chunks_ends(1,2) [OF claude.parse_lined] by simp_all
    moreover have "user_turn c = None" if "\<not> has_turn_end ?ir" "c \<in> set ?cs" for c
      using turn_chunks_ends(3) [OF claude.parse_lined] that by simp
    ultimately show thesis by (rule that)
  qed
qed

lemma settlement_claude:
  assumes "adapters E claude_code = Some (claude_adapter (json_parser E))"
    and "settle_chunks E claude_code region (parse_claude (json_parser E) region) (open_tool_calls (json_parser E) region) opts b
       = Inr (f, natively, cs)"
  shows "settlement E claude_code region opts b
    = Inr (f, new_chunks region (parse_claude (json_parser E) region) opts b natively cs)"
  using assms by (simp add: settlement_def get_runtime_def claude_adapter_def)

lemma new_chunks_subseq: "subseq (new_chunks region ir opts b natively cs) cs"
proof -
  let ?u = "if natively \<and> \<not> materialized_mode b then filter (\<lambda>c. end_byte c > native_prefix b) cs
             else if \<not> materialized_mode b \<and> region_start b = 0 \<and> head_turn_base b > 0 then drop (head_turn_base b) cs
             else cs"
  let ?k = "without_bookkeeping_only (substantive_starts region ir) (if materialized_mode b then 0 else native_prefix b) ?u"
  have "subseq ?u cs" by (simp add: subseq_filter_left suffix_drop suffix_imp_subseq)
  moreover have "subseq ?k ?u" by (rule bookkeeping_subseq)
  moreover have "new_chunks region ir opts b natively cs = (if completed_only opts then ?k else last_of_turn ?k)"
    unfolding new_chunks_def Let_def one_commit_last ..
  then have "subseq (new_chunks region ir opts b natively cs) ?k" using last_of_turn_facts(1) by simp
  ultimately show ?thesis by (blast intro: subseq_order.order_trans)
qed

lemma each_substantial_mono: "each_substantial sub hi cs \<Longrightarrow> lo \<le> hi \<Longrightarrow> each_substantial sub lo cs"
  by (cases cs) (auto intro: order_trans)

lemma each_substantial_last: "each_substantial sub lo cs \<Longrightarrow> each_substantial sub lo (last_of_turn cs)"
proof (induction cs arbitrary: lo rule: last_of_turn.induct)
  case (1 c d cs)
  show ?case
  proof (cases "user_turn c \<noteq> None \<and> user_turn d = user_turn c")
    case True
    then have "lo \<le> end_byte c" using 1(3) by auto
    then have "each_substantial sub lo (d # cs)" using 1(3) each_substantial_mono [of sub "end_byte c"] by auto
    with 1(1) [OF True] True show ?thesis by simp
  next
    case False
    with 1(2) [OF False, of "end_byte c"] 1(3) show ?thesis by auto
  qed
qed auto

lemma last_of_turn_covers:
  assumes "sorted_wrt (<) (map end_byte cs)" and "c \<in> set cs"
  shows "\<exists>k \<in> set (last_of_turn cs). end_byte c \<le> end_byte k \<and> user_turn k = user_turn c"
  using assms
proof (induction cs arbitrary: c rule: last_of_turn.induct)
  case (1 d e cs)
  show ?case
  proof (cases "user_turn d \<noteq> None \<and> user_turn e = user_turn d")
    case True
    show ?thesis
    proof (cases "c = d")
      case eq: True
      obtain k where "k \<in> set (last_of_turn (e # cs))" "end_byte e \<le> end_byte k" "user_turn k = user_turn e"
        using 1(1) [OF True, of e] 1(3) by auto
      with True eq 1(3) show ?thesis by (intro bexI [of _ k]) auto
    next
      case False
      with True 1(1) [OF True] 1(3,4) show ?thesis by auto
    qed
  next
    case False
    then show ?thesis using 1(2) [OF False] 1(3,4) by (cases "c = d") auto
  qed
qed auto

section \<open>The theorems\<close>

text \<open>
  C14. Cutting a Claude Code transcript turn by turn gives one chunk for each prompt, in order, each
  ending at the end of a record, and when the last turn is still running (no reply yet, or a call
  without a result) exactly that turn has none and no chunk reaches into the lines from its prompt
  on.
\<close>

theorem running_turn_never_settles:
  "sorted_wrt (<) (map end_byte (turn_chunks E region (parse_claude J region) calls))
   \<and> set (map end_byte (turn_chunks E region (parse_claude J region) calls)) \<subseteq> set (line_ends region)
   \<and> length (turn_chunks E region (parse_claude J region) calls)
     = prompts (counts (parse_claude J region)) - (if in_flight_tail E (parse_claude J region) calls = None then 0 else 1)
   \<and> (in_flight_tail E (parse_claude J region) calls \<noteq> None \<longrightarrow>
        (\<forall>c \<in> set (turn_chunks E region (parse_claude J region) calls).
           end_byte c \<le> line_starts region ! line_at (parse_claude J region) (hd (last (groups_of (parse_claude J region))))))"
  using claude.turns_cut [of E region J calls] claude.running_turn_waits [of E J region calls] by blast


text \<open>
  C16. Choosing the commits of a settlement loses no conversation and adds no empty commit: every line of
  conversation past what is settled, and before the end of a completed chunk, is inside one of the
  commits, and each commit has a line of conversation after the commit before it.
\<close>

theorem commits_hold_the_conversation:
  assumes "\<not> materialized_mode b" and "sorted_wrt (<) (map end_byte chunks)"
    and "s \<in> set (substantive_starts region ir)" and "native_prefix b \<le> s" and "c \<in> set chunks" and "s < end_byte c"
  shows "(\<exists>k \<in> set (new_chunks region ir opts b True chunks). s < end_byte k)
    \<and> each_substantial (substantive_starts region ir) (native_prefix b) (new_chunks region ir opts b True chunks)"
proof -
  let ?sub = "substantive_starts region ir"
  define u where "u = filter (\<lambda>c. end_byte c > native_prefix b) chunks"
  define k where "k = without_bookkeeping_only ?sub (native_prefix b) u"
  have n: "new_chunks region ir opts b True chunks = (if completed_only opts then k else last_of_turn k)"
    unfolding new_chunks_native [OF assms(1)] Let_def k_def u_def one_commit_last ..
  have u: "sorted_wrt (<) (map end_byte u)"
    using sorted_ends_subseq [OF _ assms(2)] unfolding u_def by (simp add: subseq_filter_left)
  have "c \<in> set u" using assms by (simp add: u_def)
  then obtain d where d: "d \<in> set k" "s < end_byte d"
    using bookkeeping_covers [OF u assms(3,4)] assms(6) unfolding k_def by blast
  have srt: "sorted_wrt (<) (map end_byte k)" unfolding k_def by (rule sorted_ends_subseq [OF bookkeeping_subseq u])
  have "\<exists>x \<in> set (new_chunks region ir opts b True chunks). s < end_byte x"
    using d last_of_turn_covers [OF srt d(1)] unfolding n by (auto intro: less_le_trans)
  moreover have "each_substantial ?sub (native_prefix b) k" unfolding k_def by (rule bookkeeping_substantial)
  ultimately show ?thesis unfolding n using each_substantial_last by simp
qed

text \<open>
  C18. One commit per turn keeps, of the chunks of each turn, the last, and nothing else: the kept chunks are
  those not followed by another of their turn, the turns of chunks in order appear once each, and no
  chunk of a turn ends after the one kept for it.
\<close>

theorem last_completion_of_each_turn:
  assumes "sorted_wrt (<) (map end_byte cs)" and "\<And>c. c \<in> set cs \<Longrightarrow> user_turn c \<noteq> None"
    and "sorted (map (\<lambda>c. the (user_turn c)) cs)"
  shows "one_commit_per_turn cs = last_of_turn cs
    \<and> map user_turn (one_commit_per_turn cs) = remdups_adj (map user_turn cs)
    \<and> distinct (map user_turn (one_commit_per_turn cs))
    \<and> (\<forall>k \<in> set (one_commit_per_turn cs). \<forall>c \<in> set cs. user_turn c = user_turn k \<longrightarrow> end_byte c \<le> end_byte k)"
proof -
  have turns: "map user_turn (last_of_turn cs) = remdups_adj (map user_turn cs)"
    using assms(2) by (induction cs rule: last_of_turn.induct) auto
  have "map user_turn cs = map Some (map (\<lambda>c. the (user_turn c)) cs)" using assms(2) by simp
  then have "remdups_adj (map user_turn cs) = map Some (remdups_adj (map (\<lambda>c. the (user_turn c)) cs))"
    using remdups_adj_map_injective [of Some] by (metis inj_Some)
  moreover have "distinct (remdups_adj (map (\<lambda>c. the (user_turn c)) cs))"
    using strict_remdups_adj [OF assms(3)] strict_sorted_iff by blast
  ultimately have d: "distinct (map user_turn (last_of_turn cs))" unfolding turns by (simp add: distinct_map)
  have "end_byte c \<le> end_byte k" if k: "k \<in> set (last_of_turn cs)" "c \<in> set cs" "user_turn c = user_turn k" for k c
  proof -
    obtain k' where "k' \<in> set (last_of_turn cs)" "end_byte c \<le> end_byte k'" "user_turn k' = user_turn k"
      using last_of_turn_covers [OF assms(1) k(2)] k(3) by auto
    with d k(1) show ?thesis by (metis distinct_map inj_onD)
  qed
  with turns d show ?thesis by (simp add: one_commit_last)
qed

section \<open>A session of two turns\<close>

definition sample_env :: env where
  "sample_env =
     \<lparr>adapters = (\<lambda>r. if r = ''claude-code'' then Some (claude_adapter sample_json) else None),
      json_parser = sample_json, rfc3339 = (\<lambda>_. None)\<rparr>"

definition sample_opts :: settle_opts where
  "sample_opts = \<lparr>completed_only = False, native_completions = []\<rparr>"

definition sample_base :: settle_base where
  "sample_base = \<lparr>materialized_mode = False, region_start = 0, head_turn_base = 0, native_prefix = 0\<rparr>"

text \<open>The second turn has called a tool and waits: only the first is cut.\<close>

theorem running_turn_never_settles_witness:
  "in_flight_tail sample_env (parse_claude sample_json (sample_lines ''pctrpc'')) (open_tool_calls sample_json (sample_lines ''pctrpc''))
     = Some (CallOpen ''Bash'')
   \<and> map end_byte (turn_chunks sample_env (sample_lines ''pctrpc'') (parse_claude sample_json (sample_lines ''pctrpc''))
       (open_tool_calls sample_json (sample_lines ''pctrpc''))) = [8]
   \<and> list_all (\<lambda>c. end_byte c \<le> line_starts (sample_lines ''pctrpc'')
          ! line_at (parse_claude sample_json (sample_lines ''pctrpc''))
              (hd (last (groups_of (parse_claude sample_json (sample_lines ''pctrpc''))))))
       (turn_chunks sample_env (sample_lines ''pctrpc'') (parse_claude sample_json (sample_lines ''pctrpc''))
         (open_tool_calls sample_json (sample_lines ''pctrpc'')))"
proof -
  have f: "in_flight_tail sample_env (parse_claude sample_json (sample_lines ''pctrpc'')) (open_tool_calls sample_json (sample_lines ''pctrpc''))
     = Some (CallOpen ''Bash'')" by code_simp
  moreover have "map end_byte (turn_chunks sample_env (sample_lines ''pctrpc'') (parse_claude sample_json (sample_lines ''pctrpc''))
       (open_tool_calls sample_json (sample_lines ''pctrpc''))) = [8]" by code_simp
  moreover note running_turn_never_settles [of sample_env "sample_lines ''pctrpc''" sample_json
      "open_tool_calls sample_json (sample_lines ''pctrpc'')"]
  ultimately show ?thesis by (simp add: list_all_iff)
qed


definition chunk_at :: "nat \<Rightarrow> nat \<Rightarrow> Chunk" where
  "chunk_at t e = \<lparr>end_byte = e, user_turn = Some t, ch_prompt = [], ch_events = 0, ch_dropped = 0, ended_at = None\<rparr>"

theorem commits_hold_the_conversation_witness:
  "\<exists>k \<in> set (new_chunks (sample_lines ''pctrpctr'') (parse_claude sample_json (sample_lines ''pctrpctr'')) sample_opts
       (sample_base\<lparr>native_prefix := 8\<rparr>) True [chunk_at 1 8, chunk_at 2 16]). 8 < end_byte k"
proof -
  have "8 \<in> set (substantive_starts (sample_lines ''pctrpctr'') (parse_claude sample_json (sample_lines ''pctrpctr'')))"
    by code_simp
  then show ?thesis
    using commits_hold_the_conversation [of "sample_base\<lparr>native_prefix := 8\<rparr>" "[chunk_at 1 8, chunk_at 2 16]" 8
        "sample_lines ''pctrpctr''" "parse_claude sample_json (sample_lines ''pctrpctr'')" "chunk_at 2 16" sample_opts]
    by (simp add: sample_base_def chunk_at_def)
qed

theorem last_completion_of_each_turn_witness:
  "map (\<lambda>c. (user_turn c, end_byte c)) (one_commit_per_turn [chunk_at 1 4, chunk_at 1 8, chunk_at 2 16]) = [(Some 1, 8), (Some 2, 16)]
   \<and> distinct (map user_turn (one_commit_per_turn [chunk_at 1 4, chunk_at 1 8, chunk_at 2 16]))"
proof -
  let ?cs = "[chunk_at 1 4, chunk_at 1 8, chunk_at 2 16]"
  have "map (\<lambda>c. (user_turn c, end_byte c)) (one_commit_per_turn ?cs) = [(Some 1, 8), (Some 2, 16)]" by code_simp
  moreover have "sorted_wrt (<) (map end_byte ?cs)" "sorted (map (\<lambda>c. the (user_turn c)) ?cs)" by (simp_all add: chunk_at_def)
  moreover have "user_turn c \<noteq> None" if "c \<in> set ?cs" for c using that by (auto simp: chunk_at_def)
  ultimately show ?thesis using last_completion_of_each_turn [of ?cs] by blast
qed

end
