(* ===== verification/TurnIds.thy ===== *)
theory TurnIds
  imports Prelude
begin

text \<open>
  The identities of native turns one harness generation remembers (\<open>BoundedTurnIds\<close> of
  \<open>src/rc/harness/mod.rs\<close>): a set that never forgets, with a limit on the number of identities and one on
  their bytes, counted in a 64-bit word. The theorem gives its bounds and the exact answer to every
  insertion, on natural numbers: the checked addition never overflows.
\<close>

definition MAX_NATIVE_TURN_ID_BYTES :: nat where "MAX_NATIVE_TURN_ID_BYTES = 256"

definition MAX_TURN_IDS_PER_GENERATION :: nat where "MAX_TURN_IDS_PER_GENERATION = 65536"

definition MAX_TURN_ID_PAYLOAD_BYTES :: u64 where "MAX_TURN_ID_PAYLOAD_BYTES = 4 * 1024 * 1024"

datatype NativeTurnIdentityError =
    EmptyId | TooLong nat nat | EntryLimit nat | PayloadLimit u64 u64 | PayloadOverflow

definition validate_native_turn_id :: "string \<Rightarrow> (NativeTurnIdentityError, unit) result" where
  "validate_native_turn_id t =
     (if t = [] then Inl EmptyId
      else if length t > MAX_NATIVE_TURN_ID_BYTES then Inl (TooLong (length t) MAX_NATIVE_TURN_ID_BYTES)
      else Inr ())"

record BoundedTurnIds =
  ids :: "string set"
  payload_bytes :: u64
  max_entries :: nat
  max_payload_bytes :: u64

definition default_ids :: BoundedTurnIds where
  "default_ids = \<lparr>ids = {}, payload_bytes = 0, max_entries = MAX_TURN_IDS_PER_GENERATION,
     max_payload_bytes = MAX_TURN_ID_PAYLOAD_BYTES\<rparr>"

definition contains_id :: "string \<Rightarrow> BoundedTurnIds \<Rightarrow> bool" where
  "contains_id t b \<longleftrightarrow> t \<in> ids b"

definition try_insert :: "string \<Rightarrow> BoundedTurnIds \<Rightarrow> (NativeTurnIdentityError, bool) result \<times> BoundedTurnIds" where
  "try_insert t b =
     (case validate_native_turn_id t of
        Inl e \<Rightarrow> (Inl e, b)
      | Inr _ \<Rightarrow>
          if t \<in> ids b then (Inr False, b)
          else if card (ids b) \<ge> max_entries b then (Inl (EntryLimit (max_entries b)), b)
          else case checked_add (payload_bytes b) (word_of_nat (length t)) of
              None \<Rightarrow> (Inl PayloadOverflow, b)
            | Some n \<Rightarrow>
                if n > max_payload_bytes b then (Inl (PayloadLimit n (max_payload_bytes b)), b)
                else (Inr True, b\<lparr>ids := insert t (ids b), payload_bytes := n\<rparr>))"

fun inserts :: "string list \<Rightarrow> BoundedTurnIds \<Rightarrow> BoundedTurnIds" where
  "inserts [] b = b"
| "inserts (t # ts) b = inserts ts (snd (try_insert t b))"

section \<open>Bounds\<close>

definition ids_ok :: "BoundedTurnIds \<Rightarrow> bool" where
  "ids_ok b \<longleftrightarrow>
     finite (ids b) \<and> max_entries b = MAX_TURN_IDS_PER_GENERATION \<and> max_payload_bytes b = MAX_TURN_ID_PAYLOAD_BYTES
     \<and> ids b \<subseteq> {t. t \<noteq> [] \<and> length t \<le> MAX_NATIVE_TURN_ID_BYTES} \<and> card (ids b) \<le> MAX_TURN_IDS_PER_GENERATION
     \<and> unat (payload_bytes b) = sum length (ids b) \<and> sum length (ids b) \<le> unat MAX_TURN_ID_PAYLOAD_BYTES"

text \<open>An insertion on natural numbers, for a set of identities within its bounds.\<close>

definition insert_answer :: "string \<Rightarrow> string set \<Rightarrow> (NativeTurnIdentityError, bool) result" where
  "insert_answer t known =
     (if t = [] then Inl EmptyId
      else if length t > 256 then Inl (TooLong (length t) 256)
      else if t \<in> known then Inr False
      else if card known \<ge> 65536 then Inl (EntryLimit 65536)
      else if sum length known + length t > 4194304 then Inl (PayloadLimit (word_of_nat (sum length known + length t)) 4194304)
      else Inr True)"

lemma payload_add:
  assumes "unat p \<le> 4194304" and "n \<le> 256"
  shows "checked_add p (word_of_nat n) = Some (p + word_of_nat n :: u64)" and "unat (p + word_of_nat n :: u64) = unat p + n"
proof -
  have n: "unat (word_of_nat n :: u64) = n" using assms(2) by (simp add: unat_of_nat take_bit_nat_eq_self)
  then show u: "unat (p + word_of_nat n) = unat p + n"
    using assms by (subst unat_add_lem [THEN iffD1]) simp_all
  then show "checked_add p (word_of_nat n) = Some (p + word_of_nat n)"
    by (simp add: checked_add_def word_le_nat_alt)
qed

lemma try_insert_step:
  assumes "ids_ok b"
  shows "fst (try_insert t b) = insert_answer t (ids b)" and "ids_ok (snd (try_insert t b))"
    and "ids b \<subseteq> ids (snd (try_insert t b))"
proof -
  have b: "finite (ids b)" "max_entries b = 65536" "max_payload_bytes b = 4194304" "unat (payload_bytes b) \<le> 4194304"
    "unat (payload_bytes b) = sum length (ids b)"
    using assms by (auto simp: ids_ok_def MAX_TURN_IDS_PER_GENERATION_def MAX_TURN_ID_PAYLOAD_BYTES_def)
  note add = payload_add [OF b(4), of "length t"]
  have le: "payload_bytes b + word_of_nat (length t) > 4194304 \<longleftrightarrow> sum length (ids b) + length t > 4194304"
    if "length t \<le> 256"
    using add(2) [OF that] b(5) by (simp add: word_less_nat_alt)
  have word: "payload_bytes b + word_of_nat (length t) = word_of_nat (sum length (ids b) + length t)"
    using b(5) by (simp flip: b(5))
  show "fst (try_insert t b) = insert_answer t (ids b)"
    using add(1) le word b(2,3)
    by (simp add: try_insert_def insert_answer_def validate_native_turn_id_def MAX_NATIVE_TURN_ID_BYTES_def)
  show "ids b \<subseteq> ids (snd (try_insert t b))"
    by (auto simp: try_insert_def split: sum.split option.split)
  show "ids_ok (snd (try_insert t b))"
    using assms add le b
    by (auto simp: try_insert_def validate_native_turn_id_def ids_ok_def MAX_NATIVE_TURN_ID_BYTES_def
        MAX_TURN_IDS_PER_GENERATION_def MAX_TURN_ID_PAYLOAD_BYTES_def not_less)
qed

lemma inserts_ok: "ids_ok b \<Longrightarrow> ids_ok (inserts ts b) \<and> ids b \<subseteq> ids (inserts ts b)"
proof (induction ts arbitrary: b)
  case (Cons t ts)
  from Cons.IH [OF try_insert_step(2) [OF Cons.prems]] try_insert_step(3) [OF Cons.prems] show ?case by auto
qed simp

lemma inserts_append: "inserts (ts @ us) b = inserts us (inserts ts b)"
  by (induction ts arbitrary: b) simp_all


end
