(* ===== verification/NativeQueue.thy ===== *)
theory NativeQueue
  imports Json Lines TurnIds
begin

text \<open>
  Messages queued to a native runtime (\<open>src/rc/native_queue.rs\<close>, with \<open>enqueue\<close> of
  \<open>src/rc/harness/codex/queue.rs\<close> and the checks and labels of \<open>src/rc/native_inbox.rs\<close>): the durable claim
  of a message, its one submission, and how a lost answer is recovered from the runtime's transcript.

  A receipt file holds the bytes of one JSON object; how \<open>serde_json\<close> writes and reads it, SHA-256, UUIDs
  and the JSON parser are parameters. Byte offsets are natural numbers: none exceeds the length of a file.

  The lemmas: reading a growing transcript in bounded pieces recognises exactly the deliveries a reading
  of its complete lines recognises; however tasks interleave, fail and die, a claim is submitted at
  most once and its receipt keeps the identity it was submitted under.
\<close>

section \<open>Receipts\<close>

record Receipt =
  r_digest :: string
  r_client_id :: string
  r_status :: string
  queue_id :: "string option"
  r_turn_id :: "string option"
  log_path :: "string option"
  queue_cursor :: "string option"
  log_cursor :: nat
  log_turn_id :: "string option"
  log_skip :: bool

definition valid_turn_id :: "string \<Rightarrow> bool" where
  "valid_turn_id t = is_ok (validate_native_turn_id t)"

section \<open>Reading the transcript\<close>

definition LINE_LIMIT :: nat where "LINE_LIMIT = 64 * 1024"

definition SCAN_BUDGET :: nat where "SCAN_BUDGET = 4 * 1024 * 1024"

text \<open>\<open>BufRead::read_until\<close> on the newline.\<close>

fun through_newline :: "string \<Rightarrow> string" where
  "through_newline [] = []"
| "through_newline (c # s) = (if c = CHR 0x0A then [c] else c # through_newline s)"

definition ends_line :: "string \<Rightarrow> bool" where
  "ends_line l \<longleftrightarrow> l \<noteq> [] \<and> last l = CHR 0x0A"

definition note_started :: "json \<Rightarrow> Receipt \<Rightarrow> Receipt" where
  "note_started payload r =
     (if str_field ''type'' payload = Some ''task_started''
      then r\<lparr>log_turn_id := Option.bind (str_field ''turn_id'' payload) (\<lambda>t. if valid_turn_id t then Some t else None)\<rparr>
      else r)"

definition is_delivery :: "json \<Rightarrow> string \<Rightarrow> bool" where
  "is_delivery payload cid \<longleftrightarrow>
     str_field ''type'' payload = Some ''user_message'' \<and> str_field ''client_id'' payload = Some cid"

text \<open>One record: whether it is the delivery, and the receipt after it.\<close>

definition log_record :: "json \<Rightarrow> Receipt \<Rightarrow> bool \<times> Receipt" where
  "log_record record r =
     (if str_field ''type'' record \<noteq> Some ''event_msg'' then (False, r)
      else let payload = (case get ''payload'' record of Some p \<Rightarrow> p | None \<Rightarrow> JNull); r = note_started payload r
           in if is_delivery payload (r_client_id r)
              then (True, r\<lparr>r_status := ''delivered'', r_turn_id := log_turn_id r\<rparr>)
              else (False, r))"

function scan :: "(string \<Rightarrow> json option) \<Rightarrow> nat \<Rightarrow> string \<Rightarrow> Receipt \<Rightarrow> Receipt" where
  "scan J budget rest r =
     (let line = take (min budget LINE_LIMIT) (through_newline rest); whole = ends_line line
      in if budget = 0 \<or> line = [] then r
         else if \<not> whole \<and> length line < LINE_LIMIT \<and> \<not> log_skip r then r
         else let go = scan J (budget - length line) (drop (length line) rest);
                  r = r\<lparr>log_cursor := log_cursor r + length line\<rparr>
              in if log_skip r \<or> \<not> whole then go (r\<lparr>log_skip := \<not> whole\<rparr>)
                 else case J line of
                     None \<Rightarrow> go r
                   | Some record \<Rightarrow>
                       (case log_record record r of (True, r) \<Rightarrow> r | (False, r) \<Rightarrow> go r))"
  by pat_completeness auto
termination
  by (relation "measure (\<lambda>(J, budget, rest, r). budget)") (auto simp: LINE_LIMIT_def)

declare scan.simps [simp del]

text \<open>Where the reading of this file resumes.\<close>

definition log_base :: "string \<Rightarrow> string \<Rightarrow> Receipt \<Rightarrow> Receipt" where
  "log_base path file r =
     (if log_path r \<noteq> Some path \<or> length file < log_cursor r
      then r\<lparr>log_path := Some path, log_cursor := 0, log_turn_id := None, log_skip := False\<rparr>
      else r)"

definition advance_log :: "(string \<Rightarrow> json option) \<Rightarrow> string \<Rightarrow> string \<Rightarrow> Receipt \<Rightarrow> Receipt" where
  "advance_log J path file r =
     (let r = log_base path file r in scan J SCAN_BUDGET (drop (log_cursor r) file) r)"

section \<open>Claims\<close>

datatype QueueError =
    NeedsUuid | BadMessage | InFlight | ReceiptTooLarge | ReceiptUnreadable | OtherContent | BadCorrelation
  | NotShared | IdentityChanged | PendingSettings | SourceUnresolved | SourceChanged | ThreadNotFound | DirectoryChanged
  | HeaderUnreadable | WrongTranscript | CommandFailed | CommandRefused | AckMismatch | AckWithoutId

record QueueEnv =
  receipt_bytes :: "Receipt \<Rightarrow> string"
  read_receipt :: "string \<Rightarrow> Receipt option"
  sha256_hex :: "string \<Rightarrow> string"
  scope_bytes :: "string list \<Rightarrow> string"
  parse_uuid :: "string \<Rightarrow> string option"
  parse_json :: "string \<Rightarrow> json option"

record QueueRequest =
  q_source_id :: string
  q_native_id :: string
  q_workspace_id :: string
  q_hub :: string
  q_account :: string
  q_client_id :: string
  q_message :: string
  q_username :: "string option"

definition MAX_MESSAGE :: nat where "MAX_MESSAGE = 16 * 1024"

definition MAX_RECEIPT :: nat where "MAX_RECEIPT = 4096"

definition valid_id :: "QueueEnv \<Rightarrow> string \<Rightarrow> bool" where
  "valid_id E v \<longleftrightarrow> parse_uuid E v = Some v"

definition claim_key :: "QueueEnv \<Rightarrow> QueueRequest \<Rightarrow> string" where
  "claim_key E q = sha256_hex E (scope_bytes E
     [q_hub q, q_workspace_id q, q_source_id q, q_native_id q, q_account q, q_client_id q])"

definition claim_digest :: "QueueEnv \<Rightarrow> QueueRequest \<Rightarrow> string" where
  "claim_digest E q = sha256_hex E (q_message q)"

definition new_receipt :: "string \<Rightarrow> string \<Rightarrow> Receipt" where
  "new_receipt digest uid =
     \<lparr>r_digest = digest, r_client_id = uid, r_status = ''unknown'', queue_id = None, r_turn_id = None,
      log_path = None, queue_cursor = None, log_cursor = 0, log_turn_id = None, log_skip = False\<rparr>"

text \<open>The bytes of a receipt, when they may be written.\<close>

definition save :: "QueueEnv \<Rightarrow> Receipt \<Rightarrow> (QueueError, string) result" where
  "save E r = r_bind (ensure (length (receipt_bytes E r) \<le> MAX_RECEIPT) ReceiptTooLarge) (\<lambda>_. Inr (receipt_bytes E r))"

definition read_claim :: "QueueEnv \<Rightarrow> string \<Rightarrow> string \<Rightarrow> (QueueError, Receipt) result" where
  "read_claim E digest bytes =
     r_bind (ensure (length (take (MAX_RECEIPT + 1) bytes) \<le> MAX_RECEIPT) ReceiptTooLarge) (\<lambda>_.
     r_bind (ok_or (read_receipt E bytes) ReceiptUnreadable) (\<lambda>r.
     r_bind (ensure (r_digest r = digest) OtherContent) (\<lambda>_.
     r_bind (ensure (valid_id E (r_client_id r)) BadCorrelation) (\<lambda>_. Inr r))))"

text \<open>
  \<open>claim\<close>, for a lock that is held or not and a receipt file that is there or not: the receipt, and
  whether it is fresh and so has to be saved before the claim is given out.
\<close>

definition claim :: "QueueEnv \<Rightarrow> QueueRequest \<Rightarrow> string \<Rightarrow> bool \<Rightarrow> string option \<Rightarrow> (QueueError, Receipt \<times> bool) result" where
  "claim E q uid held stored =
     r_bind (ensure (valid_id E (q_client_id q)) NeedsUuid) (\<lambda>_.
     r_bind (ensure (trim (q_message q) \<noteq> [] \<and> length (q_message q) \<le> MAX_MESSAGE) BadMessage) (\<lambda>_.
     r_bind (ensure (\<not> held) InFlight) (\<lambda>_.
       case stored of
         None \<Rightarrow> Inr (new_receipt (claim_digest E q) uid, True)
       | Some bytes \<Rightarrow> r_bind (read_claim E (claim_digest E q) bytes) (\<lambda>r. Inr (r, False)))))"

section \<open>The sender's line\<close>

definition HUB_SENDER_LINE :: string where "HUB_SENDER_LINE = ''[AgentGit: this message is from ''"

text \<open>What follows each of the separate occurrences of \<open>h\<close> (\<open>str::match_indices\<close>).\<close>

function match_rests :: "string \<Rightarrow> string \<Rightarrow> string list" where
  "match_rests h s =
     (if h = [] \<or> s = [] then []
      else if prefix h s then drop (length h) s # match_rests h (drop (length h) s)
      else match_rests h (tl s))"
  by pat_completeness auto
termination
  by (relation "measure (\<lambda>(h, s). length s)") (auto simp: neq_Nil_conv)

declare match_rests.simps [simp del]

definition hub_names :: "string \<Rightarrow> string \<Rightarrow> bool" where
  "hub_names msg username =
     (let first = hd (split_on CHR 0x0A msg)
      in if \<not> prefix HUB_SENDER_LINE first then False
         else let tail = drop (length HUB_SENDER_LINE) first
              in if CHR '']'' \<notin> set tail then False
                 else list_ex (\<lambda>after. case after of c # _ \<Rightarrow> c = CHR '' '' \<or> c = CHR '','' | [] \<Rightarrow> False)
                        (match_rests ('' @'' @ username) (CHR '' '' # takeWhile (\<lambda>c. c \<noteq> CHR '']'') tail)))"

definition labelled :: "string option \<Rightarrow> string \<Rightarrow> string" where
  "labelled username msg =
     (case username of
        Some u \<Rightarrow> if \<not> hub_names msg u then ''[AgentGit workspace message from @'' @ u @ '']'' @ CHR 0x0A # msg else msg
      | None \<Rightarrow> msg)"

section \<open>Queueing a message\<close>

definition verify_open_transcript :: "(string \<Rightarrow> json option) \<Rightarrow> string \<Rightarrow> string \<Rightarrow> (QueueError, unit) result" where
  "verify_open_transcript J file session =
     r_bind (ok_or (J (hd (split_on CHR 0x0A (take (128 * 1024) file)))) HeaderUnreadable) (\<lambda>header.
     ensure (str_field ''type'' header = Some ''session_meta''
             \<and> Option.bind (get ''payload'' header) (str_field ''id'') = Some session) WrongTranscript)"

record Driver =
  d_shared :: bool
  d_thread_id :: "string option"
  d_pending_mode :: bool
  d_pending_model :: bool
  d_home :: "string option"
  d_cwd :: string

text \<open>
  The checks before the claim. The context is what the registry resolves the source to, its home and the
  conversation it locates: a directory, the path of the transcript and the transcript.
\<close>

definition enqueue_checks ::
  "QueueEnv \<Rightarrow> Driver \<Rightarrow> QueueRequest \<Rightarrow> (string \<times> (string \<times> string \<times> string) option) option \<Rightarrow> (QueueError, string) result" where
  "enqueue_checks E d q context =
     r_bind (ensure (d_shared d) NotShared) (\<lambda>_.
     r_bind (ensure (d_thread_id d = Some (q_native_id q)) IdentityChanged) (\<lambda>_.
     r_bind (ensure (\<not> d_pending_mode d \<and> \<not> d_pending_model d) PendingSettings) (\<lambda>_.
     r_bind (ok_or context SourceUnresolved) (\<lambda>(home, located).
     r_bind (ensure (d_home d = Some home) SourceChanged) (\<lambda>_.
     r_bind (ok_or located ThreadNotFound) (\<lambda>(cwd, transcript, file).
     r_bind (ensure (cwd = d_cwd d) DirectoryChanged) (\<lambda>_.
     r_bind (verify_open_transcript (parse_json E) file (q_native_id q)) (\<lambda>_. Inr transcript))))))))"

definition prepared :: "string \<Rightarrow> string \<Rightarrow> Receipt \<Rightarrow> Receipt" where
  "prepared path file r = r\<lparr>log_path := Some path, log_cursor := length file\<rparr>"

text \<open>The parameters of \<open>thread/queue/add\<close>.\<close>

definition add_params :: "QueueRequest \<Rightarrow> string \<Rightarrow> json" where
  "add_params q cid = JObj
     [(''threadId'', JStr (q_native_id q)), (''clientUserMessageId'', JStr cid),
      (''input'', JArr [JObj [(''type'', JStr ''text''), (''text'', JStr (labelled (q_username q) (q_message q))), (''text_elements'', JArr [])]])]"

text \<open>What \<open>thread/queue/add\<close> comes back with: the receipt to save, and how the call ends.\<close>

datatype Answer = Answered json | Refused | Failed

definition acknowledge :: "QueueEnv \<Rightarrow> Answer \<Rightarrow> Receipt \<Rightarrow> Receipt option \<times> (QueueError, unit) result" where
  "acknowledge E ans r =
     (case ans of
        Failed \<Rightarrow> (None, Inl CommandFailed)
      | Refused \<Rightarrow> (Some (r\<lparr>r_status := ''rejected''\<rparr>), Inl CommandRefused)
      | Answered result \<Rightarrow>
          let item = (case get ''queuedSubmission'' result of Some v \<Rightarrow> v | None \<Rightarrow> JNull)
          in if str_field ''clientUserMessageId'' item \<noteq> Some (r_client_id r) then (None, Inl AckMismatch)
             else case Option.bind (str_field ''id'' item) (\<lambda>i. if valid_id E i then Some i else None) of
                 None \<Rightarrow> (None, Inl AckWithoutId)
               | Some i \<Rightarrow> (Some (r\<lparr>queue_id := Some i, r_status := ''queued''\<rparr>), Inr ()))"

definition reply :: "Receipt \<Rightarrow> string \<Rightarrow> json" where
  "reply r cid = JObj
     [(''client_msg_id'', JStr cid), (''native_client_id'', JStr (r_client_id r)), (''status'', JStr (r_status r)),
      (''native_queue_id'', case queue_id r of Some i \<Rightarrow> JStr i | None \<Rightarrow> JNull),
      (''native_turn_id'', case r_turn_id r of Some i \<Rightarrow> JStr i | None \<Rightarrow> JNull)]"

text \<open>The pages of the runtime's queue: the item of this message, or the cursor to go on from.\<close>

fun queue_pages :: "(json \<Rightarrow> (QueueError, json) result) \<Rightarrow> string \<Rightarrow> nat \<Rightarrow> json \<Rightarrow> (QueueError, json + json) result" where
  "queue_pages list_page cid 0 cursor = Inr (Inr cursor)"
| "queue_pages list_page cid (Suc n) cursor =
     r_bind (list_page cursor) (\<lambda>page.
       case Option.bind (Option.bind (get ''data'' page) as_array) (find (\<lambda>item. str_field ''clientUserMessageId'' item = Some cid)) of
         Some item \<Rightarrow> Inr (Inl item)
       | None \<Rightarrow>
           let cursor = (case get ''nextCursor'' page of Some c \<Rightarrow> c | None \<Rightarrow> JNull)
           in if cursor = JNull then Inr (Inr cursor) else queue_pages list_page cid n cursor)"

definition reconcile_log :: "QueueEnv \<Rightarrow> string \<Rightarrow> string \<Rightarrow> string \<Rightarrow> Receipt \<Rightarrow> (QueueError, Receipt) result" where
  "reconcile_log E path file native_id r =
     r_bind (verify_open_transcript (parse_json E) file native_id) (\<lambda>_. Inr (advance_log (parse_json E) path file r))"

definition reconcile_queue ::
  "QueueEnv \<Rightarrow> (json \<Rightarrow> (QueueError, json) result) \<Rightarrow> QueueRequest \<Rightarrow> string \<Rightarrow> string \<Rightarrow> Receipt \<Rightarrow> (QueueError, Receipt) result" where
  "reconcile_queue E list_page q path file r =
     r_bind (queue_pages list_page (r_client_id r) 8 (case queue_cursor r of Some c \<Rightarrow> JStr c | None \<Rightarrow> JNull)) (\<lambda>res.
       case res of
         Inl item \<Rightarrow> Inr (r\<lparr>queue_id := str_field ''id'' item, r_status := ''queued''\<rparr>)
       | Inr cursor \<Rightarrow> reconcile_log E path file (q_native_id q) (r\<lparr>queue_cursor := as_str cursor\<rparr>))"

section \<open>Tasks\<close>

text \<open>
  Any number of tasks queue messages at once. A receipt is replaced by renaming a complete file over it, so
  a write happens or does not; a lock is released when the task ends, by its reply, an error or its death.
\<close>

datatype Phase = Waiting | Claimed Receipt | Ready Receipt | Sent Receipt | Known Receipt

fun phase_receipt :: "Phase \<Rightarrow> Receipt option" where
  "phase_receipt Waiting = None"
| "phase_receipt (Claimed r) = Some r"
| "phase_receipt (Ready r) = Some r"
| "phase_receipt (Sent r) = Some r"
| "phase_receipt (Known r) = Some r"

fun before_add :: "Phase \<Rightarrow> bool" where
  "before_add (Claimed r) = True"
| "before_add (Ready r) = True"
| "before_add _ = False"

record QueueWorld =
  store :: "string \<rightharpoonup> string"
  holder :: "string \<rightharpoonup> nat"
  jobs :: "nat \<rightharpoonup> QueueRequest \<times> string \<times> Phase"
  submitted :: "(string \<times> QueueRequest \<times> json) list"

definition persist :: "string \<Rightarrow> string \<Rightarrow> QueueWorld \<Rightarrow> QueueWorld" where
  "persist k b w = w\<lparr>store := (store w)(k \<mapsto> b)\<rparr>"

definition to_phase :: "nat \<Rightarrow> QueueRequest \<Rightarrow> string \<Rightarrow> Phase \<Rightarrow> QueueWorld \<Rightarrow> QueueWorld" where
  "to_phase p q path ph w = w\<lparr>jobs := (jobs w)(p \<mapsto> (q, path, ph))\<rparr>"

definition lock_claim :: "string \<Rightarrow> nat \<Rightarrow> QueueWorld \<Rightarrow> QueueWorld" where
  "lock_claim k p w = w\<lparr>holder := (holder w)(k \<mapsto> p)\<rparr>"

definition finish :: "nat \<Rightarrow> QueueWorld \<Rightarrow> QueueWorld" where
  "finish p w = w\<lparr>jobs := (jobs w)(p := None), holder := (\<lambda>k. if holder w k = Some p then None else holder w k)\<rparr>"

inductive qstep :: "QueueEnv \<Rightarrow> QueueWorld \<Rightarrow> QueueWorld \<Rightarrow> bool" for E where
  arrive: "jobs w p = None \<Longrightarrow> enqueue_checks E d q ctx = Inr path
    \<Longrightarrow> qstep E w (to_phase p q path Waiting w)"
| claim_new: "jobs w p = Some (q, path, Waiting) \<Longrightarrow> valid_id E uid
    \<Longrightarrow> claim E q uid (holder w (claim_key E q) \<noteq> None) (store w (claim_key E q)) = Inr (r, True) \<Longrightarrow> save E r = Inr b
    \<Longrightarrow> qstep E w (to_phase p q path (Claimed r) (lock_claim (claim_key E q) p (persist (claim_key E q) b w)))"
| claim_again: "jobs w p = Some (q, path, Waiting)
    \<Longrightarrow> claim E q uid (holder w (claim_key E q) \<noteq> None) (store w (claim_key E q)) = Inr (r, False)
    \<Longrightarrow> qstep E w (to_phase p q path (Known r) (lock_claim (claim_key E q) p w))"
| prepare: "jobs w p = Some (q, path, Claimed r) \<Longrightarrow> save E (prepared path file r) = Inr b
    \<Longrightarrow> qstep E w (to_phase p q path (Ready (prepared path file r)) (persist (claim_key E q) b w))"
| add: "jobs w p = Some (q, path, Ready r)
    \<Longrightarrow> qstep E w (to_phase p q path (Sent r) (w\<lparr>submitted := submitted w @ [(claim_key E q, q, add_params q (r_client_id r))]\<rparr>))"
| answer: "jobs w p = Some (q, path, Sent r) \<Longrightarrow> acknowledge E ans r = (Some r', res) \<Longrightarrow> save E r' = Inr b
    \<Longrightarrow> qstep E w (finish p (persist (claim_key E q) b w))"
| recover: "jobs w p = Some (q, path, Known r) \<Longrightarrow> r_status r = ''unknown''
    \<Longrightarrow> reconcile_queue E list_page q path file r = Inr r' \<Longrightarrow> save E r' = Inr b
    \<Longrightarrow> qstep E w (finish p (persist (claim_key E q) b w))"
| ends: "jobs w p = Some j \<Longrightarrow> qstep E w (finish p w)"

definition queue_start :: "QueueWorld \<Rightarrow> bool" where
  "queue_start w \<longleftrightarrow> holder w = Map.empty \<and> jobs w = Map.empty \<and> submitted w = []"

section \<open>What a reading finds\<close>

text \<open>
  The reference: the complete lines that are short enough, in order; the last valid start of a turn
  before the delivery names its turn.
\<close>

definition note_line :: "json option \<Rightarrow> string option \<Rightarrow> string option" where
  "note_line v t =
     (case v of None \<Rightarrow> t
      | Some record \<Rightarrow>
          if str_field ''type'' record = Some ''event_msg''
             \<and> Option.bind (get ''payload'' record) (str_field ''type'') = Some ''task_started''
          then Option.bind (Option.bind (get ''payload'' record) (str_field ''turn_id'')) (\<lambda>t. if valid_turn_id t then Some t else None)
          else t)"

definition delivers :: "json option \<Rightarrow> string \<Rightarrow> bool" where
  "delivers v cid \<longleftrightarrow>
     (case v of None \<Rightarrow> False
      | Some record \<Rightarrow>
          str_field ''type'' record = Some ''event_msg''
          \<and> (\<exists>p. get ''payload'' record = Some p \<and> is_delivery p cid))"

fun delivery :: "(string \<Rightarrow> json option) \<Rightarrow> string \<Rightarrow> string option \<Rightarrow> string list \<Rightarrow> string option option" where
  "delivery J cid t [] = None"
| "delivery J cid t (l # ls) =
     (if \<not> ends_line l \<or> length l > LINE_LIMIT then delivery J cid t ls
      else if delivers (J l) cid then Some (note_line (J l) t)
      else delivery J cid (note_line (J l) t) ls)"

definition unread :: "string \<Rightarrow> bool \<Rightarrow> string list" where
  "unread rest skip = (if skip then tl (split_inclusive rest) else split_inclusive rest)"

definition found :: "(string \<Rightarrow> json option) \<Rightarrow> string \<Rightarrow> Receipt \<Rightarrow> string option option" where
  "found J rest r = delivery J (r_client_id r) (log_turn_id r) (unread rest (log_skip r))"

lemma log_record_eq:
  "log_record record r =
     (let t = note_line (Some record) (log_turn_id r)
      in if delivers (Some record) (r_client_id r)
         then (True, r\<lparr>log_turn_id := t, r_status := ''delivered'', r_turn_id := t\<rparr>)
         else (False, r\<lparr>log_turn_id := t\<rparr>))"
  by (auto simp: log_record_def note_line_def delivers_def note_started_def Let_def str_field_def is_delivery_def split: option.splits)

lemma through_newline_split:
  "rest \<noteq> [] \<Longrightarrow> split_inclusive rest = through_newline rest # split_inclusive (drop (length (through_newline rest)) rest)"
proof (induction rest)
  case (Cons c rest)
  then show ?case by (cases "rest = []") auto
qed simp

lemma through_newline_prefix: "through_newline s = take (length (through_newline s)) s"
  by (induction s) auto

lemma through_newline_Nil_iff [simp]: "through_newline s = [] \<longleftrightarrow> s = []"
  by (cases s) auto

lemma through_newline_append: "CHR 0x0A \<in> set s \<Longrightarrow> through_newline (s @ later) = through_newline s"
  by (induction s) auto

lemma through_newline_inner: "CHR 0x0A \<notin> set (butlast (through_newline s))"
  by (induction s) auto

lemma take_through_newline:
  assumes "l = take n (through_newline rest)"
  shows "l = take (length l) rest" and "ends_line l \<Longrightarrow> l = through_newline rest \<and> CHR 0x0A \<in> set rest"
    and "\<not> ends_line l \<Longrightarrow> CHR 0x0A \<notin> set l"
proof -
  have "l = take (min n (length (through_newline rest))) rest"
    by (subst take_take [symmetric]) (simp add: assms flip: through_newline_prefix)
  then show l: "l = take (length l) rest" by (auto simp: min_def)
  have inner: "CHR 0x0A \<notin> set l" if "l \<noteq> through_newline rest"
  proof -
    have "l = take n (butlast (through_newline rest))" using assms that by (auto simp: take_butlast not_le)
    then show ?thesis using through_newline_inner [of rest] in_set_takeD by metis
  qed
  show "l = through_newline rest \<and> CHR 0x0A \<in> set rest" if "ends_line l"
    using inner that l unfolding ends_line_def by (metis in_set_takeD last_in_set)
  show "CHR 0x0A \<notin> set l" if "\<not> ends_line l"
  proof (cases "l = through_newline rest")
    case True
    have "set l \<subseteq> insert (last l) (set (butlast l))" by (cases l rule: rev_cases) auto
    with True have "set l \<subseteq> insert (last l) (set (butlast (through_newline rest)))" by simp
    then show ?thesis using that through_newline_inner [of rest] by (cases "l = []") (auto simp: ends_line_def)
  qed (rule inner)
qed

lemma split_inclusive_first:
  assumes "CHR 0x0A \<in> set rest"
  shows "split_inclusive (rest @ later) = through_newline rest # split_inclusive (drop (length (through_newline rest)) rest @ later)"
proof -
  have "length (through_newline rest) \<le> length rest" by (induction rest) auto
  moreover have "rest \<noteq> []" using assms by auto
  ultimately show ?thesis
    using through_newline_split [of "rest @ later"] assms by (simp add: through_newline_append)
qed

lemma split_inclusive_chunk: "CHR 0x0A \<notin> set p \<Longrightarrow> tl (split_inclusive (p @ x)) = tl (split_inclusive x)"
  by (induction p) (auto split: list.split)

lemma delivery_incomplete: "CHR 0x0A \<notin> set s \<Longrightarrow> delivery J cid t (split_inclusive s) = None"
  by (cases "s = []") (auto simp: split_inclusive_open ends_line_def dest: last_in_set)

text \<open>A line that starts with a full piece without a newline is never short enough.\<close>

lemma delivery_long:
  assumes "CHR 0x0A \<notin> set p" and "length p = LINE_LIMIT"
  shows "delivery J cid t (split_inclusive (p @ x)) = delivery J cid t (tl (split_inclusive x))"
proof -
  have ne: "p \<noteq> []" using assms(2) by (auto simp: LINE_LIMIT_def)
  then obtain l where l: "split_inclusive (p @ x) = l # tl (split_inclusive x)"
    using split_inclusive_chunk [OF assms(1), of x] by (cases "split_inclusive (p @ x)") auto
  have "l = through_newline (p @ x)" using through_newline_split [of "p @ x"] l ne by simp
  moreover have "through_newline (p @ x) = p @ through_newline x" using assms(1) by (induction p) auto
  ultimately have "\<not> ends_line l \<or> length l > LINE_LIMIT"
    using assms by (cases "x = []") (auto simp: ends_line_def dest: last_in_set)
  then show ?thesis by (simp add: l)
qed

text \<open>What a reading of at most \<open>b\<close> bytes of \<open>rest\<close> promises of the receipt, whatever is appended later.\<close>

definition reads :: "(string \<Rightarrow> json option) \<Rightarrow> nat \<Rightarrow> string \<Rightarrow> Receipt \<Rightarrow> Receipt \<Rightarrow> bool" where
  "reads J b rest r r' \<longleftrightarrow>
     (\<exists>k \<le> min b (length rest). log_cursor r' = log_cursor r + k
        \<and> log_path r' = log_path r \<and> r_client_id r' = r_client_id r \<and> r_digest r' = r_digest r
        \<and> (r_status r' = ''delivered'' \<and> (\<forall>later. found J (rest @ later) r = Some (r_turn_id r'))
           \<or> r_status r' = r_status r \<and> r_turn_id r' = r_turn_id r
             \<and> (\<forall>later. found J (drop k rest @ later) r' = found J (rest @ later) r)
             \<and> (b < k + LINE_LIMIT \<or> found J (drop k rest) r' = None)))"

lemma reads_step:
  assumes "reads J (b - n) (drop n rest) r1 r'" and "n \<le> b" and "n \<le> length rest"
    and "log_cursor r1 = log_cursor r + n" and "log_path r1 = log_path r" and "r_client_id r1 = r_client_id r"
    and "r_digest r1 = r_digest r" and "r_status r1 = r_status r" and "r_turn_id r1 = r_turn_id r"
    and "\<And>later. found J (drop n rest @ later) r1 = found J (rest @ later) r"
  shows "reads J b rest r r'"
proof -
  from assms(1) obtain k where k: "k \<le> min (b - n) (length (drop n rest))" "log_cursor r' = log_cursor r1 + k"
    "log_path r' = log_path r1" "r_client_id r' = r_client_id r1" "r_digest r' = r_digest r1"
    "r_status r' = ''delivered'' \<and> (\<forall>later. found J (drop n rest @ later) r1 = Some (r_turn_id r'))
     \<or> r_status r' = r_status r1 \<and> r_turn_id r' = r_turn_id r1
       \<and> (\<forall>later. found J (drop k (drop n rest) @ later) r' = found J (drop n rest @ later) r1)
       \<and> (b - n < k + LINE_LIMIT \<or> found J (drop k (drop n rest)) r' = None)"
    unfolding reads_def by blast
  then show ?thesis
    unfolding reads_def using assms(2-) by (intro exI [of _ "n + k"]) (auto simp: add.commute)
qed

lemma found_complete:
  assumes "ends_line l" and "l = through_newline rest" and "CHR 0x0A \<in> set rest" and "length l \<le> LINE_LIMIT" and "\<not> log_skip r"
  shows "found J (rest @ later) r =
    (if delivers (J l) (r_client_id r) then Some (note_line (J l) (log_turn_id r))
     else delivery J (r_client_id r) (note_line (J l) (log_turn_id r)) (split_inclusive (drop (length l) rest @ later)))"
proof -
  have "split_inclusive (rest @ later) = l # split_inclusive (drop (length l) rest @ later)"
    using split_inclusive_first assms by simp
  then show ?thesis using assms by (simp add: found_def unread_def)
qed

lemma ends_line_Nil [simp]: "\<not> ends_line []"
  by (simp add: ends_line_def)

lemma scan_rest:
  assumes "LINE_LIMIT \<le> b" and "line = take (min b LINE_LIMIT) (through_newline rest)"
    and "\<not> ends_line line" and "length line < LINE_LIMIT"
  shows "CHR 0x0A \<notin> set rest"
proof -
  have "line = through_newline rest" using assms by auto
  moreover have "ends_line (through_newline s)" if "CHR 0x0A \<in> set s" for s
    using that by (induction s) (auto simp: ends_line_def)
  ultimately show ?thesis using assms(3) by blast
qed

lemma found_skipped:
  assumes "line = take n (through_newline rest)" and "log_skip r \<or> \<not> ends_line line \<and> length line = LINE_LIMIT"
    and "r_client_id r1 = r_client_id r" and "log_turn_id r1 = log_turn_id r" and "log_skip r1 = (\<not> ends_line line)"
  shows "found J (drop (length line) rest @ later) r1 = found J (rest @ later) r"
proof -
  note line = take_through_newline [OF assms(1)]
  have rest: "rest = line @ drop (length line) rest" using line(1) by (metis append_take_drop_id)
  show ?thesis
  proof (cases "ends_line line")
    case True
    then have "split_inclusive (rest @ later) = line # split_inclusive (drop (length line) rest @ later)"
      using line(2) split_inclusive_first by simp
    with True assms show ?thesis by (simp add: found_def unread_def)
  next
    case False
    with line(3) have "tl (split_inclusive (rest @ later)) = tl (split_inclusive (drop (length line) rest @ later))"
      by (subst rest) (simp add: split_inclusive_chunk)
    moreover have "delivery J c t (split_inclusive (rest @ later)) = delivery J c t (tl (split_inclusive (drop (length line) rest @ later)))"
      if "length line = LINE_LIMIT" for c t
      by (subst rest) (simp add: delivery_long line(3) False that)
    ultimately show ?thesis using False assms by (auto simp: found_def unread_def)
  qed
qed

lemma scan_reads: "reads J b rest r (scan J b rest r)"
proof (induction b arbitrary: rest r rule: less_induct)
  case (less b)
  define line where "line = take (min b LINE_LIMIT) (through_newline rest)"
  note line = take_through_newline [OF line_def]
  have len: "length line \<le> b" "length line \<le> LINE_LIMIT" by (simp_all add: line_def)
  have len': "length line \<le> length rest" using arg_cong [OF line(1), of length] by simp
  define r1 where "r1 = r\<lparr>log_cursor := log_cursor r + length line\<rparr>"
  consider (stop) "b = 0 \<or> line = [] \<or> \<not> ends_line line \<and> length line < LINE_LIMIT \<and> \<not> log_skip r"
    | (skip) "b \<noteq> 0" "line \<noteq> []" "log_skip r \<or> \<not> ends_line line \<and> length line = LINE_LIMIT"
    | (whole) "b \<noteq> 0" "line \<noteq> []" "\<not> log_skip r" "ends_line line"
    using len by linarith
  then show ?case
  proof cases
    case stop
    then have "scan J b rest r = r" by (subst scan.simps) (auto simp flip: line_def simp: Let_def)
    moreover have "found J rest r = None" if "LINE_LIMIT \<le> b"
    proof (cases "rest = []")
      case False
      with stop that have n: "\<not> ends_line line" "length line < LINE_LIMIT" "\<not> log_skip r"
        by (auto simp: line_def LINE_LIMIT_def)
      with scan_rest [OF that line_def] show ?thesis by (simp add: found_def unread_def delivery_incomplete)
    qed (simp add: found_def unread_def)
    ultimately show ?thesis unfolding reads_def by (intro exI [of _ 0]) auto
  next
    case skip
    then have "scan J b rest r = scan J (b - length line) (drop (length line) rest) (r1\<lparr>log_skip := \<not> ends_line line\<rparr>)"
      by (subst scan.simps) (auto simp flip: line_def simp: Let_def r1_def)
    moreover have "reads J b rest r (scan J (b - length line) (drop (length line) rest) (r1\<lparr>log_skip := \<not> ends_line line\<rparr>))"
    proof (rule reads_step [OF less.IH len(1) len'])
      show "b - length line < b" using skip by simp
      show "found J (drop (length line) rest @ later) (r1\<lparr>log_skip := \<not> ends_line line\<rparr>) = found J (rest @ later) r" for later
        by (rule found_skipped [OF line_def skip(3)]) (simp_all add: r1_def)
    qed (simp_all add: r1_def)
    ultimately show ?thesis by simp
  next
    case whole
    then have u: "line = through_newline rest" "CHR 0x0A \<in> set rest" using line(2) by auto
    let ?t = "note_line (J line) (log_turn_id r)"
    note fc = found_complete [OF whole(4) u len(2) whole(3), of J]
    show ?thesis
    proof (cases "delivers (J line) (r_client_id r)")
      case True
      then have "scan J b rest r = r1\<lparr>log_turn_id := ?t, r_status := ''delivered'', r_turn_id := ?t\<rparr>"
        using whole by (subst scan.simps) (auto simp flip: line_def simp: Let_def r1_def log_record_eq delivers_def split: option.splits)
      then show ?thesis unfolding reads_def using True fc len len'
        by (intro exI [of _ "length line"]) (simp add: r1_def)
    next
      case False
      then have "scan J b rest r = scan J (b - length line) (drop (length line) rest) (r1\<lparr>log_turn_id := ?t\<rparr>)"
        using whole by (subst scan.simps) (auto simp flip: line_def simp: Let_def r1_def log_record_eq note_line_def split: option.splits)
      moreover have "reads J b rest r (scan J (b - length line) (drop (length line) rest) (r1\<lparr>log_turn_id := ?t\<rparr>))"
      proof (rule reads_step [OF less.IH len(1) len'])
        show "b - length line < b" using whole by simp
        show "found J (drop (length line) rest @ later) (r1\<lparr>log_turn_id := ?t\<rparr>) = found J (rest @ later) r" for later
          using fc [of later] False whole by (simp add: found_def unread_def r1_def)
      qed (simp_all add: r1_def)
      ultimately show ?thesis by simp
    qed
  qed
qed

section \<open>Retries\<close>

text \<open>Each retry of a message whose delivery is unknown reads on in the transcript as it is then.\<close>

definition poll :: "(string \<Rightarrow> json option) \<Rightarrow> string \<Rightarrow> string \<Rightarrow> Receipt \<Rightarrow> Receipt" where
  "poll J path file r = (if r_status r = ''unknown'' then advance_log J path file r else r)"

fun polls :: "(string \<Rightarrow> json option) \<Rightarrow> string \<Rightarrow> string list \<Rightarrow> Receipt \<Rightarrow> Receipt" where
  "polls J path [] r = r"
| "polls J path (f # fs) r = polls J path fs (poll J path f r)"

definition verdict :: "(string \<Rightarrow> json option) \<Rightarrow> string \<Rightarrow> Receipt \<Rightarrow> string \<times> string option" where
  "verdict J file r =
     (if r_status r = ''unknown''
      then case found J (drop (log_cursor r) file) r of Some t \<Rightarrow> (''delivered'', t) | None \<Rightarrow> (''unknown'', r_turn_id r)
      else (r_status r, r_turn_id r))"

definition outcome :: "Receipt \<Rightarrow> string \<times> string option" where
  "outcome r = (r_status r, r_turn_id r)"

definition reading :: "string \<Rightarrow> string \<Rightarrow> Receipt \<Rightarrow> bool" where
  "reading path file r \<longleftrightarrow> log_path r = Some path \<and> log_cursor r \<le> length file"

lemma poll_verdict:
  assumes "reading path f r" and "prefix f file"
  shows "reading path f (poll J path f r)" and "verdict J file (poll J path f r) = verdict J file r"
    and "r_status r = ''unknown'' \<Longrightarrow> r_status (poll J path f r) = ''unknown'' \<Longrightarrow>
      log_cursor r + (SCAN_BUDGET - LINE_LIMIT) \<le> log_cursor (poll J path f r)
      \<or> found J (drop (log_cursor (poll J path f r)) f) (poll J path f r) = None"
    and "log_cursor (poll J path f r) \<le> log_cursor r + SCAN_BUDGET"
proof -
  obtain later where split: "file = f @ later" using assms(2) by (auto simp: prefix_def)
  let ?r' = "scan J SCAN_BUDGET (drop (log_cursor r) f) r"
  have c: "log_cursor r \<le> length f" "log_path r = Some path" using assms(1) by (auto simp: reading_def)
  then have poll: "poll J path f r = (if r_status r = ''unknown'' then ?r' else r)"
    by (simp add: poll_def advance_log_def log_base_def)
  from scan_reads [of J SCAN_BUDGET "drop (log_cursor r) f" r] obtain k where
    k: "k \<le> SCAN_BUDGET" "k \<le> length f - log_cursor r" "log_cursor ?r' = log_cursor r + k" "log_path ?r' = log_path r"
    and v: "r_status ?r' = ''delivered'' \<and> (\<forall>later. found J (drop (log_cursor r) f @ later) r = Some (r_turn_id ?r'))
     \<or> r_status ?r' = r_status r \<and> r_turn_id ?r' = r_turn_id r
       \<and> (\<forall>later. found J (drop (log_cursor ?r') f @ later) ?r' = found J (drop (log_cursor r) f @ later) r)
       \<and> (SCAN_BUDGET < k + LINE_LIMIT \<or> found J (drop (log_cursor ?r') f) ?r' = None)"
    unfolding reads_def by (auto simp: add.commute)
  then show "reading path f (poll J path f r)" "log_cursor (poll J path f r) \<le> log_cursor r + SCAN_BUDGET"
    using c assms(1) by (auto simp: poll reading_def)
  show "log_cursor r + (SCAN_BUDGET - LINE_LIMIT) \<le> log_cursor (poll J path f r)
      \<or> found J (drop (log_cursor (poll J path f r)) f) (poll J path f r) = None"
    if "r_status r = ''unknown''" "r_status (poll J path f r) = ''unknown''"
    using v that k(3) by (auto simp: poll)
  show "verdict J file (poll J path f r) = verdict J file r"
    using v c k(2,3) by (cases "r_status r = ''unknown''") (auto simp: poll verdict_def split split: option.split)
qed

lemma polls_append: "polls J path (fs @ gs) r = polls J path gs (polls J path fs r)"
  by (induction fs arbitrary: r) auto

lemma polls_verdict:
  assumes "sorted_wrt prefix (fs @ [file])" and "reading path (hd (fs @ [file])) r"
  shows "reading path file (polls J path fs r) \<and> verdict J file (polls J path fs r) = verdict J file r"
  using assms
proof (induction fs arbitrary: r)
  case (Cons f fs)
  then have f: "reading path f r" "prefix f file" "prefix f (hd (fs @ [file]))" by (auto simp: hd_append)
  then have "reading path (hd (fs @ [file])) (poll J path f r)"
    using poll_verdict(1) [OF f(1,2), of J] prefix_length_le [OF f(3)] by (auto simp: reading_def)
  with Cons f poll_verdict(2) [OF f(1,2)] show ?case by simp
qed simp

lemma polls_done: "r_status r \<noteq> ''unknown'' \<Longrightarrow> polls J path fs r = r"
  by (induction fs) (auto simp: poll_def)

lemma polls_progress:
  assumes "reading path file r" and "r_status r = ''unknown''"
    and "r_status (polls J path (replicate n file) r) = ''unknown''" and "found J (drop (log_cursor r) file) r \<noteq> None"
  shows "log_cursor r + n * (SCAN_BUDGET - LINE_LIMIT) \<le> log_cursor (polls J path (replicate n file) r)"
  using assms
proof (induction n arbitrary: r)
  case (Suc n)
  let ?r = "poll J path file r"
  note p = poll_verdict [OF Suc.prems(1) prefix_order.refl, of J]
  have u: "r_status ?r = ''unknown''" using Suc.prems(3) polls_done [of ?r J path "replicate n file"] by (cases "r_status ?r = ''unknown''") simp_all
  with p(2) Suc.prems(2,4) have f: "found J (drop (log_cursor ?r) file) ?r \<noteq> None"
    by (auto simp: verdict_def split: option.splits)
  from Suc.IH [OF p(1) u _ f] Suc.prems(3) p(3) [OF Suc.prems(2) u] f show ?case by simp
qed simp

text \<open>
  C12. Reading a transcript on every retry, in pieces of at most 4 MiB and lines of at most 64 KiB, while
  the runtime appends to it, comes to exactly the verdict of one reading of its complete lines: the message
  is delivered, in the turn that had started last, if and only if one of the short lines after the
  starting point says so, and it takes at most one reading more than the file has full pieces.
\<close>

theorem retries_find_the_delivery:
  assumes "r_status r = ''unknown''" and "log_path r = Some path"
    and "sorted_wrt prefix (fs @ [file])" and "log_cursor r \<le> length (hd (fs @ [file]))"
  shows "outcome (polls J path (fs @ replicate (length file div (SCAN_BUDGET - LINE_LIMIT) + 1) file) r) =
    (case delivery J (r_client_id r) (log_turn_id r)
       (if log_skip r then tl (split_inclusive (drop (log_cursor r) file)) else split_inclusive (drop (log_cursor r) file)) of
       Some t \<Rightarrow> (''delivered'', t) | None \<Rightarrow> (''unknown'', r_turn_id r))"
proof -
  define r' where "r' = polls J path (fs @ replicate (length file div (SCAN_BUDGET - LINE_LIMIT) + 1) file) r"
  let ?D = "SCAN_BUDGET - LINE_LIMIT" and ?r1 = "polls J path fs r"
  let ?n = "length file div ?D + 1"
  have D: "0 < ?D" by (simp add: SCAN_BUDGET_def LINE_LIMIT_def)
  have r1: "reading path file ?r1" "verdict J file ?r1 = verdict J file r"
    using polls_verdict [OF assms(3), of path r J] assms by (auto simp: reading_def)
  have r': "r' = polls J path (replicate ?n file) ?r1" by (simp only: r'_def polls_append)
  have "sorted_wrt prefix (replicate m file @ [file])" for m by (induction m) auto
  then have v: "reading path file r'" "verdict J file r' = verdict J file ?r1"
    using polls_verdict [of "replicate ?n file" "file" path ?r1 J] r1(1) by (simp_all add: r')
  have "outcome r' = verdict J file r'"
  proof (cases "r_status r' = ''unknown''")
    case True
    then have u: "r_status ?r1 = ''unknown''" using r' polls_done by metis
    have "x < (x div d + 1) * d" if "0 < d" for x d :: nat
      using that by (metis add.commute dividend_less_div_times mult.commute mult_Suc_right Suc_eq_plus1)
    from this [OF D] have "length file < ?n * ?D" .
    then have "found J (drop (log_cursor ?r1) file) ?r1 = None"
      using polls_progress [OF r1(1) u, of J ?n] True v(1) by (fastforce simp: r' reading_def)
    with v(2) u True show ?thesis by (auto simp: verdict_def outcome_def split: option.splits)
  qed (simp add: verdict_def outcome_def)
  with v r1 assms(1) show ?thesis by (simp add: verdict_def found_def unread_def r'_def)
qed

section \<open>One submission per claim\<close>

text \<open>The stored receipt belongs to the message and names the identity it is submitted under.\<close>

definition holds :: "QueueEnv \<Rightarrow> QueueRequest \<Rightarrow> string \<Rightarrow> string option \<Rightarrow> bool" where
  "holds E q c stored \<longleftrightarrow>
     valid_id E (q_client_id q) \<and> trim (q_message q) \<noteq> [] \<and> length (q_message q) \<le> MAX_MESSAGE \<and> valid_id E c
     \<and> (\<exists>b r. stored = Some b \<and> length b \<le> MAX_RECEIPT \<and> read_receipt E b = Some r
          \<and> r_digest r = claim_digest E q \<and> r_client_id r = c)"

definition job_ok :: "QueueEnv \<Rightarrow> QueueWorld \<Rightarrow> nat \<Rightarrow> QueueRequest \<Rightarrow> Phase \<Rightarrow> bool" where
  "job_ok E w p q ph \<longleftrightarrow>
     (\<forall>r. phase_receipt ph = Some r \<longrightarrow>
        holder w (claim_key E q) = Some p \<and> r_digest r = claim_digest E q
        \<and> holds E q (r_client_id r) (store w (claim_key E q))
        \<and> (before_add ph \<longrightarrow> claim_key E q \<notin> fst ` set (submitted w)))"

definition submission_ok :: "QueueEnv \<Rightarrow> QueueWorld \<Rightarrow> string \<times> QueueRequest \<times> json \<Rightarrow> bool" where
  "submission_ok E w = (\<lambda>(k, q, a). k = claim_key E q \<and> (\<exists>c. a = add_params q c \<and> holds E q c (store w k)))"

definition qinv :: "QueueEnv \<Rightarrow> QueueWorld \<Rightarrow> bool" where
  "qinv E w \<longleftrightarrow>
     (\<forall>p q path ph. jobs w p = Some (q, path, ph) \<longrightarrow> job_ok E w p q ph)
     \<and> distinct (map fst (submitted w)) \<and> (\<forall>x \<in> set (submitted w). submission_ok E w x)"

definition codec :: "QueueEnv \<Rightarrow> bool" where
  "codec E \<longleftrightarrow> (\<forall>r. read_receipt E (receipt_bytes E r) = Some r)"

lemma claim_holds: "holds E q c stored \<Longrightarrow> \<exists>r. claim E q uid False stored = Inr (r, False) \<and> r_client_id r = c"
  by (auto simp: holds_def claim_def read_claim_def)

lemma saved: "save E r = Inr b \<longleftrightarrow> b = receipt_bytes E r \<and> length b \<le> MAX_RECEIPT"
  by (auto simp: save_def ensure_def)

lemma holds_saved:
  assumes "codec E" and "holds E q c stored" and "holds E q' c' stored" and "save E r = Inr b"
    and "r_digest r = claim_digest E q" and "r_client_id r = c"
  shows "holds E q' c' (Some b)"
  using assms by (auto simp: holds_def codec_def saved)

lemma claimed:
  assumes "claim E q uid held stored = Inr (r, fresh)" and "codec E" and "valid_id E uid \<or> \<not> fresh"
  shows "\<not> held" and "fresh \<longleftrightarrow> stored = None" and "r_digest r = claim_digest E q"
    and "\<not> fresh \<Longrightarrow> holds E q (r_client_id r) stored"
    and "fresh \<Longrightarrow> save E r = Inr b \<Longrightarrow> holds E q (r_client_id r) (Some b)"
  using assms
  by (auto simp: claim_def read_claim_def new_receipt_def holds_def saved codec_def ensure_def ok_or_def r_bind_def
      split: if_splits option.splits sum.splits)

lemma qinv_phase: "qinv E w \<Longrightarrow> job_ok E w p q ph \<Longrightarrow> qinv E (to_phase p q path ph w)"
  by (auto simp: qinv_def job_ok_def submission_ok_def to_phase_def)

lemma qinv_finish: "qinv E w \<Longrightarrow> qinv E (finish p w)"
  by (fastforce simp: qinv_def job_ok_def submission_ok_def finish_def)

lemma qinv_lock: "qinv E w \<Longrightarrow> holder w k = None \<Longrightarrow> qinv E (lock_claim k p w)"
  by (fastforce simp: qinv_def job_ok_def submission_ok_def lock_claim_def)

lemma qinv_persist:
  assumes "qinv E w"
    and "\<And>q c. k = claim_key E q \<Longrightarrow> holds E q c (store w k) \<Longrightarrow> holds E q c (Some b)"
  shows "qinv E (persist k b w)"
  using assms unfolding qinv_def job_ok_def submission_ok_def persist_def by (auto split: prod.splits) blast+

lemma qinv_update:
  assumes "codec E" and "qinv E w" and "jobs w p = Some (q, path, ph)" and "phase_receipt ph = Some r"
    and "r_digest r' = r_digest r" and "r_client_id r' = r_client_id r" and "save E r' = Inr b"
  shows "qinv E (persist (claim_key E q) b w)" and "holds E q (r_client_id r') (Some b)"
proof -
  have j: "r_digest r = claim_digest E q" "holds E q (r_client_id r) (store w (claim_key E q))"
    using assms(2-4) by (auto simp: qinv_def job_ok_def)
  then have "holds E q' c (Some b)" if "holds E q' c (store w (claim_key E q))" for q' c
    using holds_saved [OF assms(1) j(2) that assms(7)] assms(5,6) by simp
  then show "qinv E (persist (claim_key E q) b w)" "holds E q (r_client_id r') (Some b)"
    using qinv_persist [OF assms(2)] j assms(6) by auto
qed

lemma advance_log_identity:
  "r_digest (advance_log J path file r) = r_digest r" "r_client_id (advance_log J path file r) = r_client_id r"
proof -
  let ?r = "log_base path file r"
  have "reads J SCAN_BUDGET (drop (log_cursor ?r) file) ?r (advance_log J path file r)"
    by (simp add: advance_log_def Let_def scan_reads)
  moreover have "r_digest ?r = r_digest r" "r_client_id ?r = r_client_id r" by (simp_all add: log_base_def)
  ultimately show "r_digest (advance_log J path file r) = r_digest r" "r_client_id (advance_log J path file r) = r_client_id r"
    unfolding reads_def by auto
qed

lemma reconcile_queue_identity:
  "reconcile_queue E list_page q path file r = Inr r' \<Longrightarrow> r_digest r' = r_digest r \<and> r_client_id r' = r_client_id r"
  by (auto simp: reconcile_queue_def reconcile_log_def r_bind_def advance_log_identity split: sum.splits)

lemma acknowledge_identity:
  "acknowledge E ans r = (Some r', res) \<Longrightarrow> r_digest r' = r_digest r \<and> r_client_id r' = r_client_id r"
  by (auto simp: acknowledge_def Let_def split: Answer.splits if_splits option.splits)

lemma persist_holder [simp]: "holder (persist k b w) = holder w" "submitted (persist k b w) = submitted w"
  "jobs (persist k b w) = jobs w" "store (persist k b w) = (store w)(k \<mapsto> b)"
  by (simp_all add: persist_def)

lemma lock_claim_sel [simp]: "holder (lock_claim k p w) = (holder w)(k \<mapsto> p)" "submitted (lock_claim k p w) = submitted w"
  "store (lock_claim k p w) = store w"
  by (simp_all add: lock_claim_def)

lemma submitted_stored: "qinv E w \<Longrightarrow> store w k = None \<Longrightarrow> k \<notin> fst ` set (submitted w)"
  by (fastforce simp: qinv_def submission_ok_def holds_def)

lemma qinv_add:
  assumes "qinv E w" and "jobs w p = Some (q, path, Ready r)"
  shows "qinv E (to_phase p q path (Sent r) (w\<lparr>submitted := submitted w @ [(claim_key E q, q, add_params q (r_client_id r))]\<rparr>))"
proof -
  have j: "holder w (claim_key E q) = Some p" "r_digest r = claim_digest E q"
    "holds E q (r_client_id r) (store w (claim_key E q))" "claim_key E q \<notin> fst ` set (submitted w)"
    using assms by (auto simp: qinv_def job_ok_def)
  have other: "claim_key E q' \<noteq> claim_key E q" if "jobs w p' = Some (q', path', ph)" "before_add ph" "p' \<noteq> p" for p' q' path' ph
    using assms(1) that j(1) by (cases ph) (fastforce simp: qinv_def job_ok_def)+
  show ?thesis
    using assms(1) j other unfolding qinv_def to_phase_def
    by (auto simp: job_ok_def submission_ok_def split: if_splits)
qed

lemma qstep_qinv:
  assumes "codec E" and "qstep E w w'" and "qinv E w"
  shows "qinv E w'"
  using assms(2,3)
proof cases
  case (arrive p d q ctx path)
  then show ?thesis using assms(3) by (simp add: qinv_phase job_ok_def)
next
  case (claim_new p q path uid r b)
  let ?k = "claim_key E q"
  note c = claimed [OF claim_new(4) assms(1) disjI1 [OF claim_new(3)]]
  have "store w ?k = None" "holder w ?k = None" "holds E q (r_client_id r) (Some b)" "r_digest r = claim_digest E q"
    using c claim_new by auto
  moreover from this have "qinv E (lock_claim ?k p (persist ?k b w))"
    using assms(3) by (intro qinv_lock qinv_persist) (auto simp: holds_def)
  ultimately show ?thesis
    using submitted_stored [OF assms(3)] by (simp add: claim_new(1) qinv_phase job_ok_def)
next
  case (claim_again p q path uid r)
  note c = claimed [OF claim_again(3) assms(1)]
  then show ?thesis using assms(3) claim_again by (auto intro!: qinv_phase qinv_lock simp: job_ok_def)
next
  case (prepare p q path r "file" b)
  note u = qinv_update [OF assms(1,3) prepare(2), of r "prepared path file r"]
  have "holder w (claim_key E q) = Some p" "r_digest r = claim_digest E q" "claim_key E q \<notin> fst ` set (submitted w)"
    using assms(3) prepare(2) by (auto simp: qinv_def job_ok_def)
  then show ?thesis using u prepare by (auto intro!: qinv_phase simp: job_ok_def prepared_def)
next
  case (add p q path r)
  then show ?thesis using assms(3) by (simp add: qinv_add)
next
  case (answer p q path r ans r' res b)
  then show ?thesis
    using qinv_update(1) [OF assms(1,3) answer(2), of r r' b] acknowledge_identity [OF answer(3)] by (simp add: qinv_finish)
next
  case (recover p q path r list_page "file" r' b)
  then show ?thesis
    using qinv_update(1) [OF assms(1,3) recover(2), of r r' b] reconcile_queue_identity [OF recover(4)] by (simp add: qinv_finish)
next
  case (ends p j)
  then show ?thesis using assms(3) by (simp add: qinv_finish)
qed

lemma queue_reaches_qinv:
  assumes "(qstep E)\<^sup>*\<^sup>* w0 w" and "codec E" and "queue_start w0"
  shows "qinv E w"
  using assms
proof (induction rule: rtranclp_induct)
  case base
  then show ?case by (simp add: queue_start_def qinv_def)
qed (blast intro: qstep_qinv)


section \<open>A message and its transcript\<close>

text \<open>A codec of receipts that can be computed: every byte of a string after a mark, a number in unary.\<close>

fun put_str :: "string \<Rightarrow> string" where
  "put_str [] = ''.''"
| "put_str (c # s) = CHR ''x'' # c # put_str s"

fun take_str :: "string \<Rightarrow> (string \<times> string) option" where
  "take_str (m # c # s) =
     (if m = CHR ''.'' then Some ([], c # s) else map_option (\<lambda>(t, rest). (c # t, rest)) (take_str s))"
| "take_str [m] = (if m = CHR ''.'' then Some ([], []) else None)"
| "take_str [] = None"

definition put_opt :: "string option \<Rightarrow> string" where
  "put_opt x = put_str (case x of None \<Rightarrow> [] | Some s \<Rightarrow> CHR ''s'' # s)"

definition opt_of :: "string \<Rightarrow> string option" where
  "opt_of s = (case s of [] \<Rightarrow> None | _ # t \<Rightarrow> Some t)"

fun take_strs :: "nat \<Rightarrow> string \<Rightarrow> string list option" where
  "take_strs 0 s = Some []"
| "take_strs (Suc n) s = Option.bind (take_str s) (\<lambda>(t, rest). map_option ((#) t) (take_strs n rest))"

definition put_receipt :: "Receipt \<Rightarrow> string" where
  "put_receipt r =
     put_str (r_digest r) @ put_str (r_client_id r) @ put_str (r_status r) @ put_opt (queue_id r) @ put_opt (r_turn_id r)
     @ put_opt (log_path r) @ put_opt (queue_cursor r) @ put_str (replicate (log_cursor r) CHR ''1'')
     @ put_opt (log_turn_id r) @ put_str (if log_skip r then ''t'' else [])"

definition get_receipt :: "string \<Rightarrow> Receipt option" where
  "get_receipt s =
     (case take_strs 10 s of
        Some [d, c, st, qi, ti, lp, qc, n, lt, sk] \<Rightarrow>
          Some \<lparr>r_digest = d, r_client_id = c, r_status = st, queue_id = opt_of qi, r_turn_id = opt_of ti,
            log_path = opt_of lp, queue_cursor = opt_of qc, log_cursor = length n, log_turn_id = opt_of lt, log_skip = sk \<noteq> []\<rparr>
      | _ \<Rightarrow> None)"

lemma take_put_str [simp]: "take_str (put_str s @ rest) = Some (s, rest)"
  by (induction s) (cases rest, auto)

lemma take_put_end [simp]: "take_str (put_str s) = Some (s, [])"
  using take_put_str [of s "[]"] by simp

lemma opt_of_put [simp]: "opt_of (case x of None \<Rightarrow> [] | Some s \<Rightarrow> CHR ''s'' # s) = x"
  by (simp add: opt_of_def split: option.split)

lemma get_put_receipt: "get_receipt (put_receipt r) = Some r"
  by (simp add: get_receipt_def put_receipt_def put_opt_def numeral_nat)

definition sample_log :: "string \<Rightarrow> json option" where
  "sample_log line =
     (let event = (\<lambda>kvs. Some (JObj [(''type'', JStr ''event_msg''), (''payload'', JObj kvs)]))
      in case line of
          CHR ''h'' # _ \<Rightarrow> Some (JObj [(''type'', JStr ''session_meta''), (''payload'', JObj [(''id'', JStr ''n'')])])
        | CHR ''s'' # _ \<Rightarrow> event [(''type'', JStr ''task_started''), (''turn_id'', JStr ''t1'')]
        | CHR ''d'' # _ \<Rightarrow> event [(''type'', JStr ''user_message''), (''client_id'', JStr ''u'')]
        | _ \<Rightarrow> None)"

definition sample_queue_env :: QueueEnv where
  "sample_queue_env = \<lparr>receipt_bytes = put_receipt, read_receipt = get_receipt, sha256_hex = (\<lambda>s. s), scope_bytes = concat,
     parse_uuid = Some, parse_json = sample_log\<rparr>"

definition sample_request :: QueueRequest where
  "sample_request = \<lparr>q_source_id = ''s'', q_native_id = ''n'', q_workspace_id = ''w'', q_hub = ''h'', q_account = ''a'',
     q_client_id = ''c'', q_message = ''go'', q_username = Some ''ann''\<rparr>"

definition sample_driver :: Driver where
  "sample_driver = \<lparr>d_shared = True, d_thread_id = Some ''n'', d_pending_mode = False, d_pending_model = False,
     d_home = Some ''home'', d_cwd = ''dir''\<rparr>"

definition sample_queue :: QueueWorld where
  "sample_queue = \<lparr>store = Map.empty, holder = Map.empty, jobs = Map.empty, submitted = []\<rparr>"

text \<open>The turn starts, another line follows, then the message arrives.\<close>

theorem retries_find_the_delivery_witness:
  "outcome (polls sample_log ''p''
     ([[CHR ''h'', CHR 0x0A], [CHR ''h'', CHR 0x0A, CHR ''s'', CHR 0x0A]]
      @ replicate (length [CHR ''h'', CHR 0x0A, CHR ''s'', CHR 0x0A, CHR ''x'', CHR 0x0A, CHR ''d'', CHR 0x0A]
            div (SCAN_BUDGET - LINE_LIMIT) + 1)
          [CHR ''h'', CHR 0x0A, CHR ''s'', CHR 0x0A, CHR ''x'', CHR 0x0A, CHR ''d'', CHR 0x0A])
     (prepared ''p'' [CHR ''h'', CHR 0x0A] (new_receipt ''go'' ''u''))) = (''delivered'', Some ''t1'')"
  using retries_find_the_delivery [of "prepared ''p'' [CHR ''h'', CHR 0x0A] (new_receipt ''go'' ''u'')" "''p''"
      "[[CHR ''h'', CHR 0x0A], [CHR ''h'', CHR 0x0A, CHR ''s'', CHR 0x0A]]"
      "[CHR ''h'', CHR 0x0A, CHR ''s'', CHR 0x0A, CHR ''x'', CHR 0x0A, CHR ''d'', CHR 0x0A]" sample_log]
  by (simp add: prepared_def new_receipt_def ends_line_def LINE_LIMIT_def delivers_def note_line_def sample_log_def
      str_field_def is_delivery_def valid_turn_id_def validate_native_turn_id_def MAX_NATIVE_TURN_ID_BYTES_def)

lemmas sample_queue_simps = sample_queue_def sample_queue_env_def sample_request_def sample_driver_def claim_key_def claim_digest_def
  valid_id_def to_phase_def persist_def lock_claim_def


end
