(* ===== verification/Redaction.thy ===== *)
theory Redaction
  imports Protection
begin

text \<open>
  What \<open>Protection\<close> achieves. A protected text is a list of pieces: text that was kept, hidden values with the
  name of their record, runs too long for a record, and regions that were opaque. The lemmas follow the state of
  the dictionary through every operation (records are only added, and no panic is reachable), then the
  components, the gaps between opaque regions and the whole string.
\<close>

section \<open>What a protected text is made of\<close>

datatype piece = Kept string | Hidden string string | Intact string | Opaque string

fun original :: "piece \<Rightarrow> string" where
  "original (Kept t) = t"
| "original (Hidden t i) = t"
| "original (Intact t) = t"
| "original (Opaque t) = t"

fun shown :: "ProtectionState \<Rightarrow> piece \<Rightarrow> string" where
  "shown s (Kept t) = t"
| "shown s (Hidden t i) =
     (if i \<in> transient_ids s then REDACTED else case unlocked s of Some vault \<Rightarrow> token vault i | None \<Rightarrow> [])"
| "shown s (Intact t) = t"
| "shown s (Opaque t) = t"

definition originals :: "piece list \<Rightarrow> string" where "originals ps = concat (map original ps)"

definition shown_all :: "ProtectionState \<Rightarrow> piece list \<Rightarrow> string" where "shown_all s ps = concat (map (shown s) ps)"

fun is_hidden :: "piece \<Rightarrow> bool" where
  "is_hidden (Hidden t i) = True"
| "is_hidden _ = False"

fun is_intact :: "piece \<Rightarrow> bool" where
  "is_intact (Intact t) = True"
| "is_intact _ = False"

text \<open>The bytes from \<open>a\<close> to \<open>e\<close> are all in one piece that was replaced, or left for its length.\<close>

fun covered :: "piece list \<Rightarrow> nat \<Rightarrow> nat \<Rightarrow> bool" where
  "covered [] a e = False"
| "covered (p # ps) a e =
     (let n = length (original p)
      in if n \<le> a then covered ps (a - n) (e - n) else (is_hidden p \<or> is_intact p) \<and> e \<le> n)"

definition vals :: "ProtectionState \<Rightarrow> (string \<times> string) set" where
  "vals s = (\<lambda>r. (rid r, secret r)) ` set (records s)"

definition state_ok :: "ProtectEnv \<Rightarrow> string list \<Rightarrow> ProtectionState \<Rightarrow> bool" where
  "state_ok E pats s \<longleftrightarrow>
     distinct pats \<and> inj (new_id E) \<and> (view_only s \<longrightarrow> (\<forall>n \<ge> next_id s. new_id E n \<notin> fst ` vals s))
     \<and> (view_only s \<or> transient_ids s = {}) \<and> (fst ` vals s \<subseteq> transient_ids s \<or> unlocked s \<noteq> None)
     \<and> length (sources s) = length pats
     \<and> (\<forall>p < length pats. \<forall>i. record_id (sources s ! p) = Some i \<longrightarrow> (i, pats ! p) \<in> vals s)"

definition extends :: "ProtectionState \<Rightarrow> ProtectionState \<Rightarrow> bool" where
  "extends s s' \<longleftrightarrow>
     vals s \<subseteq> vals s' \<and> view_only s' = view_only s \<and> (unlocked s \<noteq> None \<longrightarrow> unlocked s' = unlocked s)
     \<and> transient_ids s \<subseteq> transient_ids s' \<and> transient_ids s' \<inter> fst ` vals s \<subseteq> transient_ids s"

lemma extends_refl [simp]: "extends s s"
  by (auto simp: extends_def)

lemma extends_trans [trans]: "extends s s' \<Longrightarrow> extends s' s'' \<Longrightarrow> extends s s''"
  unfolding extends_def by (intro conjI) (blast, simp, simp, blast, blast)

lemma push_origins_id [simp]: "rid (push_origins os r) = rid r" "secret (push_origins os r) = secret r"
  by (induction os r rule: push_origins.induct) auto

lemma update_first_vals:
  "find (\<lambda>r. rid r = i) rs = Some r0 \<Longrightarrow> rid r' = i \<Longrightarrow> secret r' = secret r0 \<Longrightarrow>
     (\<lambda>r. (rid r, secret r)) ` set (update_first i r' rs) = (\<lambda>r. (rid r, secret r)) ` set rs"
  by (induction rs) (auto split: if_splits)

lemma find_record_rid: "find_record i s = Some r \<Longrightarrow> rid r = i \<and> (i, secret r) \<in> vals s"
  by (auto simp: find_record_def find_Some_iff vals_def intro!: image_eqI [where x = r])

lemma find_secret_rid: "find_secret v s = Some r \<Longrightarrow> (rid r, v) \<in> vals s"
  by (auto simp: find_secret_def find_Some_iff vals_def intro!: image_eqI [where x = r])

lemma find_record_ex: "(i, v) \<in> vals s \<Longrightarrow> \<exists>r. find_record i s = Some r"
  by (cases "find_record i s") (auto simp: find_record_def find_None_iff vals_def)

lemma store_change_ok:
  assumes "state_ok E pats s" and "find_record i s = Some r0" and "rid r' = rid r0" and "secret r' = secret r0" and "\<not> view_only s"
  shows "case store_change E r0 r' s of Inl e \<Rightarrow> e \<noteq> Panic
    | Inr s' \<Rightarrow> state_ok E pats s' \<and> extends s s' \<and> vals s' = vals s"
proof -
  have i: "rid r0 = i" "(i, secret r0) \<in> vals s" using find_record_rid [OF assms(2)] by auto
  have "vals (s\<lparr>records := update_first (rid r0) r' (records s), dirty := True\<rparr>) = vals s"
    using update_first_vals [of i "records s" r0 r'] assms(2-4) i by (simp add: vals_def find_record_def)
  moreover have "unlocked s \<noteq> None" using assms(1,5) i(2) by (auto simp: state_ok_def)
  ultimately show ?thesis using assms(1)
    by (auto simp: store_change_def state_ok_def extends_def)
qed

lemma state_ok_counters [simp]:
  "state_ok E pats (s\<lparr>new_heuristic_records := n\<rparr>) = state_ok E pats s"
  "state_ok E pats (s\<lparr>intact_hits := n\<rparr>) = state_ok E pats s"
  "extends t (s\<lparr>new_heuristic_records := n\<rparr>) = extends t s"
  "extends t (s\<lparr>intact_hits := n\<rparr>) = extends t s"
  "vals (s\<lparr>new_heuristic_records := n\<rparr>) = vals s"
  "vals (s\<lparr>intact_hits := n\<rparr>) = vals s"
  by (simp_all add: state_ok_def extends_def vals_def)

lemma append_new_ok:
  assumes "state_ok E pats s" and "\<not> view_only s" and "unlocked s \<noteq> None"
  shows "case append_new E r s of Inl e \<Rightarrow> e \<noteq> Panic
    | Inr s' \<Rightarrow> state_ok E pats s' \<and> extends s s' \<and> vals s' = insert (rid r, secret r) (vals s)"
proof -
  have "vals (s\<lparr>records := records s @ [r], dirty := True, new_records := new_records s + 1, next_id := next_id s + 1\<rparr>) =
    insert (rid r, secret r) (vals s)" by (auto simp: vals_def)
  then show ?thesis using assms by (auto simp: append_new_def state_ok_def extends_def)
qed

lemma transient_record_ok:
  assumes "state_ok E pats s" and "view_only s" and "transient_record E v m s = (i, s')"
  shows "state_ok E pats s' \<and> extends s s' \<and> (i, v) \<in> vals s'"
proof -
  have i: "i = new_id E (next_id s)" and
    s': "s' = s\<lparr>transient_ids := insert i (transient_ids s), next_id := next_id s + 1,
      records := records s @ [\<lparr>rid = i, secret = v, origins = source_origins m, explicit_block = ms_explicit_block m\<rparr>]\<rparr>"
    using assms(3) by (auto simp: transient_record_def Let_def)
  have v: "vals s' = insert (i, v) (vals s)" by (auto simp: s' vals_def)
  have "new_id E n \<noteq> i" if "n \<ge> next_id s + 1" for n
    using assms(1) that by (auto simp: i state_ok_def inj_eq)
  moreover have "i \<notin> fst ` vals s" using assms(1,2) by (auto simp: i state_ok_def)
  ultimately show ?thesis using assms(1,2) unfolding state_ok_def extends_def v by (auto simp: s')
qed

lemma create_unlocked_ok:
  assumes "state_ok E pats s"
  shows "case create_unlocked E s of Inl e \<Rightarrow> e \<noteq> Panic
    | Inr s' \<Rightarrow> state_ok E pats s' \<and> extends s s' \<and> unlocked s' \<noteq> None \<and> vals s' = vals s \<and> view_only s' = view_only s"
proof -
  have "vals (s\<lparr>unlocked := v, created := True\<rparr>) = vals s" for v by (simp add: vals_def)
  then show ?thesis
    using assms by (cases "new_vault E") (auto simp: create_unlocked_def state_ok_def extends_def)
qed

lemma set_source_ok:
  assumes "state_ok E pats s" and "p < length pats" and "(i, pats ! p) \<in> vals s"
  shows "state_ok E pats (set_source p i s) \<and> extends s (set_source p i s) \<and> vals (set_source p i s) = vals s"
proof -
  have "vals (set_source p i s) = vals s" by (simp add: vals_def set_source_def)
  then show ?thesis using assms unfolding state_ok_def extends_def by (auto simp: set_source_def nth_list_update)
qed

lemma ensure_region_record_ok:
  assumes "state_ok E pats s"
  shows "case ensure_region_record E v m s of Inl e \<Rightarrow> e \<noteq> Panic
    | Inr (i, s') \<Rightarrow> state_ok E pats s' \<and> extends s s' \<and> (i, v) \<in> vals s'"
proof (cases "find_secret v s")
  case (Some r)
  note f = find_secret_rid [OF Some]
  obtain r0 where r0: "find_record (rid r) s = Some r0" using find_record_ex [OF f] by blast
  let ?r2 = "push_origins (source_origins m) (if ms_explicit_block m then r0\<lparr>explicit_block := True\<rparr> else r0)"
  show ?thesis
  proof (cases "view_only s")
    case False
    have "rid ?r2 = rid r0" "secret ?r2 = secret r0" by simp_all
    from store_change_ok [OF assms r0 this False] f Some r0 False show ?thesis
      by (cases "store_change E r0 ?r2 s") (auto simp: ensure_region_record_def Let_def)
  qed (use assms f Some in \<open>simp add: ensure_region_record_def\<close>)
next
  case None
  show ?thesis
  proof (cases "view_only s")
    case True
    then show ?thesis using None transient_record_ok [OF assms True, of v m]
      by (auto simp: ensure_region_record_def split: prod.split)
  next
    case False
    show ?thesis
    proof (cases "create_unlocked E s")
      case (Inr s1)
      let ?r = "\<lparr>rid = ''sec_'' @ new_id E (next_id s1), secret = v, origins = source_origins m, explicit_block = ms_explicit_block m\<rparr>"
      have s1: "state_ok E pats s1" "extends s s1" "unlocked s1 \<noteq> None" "\<not> view_only s1"
        using create_unlocked_ok [OF assms] Inr False by auto
      from append_new_ok [OF s1(1,4,3), of ?r] None False Inr s1(2) show ?thesis
        by (cases "append_new E ?r s1") (auto simp: ensure_region_record_def Let_def intro: extends_trans)
    qed (use create_unlocked_ok [OF assms] None False in \<open>auto simp: ensure_region_record_def\<close>)
  qed
qed

lemma ensure_record_ok:
  assumes "state_ok E pats s" and "p < length pats" and "v = pats ! p"
  shows "case ensure_record E p v s of Inl e \<Rightarrow> e \<noteq> Panic
    | Inr (i, s') \<Rightarrow> state_ok E pats s' \<and> extends s s' \<and> (i, v) \<in> vals s'"
proof -
  have p: "\<not> length (sources s) \<le> p" using assms(1,2) by (simp add: state_ok_def)
  let ?src = "sources s ! p"
  show ?thesis
  proof (cases "record_id ?src")
    case (Some i)
    then have f: "(i, v) \<in> vals s" using assms by (simp add: state_ok_def)
    then obtain r0 where r0: "find_record i s = Some r0" using find_record_ex by blast
    let ?r1 = "if from_global ?src then push_origins [Global] (r0\<lparr>explicit_block := True\<rparr>) else r0"
    let ?r2 = "if from_heuristic ?src then push_origins [Heuristic] ?r1 else ?r1"
    show ?thesis
    proof (cases "view_only s")
      case False
      have "rid ?r2 = rid r0" "secret ?r2 = secret r0" by simp_all
      from store_change_ok [OF assms(1) r0 this False] f Some r0 False p show ?thesis
        by (cases "store_change E r0 ?r2 s") (simp_all add: ensure_record_def Let_def del: push_origins.simps)
    qed (use assms(1) f Some p in \<open>simp add: ensure_record_def Let_def\<close>)
  next
    case None
    show ?thesis
    proof (cases "find_secret v s")
      case (Some r)
      then show ?thesis using None p set_source_ok [OF assms(1,2)] find_secret_rid [OF Some] assms(3)
        by (simp add: ensure_record_def Let_def)
    next
      case new: None
      show ?thesis
      proof (cases "view_only s")
        case True
        let ?m = "no_sources\<lparr>ms_explicit_block := from_global ?src, ms_global := from_global ?src, ms_heuristic := from_heuristic ?src\<rparr>"
        obtain i s1 where t: "transient_record E v ?m s = (i, s1)" by (cases "transient_record E v ?m s")
        note s1 = transient_record_ok [OF assms(1) True t]
        have "state_ok E pats (set_source p i s1) \<and> extends s1 (set_source p i s1) \<and> vals (set_source p i s1) = vals s1"
          using s1 set_source_ok assms(2,3) by blast
        with s1 None new True p t show ?thesis by (auto simp: ensure_record_def Let_def intro: extends_trans)
      next
        case False
        show ?thesis
        proof (cases "create_unlocked E s")
          case (Inr s1)
          let ?i = "''sec_'' @ new_id E (next_id s1)"
          let ?r = "\<lparr>rid = ?i, secret = v,
            origins = (if from_global ?src then [Global] else []) @ (if from_heuristic ?src then [Heuristic] else []),
            explicit_block = from_global ?src\<rparr>"
          have s1: "state_ok E pats s1" "extends s s1" "unlocked s1 \<noteq> None" "\<not> view_only s1"
            using create_unlocked_ok [OF assms(1)] Inr False by auto
          show ?thesis
          proof (cases "append_new E ?r s1")
            case ap: (Inr s2)
            then have s2: "state_ok E pats s2" "extends s1 s2" "(?i, v) \<in> vals s2"
              using append_new_ok [OF s1(1,4,3), of ?r] by auto
            then have "state_ok E pats (set_source p ?i s2)" "extends s2 (set_source p ?i s2)" "vals (set_source p ?i s2) = vals s2"
              using set_source_ok assms(2,3) by blast+
            with s1(2) s2 have "extends s (set_source p ?i s2)" "state_ok E pats (set_source p ?i s2)" "(?i, v) \<in> vals (set_source p ?i s2)"
              by (blast intro: extends_trans)+
            with ap Inr None new False p show ?thesis by (simp add: ensure_record_def Let_def)
          next
            case (Inl e)
            then show ?thesis using append_new_ok [OF s1(1,4,3), of ?r] Inr None new False p
              by (simp add: ensure_record_def Let_def)
          qed
        next
          case (Inl e)
          then show ?thesis using create_unlocked_ok [OF assms(1)] None new False p
            by (simp add: ensure_record_def Let_def)
        qed
      qed
    qed
  qed
qed

text \<open>Matches of the patterns in the text.\<close>

definition is_match :: "string list \<Rightarrow> string \<Rightarrow> pmatch \<Rightarrow> bool" where
  "is_match pats body = (\<lambda>(a, e, p). p < length pats \<and> a < e \<and> e \<le> length body \<and> slice a e body = pats ! p)"

lemma component_records_ok:
  assumes "state_ok E pats s" and "\<forall>x \<in> set ms. is_match pats body x"
    and "\<And>i p. exact_id = Some i \<Longrightarrow> exact = Some p \<Longrightarrow> (i, pats ! p) \<in> vals s" and "exact_id = None \<or> exact \<noteq> None"
  shows "case component_records E body exact ms seen exact_id m s of Inl e \<Rightarrow> e \<noteq> Panic
    | Inr (eid, m', s') \<Rightarrow> state_ok E pats s' \<and> extends s s'
        \<and> (\<forall>i. eid = Some i \<longrightarrow> (\<exists>p. exact = Some p \<and> (i, pats ! p) \<in> vals s'))"
  using assms
proof (induction ms arbitrary: seen exact_id m s)
  case (Cons x ms)
  obtain a e p where x: "x = (a, e, p)" by (cases x)
  show ?case
  proof (cases "p \<in> seen")
    case True
    with Cons x show ?thesis by simp
  next
    case False
    have p: "p < length pats" "slice a e body = pats ! p" using Cons.prems(2) by (auto simp: x is_match_def)
    note er = ensure_record_ok [OF Cons.prems(1) p]
    show ?thesis
    proof (cases "ensure_record E p (slice a e body) s")
      case (Inr y)
      obtain i s1 where y: "y = (i, s1)" by (cases y)
      have s1: "state_ok E pats s1" "extends s s1" "(i, pats ! p) \<in> vals s1" using er Inr y p(2) by auto
      let ?e = "if exact = Some p then Some i else exact_id"
      let ?m = "case find_record i s1 of Some r \<Rightarrow> add_source r m | None \<Rightarrow> m"
      have "case component_records E body exact ms (insert p seen) ?e ?m s1 of Inl e \<Rightarrow> e \<noteq> Panic
        | Inr (eid, m', s') \<Rightarrow> state_ok E pats s' \<and> extends s1 s'
            \<and> (\<forall>i. eid = Some i \<longrightarrow> (\<exists>p. exact = Some p \<and> (i, pats ! p) \<in> vals s'))"
        by (rule Cons.IH [OF s1(1)]) (use Cons.prems s1 in \<open>auto simp: extends_def split: if_splits\<close>)
      with False Inr y x s1(2) show ?thesis by (auto split: sum.splits intro: extends_trans)
    qed (use er False x in simp)
  qed
qed auto

lemma region_of_props:
  "region_of rs re0 ex ms = (re, exact) \<Longrightarrow>
     re0 \<le> re \<and> (\<forall>x \<in> set ms. fst (snd x) \<le> re) \<and> (re = re0 \<or> re \<in> (\<lambda>x. fst (snd x)) ` set ms)
     \<and> (\<forall>p. exact = Some p \<longrightarrow> ex = Some p \<and> re = re0 \<or> (rs, re, p) \<in> set ms)"
proof (induction rs re0 ex ms rule: region_of.induct)
  case (2 rs re0 ex a e p ms)
  from 2(1) [OF 2(2) [unfolded region_of.simps]] show ?case by (auto simp: max_def split: if_splits)
qed simp

lemma length_slice [simp]: "e \<le> length body \<Longrightarrow> length (slice a e body) = e - a"
  by (simp add: slice_def)

lemma take_slice: "a \<le> e \<Longrightarrow> take a body @ slice a e body = take e body"
  by (metis le_add_diff_inverse slice_def take_add)

lemma originals_append [simp]: "originals (ps @ qs) = originals ps @ originals qs" "originals [] = []"
  "originals (p # qs) = original p @ originals qs"
  by (simp_all add: originals_def)

lemma shown_all_append [simp]: "shown_all s (ps @ qs) = shown_all s ps @ shown_all s qs" "shown_all s [] = []"
  "shown_all s (p # qs) = shown s p @ shown_all s qs"
  by (simp_all add: shown_all_def)

lemma pieces_covered_append: "covered ps a e \<Longrightarrow> covered (ps @ qs) a e"
  by (induction ps arbitrary: a e) (auto simp: Let_def split: if_splits)

lemma covered_skip: "length (originals ps) \<le> a \<Longrightarrow> covered (ps @ qs) a e = covered qs (a - length (originals ps)) (e - length (originals ps))"
proof (induction ps arbitrary: a e)
  case (Cons p ps)
  then show ?case by (simp add: Let_def diff_diff_eq)
qed simp

definition pieces_ok :: "ProtectionState \<Rightarrow> piece list \<Rightarrow> bool" where
  "pieces_ok s ps \<longleftrightarrow>
     (\<forall>t i. Hidden t i \<in> set ps \<longrightarrow> (i, t) \<in> vals s \<and> length t \<le> MAX_REPOSITORY_SECRET_BYTES \<and> (i \<in> transient_ids s \<or> unlocked s \<noteq> None))
     \<and> (\<forall>t. Intact t \<in> set ps \<longrightarrow> MAX_REPOSITORY_SECRET_BYTES < length t)"

definition projected :: "string \<Rightarrow> ProjectionBuffer \<Rightarrow> ProtectionState \<Rightarrow> piece list \<Rightarrow> bool" where
  "projected body pr s ps \<longleftrightarrow>
     originals ps = take (cursor pr) body \<and> cursor pr \<le> length body \<and> outp pr = shown_all s ps
     \<and> replacements pr = length (filter is_hidden ps) \<and> pieces_ok s ps \<and> (\<forall>t. Opaque t \<notin> set ps)"

lemma shown_extends:
  assumes "extends s s'" and "pieces_ok s ps"
  shows "shown_all s' ps = shown_all s ps" and "pieces_ok s' ps"
proof -
  have "shown s' p = shown s p" if "p \<in> set ps" for p
  proof (cases p)
    case (Hidden t i)
    then have "(i, t) \<in> vals s" "i \<in> transient_ids s \<or> unlocked s \<noteq> None" using assms(2) that by (auto simp: pieces_ok_def)
    moreover from this have "i \<in> transient_ids s' \<longleftrightarrow> i \<in> transient_ids s" using assms(1) by (force simp: extends_def)
    ultimately show ?thesis using assms(1) by (auto simp: Hidden extends_def)
  qed auto
  then show "shown_all s' ps = shown_all s ps" by (simp add: shown_all_def cong: map_cong)
  show "pieces_ok s' ps" using assms unfolding pieces_ok_def extends_def by (metis subsetD)
qed

lemma protect_component_ok:
  assumes ok: "state_ok E pats s" and ms: "ms \<noteq> []" "\<forall>x \<in> set ms. is_match pats body x \<and> fst (hd ms) \<le> fst x"
    and cur: "cursor pr \<le> p_start (base64 pr) (fst (hd ms))" and pr: "projected body pr s ps"
  shows "case protect_component E body ms (pr, s) of Inl e \<Rightarrow> e \<noteq> Panic
    | Inr (pr', s') \<Rightarrow> state_ok E pats s' \<and> extends s s'
        \<and> (\<exists>x \<in> set ms. cursor pr' \<le> p_end (base64 pr) (fst (snd x)))
        \<and> (\<exists>qs. projected body pr' s' (ps @ qs) \<and> (\<forall>x \<in> set ms. covered (ps @ qs) (fst x) (fst (snd x))))"
proof -
  obtain a0 e0 p0 rest where c: "ms = (a0, e0, p0) # rest" using ms(1) by (metis neq_Nil_conv prod_cases3)
  obtain re exact where ro: "region_of a0 e0 (Some p0) rest = (re, exact)" by fastforce
  note r = region_of_props [OF ro]
  let ?b = "base64 pr"
  define a e where "a = p_start ?b a0" and "e = min (p_end ?b re) (length body)"
  have en: "\<exists>x \<in> set ms. fst (snd x) = re" using r by (auto simp: c)
  have re: "re \<le> length body" using en ms(2) by (auto simp: is_match_def)
  then have e: "re \<le> e" "e \<le> length body" using p_end_ge [of re ?b] by (auto simp: e_def)
  have a: "a \<le> a0" "cursor pr \<le> a" using p_start_le cur by (auto simp: a_def c)
  have inside: "a \<le> fst x \<and> fst x < fst (snd x) \<and> fst (snd x) \<le> e" if "x \<in> set ms" for x
    using that ms(2) r a(1) e(1) by (fastforce simp: c is_match_def)
  have ae: "a < e" using inside [of "hd ms"] ms(1) by fastforce
  have exact: "slice a0 re body = pats ! p" if "exact = Some p" for p
    using r that ms(2) by (fastforce simp: c is_match_def)
  define before where "before = slice (cursor pr) a body"
  have lb: "length before = a - cursor pr" using ae e(2) by (simp add: before_def)
  have cover: "covered (ps @ [Kept before, x]) (fst y) (fst (snd y))"
    if "y \<in> set ms" "original x = slice a e body" "is_hidden x \<or> is_intact x" for x y
  proof -
    have "length (originals ps) = cursor pr" using pr by (simp add: projected_def)
    then show ?thesis using inside [OF that(1)] that(2,3) a(2) lb e(2) by (subst covered_skip) (auto simp: Let_def)
  qed
  have out: "projected body (pr\<lparr>outp := outp pr @ before @ shown s' x, cursor := e, replacements := replacements pr + n\<rparr>) s' (ps @ [Kept before, x])"
    if "extends s s'" "original x = slice a e body" "pieces_ok s' [x]" "n = (if is_hidden x then 1 else 0)" "\<forall>t. x \<noteq> Opaque t" for s' x n
  proof -
    have "originals (ps @ [Kept before, x]) = take e body"
      using pr that(2) a(2) ae by (simp add: projected_def before_def take_slice flip: append_assoc)
    moreover have "pieces_ok s' (ps @ [Kept before, x])"
      using shown_extends(2) [OF that(1)] that(3) pr by (auto simp: projected_def pieces_ok_def)
    ultimately show ?thesis
      using shown_extends(1) [OF that(1)] that pr e(2) by (auto simp: projected_def)
  qed
  have end_e: "\<exists>x \<in> set ms. e \<le> p_end ?b (fst (snd x))" using en by (metis e_def min.cobounded1)
  have cr: "case component_records E body exact ms {} None no_sources s of Inl e \<Rightarrow> e \<noteq> Panic
    | Inr (eid, m', s') \<Rightarrow> state_ok E pats s' \<and> extends s s'
        \<and> (\<forall>i. eid = Some i \<longrightarrow> (\<exists>p. exact = Some p \<and> (i, pats ! p) \<in> vals s'))"
    by (rule component_records_ok [OF ok]) (use ms(2) in auto)
  show ?thesis
  proof (cases "component_records E body exact ms {} None no_sources s")
    case (Inl err)
    with cr show ?thesis by (simp add: protect_component_def c ro)
  next
    case (Inr y)
    obtain eid m s1 where y: "y = (eid, m, s1)" by (metis prod_cases3)
    have s1: "state_ok E pats s1" "extends s s1" and eid: "\<And>i. eid = Some i \<Longrightarrow> \<exists>p. exact = Some p \<and> (i, pats ! p) \<in> vals s1"
      using cr Inr y by auto
    let ?eid = "if a \<noteq> a0 \<or> e \<noteq> re then None else eid"
    show ?thesis
    proof (cases "e - a > MAX_REPOSITORY_SECRET_BYTES")
      case True
      let ?s = "s1\<lparr>intact_hits := intact_hits s1 + 1\<rparr>" and ?x = "Intact (slice a e body)"
      have "extends s ?s" using s1(2) by simp
      from out [OF this, of ?x 0] True e(2) have
        pj: "projected body (pr\<lparr>outp := outp pr @ before @ slice a e body, cursor := e\<rparr>) ?s (ps @ [Kept before, ?x])"
        by (simp add: pieces_ok_def)
      have "protect_component E body ms (pr, s) = Inr (pr\<lparr>outp := outp pr @ before @ slice a e body, cursor := e\<rparr>, ?s)"
        using Inr y True by (simp add: protect_component_def c ro Let_def before_def flip: a_def e_def)
      with pj s1 end_e cover [of _ ?x] show ?thesis by auto
    next
      case False
      note er = ensure_region_record_ok [OF s1(1), of "slice a e body" m]
      show ?thesis
      proof (cases "ensure_region_record E (slice a e body) m s1")
        case (Inl err)
        with er Inr y False show ?thesis
          by (simp add: protect_component_def c ro Let_def before_def flip: a_def e_def)
      next
        case er': (Inr z)
        obtain i' s2 where z: "z = (i', s2)" by (cases z)
        have s2: "state_ok E pats s2" "extends s1 s2" "(i', slice a e body) \<in> vals s2" using er er' z by auto
        define i where "i = (case ?eid of Some j \<Rightarrow> j | None \<Rightarrow> i')"
        have i: "(i, slice a e body) \<in> vals s2"
          using s2(2,3) eid exact by (fastforce simp: i_def extends_def split: option.splits if_splits)
        let ?x = "Hidden (slice a e body) i"
        have u: "i \<in> transient_ids s2 \<or> unlocked s2 \<noteq> None" using s2(1) i by (auto simp: state_ok_def)
        have "extends s s2" using s1(2) s2(2) by (rule extends_trans)
        from out [OF this, of ?x 1] i u False e(2) have
          pj: "projected body (pr\<lparr>outp := outp pr @ before @ shown s2 ?x, cursor := e, replacements := replacements pr + 1\<rparr>) s2 (ps @ [Kept before, ?x])"
          by (simp add: pieces_ok_def)
        have "protect_component E body ms (pr, s) =
            (if i \<in> transient_ids s2
             then Inr (pr\<lparr>outp := outp pr @ before @ REDACTED, cursor := e, replacements := replacements pr + 1\<rparr>, s2)
             else case unlocked s2 of None \<Rightarrow> Inl Panic
             | Some vault \<Rightarrow> Inr (pr\<lparr>outp := outp pr @ before @ token vault i, cursor := e, replacements := replacements pr + 1\<rparr>, s2))"
          using Inr [unfolded c] y False er' z
          by (cases "unlocked s2") (simp_all add: protect_component_def c ro Let_def before_def i_def flip: a_def e_def del: component_records.simps)
        then have "protect_component E body ms (pr, s) =
            Inr (pr\<lparr>outp := outp pr @ before @ shown s2 ?x, cursor := e, replacements := replacements pr + 1\<rparr>, s2)"
          using u by (cases "i \<in> transient_ids s2") auto
        with pj \<open>extends s s2\<close> s2(1) end_e cover [of _ ?x] show ?thesis by auto
      qed
    qed
  qed
qed

lemma fst_le: "x \<le> (y :: pmatch) \<Longrightarrow> fst x \<le> fst y"
  by (auto simp: less_eq_prod_def)

text \<open>All components, one after the other.\<close>

lemma protect_fold_ok:
  assumes "state_ok E pats s" and "sorted ms" and "\<forall>x \<in> set ms. is_match pats body x \<and> cursor pr \<le> p_start (base64 pr) (fst x)"
    and "projected body pr s ps"
  shows "case r_fold (protect_component E body) (components (base64 pr) ms) (pr, s) of Inl e \<Rightarrow> e \<noteq> Panic
    | Inr (pr', s') \<Rightarrow> state_ok E pats s' \<and> extends s s'
        \<and> (\<exists>qs. projected body pr' s' (ps @ qs) \<and> (\<forall>x \<in> set ms. covered (ps @ qs) (fst x) (fst (snd x))))"
  using assms
proof (induction "base64 pr" ms arbitrary: pr s ps rule: components.induct)
  case 1
  then show ?case by (auto intro!: exI [of _ "[]"])
next
  case (2 m ms)
  let ?b = "base64 pr"
  obtain c rest re where g: "grow ?b (p_end ?b (fst (snd m))) ms = (c, rest, re)" by (metis prod_cases3)
  note split = grow_append [OF g] and gp = grow_props [OF g]
  have first: "fst m \<le> fst x" if "x \<in> set (m # c)" for x
    using 2(3) that by (auto simp: split intro: fst_le)
  have step: "case protect_component E body (m # c) (pr, s) of Inl e \<Rightarrow> e \<noteq> Panic
    | Inr (pr', s') \<Rightarrow> state_ok E pats s' \<and> extends s s'
        \<and> (\<exists>x \<in> set (m # c). cursor pr' \<le> p_end ?b (fst (snd x)))
        \<and> (\<exists>qs. projected body pr' s' (ps @ qs) \<and> (\<forall>x \<in> set (m # c). covered (ps @ qs) (fst x) (fst (snd x))))"
    using 2(2,4,5) first by (intro protect_component_ok) (auto simp: split)
  show ?case
  proof (cases "protect_component E body (m # c) (pr, s)")
    case (Inl e)
    with step g show ?thesis by simp
  next
    case (Inr y)
    obtain pr1 s1 where y: "y = (pr1, s1)" by (cases y)
    from step [unfolded Inr y sum.case prod.case] obtain x qs where s1: "state_ok E pats s1" "extends s s1" "x \<in> set (m # c)" "cursor pr1 \<le> p_end ?b (fst (snd x))"
      "projected body pr1 s1 (ps @ qs)" "\<forall>x \<in> set (m # c). covered (ps @ qs) (fst x) (fst (snd x))" by blast
    have b: "base64 pr1 = ?b" using protect_component_base64 [OF Inr] y by simp
    have high: "re \<le> p_start ?b (fst z)" if "z \<in> set rest" for z
    proof -
      have "hd rest \<le> z" using 2(3) that by (cases rest) (auto simp: split sorted_append)
      then have "fst (hd rest) \<le> fst z" by (rule fst_le)
      then show ?thesis using gp that p_start_mono [of "fst (hd rest)" "fst z" ?b] by (cases rest) auto
    qed
    have "cursor pr1 \<le> re" using s1(3,4) gp by auto
    then have "case r_fold (protect_component E body) (components (base64 pr1) rest) (pr1, s1) of Inl e \<Rightarrow> e \<noteq> Panic
      | Inr (pr', s') \<Rightarrow> state_ok E pats s' \<and> extends s1 s'
          \<and> (\<exists>qs'. projected body pr' s' ((ps @ qs) @ qs') \<and> (\<forall>x \<in> set rest. covered ((ps @ qs) @ qs') (fst x) (fst (snd x))))"
      using 2(1) [OF g [symmetric] refl b [symmetric] s1(1)] 2(3,4) high s1(5) b
      by (fastforce simp: split sorted_append)
    note IH = this
    have fold: "r_fold (protect_component E body) (components ?b (m # ms)) (pr, s) =
        r_fold (protect_component E body) (components (base64 pr1) rest) (pr1, s1)"
      using g Inr y b by simp
    show ?thesis
    proof (cases "r_fold (protect_component E body) (components (base64 pr1) rest) (pr1, s1)")
      case (Inl e)
      with IH show ?thesis by (simp only: fold sum.case not_False_eq_True)
    next
      case (Inr z)
      obtain pr2 s2 where z: "z = (pr2, s2)" by (cases z)
      from IH [unfolded Inr z sum.case prod.case] obtain qs' where s2: "state_ok E pats s2" "extends s1 s2"
        "projected body pr2 s2 ((ps @ qs) @ qs')" "\<forall>x \<in> set rest. covered ((ps @ qs) @ qs') (fst x) (fst (snd x))" by blast
      have "covered ((ps @ qs) @ qs') (fst x) (fst (snd x))" if "x \<in> set (m # ms)" for x
        using s1(6) s2(4) pieces_covered_append [of "ps @ qs" _ _ qs'] that by (auto simp: split)
      then have "\<exists>qs. projected body pr2 s2 (ps @ qs) \<and> (\<forall>x \<in> set (m # ms). covered (ps @ qs) (fst x) (fst (snd x)))"
        using s2(3) by (metis append_assoc)
      then show ?thesis
        unfolding fold Inr z sum.case prod.case using extends_trans [OF s1(2) s2(2)] s2(1) by blast
    qed
  qed
qed

section \<open>The matcher\<close>

text \<open>
  What is asked of a matcher for these patterns: its matches in a text are exactly the occurrences of the
  patterns, each once, in the order of their ends, and no pattern is longer than it says.
\<close>

definition matcher_ok :: "string list \<Rightarrow> matcher \<Rightarrow> bool" where
  "matcher_ok pats ac \<longleftrightarrow>
     (\<forall>v \<in> set pats. v \<noteq> [] \<and> length v \<le> fst ac)
     \<and> (\<forall>body. distinct (snd ac body) \<and> sorted (map (\<lambda>x. fst (snd x)) (snd ac body)) \<and> set (snd ac body) = Collect (is_match pats body))"

lemma matcher_arrival:
  assumes "matcher_ok pats ac" and "length body + 3 \<le> USIZE_MAX" and "distinct pats"
  shows "arrival b (fst ac) (snd ac body)"
proof -
  have m: "is_match pats body x" if "x \<in> set (snd ac body)" for x using assms(1) that unfolding matcher_ok_def by auto
  have "inj_on (\<lambda>x. (fst x, fst (snd x))) (set (snd ac body))"
  proof (rule inj_onI)
    fix x y assume xy: "x \<in> set (snd ac body)" "y \<in> set (snd ac body)" "(fst x, fst (snd x)) = (fst y, fst (snd y))"
    with m [OF xy(1)] m [OF xy(2)] show "x = y"
      using assms(3) by (cases x; cases y) (auto simp: is_match_def distinct_conv_nth)
  qed
  moreover have "nonempty x \<and> fst (snd x) \<le> fst x + fst ac \<and> p_end b (fst (snd x)) \<le> USIZE_MAX" if "x \<in> set (snd ac body)" for x
  proof -
    obtain a e p where x: "x = (a, e, p)" by (cases x)
    have "p < length pats" "a < e" "e \<le> length body" "slice a e body = pats ! p" using m [OF that] by (auto simp: x is_match_def)
    moreover from this have "e - a \<le> fst ac" using assms(1) unfolding matcher_ok_def by (metis length_slice nth_mem)
    moreover have "p_end b e \<le> e + 3" by (simp add: p_end_def)
    ultimately show ?thesis using assms(2) by (auto simp: x nonempty_def)
  qed
  ultimately show ?thesis using assms(1) by (auto simp: arrival_def matcher_ok_def distinct_map)
qed

text \<open>The reference: all matches are joined before any is replaced.\<close>

definition protect_at_once ::
  "ProtectEnv \<Rightarrow> matcher \<Rightarrow> bool \<Rightarrow> string \<Rightarrow> ProtectionState \<Rightarrow> (ProtectError, (string \<times> nat) \<times> ProtectionState) result" where
  "protect_at_once E ac img body s =
     r_bind (r_fold (protect_component E body) (components img (sort (snd ac body)))
         (\<lparr>base64 = img, outp = [], cursor = 0, replacements = 0\<rparr>, s)) (\<lambda>(pr, s).
       Inr ((outp pr @ drop (cursor pr) body, replacements pr), s))"

definition fresh_projection :: "bool \<Rightarrow> ProjectionBuffer" where
  "fresh_projection img = \<lparr>base64 = img, outp = [], cursor = 0, replacements = 0\<rparr>"

lemma projected_fresh: "projected body (fresh_projection img) s []"
  by (simp add: projected_def pieces_ok_def fresh_projection_def)

lemma all_components_ok:
  assumes "state_ok E pats s" and "matcher_ok pats ac"
  shows "case r_fold (protect_component E body) (components img (sort (snd ac body))) (fresh_projection img, s) of Inl e \<Rightarrow> e \<noteq> Panic
    | Inr (pr', s') \<Rightarrow> state_ok E pats s' \<and> extends s s'
        \<and> (\<exists>qs. projected body pr' s' qs \<and> (\<forall>x. is_match pats body x \<longrightarrow> covered qs (fst x) (fst (snd x))))"
proof -
  have "set (sort (snd ac body)) = Collect (is_match pats body)" using assms(2) by (simp add: matcher_ok_def)
  then show ?thesis
    using protect_fold_ok [OF assms(1) _ _ projected_fresh [of body img s], of "sort (snd ac body)"]
    by (cases "r_fold (protect_component E body) (components img (sort (snd ac body))) (fresh_projection img, s)")
      (auto simp: fresh_projection_def)
qed

text \<open>Nothing was replaced: what was put out and what was not reached are the text.\<close>

lemma shown_nothing: "\<forall>p \<in> set ps. \<not> is_hidden p \<Longrightarrow> shown_all s ps = originals ps"
proof (induction ps)
  case (Cons p ps)
  then show ?case by (cases p) auto
qed simp

lemma projected_nothing:
  assumes "projected body pr s ps" and "replacements pr = 0"
  shows "outp pr @ drop (cursor pr) body = body"
proof -
  have "\<forall>p \<in> set ps. \<not> is_hidden p" using assms by (auto simp: projected_def filter_empty_conv)
  then show ?thesis using assms(1) by (simp add: projected_def shown_nothing)
qed

lemma segment_at_once:
  assumes "state_ok E pats s" and "matcher_ok pats ac" and "length body + 3 \<le> USIZE_MAX"
  shows "protect_segment E ac img body s = Inl TooManyMatches \<or> protect_segment E ac img body s = protect_at_once E ac img body s"
proof -
  let ?pr = "fresh_projection img" and ?ms = "snd ac body"
  have "loop_ok img (fst ac) ?ms 0 True [] 0"
    using matcher_arrival [OF assms(2,3)] assms(1) by (auto simp: loop_ok_def state_ok_def)
  from segment_loop_all [OF this, of "(?pr, s)" E body]
  have "segment_loop E body (fst ac) ?ms 0 True [] 0 (?pr, s) = Inl TooManyMatches
    \<or> segment_loop E body (fst ac) ?ms 0 True [] 0 (?pr, s) = r_fold (protect_component E body) (components img (sort ?ms)) (?pr, s)"
    by (simp add: protect_all_def fresh_projection_def)
  moreover have "(if replacements pr = 0 then Inr ((body, 0), s') else Inr ((outp pr @ drop (cursor pr) body, replacements pr), s')) =
      (Inr ((outp pr @ drop (cursor pr) body, replacements pr), s') :: (ProtectError, (string \<times> nat) \<times> ProtectionState) result)"
    if "r_fold (protect_component E body) (components img (sort ?ms)) (?pr, s) = Inr (pr, s')" for pr s'
    using all_components_ok [OF assms(1,2), of body img] that projected_nothing by (cases "replacements pr = 0") fastforce+
  ultimately show ?thesis
    by (cases "r_fold (protect_component E body) (components img (sort ?ms)) (?pr, s)")
      (auto simp: protect_segment_def protect_at_once_def simp flip: fresh_projection_def)
qed

section \<open>Whole strings\<close>

definition made :: "string \<Rightarrow> string \<Rightarrow> nat \<Rightarrow> ProtectionState \<Rightarrow> piece list \<Rightarrow> bool" where
  "made body out n s ps \<longleftrightarrow>
     originals ps = body \<and> out = shown_all s ps \<and> n = length (filter is_hidden ps) \<and> pieces_ok s ps"

text \<open>What a call promises: it does not panic, and a result is made of pieces that cover the matches \<open>P\<close>.\<close>

definition protects ::
  "ProtectEnv \<Rightarrow> string list \<Rightarrow> string \<Rightarrow> ProtectionState \<Rightarrow> piece list \<Rightarrow> (pmatch \<Rightarrow> bool)
   \<Rightarrow> (ProtectError, (string \<times> nat) \<times> ProtectionState) result \<Rightarrow> bool" where
  "protects E pats body s ps P res \<longleftrightarrow>
     (case res of Inl e \<Rightarrow> e \<noteq> Panic
      | Inr ((out, n), s') \<Rightarrow> state_ok E pats s' \<and> extends s s'
          \<and> (\<exists>qs. made body out n s' (ps @ qs)
               \<and> (\<forall>x. is_match pats body x \<longrightarrow> P x \<longrightarrow> covered (ps @ qs) (fst x) (fst (snd x)))))"

lemma protectsE:
  assumes "protects E pats body s ps P res"
  obtains e where "res = Inl e" "e \<noteq> Panic"
  | out n s' qs where "res = Inr ((out, n), s')" "state_ok E pats s'" "extends s s'" "made body out n s' (ps @ qs)"
    "\<And>x. is_match pats body x \<Longrightarrow> P x \<Longrightarrow> covered (ps @ qs) (fst x) (fst (snd x))"
proof (cases res)
  case (Inl e)
  then show ?thesis using assms that(1) by (simp add: protects_def)
next
  case (Inr z)
  obtain out n s' where z: "z = ((out, n), s')" by (metis prod_cases3 prod.collapse)
  show ?thesis using assms [unfolded protects_def Inr z sum.case prod.case] that(2) Inr z by blast
qed

lemma protectsI:
  assumes "state_ok E pats s'" and "extends s s'" and "made body out n s' (ps @ qs)"
    and "\<And>x. is_match pats body x \<Longrightarrow> P x \<Longrightarrow> covered (ps @ qs) (fst x) (fst (snd x))"
  shows "protects E pats body s ps P (Inr ((out, n), s'))"
  unfolding protects_def sum.case prod.case using assms by blast

lemma protects_Inl: "protects E pats body s ps P (Inl e) \<longleftrightarrow> e \<noteq> Panic"
  by (simp add: protects_def)

lemma segment_ok:
  assumes "state_ok E pats s" and "matcher_ok pats ac" and "length body + 3 \<le> USIZE_MAX"
  shows "protects E pats body s [] (\<lambda>_. True) (protect_segment E ac img body s)"
proof -
  have at_once: "protects E pats body s [] (\<lambda>_. True) (protect_at_once E ac img body s)"
  proof (cases "r_fold (protect_component E body) (components img (sort (snd ac body))) (fresh_projection img, s)")
    case (Inl e)
    then show ?thesis using all_components_ok [OF assms(1,2), of body img]
      by (simp add: protect_at_once_def protects_Inl flip: fresh_projection_def)
  next
    case (Inr z)
    obtain pr s' where z: "z = (pr, s')" by (cases z)
    from all_components_ok [OF assms(1,2), of body img, unfolded Inr z sum.case prod.case] obtain qs where
      q: "state_ok E pats s'" "extends s s'" "projected body pr s' qs" "\<forall>x. is_match pats body x \<longrightarrow> covered qs (fst x) (fst (snd x))"
      by blast
    have "made body (outp pr @ drop (cursor pr) body) (replacements pr) s' ([] @ (qs @ [Kept (drop (cursor pr) body)]))"
      using q(3) by (auto simp: made_def projected_def pieces_ok_def)
    moreover have "protect_at_once E ac img body s = Inr ((outp pr @ drop (cursor pr) body, replacements pr), s')"
      using Inr z by (simp add: protect_at_once_def flip: fresh_projection_def)
    moreover have "covered ([] @ (qs @ [Kept (drop (cursor pr) body)])) (fst x) (fst (snd x))" if "is_match pats body x" for x
      unfolding append_Nil using q(4) that by (intro pieces_covered_append) blast
    ultimately show ?thesis using q(1,2) protectsI by presburger
  qed
  from segment_at_once [OF assms, of img] show ?thesis
    by (rule disjE) (simp_all add: protects_Inl at_once)
qed

lemma is_match_slice:
  assumes "is_match pats body (a, e, p)" and "u \<le> a" and "e \<le> v"
  shows "is_match pats (slice u v body) (a - u, e - u, p)"
  using assms by (auto simp: is_match_def slice_def drop_take min_def)

lemma made_append:
  assumes "made b1 o1 n1 s1 ps" and "extends s1 s2" and "made b2 o2 n2 s2 qs"
  shows "made (b1 @ b2) (o1 @ o2) (n1 + n2) s2 (ps @ qs)"
proof -
  have ps: "shown_all s2 ps = shown_all s1 ps" "pieces_ok s2 ps"
    using shown_extends [OF assms(2)] assms(1) by (auto simp: made_def)
  then have "pieces_ok s2 (ps @ qs)" using assms(3) by (auto simp: made_def pieces_ok_def)
  then show ?thesis using assms ps(1) by (simp add: made_def)
qed

lemma made_opaque: "made t t 0 s [Opaque t]"
  by (simp add: made_def pieces_ok_def)

definition apart :: "(nat \<times> nat) list \<Rightarrow> pmatch \<Rightarrow> bool" where
  "apart rs x \<longleftrightarrow> (\<forall>(u, v) \<in> set rs. v \<le> fst x \<or> fst (snd x) \<le> u)"

definition regions_ok :: "nat \<Rightarrow> (nat \<times> nat) list \<Rightarrow> bool" where
  "regions_ok n rs \<longleftrightarrow> sorted_wrt (\<lambda>x y. snd x \<le> fst y) rs \<and> (\<forall>(a, e) \<in> set rs. a \<le> e \<and> e \<le> n)"

text \<open>The gap between two regions.\<close>

lemma gap_ok:
  assumes "state_ok E pats s" and "matcher_ok pats ac" and "length body + 3 \<le> USIZE_MAX" and "a \<le> length body"
    and "made (take cur body) out n s ps" and "cur \<le> a"
  shows "case (if a > cur then protect_segment E ac img (slice cur a body) s else Inr (([], 0), s)) of Inl e \<Rightarrow> e \<noteq> Panic
    | Inr ((part, k), s') \<Rightarrow> state_ok E pats s' \<and> extends s s'
        \<and> (\<exists>qs. made (take a body) (out @ part) (n + k) s' (ps @ qs)
             \<and> (\<forall>x. is_match pats body x \<longrightarrow> cur \<le> fst x \<longrightarrow> fst (snd x) \<le> a \<longrightarrow> covered (ps @ qs) (fst x) (fst (snd x))))"
proof (cases "a > cur")
  case True
  have len: "length (originals ps) = cur" using assms(4,5) True by (simp add: made_def)
  have l: "length (slice cur a body) + 3 \<le> USIZE_MAX" using assms(3,4) by simp
  from segment_ok [OF assms(1,2) l, of img] show ?thesis
  proof (cases rule: protectsE)
    case (1 e)
    then show ?thesis using True by simp
  next
    case (2 part k s' qs)
    have "made (take a body) (out @ part) (n + k) s' (ps @ qs)"
      using made_append [OF assms(5) 2(3) 2(4) [unfolded append_Nil]] True by (simp add: take_slice)
    moreover have "covered (ps @ qs) (fst x) (fst (snd x))" if x: "is_match pats body x" "cur \<le> fst x" "fst (snd x) \<le> a" for x
    proof -
      obtain b f p where xx: "x = (b, f, p)" by (cases x)
      have "covered qs (b - cur) (f - cur)" using is_match_slice [of pats body b f p cur a] 2(5) x xx by fastforce
      then show ?thesis using x(2) xx by (subst covered_skip) (simp_all add: len)
    qed
    ultimately show ?thesis using 2(1-3) True by auto
  qed
next
  case False
  with assms(6) have "a = cur" by simp
  with assms(1,5) show ?thesis by (auto simp: is_match_def intro!: exI [of _ "[]"])
qed

lemma gapE:
  assumes "state_ok E pats s" and "matcher_ok pats ac" and "length body + 3 \<le> USIZE_MAX" and "a \<le> length body"
    and "made (take cur body) out n s ps" and "cur \<le> a"
  obtains e where "(if a > cur then protect_segment E ac img (slice cur a body) s else Inr (([], 0), s)) = Inl e" "e \<noteq> Panic"
  | part k s' qs where "(if a > cur then protect_segment E ac img (slice cur a body) s else Inr (([], 0), s)) = Inr ((part, k), s')"
    "state_ok E pats s'" "extends s s'" "made (take a body) (out @ part) (n + k) s' (ps @ qs)"
    "\<And>x. is_match pats body x \<Longrightarrow> cur \<le> fst x \<Longrightarrow> fst (snd x) \<le> a \<Longrightarrow> covered (ps @ qs) (fst x) (fst (snd x))"
proof (cases "if a > cur then protect_segment E ac img (slice cur a body) s else Inr (([], 0), s)")
  case (Inl e)
  then show ?thesis using gap_ok [OF assms, of img] that(1) by simp
next
  case (Inr z)
  obtain part k s' where z: "z = ((part, k), s')" by (metis prod_cases3 prod.collapse)
  show ?thesis using gap_ok [OF assms, of img, unfolded Inr z sum.case prod.case] that(2) Inr z by blast
qed

lemma between_loop_ok:
  assumes "state_ok E pats s" and "matcher_ok pats ac" and "length body + 3 \<le> USIZE_MAX"
    and "regions_ok (length body) rs" and "\<forall>r \<in> set rs. cur \<le> fst r" and "cur \<le> length body"
    and "made (take cur body) out n s ps"
  shows "protects E pats body s ps (\<lambda>x. cur \<le> fst x \<and> apart rs x) (between_loop E ac img body rs cur out n s)"
  using assms(1,4-)
proof (induction rs arbitrary: cur out n s ps)
  case Nil
  have sl: "slice cur (length body) body = drop cur body" by (simp add: slice_def)
  from gapE [OF Nil(1) assms(2,3) order.refl Nil(5) Nil(4), of img] show ?case
  proof cases
    case (1 e)
    then show ?thesis by (cases "cur < length body") (auto simp: protects_Inl sl)
  next
    case (2 part k s' qs)
    have "between_loop E ac img body [] cur out n s = Inr ((out @ part, n + k), s')"
      using 2(1) by (cases "cur < length body") (auto simp: sl)
    moreover have "covered (ps @ qs) (fst x) (fst (snd x))" if "is_match pats body x" "cur \<le> fst x \<and> apart [] x" for x
      using 2(5) that by (cases x) (auto simp: is_match_def)
    ultimately show ?thesis using 2(2-4) by (simp add: protectsI)
  qed
next
  case (Cons r rs)
  obtain a e where r: "r = (a, e)" by (cases r)
  have ae: "cur \<le> a" "a \<le> e" "e \<le> length body" using Cons.prems(2,3) by (auto simp: r regions_ok_def)
  have rs: "regions_ok (length body) rs" "\<forall>r \<in> set rs. e \<le> fst r" using Cons.prems(2) by (auto simp: r regions_ok_def)
  have al: "a \<le> length body" using ae by simp
  from gapE [OF Cons.prems(1) assms(2,3) al Cons.prems(5) ae(1), of img] show ?case
  proof cases
    case (1 err)
    then show ?thesis by (simp add: r protects_Inl)
  next
    case (2 part k s' qs)
    let ?ps = "(ps @ qs) @ [Opaque (slice a e body)]" and ?out = "(out @ part) @ slice a e body"
    have m: "made (take e body) ?out (n + k) s' ?ps"
      using made_append [OF 2(4) extends_refl made_opaque [of "slice a e body" s']] ae(2) by (simp add: take_slice)
    have loop: "between_loop E ac img body (r # rs) cur out n s = between_loop E ac img body rs e ?out (n + k) s'"
      using 2(1) by (simp add: r)
    from Cons.IH [OF 2(2) rs ae(3) m] show ?thesis
    proof (cases rule: protectsE)
      case (1 err)
      then show ?thesis by (simp only: loop protects_Inl) simp
    next
      case later: (2 out' n' s2 qs')
      let ?qs = "qs @ [Opaque (slice a e body)] @ qs'"
      have cov: "covered (?ps @ qs') (fst x) (fst (snd x))" if x: "is_match pats body x" "cur \<le> fst x \<and> apart (r # rs) x" for x
      proof (cases "e \<le> fst x")
        case True
        then show ?thesis using later(5) x by (auto simp: apart_def)
      next
        case False
        then have "fst (snd x) \<le> a" using x(2) by (auto simp: apart_def r)
        then have "covered (ps @ qs) (fst x) (fst (snd x))" using 2(5) x by blast
        then have "covered ((ps @ qs) @ ([Opaque (slice a e body)] @ qs')) (fst x) (fst (snd x))" by (rule pieces_covered_append)
        then show ?thesis by simp
      qed
      have eq: "?ps @ qs' = ps @ ?qs" by simp
      have "protects E pats body s ps (\<lambda>x. cur \<le> fst x \<and> apart (r # rs) x) (Inr ((out', n'), s2))"
        by (rule protectsI [OF later(2) extends_trans [OF 2(3) later(3)] later(4) [unfolded eq]]) (rule cov [unfolded eq])
      then show ?thesis by (simp only: loop later(1))
    qed
  qed
qed

lemma fuse_step_ok:
  assumes "regions_ok n acc" and "a \<le> e" and "e \<le> n"
  shows "regions_ok n (fuse_step acc (a, e))"
    and "fst x < fst (snd x) \<Longrightarrow> apart acc x \<Longrightarrow> apart [(a, e)] x \<Longrightarrow> apart (fuse_step acc (a, e)) x"
proof -
  have "regions_ok n (fuse_step acc (a, e)) \<and> (fst x < fst (snd x) \<longrightarrow> apart acc x \<longrightarrow> apart [(a, e)] x \<longrightarrow> apart (fuse_step acc (a, e)) x)"
  proof (cases acc rule: rev_cases)
    case Nil
    then show ?thesis using assms by (auto simp: regions_ok_def fuse_step_def apart_def)
  next
    case (snoc acc' r)
    obtain u v where r: "r = (u, v)" by (cases r)
    show ?thesis
    proof (cases "a \<le> v")
      case True
      then show ?thesis using assms snoc r by (auto simp: regions_ok_def fuse_step_def apart_def sorted_wrt_append)
    next
      case False
      then show ?thesis using assms snoc r by (fastforce simp: regions_ok_def fuse_step_def apart_def sorted_wrt_append)
    qed
  qed
  then show "regions_ok n (fuse_step acc (a, e))"
    and "fst x < fst (snd x) \<Longrightarrow> apart acc x \<Longrightarrow> apart [(a, e)] x \<Longrightarrow> apart (fuse_step acc (a, e)) x" by blast+
qed

lemma fuse_fold_ok:
  assumes "regions_ok n acc" and "\<forall>(a, e) \<in> set rs. a \<le> e \<and> e \<le> n"
  shows "regions_ok n (foldl fuse_step acc rs)
    \<and> (fst x < fst (snd x) \<longrightarrow> apart acc x \<longrightarrow> apart rs x \<longrightarrow> apart (foldl fuse_step acc rs) x)"
  using assms
proof (induction rs arbitrary: acc)
  case (Cons r rs)
  obtain a e where r: "r = (a, e)" by (cases r)
  have ae: "a \<le> e" "e \<le> n" and rs: "\<forall>(a, e) \<in> set rs. a \<le> e \<and> e \<le> n" using Cons.prems(2) by (auto simp: r)
  have "apart (r # rs) x \<longleftrightarrow> apart [(a, e)] x \<and> apart rs x" by (simp add: apart_def r)
  with Cons.IH [OF fuse_step_ok(1) [OF Cons.prems(1) ae] rs] fuse_step_ok(2) [OF Cons.prems(1) ae, of x] show ?case
    unfolding r foldl.simps by blast
qed simp

lemma protect_between_ok:
  assumes "state_ok E pats s" and "matcher_ok pats ac" and "length body + 3 \<le> USIZE_MAX" and "regions_ok (length body) rs"
  shows "protects E pats body s [] (apart rs) (protect_between E ac img body rs s)"
proof -
  have m: "made (take 0 body) [] 0 s []" by (simp add: made_def pieces_ok_def)
  have "protects E pats body s [] (\<lambda>x. 0 \<le> fst x \<and> apart rs x) (between_loop E ac img body rs 0 [] 0 s)"
    by (rule between_loop_ok [OF assms _ _ m]) simp_all
  then show ?thesis
  proof (cases rule: protectsE)
    case (1 e)
    then show ?thesis by (simp add: protect_between_def protects_Inl)
  next
    case (2 out n s' qs)
    then show ?thesis by (simp add: protect_between_def protects_Inl protectsI ensure_def)
  qed
qed

text \<open>Every occurrence of every pattern that touches no opaque region.\<close>

lemma string_protected:
  assumes "state_ok E pats s" and "matcher_ok pats ac" and "length body + 3 \<le> USIZE_MAX"
    and "regions_ok (length body) tokens" and "\<forall>(a, e) \<in> set oversized. a \<le> e \<and> e \<le> length body"
  shows "case protect_string_in E (Some ac) img body tokens oversized s of
      Inl e \<Rightarrow> e \<noteq> Panic
    | Inr ((out, n), s') \<Rightarrow>
        \<exists>ps. originals ps = body \<and> out = shown_all s' ps \<and> n = length (filter is_hidden ps)
          \<and> (\<forall>t i. Hidden t i \<in> set ps \<longrightarrow> (i, t) \<in> vals s' \<and> length t \<le> 64 * 1024)
          \<and> (\<forall>t. Intact t \<in> set ps \<longrightarrow> length t > 64 * 1024)
          \<and> (\<forall>a e p. is_match pats body (a, e, p) \<longrightarrow> (\<forall>(u, v) \<in> set (tokens @ oversized). v \<le> a \<or> e \<le> u) \<longrightarrow> covered ps a e)"
proof -
  let ?s = "s\<lparr>intact_hits := intact_hits s + length oversized\<rparr>"
  let ?rs = "if oversized = [] then tokens else fuse (sort (tokens @ oversized))"
  have set: "\<forall>(a, e) \<in> set (sort (tokens @ oversized)). a \<le> e \<and> e \<le> length body"
    using assms(4,5) by (auto simp: regions_ok_def)
  have "regions_ok (length body) []" by (simp add: regions_ok_def)
  note fz = fuse_fold_ok [OF this set]
  have rs: "regions_ok (length body) ?rs" using assms(4) fz by (simp add: fuse_def)
  have away: "apart ?rs (a, e, p)" if "a < e" "\<forall>(u, v) \<in> set (tokens @ oversized). v \<le> a \<or> e \<le> u" for a e p
    using that fz [of "(a, e, p)"] by (auto simp: fuse_def apart_def)
  have "state_ok E pats ?s" using assms(1) by simp
  note pb = protect_between_ok [OF this assms(2,3) rs, of img]
  have "protect_string_in E (Some ac) img body tokens oversized s = protect_between E ac img body ?rs ?s"
    by (simp add: protect_string_in_def Let_def)
  with pb have "protects E pats body ?s [] (apart ?rs) (protect_string_in E (Some ac) img body tokens oversized s)"
    by (simp only:)
  then show ?thesis
  proof (cases rule: protectsE)
    case (2 out n s' qs)
    have "covered qs a e" if "is_match pats body (a, e, p)" "\<forall>(u, v) \<in> set (tokens @ oversized). v \<le> a \<or> e \<le> u" for a e p
      using 2(5) [OF that(1) away] that by (simp add: is_match_def)
    with 2(1,4) show ?thesis
      by (auto simp: made_def pieces_ok_def MAX_REPOSITORY_SECRET_BYTES_def intro!: exI [of _ qs])
  qed simp
qed

text \<open>
  C13. Matches are kept back only until no later match can reach them, in batches; the result is the one of
  joining all matches of the text before replacing any, or the refusal when too many are kept back.
\<close>

theorem batches_change_nothing:
  assumes "state_ok E pats s" and "matcher_ok pats ac" and "length body + 3 \<le> USIZE_MAX"
  shows "protect_segment E ac img body s = Inl TooManyMatches \<or> protect_segment E ac img body s = protect_at_once E ac img body s"
  by (rule segment_at_once [OF assms])

section \<open>A matcher that can be computed\<close>

definition occurrences_at :: "string list \<Rightarrow> string \<Rightarrow> nat \<Rightarrow> pmatch list" where
  "occurrences_at pats body e =
     map (\<lambda>p. (e - length (pats ! p), e, p)) (filter (\<lambda>p. length (pats ! p) \<le> e \<and> slice (e - length (pats ! p)) e body = pats ! p) [0..<length pats])"

definition search_all :: "string list \<Rightarrow> matcher" where
  "search_all pats =
     (foldr max (map length pats) 0, \<lambda>body. concat (map (occurrences_at pats body) [1..<length body + 1]))"

lemma occurrences_at_iff:
  assumes "[] \<notin> set pats" and "e \<le> length body"
  shows "x \<in> set (occurrences_at pats body e) \<longleftrightarrow> is_match pats body x \<and> fst (snd x) = e"
proof -
  obtain a f p where x: "x = (a, f, p)" by (cases x)
  have "x \<in> set (occurrences_at pats body e) \<longleftrightarrow>
      p < length pats \<and> f = e \<and> length (pats ! p) \<le> e \<and> a = e - length (pats ! p) \<and> slice a e body = pats ! p"
    by (auto simp: x occurrences_at_def)
  moreover have "length (pats ! p) \<le> e \<and> a = e - length (pats ! p) \<longleftrightarrow> a < e" if "p < length pats" "slice a e body = pats ! p"
    using assms(1) nth_mem [OF that(1)] that(2) length_slice [OF assms(2), of a] by (cases "pats ! p") auto
  ultimately show ?thesis using assms(2) by (auto simp: x is_match_def)
qed

lemma foldr_max_ge: "n \<in> set ns \<Longrightarrow> n \<le> foldr max ns (0 :: nat)"
  by (induction ns) auto

lemma occurrences_at_end: "map (\<lambda>x. fst (snd x)) (occurrences_at pats body e) = replicate (length (occurrences_at pats body e)) e"
  by (simp add: occurrences_at_def comp_def map_replicate_const)

lemma search_sorted:
  "sorted (map (\<lambda>x. fst (snd x)) (concat (map (occurrences_at pats body) [a..<b])))
   \<and> distinct (concat (map (occurrences_at pats body) [a..<b]))
   \<and> (\<forall>x \<in> set (concat (map (occurrences_at pats body) [a..<b])). fst (snd x) < b)"
proof (induction b)
  case (Suc b)
  have "fst (snd x) = b" if "x \<in> set (occurrences_at pats body b)" for x
    using that by (auto simp: occurrences_at_def)
  note e = this
  have d: "distinct (occurrences_at pats body b)" by (auto simp: occurrences_at_def distinct_map inj_on_def)
  show ?case
  proof (cases "a \<le> b")
    case True
    define xs where "xs = concat (map (occurrences_at pats body) [a..<b])"
    have eq: "concat (map (occurrences_at pats body) [a..<Suc b]) = xs @ occurrences_at pats body b" using True by (simp add: xs_def)
    have IH: "sorted (map (\<lambda>x. fst (snd x)) xs)" "distinct xs" "\<forall>x \<in> set xs. fst (snd x) < b" using Suc by (simp_all add: xs_def)
    have "sorted (map (\<lambda>x. fst (snd x)) (xs @ occurrences_at pats body b))"
      using IH(1,3) by (auto simp: sorted_append occurrences_at_end)
    moreover have "distinct (xs @ occurrences_at pats body b)" using IH(2,3) d e by fastforce
    moreover have "\<forall>x \<in> set (xs @ occurrences_at pats body b). fst (snd x) < Suc b" using IH(3) e by fastforce
    ultimately show ?thesis unfolding eq by blast
  qed simp
qed simp

lemma search_all_ok:
  assumes "[] \<notin> set pats"
  shows "matcher_ok pats (search_all pats)"
proof -
  have "set (snd (search_all pats) body) = Collect (is_match pats body)" for body
  proof -
    have "x \<in> set (snd (search_all pats) body) \<longleftrightarrow> is_match pats body x" for x
    proof -
      have "x \<in> set (snd (search_all pats) body) \<longleftrightarrow> (\<exists>e \<in> {1..<length body + 1}. x \<in> set (occurrences_at pats body e))"
        by (auto simp: search_all_def)
      also have "\<dots> \<longleftrightarrow> (\<exists>e \<in> {1..<length body + 1}. is_match pats body x \<and> fst (snd x) = e)"
        using occurrences_at_iff [OF assms] by (metis atLeastLessThan_iff less_Suc_eq_le Suc_eq_plus1)
      also have "\<dots> \<longleftrightarrow> is_match pats body x" by (cases x) (auto simp: is_match_def)
      finally show ?thesis .
    qed
    then show ?thesis by blast
  qed
  moreover have "v \<noteq> [] \<and> length v \<le> fst (search_all pats)" if "v \<in> set pats" for v
    using assms that foldr_max_ge [of "length v" "map length pats"] by (auto simp: search_all_def)
  moreover have "distinct (snd (search_all pats) body)" "sorted (map (\<lambda>x. fst (snd x)) (snd (search_all pats) body))" for body
    using search_sorted [of pats body 1 "length body + 1"] by (simp_all add: search_all_def)
  ultimately show ?thesis by (simp add: matcher_ok_def)
qed

definition sample_protect_env :: ProtectEnv where
  "sample_protect_env = \<lparr>new_id = (\<lambda>n. replicate n CHR ''1''), new_vault = Some ''v'', seal = (\<lambda>_. True), valid_image = (\<lambda>_. True)\<rparr>"

definition sample_protection :: ProtectionState where
  "sample_protection =
     \<lparr>records = [\<lparr>rid = ''sec_a'', secret = ''ab'', origins = [Explicit], explicit_block = True\<rparr>],
      sources = [\<lparr>record_id = Some ''sec_a'', from_global = False, from_heuristic = False\<rparr>,
                 \<lparr>record_id = None, from_global = True, from_heuristic = False\<rparr>],
      unlocked = Some ''v'', dirty = False, created = False, new_records = 0, new_heuristic_records = 0, intact_hits = 0,
      view_only = False, transient_ids = {}, next_id = 0\<rparr>"

lemma sample_protection_ok: "state_ok sample_protect_env [''ab'', ''bc''] sample_protection"
proof -
  have "inj (\<lambda>n. replicate n CHR ''1'')" by (rule injI) (metis length_replicate)
  then show ?thesis
    by (auto simp: state_ok_def sample_protect_env_def sample_protection_def vals_def nth_Cons' )
qed

theorem batches_change_nothing_witness:
  "protect_segment sample_protect_env (search_all [''ab'', ''bc'']) False ''xabcz ab'' sample_protection
     = protect_at_once sample_protect_env (search_all [''ab'', ''bc'']) False ''xabcz ab'' sample_protection"
proof -
  have m: "matcher_ok [''ab'', ''bc''] (search_all [''ab'', ''bc''])" by (rule search_all_ok) simp_all
  have "is_ok (protect_segment sample_protect_env (search_all [''ab'', ''bc'']) False ''xabcz ab'' sample_protection)" by code_simp
  with batches_change_nothing [OF sample_protection_ok m, of "''xabcz ab''" False] show ?thesis
    by (auto simp: USIZE_MAX_def)
qed

section \<open>From the dictionary to the text\<close>

definition spec_values :: "PatternSpec list \<Rightarrow> string set" where
  "spec_values sps = sp_secret ` {sp \<in> set sps. sp_active sp}"

definition specs_ok :: "DecryptedRecord list \<Rightarrow> PatternSpec list \<Rightarrow> bool" where
  "specs_ok rs sps \<longleftrightarrow>
     distinct (map sp_secret sps)
     \<and> (\<forall>sp \<in> set sps. \<forall>i. sp_record_id sp = Some i \<longrightarrow> (\<exists>r \<in> set rs. rid r = i \<and> secret r = sp_secret sp))"

lemma touch_secrets:
  assumes "\<And>sp. sp_secret (change sp) = sp_secret sp" and "sp_secret new = v"
  shows "map sp_secret (touch v change new sps) = (if v \<in> sp_secret ` set sps then map sp_secret sps else map sp_secret sps @ [v])"
  using assms by (induction sps) auto

lemma touch_ok:
  assumes "specs_ok rs sps" and "\<And>sp. sp_secret (change sp) = sp_secret sp" and "\<And>sp. sp_record_id (change sp) = sp_record_id sp"
    and "\<And>sp. sp_active (change sp)" and "sp_secret new = v" and "sp_record_id new = None" and "sp_active new"
  shows "specs_ok rs (touch v change new sps)" and "spec_values (touch v change new sps) = insert v (spec_values sps)"
proof -
  have "\<forall>sp \<in> set (touch v change new sps). sp = new \<or> sp \<in> set sps \<or> (\<exists>x \<in> set sps. sp = change x)"
    by (induction sps) auto
  then have "\<forall>sp \<in> set (touch v change new sps). \<forall>i. sp_record_id sp = Some i \<longrightarrow> (\<exists>r \<in> set rs. rid r = i \<and> secret r = sp_secret sp)"
    using assms(1-3,6) unfolding specs_ok_def by fastforce
  moreover have "distinct (map sp_secret (touch v change new sps))"
    using assms(1) by (auto simp: touch_secrets [OF assms(2,5)] specs_ok_def)
  ultimately show "specs_ok rs (touch v change new sps)" by (simp add: specs_ok_def)
  show "spec_values (touch v change new sps) = insert v (spec_values sps)"
    using assms(2,4,5,7)
  proof (induction sps)
    case Nil
    then show ?case by (auto simp: spec_values_def)
  next
    case (Cons sp sps)
    have c: "spec_values (x # xs) = (if sp_active x then insert (sp_secret x) (spec_values xs) else spec_values xs)" for x xs
      by (auto simp: spec_values_def)
    show ?case using Cons.IH [OF Cons.prems] Cons.prems by (auto simp: c)
  qed
qed

lemma add_ok:
  assumes "specs_ok rs sps"
  shows "specs_ok rs (add_global sps v)" "spec_values (add_global sps v) = insert v (spec_values sps)"
    "specs_ok rs (add_candidate sps v)" "spec_values (add_candidate sps v) = insert v (spec_values sps)"
  unfolding add_global_def add_candidate_def by (simp_all add: touch_ok [OF assms])

lemma fold_add_ok:
  assumes "specs_ok rs sps" and "f = add_global \<or> f = add_candidate"
  shows "specs_ok rs (foldl f sps vs) \<and> spec_values (foldl f sps vs) = spec_values sps \<union> set vs"
  using assms(1)
proof (induction vs arbitrary: sps)
  case (Cons v vs)
  have "specs_ok rs (f sps v)" "spec_values (f sps v) = insert v (spec_values sps)" using assms(2) add_ok [OF Cons.prems] by auto
  with Cons.IH show ?case by simp
qed simp

definition protected_values ::
  "(string \<Rightarrow> bool) \<Rightarrow> (string \<Rightarrow> bool) \<Rightarrow> (DecryptedRecord \<Rightarrow> bool) \<Rightarrow> DecryptedRecord list \<Rightarrow> string list \<Rightarrow> string list \<Rightarrow> string set" where
  "protected_values may allow active rs global candidates =
     {v \<in> secret ` {r \<in> set rs. active r} \<union> set global \<union> set candidates. may v \<and> \<not> allow v}"

lemma pattern_specs_ok:
  assumes "distinct (map secret rs)" and sps_def: "sps = pattern_specs may allow active rs global candidates"
  shows "specs_ok rs sps" and "sp_secret ` set sps = protected_values may allow active rs global candidates"
proof -
  let ?r = "record_specs may active rs" and ?ok = "\<lambda>v. may v \<and> \<not> allow v"
  have r: "specs_ok rs ?r" using assms(1) by (auto simp: specs_ok_def record_specs_def comp_def distinct_map inj_on_def)
  note g = fold_add_ok [OF r, of add_global global]
  then have g: "specs_ok rs (foldl add_global ?r global)" "spec_values (foldl add_global ?r global) = spec_values ?r \<union> set global" by auto
  have c: "specs_ok rs (foldl add_candidate (foldl add_global ?r global) candidates)"
    "spec_values (foldl add_candidate (foldl add_global ?r global) candidates) = spec_values ?r \<union> set global \<union> set candidates"
    using fold_add_ok [OF g(1), of add_candidate candidates] g(2) by auto
  then show "specs_ok rs sps" by (auto simp: specs_ok_def sps_def pattern_specs_def distinct_map intro: inj_on_subset)
  have "sp_secret ` set sps = {v \<in> spec_values (foldl add_candidate (foldl add_global ?r global) candidates). ?ok v}"
    by (auto simp: sps_def pattern_specs_def spec_values_def)
  also have "\<dots> = {v \<in> secret ` {r \<in> set rs. active r \<and> may (secret r)} \<union> set global \<union> set candidates. ?ok v}"
    unfolding c(2) by (auto simp: spec_values_def record_specs_def image_iff)
  also have "\<dots> = protected_values may allow active rs global candidates" by (auto simp: protected_values_def)
  finally show "sp_secret ` set sps = protected_values may allow active rs global candidates" .
qed

lemma from_records_ok:
  assumes "specs_ok rs sps" and "inj (new_id E)" and "view \<longrightarrow> range (new_id E) \<inter> rid ` set rs = {}" and "rs = [] \<or> vault \<noteq> None"
  shows "state_ok E (map sp_secret sps) (from_records sps vault rs view)"
proof -
  have v: "vals (from_records sps vault rs view) = (\<lambda>r. (rid r, secret r)) ` set rs" by (simp add: vals_def from_records_def)
  have "(i, map sp_secret sps ! p) \<in> (\<lambda>r. (rid r, secret r)) ` set rs"
    if "p < length sps" "record_id (map spec_source sps ! p) = Some i" for p i
    using assms(1) nth_mem [OF that(1)] that by (force simp: specs_ok_def spec_source_def)
  moreover have "new_id E n \<notin> rid ` set rs" if "view" for n using assms(3) that by blast
  ultimately show ?thesis
    using assms(1,2,4) unfolding state_ok_def v image_image fst_conv by (auto simp: from_records_def specs_ok_def)
qed


definition sample_records :: "DecryptedRecord list" where
  "sample_records = [\<lparr>rid = ''sec_a'', secret = ''ab'', origins = [Explicit], explicit_block = True\<rparr>]"

definition sample_specs :: "PatternSpec list" where
  "sample_specs = pattern_specs (\<lambda>_. True) (\<lambda>_. False) (\<lambda>_. True) sample_records [''bc''] [''ab'']"


end
