(* ===== verification/Spec2Isabelle.thy ===== *)
theory Spec2Isabelle
  imports Refs RefChain Resolve Turns Journal Lease Ticket PeerAccess CloudResources CloudAccess
    HubAuthority SessionPrivacy SessionGrants Utf8 PathPolicy NameFold AliasScan CommandPolicy ApprovalSafety
    Tail Lineage ArchiveJobs Roster Outbound Btree Recovery ClientStream Json Lines Claude Settlement Commits
    TurnIds NativeQueue Protection Redaction
begin

text \<open>
  A verification development of \<open>agit\<close>, version control for the sessions of coding agents. A session
  transcript is split into turns, settled as commits of a git repository, shared through a Hub,
  and driven remotely by a daemon (\<open>agitd\<close>) that follows the transcripts runtimes write, decides who
  may prompt a session and which tool calls the operator may allow.

  \<^bold>\<open>The parts and their theories.\<close> Paths are below the repository root; each theory's own opening text
  says more.

  Naming history:
  \<^item> \<open>Refs\<close>: the reference parser of \<open>src/domain/refs.rs\<close> (\<open>parse\<close>, \<open>split_repo\<close>, \<open>split_tail\<close>,
    \<open>parse_turn_selector\<close>, \<open>turn_no\<close>, \<open>validate_name\<close>). Printing and parsing round-trip, and every
    accepted string is characterised.
  \<^item> \<open>RefChain\<close>: \<open>Chain\<close> of the same file, the labels of commits and the runs that settle one turn. The
    one-pass grouping equals a reference definition.
  \<^item> \<open>Resolve\<close>: \<open>resolve\<close>, \<open>resolve_base\<close>, \<open>version_alias\<close>, over the answers of git.
  \<^item> \<open>Turns\<close>: \<open>src/domain/turn/mod.rs\<close>, splitting a session into turns and hashing them. The split is
    a partition, the hashed text is injective, appending keeps earlier hashes.
  \<^item> \<open>Claude\<close> over \<open>Json\<close> and \<open>Lines\<close>: \<open>src/adapter/claude_code.rs\<close>, how a transcript becomes the events
    \<open>Turns\<close> splits, which calls are open and where executions end. A prompt is the first event of its
    line, and no execution ends where a call has no output.
  \<^item> \<open>Settlement\<close> and \<open>Commits\<close>: the settlement engine of \<open>src/commands/commit.rs\<close> (\<open>turn_chunks\<close>,
    \<open>completed_turn_chunks\<close>, \<open>completion_boundaries\<close>, the selection in \<open>settle_bytes\<close>), from a parsed region to
    the chunks that become commits. The locale \<open>line_adapter\<close> is what it relies on of a parser, met by
    \<open>Claude\<close>: a running turn is never cut, no conversation is passed over, nothing is settled twice.
  \<^item> \<open>Lineage\<close>: \<open>src/rc/lineage.rs\<close>, where a session settles on this machine.

  The daemon's state:
  \<^item> \<open>Journal\<close>: \<open>src/rc/journal.rs\<close>, numbered event streams with a bounded ring for replay and a
    watermark file. Replays are measured against the complete history of a stream.
  \<^item> \<open>Lease\<close>: \<open>src/rc/lease.rs\<close>, one writer per conversation. An invariant of all reachable tables, and
    the evidence on which a terminal is told that it is current.
  \<^item> \<open>Ticket\<close>: \<open>src/rc/ticket.rs\<close>, \<open>authority.rs\<close>, \<open>turn_mode.rs\<close>, \<open>cloud/ingress.rs\<close>: the receipt cell
    shared by the executor and the caller, all interleavings.
  \<^item> \<open>Roster\<close>: \<open>src/rc/roster.rs\<close> and the ledger files of \<open>src/rc/mod.rs\<close>: which sessions ever ran without
    permission checks, launches by key, and saving under write errors and crashes.
  \<^item> \<open>Tail\<close> over \<open>Utf8\<close>: \<open>src/rc/tail.rs\<close>, following a transcript file line by line.
  \<^item> \<open>ArchiveJobs\<close>: \<open>src/rc/archive_jobs.rs\<close>, the durable queue of completed turns, with a crash between any
    two directory states.
  \<^item> \<open>NativeQueue\<close>: \<open>src/rc/native_queue.rs\<close>, \<open>enqueue\<close> and \<open>reconcile_queue\<close> of \<open>src/rc/harness/codex/queue.rs\<close>,
    labels and checks of \<open>src/rc/native_inbox.rs\<close>: messages queued to a runtime, as a step relation over the
    receipt files, the locks and any number of tasks. A message is submitted at most once, and a lost answer is
    recovered from the transcript exactly as a reading of its complete lines would.
  \<^item> \<open>TurnIds\<close>: \<open>BoundedTurnIds\<close> of \<open>src/rc/harness/mod.rs\<close>, the turn identities one harness generation keeps.

  What reaches a viewer:
  \<^item> \<open>Outbound\<close>: \<open>src/rc/outbound.rs\<close>, \<open>OrderedTail\<close> of \<open>src/rc/daemon/mod.rs\<close> and the branches of
    \<open>daemon/pump.rs\<close> that use them: the lane of the daemon, with the tail task and the writer as a step
    relation over a \<open>Journal\<close>. Every stream stays in order in every interleaving, what may not be lost is
    not, and without new input everything arrives.
  \<^item> \<open>Recovery\<close> and \<open>ClientStream\<close>: \<open>src/rc/endpoint/output.rs\<close>, \<open>output/recovery.rs\<close> and the subscription
    of \<open>daemon/dispatch.rs\<close>: the queues of one client and how a slow one catches up from the \<open>Journal\<close>.
    \<open>Recovery\<close> is the model and its runs, \<open>ClientStream\<close> the invariant and what a client may believe.

  Who may do what:
  \<^item> \<open>PeerAccess\<close>: \<open>crates/agit-peer/src/access.rs\<close>, policies of principals and resources.
  \<^item> \<open>CloudResources\<close>, \<open>CloudAccess\<close>: \<open>src/rc/cloud/resources.rs\<close> and \<open>access.rs\<close>, the executor's record of
    its resources and the admission of cloud requests. \<open>CloudAccess\<close> calls \<open>CloudResources\<close>, which
    calls \<open>PeerAccess\<close>.
  \<^item> \<open>HubAuthority\<close>, \<open>SessionPrivacy\<close>, \<open>SessionGrants\<close>: \<open>src/infra/hub_authority.rs\<close>,
    \<open>src/domain/session_privacy.rs\<close> and \<open>session_grants.rs\<close>: the identity of a Hub, the owners of
    sessions and the publication manifest, and read grants for originals.

  What leaves a text before it is settled:
  \<^item> \<open>Protection\<close> and \<open>Redaction\<close>: \<open>ProtectionState\<close> of \<open>src/domain/secret_filter/repository.rs\<close>, how the values of
    a dictionary are replaced by placeholders. \<open>Protection\<close> is the model and shows that keeping matches
    back in batches changes nothing; \<open>Redaction\<close> shows that every occurrence is replaced or counted and that
    what was replaced can be read back.

  Which tool calls the operator may allow (\<open>src/rc/policy.rs\<close>):
  \<^item> \<open>PathPolicy\<close>: where a path lands and whether that is inside the bound projects. The kernel's own
    walk over a tree of files is given beside it, and the resolver refines it.
  \<^item> \<open>NameFold\<close>: names that some file system may take for a control surface.
  \<^item> \<open>AliasScan\<close>: the reverse question, whether a control surface's name leads to the written file.
  \<^item> \<open>CommandPolicy\<close>: tool calls, globs and command lines.
  \<^item> \<open>ApprovalSafety\<close>: the composition, what an allowed call can open and write.

  \<open>Prelude\<close> holds what they share: results as sums (\<open>r_bind\<close> is the \<open>?\<close> operator), the string functions of
  the Rust standard library on UTF-8 bytes, association lists for maps. \<open>Btree\<close> is \<open>BTreeMap\<close>, maps in key
  order, for \<open>Roster\<close> and \<open>Recovery\<close>.

  \<^bold>\<open>Bounds.\<close> Machine integers are words of their width where the code can reach the bound (turn
  numbers, the 64-bit stream counter, revisions), and natural numbers where a length of stored data
  bounds them. The journal theorems ask for a counter below the maximum of 64 bits. Constants are the
  code's: 8192 frames in the ring, 2048 catalog entries, 40 link hops, the accounts of the path and
  alias checks, 256 brace alternatives, 4096 archive jobs, a scan window of 32 MiB, 2000
  frames on the event lane and in one replay, 256 events and 64 replies and backfills of a client,
  65536 turn identities, readings of 4 MiB in lines of 64 KiB, batches of 4096 and at most 65536 matches
  kept back, values of 64 KiB. Loops of the code
  that carry an account recurse on that account; the record walk of \<open>Lease\<close> runs one step more than it
  has records, which is what the code's visited set allows. No theorem is conditional on fuel.

  \<^bold>\<open>Parameters.\<close> What is not the program's own is an argument: git's answers, SHA-256 in hex, the JSON, uuid, URI
  and RFC 3339 parsers, the codec of receipts, the matcher of
  secrets and the scanners of placeholders, the other runtimes' adapters, the placeholder scanner, the runtime catalog, which processes live, what the
  file system answers, what the process may execute, whether a byte budget has room, and how a write to
  disk ends. The hypotheses about
  them are stated in the theorems that need them and are met by concrete functions in the
  witnesses.

  \<^bold>\<open>Not modelled.\<close> The command line front end and its output (of \<open>commit\<close>: reading and writing the
  repository, continuity and privacy of what is settled), the adapters of the runtimes other than Claude
  Code and the rendering of transcripts, the Hub client and transport, the terminal interface, telemetry, installation, the
  secret and privacy detectors (regular expressions and entropy tables over text), SQLite and LFS
  storage, and process supervision: they are input and output around the parts above, or
  libraries' behaviour. The Windows branches of the policy are left out.
\<close>

end
